(* ===== verification/Prelude.thy ===== *)
theory Prelude
  imports Main "HOL-Library.Word"
begin

text \<open>
  Shared vocabulary of the development: bytes and machine sizes, the exceptions of the C++ code as
  values of a sum type, raw reads from a byte range (\<open>memcpy\<close> out of a buffer), little-endian
  integers as \<open>memcpy\<close> of a machine integer stores them, the binary search of
  \<open>std::lower_bound\<close>, and the generic lemmas the components use.
\<close>

unbundle bit_operations_syntax

named_theorems byte_simps \<open>reading and writing of bytes and little-endian integers\<close>

type_synonym byte = "8 word"
type_synonym bytes = "byte list"

section \<open>Exceptions\<close>

text \<open>
  The exceptions the modelled code throws, one constructor per C++ class
  (\<open>std::invalid_argument\<close>, \<open>sharpen::DataCorruptionException\<close>, \<open>std::out_of_range\<close>,
  \<open>std::bad_cast\<close>, \<open>std::length_error\<close>, \<open>std::system_error\<close>). \<open>Undefined\<close> is not an exception: it is the
  value of a run whose behaviour C++ leaves undefined (a read outside a range, an oversized shift).
\<close>

datatype exn =
    Invalid_argument
  | Data_corruption
  | Out_of_range
  | Bad_cast
  | Length_error
  | System_error
  | Undefined

definition res_bind :: "'e + 'a \<Rightarrow> ('a \<Rightarrow> 'e + 'b) \<Rightarrow> 'e + 'b" where
  "res_bind r f = (case r of Inl e \<Rightarrow> Inl e | Inr x \<Rightarrow> f x)"

lemma res_bind_simps [simp]:
  "res_bind (Inl e) f = Inl e"
  "res_bind (Inr x) f = f x"
  by (simp_all add: res_bind_def)

lemma res_bind_eq_Inr: "res_bind r f = Inr y \<longleftrightarrow> (\<exists>x. r = Inr x \<and> f x = Inr y)"
  by (cases r) auto

section \<open>Machine sizes\<close>

text \<open>\<open>sharpen::Size\<close> and \<open>sharpen::Uint64\<close> have 64 bits; sums of untrusted sizes wrap.\<close>

definition add64 :: "nat \<Rightarrow> nat \<Rightarrow> nat" where
  "add64 a b = (a + b) mod 2 ^ 64"

lemma add64_small: "a + b < 2 ^ 64 \<Longrightarrow> add64 a b = a + b"
  by (simp add: add64_def)

text \<open>The difference of two \<open>Size\<close> values wraps below zero.\<close>

definition sub64 :: "nat \<Rightarrow> nat \<Rightarrow> nat" where
  "sub64 a b = (a + (2 ^ 64 - b mod 2 ^ 64)) mod 2 ^ 64"

lemma sub64_le: "b \<le> a \<Longrightarrow> a < 2 ^ 64 \<Longrightarrow> sub64 a b = a - b"
  unfolding sub64_def by (simp add: le_mod_geq)

lemma sub64_wrap: "a < b \<Longrightarrow> b < 2 ^ 64 \<Longrightarrow> sub64 a b = 2 ^ 64 - (b - a)"
  unfolding sub64_def by simp

text \<open>\<open>vector::resize\<close>: beyond \<open>max_size\<close> it throws \<open>length_error\<close>, new elements are zero.\<close>

definition vec_resize :: "nat \<Rightarrow> bytes \<Rightarrow> exn + bytes" where
  "vec_resize n v =
     (if n < 2 ^ 63 then Inr (take n v @ replicate (n - length v) 0) else Inl Length_error)"

lemma vec_resize_small: "n < 2 ^ 63 \<Longrightarrow> vec_resize n v = Inr (take n v @ replicate (n - length v) 0)"
  by (simp add: vec_resize_def)

lemma vec_resize_Nil: "n < 2 ^ 63 \<Longrightarrow> vec_resize n [] = Inr (replicate n 0)"
  by (simp add: vec_resize_def)

section \<open>Raw memory\<close>

text \<open>
  \<open>mem_read bs off n\<close> is \<open>memcpy(_, data + off, n)\<close> from the range \<open>[data, data + length bs)\<close>;
  outside the range it is undefined. \<open>mem_write\<close> is the converse: it overlays bytes in place.
\<close>

definition mem_read :: "bytes \<Rightarrow> nat \<Rightarrow> nat \<Rightarrow> exn + bytes" where
  "mem_read bs off n = (if off + n \<le> length bs then Inr (take n (drop off bs)) else Inl Undefined)"

definition mem_write :: "bytes \<Rightarrow> nat \<Rightarrow> bytes \<Rightarrow> exn + bytes" where
  "mem_write bs off w =
     (if off + length w \<le> length bs then Inr (take off bs @ w @ drop (off + length w) bs)
      else Inl Undefined)"

lemma mem_read_append [byte_simps]:
  "off = length pre \<Longrightarrow> n = length xs \<Longrightarrow> mem_read (pre @ xs @ post) off n = Inr xs"
  by (simp add: mem_read_def)

lemma mem_read_length: "mem_read bs off n = Inr xs \<Longrightarrow> length xs = n"
  by (auto simp: mem_read_def split: if_splits)

lemma mem_write_append [byte_simps]:
  "off = length pre \<Longrightarrow> length w = length xs \<Longrightarrow>
   mem_write (pre @ xs @ post) off w = Inr (pre @ w @ post)"
  by (simp add: mem_write_def)

text \<open>Machine integers in memory, least significant byte first (\<open>SHARPEN_IS_LIL_ENDIAN\<close>).\<close>

fun le_bytes :: "nat \<Rightarrow> nat \<Rightarrow> bytes" where
  "le_bytes 0 n = []"
| "le_bytes (Suc k) n = word_of_nat (n mod 256) # le_bytes k (n div 256)"

fun le_nat :: "bytes \<Rightarrow> nat" where
  "le_nat [] = 0"
| "le_nat (b # bs) = unat b + 256 * le_nat bs"

lemma length_le_bytes [simp, byte_simps]: "length (le_bytes k n) = k"
  by (induction k arbitrary: n) auto

lemma unat_byte_less: "unat (b :: byte) < 256"
  using unsigned_less [of b, where 'a = nat] by simp

lemma odd_div_128: "x < 256 \<Longrightarrow> odd (x div 128) \<longleftrightarrow> 128 \<le> (x :: nat)"
proof (cases "x < 128")
  case False
  moreover assume "x < 256"
  ultimately have "(x - 128) div 128 = 0" by simp
  with False show ?thesis by (simp add: le_div_geq)
qed simp

lemma byte_bit_7: "bit (b :: byte) 7 \<longleftrightarrow> 128 \<le> unat b"
proof -
  have "bit b 7 \<longleftrightarrow> bit (unat b) 7" by (simp add: bit_unsigned_iff)
  also have "\<dots> \<longleftrightarrow> odd (unat b div 128)" by (simp add: bit_iff_odd)
  also have "\<dots> \<longleftrightarrow> 128 \<le> unat b" by (rule odd_div_128 [OF unat_byte_less])
  finally show ?thesis .
qed

lemma unat_byte_of_nat [simp]: "unat (word_of_nat n :: byte) = n mod 256"
  by (simp add: unat_of_nat)

lemma le_nat_le_bytes [byte_simps]: "le_nat (le_bytes k n) = n mod 256 ^ k"
proof (induction k arbitrary: n)
  case 0
  then show ?case by simp
next
  case (Suc k)
  have "n mod 256 ^ Suc k = n mod 256 + 256 * (n div 256 mod 256 ^ k)"
    by (simp add: mod_mult2_eq)
  then show ?case by (simp add: Suc)
qed

lemma le_nat_le_bytes_small: "n < 256 ^ k \<Longrightarrow> le_nat (le_bytes k n) = n"
  by (simp add: le_nat_le_bytes)

lemma le_nat_bound: "le_nat bs < 256 ^ length bs"
proof (induction bs)
  case Nil
  then show ?case by simp
next
  case (Cons b bs)
  have "unat b < 256" by (rule unat_byte_less)
  moreover have "le_nat bs + 1 \<le> 256 ^ length bs" using Cons by simp
  ultimately have "unat b + 256 * le_nat bs < 256 * 256 ^ length bs"
    by linarith
  then show ?case by simp
qed

lemma le_bytes_le_nat: "length bs = k \<Longrightarrow> le_bytes k (le_nat bs) = bs"
proof (induction bs arbitrary: k)
  case Nil
  then show ?case by simp
next
  case (Cons b bs)
  have b: "unat b < 256" by (rule unat_byte_less)
  then have "(unat b + 256 * le_nat bs) div 256 = le_nat bs" by simp
  moreover have "(unat b + 256 * le_nat bs) mod 256 = unat b" using b by simp
  ultimately show ?case using Cons by (cases k) auto
qed

section \<open>std::lower_bound\<close>

text \<open>
  The halving loop of \<open>std::lower_bound\<close> over the index range that starts at \<open>first\<close> and has
  \<open>len\<close> elements; \<open>p\<close> is the comparison \<open>comp(element, key)\<close>.
\<close>

function lower_bound_from :: "('a \<Rightarrow> bool) \<Rightarrow> 'a list \<Rightarrow> nat \<Rightarrow> nat \<Rightarrow> nat" where
  "lower_bound_from p xs first len =
     (if len = 0 then first
      else let half = len div 2; mid = first + half in
        if p (xs ! mid) then lower_bound_from p xs (mid + 1) (len - half - 1)
        else lower_bound_from p xs first half)"
  by pat_completeness auto
termination
  by (relation "measure (\<lambda>(p, xs, first, len). len)") auto

declare lower_bound_from.simps [simp del]

definition lower_bound :: "('a \<Rightarrow> bool) \<Rightarrow> 'a list \<Rightarrow> nat" where
  "lower_bound p xs = lower_bound_from p xs 0 (length xs)"

lemma lower_bound_from_0: "lower_bound_from p xs first 0 = first"
  by (simp add: lower_bound_from.simps)

lemma lower_bound_from_right:
  "len \<noteq> 0 \<Longrightarrow> p (xs ! (first + len div 2)) \<Longrightarrow>
   lower_bound_from p xs first len =
     lower_bound_from p xs (first + len div 2 + 1) (len - len div 2 - 1)"
  by (simp add: lower_bound_from.simps [of p xs first len] Let_def)

lemma lower_bound_from_left:
  "len \<noteq> 0 \<Longrightarrow> \<not> p (xs ! (first + len div 2)) \<Longrightarrow>
   lower_bound_from p xs first len = lower_bound_from p xs first (len div 2)"
  by (simp add: lower_bound_from.simps [of p xs first len] Let_def)

lemma lower_bound_from_range:
  "first \<le> lower_bound_from p xs first len \<and> lower_bound_from p xs first len \<le> first + len"
proof (induction p xs first len rule: lower_bound_from.induct)
  case (1 p xs first len)
  consider (empty) "len = 0" | (right) "len \<noteq> 0" "p (xs ! (first + len div 2))"
    | (left) "len \<noteq> 0" "\<not> p (xs ! (first + len div 2))"
    by blast
  then show ?case
  proof cases
    case empty
    then show ?thesis by (simp add: lower_bound_from_0)
  next
    case right
    then show ?thesis
      using 1(1) [OF right(1) refl refl right(2)] by (auto simp: lower_bound_from_right)
  next
    case left
    then show ?thesis
      using 1(2) [OF left(1) refl refl left(2)] by (auto simp: lower_bound_from_left)
  qed
qed

lemma lower_bound_le [simp]: "lower_bound p xs \<le> length xs"
  using lower_bound_from_range [of 0 p xs "length xs"] by (simp add: lower_bound_def)

text \<open>A range is partitioned by \<open>p\<close> when every element of a \<open>p\<close>-prefix precedes the rest.\<close>

definition partitioned :: "('a \<Rightarrow> bool) \<Rightarrow> 'a list \<Rightarrow> bool" where
  "partitioned p xs \<longleftrightarrow> (\<forall>i j. i < j \<longrightarrow> j < length xs \<longrightarrow> p (xs ! j) \<longrightarrow> p (xs ! i))"

lemma partitioned_prefix:
  assumes "partitioned p xs" and "j < length xs" and "p (xs ! j)" and "i \<le> j"
  shows "p (xs ! i)"
  using assms unfolding partitioned_def by (metis le_neq_implies_less)

lemma lower_bound_from_partitioned:
  assumes "partitioned p xs" and "first + len \<le> length xs"
    and "\<forall>i<first. p (xs ! i)" and "\<forall>i. first + len \<le> i \<longrightarrow> i < length xs \<longrightarrow> \<not> p (xs ! i)"
  shows "(\<forall>i<lower_bound_from p xs first len. p (xs ! i)) \<and>
    (\<forall>i. lower_bound_from p xs first len \<le> i \<longrightarrow> i < length xs \<longrightarrow> \<not> p (xs ! i))"
  using assms
proof (induction p xs first len rule: lower_bound_from.induct)
  case (1 p xs first len)
  let ?mid = "first + len div 2"
  consider (empty) "len = 0" | (right) "len \<noteq> 0" "p (xs ! ?mid)"
    | (left) "len \<noteq> 0" "\<not> p (xs ! ?mid)"
    by blast
  then show ?case
  proof cases
    case empty
    with 1(5,6) show ?thesis by (simp add: lower_bound_from_0)
  next
    case right
    then have half: "len div 2 < len" by simp
    then have mid: "?mid < length xs" using 1(4) by simp
    have below: "\<forall>i<?mid + 1. p (xs ! i)"
      using partitioned_prefix [OF 1(3) mid right(2)] by (simp add: less_Suc_eq_le)
    have sum: "?mid + 1 + (len - len div 2 - 1) = first + len" using half by simp
    show ?thesis
      unfolding lower_bound_from_right [of len p xs first, OF right]
      using 1(1) [OF right(1) refl refl right(2) 1(3), unfolded sum, OF 1(4) below 1(6)] .
  next
    case left
    have half: "first + len div 2 \<le> length xs" using 1(4) by simp
    have above: "\<forall>i. ?mid \<le> i \<longrightarrow> i < length xs \<longrightarrow> \<not> p (xs ! i)"
      using partitioned_prefix [OF 1(3) _ _] left(2) by blast
    show ?thesis
      unfolding lower_bound_from_left [of len p xs first, OF left]
      by (rule 1(2) [OF left(1) refl refl left(2) 1(3) half 1(5) above])
  qed
qed

lemma lower_bound_partitioned:
  assumes "partitioned p xs"
  shows "lower_bound p xs = length (takeWhile p xs)"
proof -
  let ?l = "lower_bound p xs"
  from lower_bound_from_partitioned [OF assms, of 0 "length xs"]
  have below: "\<forall>i<?l. p (xs ! i)" and above: "\<forall>i. ?l \<le> i \<longrightarrow> i < length xs \<longrightarrow> \<not> p (xs ! i)"
    by (auto simp: lower_bound_def)
  have "takeWhile p xs = take ?l xs"
  proof (rule takeWhile_eq_take_P_nth)
    show "\<And>i. i < ?l \<Longrightarrow> i < length xs \<Longrightarrow> p (xs ! i)" using below by simp
    show "?l < length xs \<Longrightarrow> \<not> p (xs ! ?l)" using above by simp
  qed
  then show ?thesis by simp
qed

lemma partitioned_sorted:
  assumes "sorted_wrt r xs" and "\<And>x y. r x y \<Longrightarrow> p y \<Longrightarrow> p x"
  shows "partitioned p xs"
  using assms unfolding partitioned_def by (meson sorted_wrt_nth_less)

lemma lower_bound_cong:
  assumes "length xs = length ys" and "\<forall>i<length xs. p (xs ! i) = q (ys ! i)"
  shows "lower_bound p xs = lower_bound q ys"
proof -
  have "lower_bound_from p xs first len = lower_bound_from q ys first len" if "first + len \<le> length xs" for first len
    using that
  proof (induction len arbitrary: first rule: less_induct)
    case (less len)
    show ?case
    proof (cases "len = 0")
      case True
      then show ?thesis by (simp add: lower_bound_from_0)
    next
      case False
      have mid: "p (xs ! (first + len div 2)) = q (ys ! (first + len div 2))"
        using assms(2) less.prems False by simp
      have right: "lower_bound_from p xs (first + len div 2 + 1) (len - len div 2 - 1) =
          lower_bound_from q ys (first + len div 2 + 1) (len - len div 2 - 1)"
        using less.prems False by (intro less.IH) simp_all
      have left: "lower_bound_from p xs first (len div 2) = lower_bound_from q ys first (len div 2)"
        using less.prems False by (intro less.IH) simp_all
      show ?thesis
      proof (cases "p (xs ! (first + len div 2))")
        case True
        then show ?thesis using False mid right by (simp add: lower_bound_from_right)
      next
        case neg: False
        then show ?thesis using False mid left by (simp add: lower_bound_from_left)
      qed
    qed
  qed
  then show ?thesis using assms(1) by (simp add: lower_bound_def)
qed

section \<open>Byte-string order\<close>

text \<open>The order of \<open>memcmp\<close> followed by the comparison of the lengths.\<close>

fun bytes_less :: "bytes \<Rightarrow> bytes \<Rightarrow> bool" where
  "bytes_less [] ys = (ys \<noteq> [])"
| "bytes_less (x # xs) [] = False"
| "bytes_less (x # xs) (y # ys) = (x < y \<or> (x = y \<and> bytes_less xs ys))"

lemma bytes_less_irrefl [simp]: "\<not> bytes_less xs xs"
  by (induction xs) auto

lemma bytes_less_Nil [simp]: "\<not> bytes_less xs []"
  by (cases xs) auto

lemma bytes_less_trans: "bytes_less xs ys \<Longrightarrow> bytes_less ys zs \<Longrightarrow> bytes_less xs zs"
proof (induction xs ys arbitrary: zs rule: bytes_less.induct)
  case (1 ys)
  then show ?case by (cases zs) auto
next
  case (2 x xs)
  then show ?case by simp
next
  case (3 x xs y ys)
  then show ?case by (cases zs) auto
qed

lemma bytes_less_linear: "xs \<noteq> ys \<Longrightarrow> bytes_less xs ys \<or> bytes_less ys xs"
  by (induction xs ys rule: bytes_less.induct) auto

lemma bytes_less_asym: "bytes_less xs ys \<Longrightarrow> \<not> bytes_less ys xs"
  using bytes_less_trans bytes_less_irrefl by blast

lemma bytes_less_prefix: "bytes_less (ps @ xs) (ps @ ys) = bytes_less xs ys"
  by (induction ps) auto

end
