(* ===== verification/Varint.thy ===== *)
theory Varint
  imports Prelude
begin

text \<open>
  The variable-length integers of \<open>include/sharpen/Varint.hpp\<close>, the encoding of every size in the
  storage formats. The class template \<open>Varint<_T>\<close> is modelled for a word type \<open>'a word\<close>: the
  signed instantiations convert to \<open>make_unsigned<_T>\<close> before encoding, so their bit patterns are
  those of the unsigned ones. The state is the array \<open>data_\<close> and the optional \<open>cache_\<close>.

  Decoding shifts an \<open>int\<close> (the promoted byte), not a \<open>_T\<close>. The lemmas show where this is
  harmless: every 32-bit value and every value below \<open>2 ^ 31\<close> is read back, and above that a
  64-bit varint read from a buffer is not.
\<close>

section \<open>The state\<close>

definition vi_bytes :: "'a::len itself \<Rightarrow> nat" where
  "vi_bytes T = LENGTH('a) div 7 + (if LENGTH('a) mod 7 \<noteq> 0 then 1 else 0)"

record 'c varint_state =
  vi_cache :: "'c option"
  vi_data :: bytes

type_synonym 'a varint = "'a word varint_state"

definition vi_zero :: "'a::len varint" where
  "vi_zero = \<lparr>vi_cache = None, vi_data = replicate (vi_bytes TYPE('a)) 0\<rparr>"

abbreviation vi_more :: "byte \<Rightarrow> bool" where
  "vi_more b \<equiv> b AND 128 \<noteq> 0"

section \<open>Encoding: Set(_T)\<close>

lemma unat_drop_bit_7: "unat (drop_bit 7 w) = unat (w :: 'a::len word) div 128"
  by (simp only: unat_drop_bit_eq drop_bit_eq_div [of 7 "unat w"]) simp

function vi_digits :: "'a::len word \<Rightarrow> bytes" where
  "vi_digits val =
     (if 127 < unat val then (ucast val OR 128) # vi_digits (drop_bit 7 val)
      else [ucast val])"
  by pat_completeness auto
termination
  by (relation "measure unat") (auto simp: unat_drop_bit_7 simp del: drop_bit_numeral_minus_bit1)

declare vi_digits.simps [simp del]

definition vi_set :: "'a::len word \<Rightarrow> 'a varint \<Rightarrow> exn + 'a varint" where
  "vi_set val s =
     (if vi_cache s = Some val then Inr s
      else res_bind (mem_write (vi_data s) 0 (vi_digits val))
        (\<lambda>d. Inr \<lparr>vi_cache = Some val, vi_data = d\<rparr>))"

section \<open>Decoding: Set(data,size), Get, ComputeSize\<close>

definition vi_set_bytes :: "bytes \<Rightarrow> 'a::len varint \<Rightarrow> exn + 'a varint" where
  "vi_set_bytes bs s =
     (let sz = min (length bs) (length (vi_data s)) in
      if sz = 0 then Inl Undefined
      else let d = take sz bs @ drop sz (vi_data s) in
        Inr \<lparr>vi_cache = None, vi_data = d[sz - 1 := d ! (sz - 1) AND 127]\<rparr>)"

text \<open>
  \<open>(*ite & mask_) << 7*counter\<close>: the operand is promoted to a 32-bit \<open>int\<close>. A shift by 32 or
  more, or a result that does not fit the unsigned type, is undefined; a result that only fits the
  unsigned type becomes negative.
\<close>

definition int_shl :: "nat \<Rightarrow> nat \<Rightarrow> int option" where
  "int_shl p k =
     (if k < 32 \<and> p * 2 ^ k < 2 ^ 32
      then Some (if p * 2 ^ k < 2 ^ 31 then int (p * 2 ^ k) else int (p * 2 ^ k) - 2 ^ 32)
      else None)"

fun vi_get_from :: "nat \<Rightarrow> 'a::len word \<Rightarrow> bytes \<Rightarrow> exn + 'a word" where
  "vi_get_from c v [] = Inl Undefined"
| "vi_get_from c v (b # bs) =
     (case int_shl (unat (b AND 127)) (7 * c) of
        None \<Rightarrow> Inl Undefined
      | Some t \<Rightarrow>
          if vi_more b then vi_get_from (c + 1) (v OR word_of_int t) bs
          else Inr (v OR word_of_int t))"

definition vi_get :: "'a::len varint \<Rightarrow> exn + ('a word \<times> 'a varint)" where
  "vi_get s =
     (case vi_cache s of
        Some v \<Rightarrow> Inr (v, s)
      | None \<Rightarrow> res_bind (vi_get_from 0 0 (vi_data s)) (\<lambda>v. Inr (v, s\<lparr>vi_cache := Some v\<rparr>)))"

fun vi_count :: "bytes \<Rightarrow> exn + nat" where
  "vi_count [] = Inl Undefined"
| "vi_count (b # bs) = (if vi_more b then res_bind (vi_count bs) (\<lambda>n. Inr (n + 1)) else Inr 1)"

definition vi_compute_size :: "'a::len varint \<Rightarrow> exn + nat" where
  "vi_compute_size s = vi_count (vi_data s)"

definition vi_load_from :: "bytes \<Rightarrow> 'a::len varint \<Rightarrow> exn + (nat \<times> 'a varint)" where
  "vi_load_from bs s =
     res_bind (vi_set_bytes bs s) (\<lambda>s'. res_bind (vi_compute_size s') (\<lambda>n. Inr (n, s')))"

section \<open>Storing\<close>

fun vi_emit :: "bytes \<Rightarrow> exn + bytes" where
  "vi_emit [] = Inl Undefined"
| "vi_emit (b # bs) = (if vi_more b then res_bind (vi_emit bs) (\<lambda>r. Inr (b # r)) else Inr [b])"

definition vi_unsafe_store_to :: "'a::len varint \<Rightarrow> exn + bytes" where
  "vi_unsafe_store_to s = vi_emit (vi_data s)"

definition vi_store_to :: "'a::len varint \<Rightarrow> nat \<Rightarrow> exn + bytes" where
  "vi_store_to s sz =
     res_bind (vi_compute_size s) (\<lambda>need.
       if sz < need then Inl Invalid_argument else vi_unsafe_store_to s)"

text \<open>
  The two ways the storage code uses a \<open>Varuint64 builder\<close>: built from a size it yields the bytes
  that \<open>memcpy(_, builder.Data(), builder.ComputeSize())\<close> copies, and built from a buffer it yields
  \<open>Get()\<close> and \<open>ComputeSize()\<close>.
\<close>

definition vu64_bytes :: "nat \<Rightarrow> exn + bytes" where
  "vu64_bytes n =
     res_bind (vi_set (word_of_nat n) (vi_zero :: 64 varint)) (\<lambda>s.
       res_bind (vi_compute_size s) (\<lambda>k. mem_read (vi_data s) 0 k))"

definition vu64_read :: "bytes \<Rightarrow> exn + (nat \<times> nat)" where
  "vu64_read bs =
     res_bind (vi_set_bytes bs (vi_zero :: 64 varint)) (\<lambda>s.
       res_bind (vi_compute_size s) (\<lambda>k.
         res_bind (vi_get s) (\<lambda>(v, s'). Inr (unat v, k))))"

section \<open>The digits of a number\<close>

text \<open>The reference: base-128 digits, least significant first, all but the last marked.\<close>

fun venc :: "nat \<Rightarrow> bytes" where
  "venc n =
     (if n < 128 then [word_of_nat n] else word_of_nat (n mod 128 + 128) # venc (n div 128))"

declare venc.simps [simp del]

definition vsize :: "nat \<Rightarrow> nat" where
  "vsize n = length (venc n)"

lemma venc_small: "n < 128 \<Longrightarrow> venc n = [word_of_nat n]"
  by (simp add: venc.simps)

lemma venc_large: "\<not> n < 128 \<Longrightarrow> venc n = word_of_nat (n mod 128 + 128) # venc (n div 128)"
  by (simp add: venc.simps [of n])

lemma venc_not_Nil [simp]: "venc n \<noteq> []"
  by (subst venc.simps) simp

lemma vsize_pos [simp]: "0 < vsize n"
  by (simp add: vsize_def)

lemma byte_eqI: "unat (a :: byte) = unat b \<Longrightarrow> a = b"
  by (simp add: word_unat_eq_iff)

lemma nat_or_high:
  fixes v d :: nat
  assumes "v < 2 ^ k"
  shows "v OR (d * 2 ^ k) = v + d * 2 ^ k"
proof -
  have "v AND (d * 2 ^ k) = 0"
  proof (rule bit_eqI)
    fix n
    have "take_bit k v = v" using assms by (simp add: take_bit_nat_eq_self_iff)
    then have "bit v n \<Longrightarrow> n < k" by (metis bit_take_bit_iff)
    moreover have "bit (d * 2 ^ k) n \<Longrightarrow> k \<le> n"
      by (simp add: push_bit_eq_mult [symmetric] bit_push_bit_iff)
    ultimately show "bit (v AND d * 2 ^ k) n = bit (0 :: nat) n"
      by (auto simp: bit_and_iff)
  qed
  then show ?thesis by (simp add: disjunctive_add_eq_or)
qed

lemma unat_and_127: "unat (b AND 127 :: byte) = unat b mod 128"
proof -
  have "(127 :: byte) = mask 7" by (simp add: mask_eq_exp_minus_1)
  then have "b AND 127 = take_bit 7 b" by (simp only: take_bit_eq_mask)
  then have "unat (b AND 127) = take_bit 7 (unat b)" by (simp only: unsigned_take_bit_eq)
  then show ?thesis by (simp only: take_bit_eq_mod) simp
qed

lemma vi_more_iff: "vi_more b \<longleftrightarrow> 128 \<le> unat (b :: byte)"
proof -
  have "unat (b AND 128) = unat b AND 2 ^ 7" by (simp add: unsigned_and_eq)
  moreover have "unat b AND 2 ^ 7 = 0 \<longleftrightarrow> \<not> bit (unat b) 7"
    by (rule and_exp_eq_0_iff_not_bit)
  moreover have "bit (unat b) 7 \<longleftrightarrow> odd (unat b div 128)"
    by (simp add: bit_iff_odd)
  moreover have "odd (unat b div 128) \<longleftrightarrow> 128 \<le> unat b"
    by (rule odd_div_128 [OF unat_byte_less])
  ultimately show ?thesis by (metis unat_eq_0)
qed

text \<open>The loop of \<open>Set\<close> writes exactly these digits, for every word type of at least 8 bits.\<close>

lemma ucast_byte: "unat (ucast w :: byte) = unat (w :: 'a::len word) mod 256"
  by (simp add: unsigned_ucast_eq take_bit_eq_mod)

lemma byte_or_128: "unat (b OR 128 :: byte) = unat b mod 128 + 128"
proof -
  have "unat (b OR 128) = unat b OR 128" by (simp add: unsigned_or_eq)
  also have "unat b OR 128 = (unat b mod 128) OR 128"
  proof (cases "unat b < 128")
    case False
    define x where "x = unat b mod 128"
    have "unat b = x + 1 * 2 ^ 7"
      using False unat_byte_less [of b] by (simp add: x_def le_mod_geq)
    moreover have "x < 2 ^ 7" by (simp add: x_def)
    ultimately have "unat b = x OR 1 * 2 ^ 7" by (simp only: nat_or_high)
    then have b: "unat b = x OR 128" by simp
    have "unat b OR 128 = x OR 128" unfolding b by (simp add: or.assoc)
    then show ?thesis by (simp add: x_def)
  qed simp
  also have "\<dots> = unat b mod 128 + 128"
    using nat_or_high [of "unat b mod 128" 7 1] by simp
  finally show ?thesis .
qed

lemma vi_digits_venc: "vi_digits w = venc (unat (w :: 'a::len word))"
proof (induction w rule: vi_digits.induct)
  case (1 val)
  show ?case
  proof (cases "127 < unat val")
    case True
    have "unat val mod 256 mod 128 = unat val mod 128" by (simp add: mod_mod_cancel)
    then have "ucast val OR 128 = (word_of_nat (unat val mod 128 + 128) :: byte)"
      by (intro byte_eqI) (simp add: byte_or_128 ucast_byte del: of_nat_add)
    moreover have "vi_digits (drop_bit 7 val) = venc (unat val div 128)"
      using 1 [OF True] by (simp only: unat_drop_bit_7)
    ultimately show ?thesis
      using True by (simp add: vi_digits.simps [of val] venc_large)
  next
    case False
    then have "ucast val = (word_of_nat (unat val) :: byte)"
      by (intro byte_eqI) (simp add: ucast_byte)
    with False show ?thesis by (simp add: vi_digits.simps [of val] venc_small)
  qed
qed

lemma venc_length_bound: "n < 128 ^ k \<Longrightarrow> 0 < k \<Longrightarrow> length (venc n) \<le> k"
proof (induction n arbitrary: k rule: venc.induct)
  case (1 n)
  show ?case
  proof (cases "n < 128")
    case True
    with 1 show ?thesis by (simp add: venc_small)
  next
    case False
    obtain k' where k': "k = Suc k'" using 1(3) by (cases k) auto
    have "k' \<noteq> 0"
    proof
      assume "k' = 0"
      with False 1(2) k' show False by simp
    qed
    with k' have k: "k = Suc k'" "0 < k'" by simp_all
    have "n div 128 < 128 ^ k'"
      using 1(2) k by (simp add: less_mult_imp_div_less mult.commute)
    then have "length (venc (n div 128)) \<le> k'" using 1(1) False k(2) by simp
    with False k show ?thesis by (simp add: venc_large)
  qed
qed

lemma vi_bytes_covers: "2 ^ LENGTH('a::len) \<le> (128 :: nat) ^ vi_bytes TYPE('a)"
proof -
  have "n \<le> 7 * (n div 7 + (if n mod 7 \<noteq> 0 then 1 else 0))" for n :: nat
    using div_mult_mod_eq [of n 7] mod_less_divisor [of 7 n] by (auto simp: algebra_simps)
  then have "LENGTH('a) \<le> 7 * vi_bytes TYPE('a)" unfolding vi_bytes_def .
  then have "(2 :: nat) ^ LENGTH('a) \<le> 2 ^ (7 * vi_bytes TYPE('a))" by simp
  then show ?thesis by (simp add: power_mult)
qed

lemma vi_digits_fit:
  "length (vi_digits (w :: 'a::len word)) \<le> vi_bytes TYPE('a)"
proof -
  have "unat w < 128 ^ vi_bytes TYPE('a)"
    using unsigned_less [of w, where 'a = nat] vi_bytes_covers [where 'a = 'a] by linarith
  moreover have "0 < vi_bytes TYPE('a)"
    using vi_bytes_covers [where 'a = 'a] power_strict_increasing [of 0 "LENGTH('a)" "2 :: nat"]
    by (cases "vi_bytes TYPE('a)") auto
  ultimately show ?thesis by (simp add: vi_digits_venc venc_length_bound)
qed

section \<open>Prefixes up to the last digit\<close>

text \<open>
  All reading loops stop at the first byte without the mark. \<open>vi_emit\<close> returns this prefix; the
  other loops only depend on it.
\<close>

lemma vi_emit_append: "vi_emit d = Inr out \<Longrightarrow> vi_emit (out @ rest) = Inr out"
  by (induction d arbitrary: out) (auto simp: res_bind_eq_Inr split: if_splits)

lemma vi_emit_prefix: "vi_emit d = Inr out \<Longrightarrow> \<exists>rest. d = out @ rest"
  by (induction d arbitrary: out) (auto simp: res_bind_eq_Inr split: if_splits)

lemma vi_emit_total: "b \<in> set d \<Longrightarrow> \<not> vi_more b \<Longrightarrow> \<exists>out. vi_emit d = Inr out"
  by (induction d) auto

lemma vi_emit_count: "vi_emit d = Inr out \<Longrightarrow> vi_count (out @ rest) = Inr (length out)"
  by (induction d arbitrary: out) (auto simp: res_bind_eq_Inr split: if_splits)

lemma vi_emit_get:
  "vi_emit d = Inr out \<Longrightarrow> vi_get_from c v (out @ rest) = vi_get_from c v d"
  by (induction d arbitrary: c v out)
    (auto simp: res_bind_eq_Inr split: if_splits option.splits)

lemma vi_emit_last: "vi_emit d = Inr out \<Longrightarrow> out \<noteq> [] \<and> \<not> vi_more (last out)"
  by (induction d arbitrary: out) (auto simp: res_bind_eq_Inr split: if_splits)

lemma vi_emit_venc: "vi_emit (venc n @ rest) = Inr (venc n)"
proof (induction n rule: venc.induct)
  case (1 n)
  show ?case
  proof (cases "n < 128")
    case True
    then show ?thesis by (simp add: venc_small vi_more_iff)
  next
    case False
    have "vi_more (word_of_nat (n mod 128 + 128))"
      by (simp add: vi_more_iff del: of_nat_add)
    with 1 [OF False] False show ?thesis by (simp add: venc_large)
  qed
qed

lemmas vi_count_venc = vi_emit_count [OF vi_emit_venc]

lemma and_127_id: "\<not> vi_more b \<Longrightarrow> b AND 127 = b"
  by (intro byte_eqI) (simp add: vi_more_iff unat_and_127)

lemma and_127_no_more: "\<not> vi_more (b AND 127)"
  by (simp add: vi_more_iff unat_and_127 not_le)

lemma vi_set_bytes_terminated:
  assumes out: "vi_emit d = Inr out" and fit: "length out \<le> length (vi_data s)"
  shows "\<exists>rest'. vi_set_bytes (out @ rest) s = Inr \<lparr>vi_cache = None, vi_data = out @ rest'\<rparr>"
proof -
  let ?n = "min (length (out @ rest)) (length (vi_data s))"
  let ?d = "take ?n (out @ rest) @ drop ?n (vi_data s)"
  have out': "out \<noteq> []" "\<not> vi_more (last out)" using vi_emit_last [OF out] by auto
  have n: "length out \<le> ?n" "0 < ?n" using fit out'(1) by auto
  have d: "?d = out @ (take (?n - length out) rest @ drop ?n (vi_data s))"
    using n(1) by (simp add: take_append)
  let ?r = "take (?n - length out) rest @ drop ?n (vi_data s)"
  have "\<exists>rest'. ?d[?n - 1 := ?d ! (?n - 1) AND 127] = out @ rest'"
  proof (cases "?n = length out")
    case True
    then have "?d ! (?n - 1) = last out"
      using out'(1) n(2) unfolding d by (simp add: nth_append last_conv_nth)
    then have "?d ! (?n - 1) AND 127 = ?d ! (?n - 1)"
      using out'(2) by (simp only: and_127_id not_False_eq_True)
    then show ?thesis unfolding d by (metis list_update_id)
  next
    case False
    then have "length out \<le> ?n - 1" using n(1) by linarith
    then show ?thesis unfolding d by (simp add: list_update_append)
  qed
  then obtain rest' where "?d[?n - 1 := ?d ! (?n - 1) AND 127] = out @ rest'" by blast
  then show ?thesis using n(2) by (simp add: vi_set_bytes_def Let_def)
qed

section \<open>Reading the digits back\<close>

text \<open>\<open>vi_exact\<close> says when the shifts of \<open>int\<close> give the value: 32-bit words, or values below 2^31.\<close>

definition vi_exact :: "'a::len itself \<Rightarrow> nat \<Rightarrow> bool" where
  "vi_exact T n \<longleftrightarrow> n < 2 ^ 31 \<or> (LENGTH('a) \<le> 32 \<and> n < 2 ^ LENGTH('a))"

lemma word_of_int_shl:
  assumes "int_shl p k = Some t" and "p * 2 ^ k < 2 ^ 31 \<or> LENGTH('a::len) \<le> 32"
  shows "word_of_int t = (word_of_nat (p * 2 ^ k) :: 'a word)"
proof (cases "p * 2 ^ k < 2 ^ 31")
  case True
  then have "t = int (p * 2 ^ k)" using assms(1) by (auto simp: int_shl_def split: if_splits)
  then show ?thesis by (simp only: of_int_of_nat_eq)
next
  case False
  with assms have t: "t = int (p * 2 ^ k) - 2 ^ 32" and l: "LENGTH('a) \<le> 32"
    by (auto simp: int_shl_def split: if_splits)
  have "(2 :: int) ^ LENGTH('a) dvd 2 ^ 32" using l by (rule le_imp_power_dvd)
  then have "t mod 2 ^ LENGTH('a) = int (p * 2 ^ k) mod 2 ^ LENGTH('a)"
    unfolding t by (metis diff_zero dvd_imp_mod_0 mod_diff_right_eq)
  then have "word_of_int t = (word_of_int (int (p * 2 ^ k)) :: 'a word)"
    by (simp only: word_of_int_eq_iff take_bit_eq_mod)
  then show ?thesis by (simp only: of_int_of_nat_eq)
qed

lemma vi_exact_32: "vi_exact TYPE('a::len) n \<Longrightarrow> n < 2 ^ 32"
proof -
  assume "vi_exact TYPE('a) n"
  then have "n < 2 ^ 31 \<or> (LENGTH('a) \<le> 32 \<and> n < 2 ^ LENGTH('a))" by (simp add: vi_exact_def)
  moreover have "LENGTH('a) \<le> 32 \<Longrightarrow> (2 :: nat) ^ LENGTH('a) \<le> 2 ^ 32"
    by (rule power_increasing) auto
  ultimately show ?thesis by auto
qed

lemma vi_digit_or:
  assumes "v < 2 ^ k" and "k < 32" and "vi_exact TYPE('a::len) m" and "p * 2 ^ k \<le> m"
  shows "\<exists>t. int_shl p k = Some t \<and>
    word_of_nat v OR word_of_int t = (word_of_nat (v + p * 2 ^ k) :: 'a word)"
proof -
  have "p * 2 ^ k < 2 ^ 32" using vi_exact_32 [OF assms(3)] assms(4) by (rule le_less_trans [rotated])
  with assms(2) obtain t where t: "int_shl p k = Some t" by (auto simp: int_shl_def)
  have "p * 2 ^ k < 2 ^ 31 \<or> LENGTH('a) \<le> 32"
    using assms(3,4) unfolding vi_exact_def by linarith
  with t have "word_of_int t = (word_of_nat (p * 2 ^ k) :: 'a word)" by (rule word_of_int_shl)
  then have "word_of_nat v OR word_of_int t = (word_of_nat (v OR p * 2 ^ k) :: 'a word)"
    by (simp only: of_nat_or_eq)
  then show ?thesis using t assms(1) by (simp only: nat_or_high) blast
qed

lemma vi_get_from_venc:
  assumes "v < 2 ^ (7 * c)" and "vi_exact TYPE('a::len) (v + n * 2 ^ (7 * c))"
    and "n = 0 \<Longrightarrow> c = 0"
  shows "vi_get_from c (word_of_nat v :: 'a word) (venc n @ rest) =
    Inr (word_of_nat (v + n * 2 ^ (7 * c)))"
  using assms
proof (induction n arbitrary: v c rule: venc.induct)
  case (1 n)
  let ?m = "v + n * 2 ^ (7 * c)"
  have c: "7 * c < 32"
  proof (cases "n = 0")
    case True
    with 1(4) show ?thesis by simp
  next
    case False
    then have "(2 :: nat) ^ (7 * c) \<le> ?m" by (simp add: trans_le_add2)
    with vi_exact_32 [OF 1(3)] have "(2 :: nat) ^ (7 * c) < 2 ^ 32" by linarith
    then show ?thesis by (rule power_less_imp_less_exp [rotated]) simp
  qed
  show ?case
  proof (cases "n < 128")
    case True
    have "n * 2 ^ (7 * c) \<le> ?m" by simp
    from vi_digit_or [OF 1(2) c 1(3) this] obtain t where
      "int_shl n (7 * c) = Some t"
      "word_of_nat v OR word_of_int t = (word_of_nat ?m :: 'a word)" by blast
    with True show ?thesis
      by (simp add: venc_small unat_and_127 vi_more_iff)
  next
    case False
    let ?p = "n mod 128" and ?q = "n div 128"
    have split: "?p * 2 ^ (7 * c) + ?q * 2 ^ (7 * (c + 1)) = n * 2 ^ (7 * c)"
    proof -
      have "(2 :: nat) ^ (7 * (c + 1)) = 128 * 2 ^ (7 * c)" by (simp add: power_add)
      moreover have "p * K + q * (128 * K) = (p + 128 * q) * K" for p q K :: nat
        by (simp add: algebra_simps)
      ultimately have "?p * 2 ^ (7 * c) + ?q * 2 ^ (7 * (c + 1)) = (?p + 128 * ?q) * 2 ^ (7 * c)"
        by metis
      then show ?thesis by simp
    qed
    then have "?p * 2 ^ (7 * c) \<le> ?m" by linarith
    from vi_digit_or [OF 1(2) c 1(3) this] obtain t where t:
      "int_shl ?p (7 * c) = Some t"
      "word_of_nat v OR word_of_int t = (word_of_nat (v + ?p * 2 ^ (7 * c)) :: 'a word)" by blast
    have m: "v + ?p * 2 ^ (7 * c) + ?q * 2 ^ (7 * (c + 1)) = ?m" using split by linarith
    have lt: "v + ?p * 2 ^ (7 * c) < 2 ^ (7 * (c + 1))"
    proof -
      have "?p * 2 ^ (7 * c) \<le> 127 * 2 ^ (7 * c)" by (rule mult_le_mono1) simp
      with 1(2) have "v + ?p * 2 ^ (7 * c) < 128 * 2 ^ (7 * c)" by linarith
      then show ?thesis by (simp add: power_add)
    qed
    have "?q \<noteq> 0" using False by simp
    with 1(1) [OF False lt] 1(3) have IH:
      "vi_get_from (c + 1) (word_of_nat (v + ?p * 2 ^ (7 * c)) :: 'a word) (venc ?q @ rest) =
        Inr (word_of_nat ?m)"
      unfolding m by blast
    have byte: "unat ((word_of_nat (?p + 128) :: byte) AND 127) = ?p"
      "vi_more (word_of_nat (?p + 128))"
      by (simp_all add: unat_and_127 vi_more_iff del: of_nat_add)
    show ?thesis
      unfolding venc_large [OF False] using byte t IH by simp
  qed
qed

lemma vi_get_venc:
  assumes "vi_exact TYPE('a::len) n"
  shows "vi_get_from 0 (0 :: 'a word) (venc n @ rest) = Inr (word_of_nat n)"
  using vi_get_from_venc [of 0 0 n] assms by simp

section \<open>The class invariant\<close>

text \<open>
  The array has its full length and holds a last digit, and a cached value is the one the array
  shows: its digits, or what decoding gives.
\<close>

definition vi_shown :: "'a::len word \<Rightarrow> bytes \<Rightarrow> bool" where
  "vi_shown v d \<longleftrightarrow> (\<exists>rest. d = venc (unat v) @ rest) \<or> vi_get_from 0 0 d = Inr v"

definition vi_wf :: "'a::len varint \<Rightarrow> bool" where
  "vi_wf s \<longleftrightarrow> length (vi_data s) = vi_bytes TYPE('a) \<and> (\<exists>b\<in>set (vi_data s). \<not> vi_more b) \<and>
     (\<forall>v. vi_cache s = Some v \<longrightarrow> vi_shown v (vi_data s))"

lemma vi_bytes_pos [simp]: "0 < vi_bytes TYPE('a::len)"
  using vi_digits_fit [of "0 :: 'a word"] by (simp add: vi_digits_venc venc_small)

lemma vi_wf_zero [simp]: "vi_wf vi_zero"
  by (simp add: vi_wf_def vi_zero_def)

lemma vi_wf_set:
  assumes "vi_wf s"
  shows "\<exists>s'. vi_set v s = Inr s' \<and> vi_wf s' \<and> vi_cache s' = Some v"
proof (cases "vi_cache s = Some v")
  case True
  with assms show ?thesis by (simp add: vi_set_def)
next
  case False
  let ?d = "venc (unat v) @ drop (length (venc (unat v))) (vi_data s)"
  have fit: "length (venc (unat v)) \<le> length (vi_data s)"
    using vi_digits_fit [of v] assms by (simp add: vi_wf_def vi_digits_venc)
  then have "vi_set v s = Inr \<lparr>vi_cache = Some v, vi_data = ?d\<rparr>"
    using False by (simp add: vi_set_def mem_write_def vi_digits_venc)
  moreover have "\<not> vi_more (last (venc (unat v)))"
    using vi_emit_last [OF vi_emit_venc [of "unat v" "[]"]] by simp
  then have "\<exists>b\<in>set ?d. \<not> vi_more b"
    by (metis Un_iff last_in_set set_append venc_not_Nil)
  moreover have "length ?d = vi_bytes TYPE('a)"
    using fit assms by (simp add: vi_wf_def)
  ultimately show ?thesis
    by (auto simp: vi_wf_def vi_shown_def)
qed

lemma vi_wf_set_bytes:
  assumes "vi_wf (s :: 'a::len varint)" and "bs \<noteq> []"
  shows "\<exists>s'. vi_set_bytes bs s = Inr s' \<and> vi_wf s' \<and> vi_cache s' = None \<and>
    (\<exists>i<length bs. \<not> vi_more (vi_data s' ! i))"
proof -
  let ?n = "min (length bs) (length (vi_data s))"
  let ?d = "take ?n bs @ drop ?n (vi_data s)"
  let ?d' = "?d[?n - 1 := ?d ! (?n - 1) AND 127]"
  have n: "0 < ?n" using assms by (auto simp: vi_wf_def)
  then have eq: "vi_set_bytes bs s = Inr \<lparr>vi_cache = None, vi_data = ?d'\<rparr>"
    by (simp add: vi_set_bytes_def Let_def)
  have "?n - 1 < length (vi_data s)" using n by linarith
  then have i: "?n - 1 < length ?d'" by simp
  then have no: "\<not> vi_more (?d' ! (?n - 1))" by (simp add: and_127_no_more)
  with i have "\<exists>b\<in>set ?d'. \<not> vi_more b" by (meson nth_mem)
  moreover have "length ?d' = vi_bytes TYPE('a)" using assms by (auto simp: vi_wf_def)
  ultimately have "vi_wf (\<lparr>vi_cache = None, vi_data = ?d'\<rparr> :: 'a varint)" by (simp add: vi_wf_def)
  moreover have "?n - 1 < length bs" using n by linarith
  ultimately show ?thesis using eq no by auto
qed

lemma vi_wf_get:
  assumes "vi_wf s" and "vi_get s = Inr (v, s')"
  shows "vi_wf s' \<and> vi_cache s' = Some v \<and> vi_data s' = vi_data s"
  using assms
  by (auto simp: vi_get_def vi_wf_def vi_shown_def res_bind_eq_Inr split: option.splits)

lemma vi_wf_store:
  assumes "vi_wf (s :: 'a::len varint)"
  shows "\<exists>out rest. vi_unsafe_store_to s = Inr out \<and> vi_compute_size s = Inr (length out) \<and>
    vi_data s = out @ rest"
proof -
  from assms obtain out where out: "vi_emit (vi_data s) = Inr out"
    using vi_emit_total by (metis vi_wf_def)
  then obtain rest where "vi_data s = out @ rest" using vi_emit_prefix by blast
  with out show ?thesis
    by (auto simp: vi_unsafe_store_to_def vi_compute_size_def vi_emit_count)
qed

lemma vi_count_bound:
  "vi_count d = Inr k \<Longrightarrow> i < length d \<Longrightarrow> \<not> vi_more (d ! i) \<Longrightarrow> 0 < k \<and> k \<le> i + 1"
proof (induction d arbitrary: k i)
  case Nil
  then show ?case by simp
next
  case (Cons b d)
  then show ?case
    by (cases i) (auto simp: res_bind_eq_Inr split: if_splits)
qed

lemma vi_load_from_wf:
  assumes "vi_wf (s :: 'a::len varint)" and "bs \<noteq> []"
  shows "\<exists>k s'. vi_load_from bs s = Inr (k, s') \<and> vi_wf s' \<and> 0 < k \<and> k \<le> length bs \<and>
    k \<le> vi_bytes TYPE('a)"
proof -
  from vi_wf_set_bytes [OF assms] obtain s' i where s':
    "vi_set_bytes bs s = Inr s'" "vi_wf s'" "i < length bs" "\<not> vi_more (vi_data s' ! i)"
    by blast
  from vi_wf_store [OF s'(2)] obtain out rest where out:
    "vi_compute_size s' = Inr (length out)" "vi_data s' = out @ rest"
    by blast
  have len: "length (out @ rest) = vi_bytes TYPE('a)" using s'(2) out(2) by (simp add: vi_wf_def)
  have c: "vi_count (vi_data s') = Inr (length out)" using out(1) by (simp add: vi_compute_size_def)
  have "0 < length out \<and> length out \<le> length bs"
  proof (cases "i < length (vi_data s')")
    case True
    from vi_count_bound [OF c True s'(4)] s'(3) show ?thesis by linarith
  next
    case False
    then have "length out \<le> length bs" using s'(3) out(2) by simp
    moreover have "out \<noteq> []"
      using c len by (cases "vi_data s'") (auto simp: res_bind_eq_Inr split: if_splits)
    ultimately show ?thesis by simp
  qed
  then show ?thesis using s' out len by (auto simp: vi_load_from_def)
qed

section \<open>Sizes in the storage formats\<close>

lemma vu64_bytes_venc: "n < 2 ^ 64 \<Longrightarrow> vu64_bytes n = Inr (venc n)"
proof -
  assume n: "n < 2 ^ 64"
  then have u: "unat (word_of_nat n :: 64 word) = n" by (simp add: unat_of_nat)
  let ?d = "venc n @ drop (vsize n) (vi_data (vi_zero :: 64 varint))"
  have "vsize n \<le> length (vi_data (vi_zero :: 64 varint))"
    using vi_digits_fit [of "word_of_nat n :: 64 word"] u
    by (simp add: vi_digits_venc vi_zero_def vsize_def)
  then have "vi_set (word_of_nat n) (vi_zero :: 64 varint) =
      Inr \<lparr>vi_cache = Some (word_of_nat n), vi_data = ?d\<rparr>"
    using u by (simp add: vi_set_def mem_write_def vi_digits_venc vsize_def vi_zero_def)
  then show ?thesis
    by (simp add: vu64_bytes_def vi_compute_size_def vi_count_venc mem_read_def)
qed

lemma vu64_read_venc: "n < 2 ^ 31 \<Longrightarrow> vu64_read (venc n @ rest) = Inr (n, vsize n)"
proof -
  assume n: "n < 2 ^ 31"
  then have n64: "n < 2 ^ 64" by simp
  then have u: "unat (word_of_nat n :: 64 word) = n" by (simp add: unat_of_nat)
  have "length (venc n) \<le> length (vi_data (vi_zero :: 64 varint))"
    using vi_digits_fit [of "word_of_nat n :: 64 word"] u
    by (simp add: vi_digits_venc vi_zero_def)
  from vi_set_bytes_terminated [OF vi_emit_venc [of n "[]"] this, of rest] obtain rest' where
    "vi_set_bytes (venc n @ rest) (vi_zero :: 64 varint) =
      Inr \<lparr>vi_cache = None, vi_data = venc n @ rest'\<rparr>" by blast
  moreover have "vi_exact TYPE(64) n" using n by (simp add: vi_exact_def)
  ultimately show ?thesis
    by (simp add: vu64_read_def vi_compute_size_def vi_count_venc vi_get_def vi_get_venc u vsize_def)
qed

lemma vu64_read_bound: "vu64_read bs = Inr (n, k) \<Longrightarrow> 0 < k \<and> k \<le> length bs \<and> n < 2 ^ 64"
proof -
  assume r: "vu64_read bs = Inr (n, k)"
  then have "bs \<noteq> []" by (auto simp: vu64_read_def vi_set_bytes_def Let_def)
  from vi_load_from_wf [OF vi_wf_zero this, where 'a = 64] obtain k' s' where
    "vi_load_from bs (vi_zero :: 64 varint) = Inr (k', s')" "0 < k'" "k' \<le> length bs"
    by blast
  moreover have "n < 2 ^ 64"
    using r unsigned_less [where 'a = nat and 'b = 64]
    by (auto simp: vu64_read_def res_bind_eq_Inr split: prod.splits)
  ultimately show ?thesis
    using r by (auto simp: vu64_read_def vi_load_from_def res_bind_eq_Inr split: prod.splits)
qed

lemma vu64_read_emit:
  assumes "vi_emit d = Inr out" and "length out \<le> 10"
  shows "vu64_read (out @ rest) =
    res_bind (vi_get_from 0 (0 :: 64 word) out) (\<lambda>v. Inr (unat v, length out))"
proof -
  have "length out \<le> length (vi_data (vi_zero :: 64 varint))"
    using assms(2) by (simp add: vi_zero_def vi_bytes_def)
  from vi_set_bytes_terminated [OF assms(1) this, of rest] obtain rest' where
    "vi_set_bytes (out @ rest) (vi_zero :: 64 varint) =
      Inr \<lparr>vi_cache = None, vi_data = out @ rest'\<rparr>" by blast
  then show ?thesis
    using vi_emit_get [OF assms(1), of 0 "0 :: 64 word" rest']
      vi_emit_get [OF assms(1), of 0 "0 :: 64 word" "[]"]
    by (simp add: vu64_read_def vi_compute_size_def vi_emit_count [OF assms(1)] vi_get_def)
      (cases "vi_get_from 0 (0 :: 64 word) d"; simp)
qed

section \<open>Properties\<close>

text \<open>C15: a value stored through a varint is read back from the stored bytes, whatever follows them
  and whatever the two objects held before, for every type of at most 32 bits and for every wider
  value below 2^31; the reader consumes exactly the bytes the writer produced.\<close>

theorem varint_roundtrip:
  fixes w :: "'a::len word" and s t :: "'a varint"
  assumes "vi_wf s" and "vi_wf t" and "LENGTH('a) \<le> 32 \<or> unat w < 2 ^ 31"
  shows "\<exists>s' out t' t''. vi_set w s = Inr s' \<and> vi_unsafe_store_to s' = Inr out \<and>
    vi_load_from (out @ rest) t = Inr (length out, t') \<and> vi_get t' = Inr (w, t'') \<and> vi_wf t''"
proof -
  have ex: "vi_exact TYPE('a) (unat w)"
    using assms(3) unsigned_less [of w, where 'a = nat] by (auto simp: vi_exact_def)
  from vi_wf_set [OF assms(1)] obtain s' where
    s': "vi_set w s = Inr s'" "vi_wf s'" "vi_cache s' = Some w" by blast
  from vi_wf_store [OF s'(2)] obtain out rest' where
    out: "vi_emit (vi_data s') = Inr out" "vi_data s' = out @ rest'"
    by (auto simp: vi_unsafe_store_to_def)
  have get: "vi_get_from 0 0 (vi_data s') = Inr w"
    using s' vi_get_venc [OF ex] by (auto simp: vi_wf_def vi_shown_def)
  have len: "length out \<le> length (vi_data t)"
    using s'(2) assms(2) out(2) by (auto simp: vi_wf_def)
  from vi_set_bytes_terminated [OF out(1) len, of rest] obtain rest2 where
    load: "vi_set_bytes (out @ rest) t = Inr \<lparr>vi_cache = None, vi_data = out @ rest2\<rparr>" by blast
  have "vi_get_from 0 0 (out @ rest2) = Inr w" using get vi_emit_get [OF out(1)] by metis
  moreover have "out @ rest \<noteq> []" using vi_emit_last [OF out(1)] by simp
  then have wf: "vi_wf (\<lparr>vi_cache = None, vi_data = out @ rest2\<rparr> :: 'a varint)"
    using vi_wf_set_bytes [OF assms(2), of "out @ rest"] load by auto
  ultimately show ?thesis
    using s'(1) out(1) load vi_wf_get [OF wf]
    by (auto simp: vi_unsafe_store_to_def vi_load_from_def vi_compute_size_def
        vi_emit_count [OF out(1)] vi_get_def)
qed

theorem varint_roundtrip_witness:
  "\<exists>s' out t' t''. vi_set (300 :: 32 word) vi_zero = Inr s' \<and> vi_unsafe_store_to s' = Inr out \<and>
    vi_load_from (out @ [7]) (vi_zero :: 32 varint) = Inr (length out, t') \<and> vi_get t' = Inr (300, t'') \<and> vi_wf t''"
  by (rule varint_roundtrip) simp_all

text \<open>Loading from a non-empty buffer always succeeds, keeps the invariant of the class and never
  reports more bytes than the buffer or the array holds, so a caller that advances by the reported
  size stays inside its buffer.\<close>

theorem varint_load_bounds:
  fixes s :: "'a::len varint"
  assumes "vi_wf s" and "bs \<noteq> []"
  shows "\<exists>k s'. vi_load_from bs s = Inr (k, s') \<and> vi_wf s' \<and> 0 < k \<and> k \<le> length bs \<and>
    k \<le> vi_bytes TYPE('a)"
  using assms by (rule vi_load_from_wf)

theorem varint_load_bounds_witness:
  "\<exists>k s'. vi_load_from [255, 255] (vi_zero :: 64 varint) = Inr (k, s') \<and> vi_wf s' \<and> 0 < k \<and>
    k \<le> length [255, 255 :: byte] \<and> k \<le> vi_bytes TYPE(64)"
  by (rule varint_load_bounds) simp_all


end
