(* ===== verification/BufferOps.thy ===== *)
theory BufferOps
  imports Prelude
begin

text \<open>
  The buffer operations of \<open>src/BufferOps.cpp\<close> and \<open>include/sharpen/BufferOps.hpp\<close>: the
  table-driven CRC-16, Adler-32, Base64, the FNV-1a hashes and the comparison of buffers. The CRC is
  shown equal to the bitwise polynomial division it stands for, and to detect every corruption
  within two adjacent bytes.
\<close>

section \<open>CRC-16\<close>

definition crc16_table_height :: bytes where
  "crc16_table_height =
    [     0x00, 0xC1, 0x81, 0x40, 0x01, 0xC0, 0x80, 0x41, 0x01, 0xC0, 0x80, 0x41, 0x00, 0xC1, 0x81, 0x40,
     0x01, 0xC0, 0x80, 0x41, 0x00, 0xC1, 0x81, 0x40, 0x00, 0xC1, 0x81, 0x40, 0x01, 0xC0, 0x80, 0x41,
     0x01, 0xC0, 0x80, 0x41, 0x00, 0xC1, 0x81, 0x40, 0x00, 0xC1, 0x81, 0x40, 0x01, 0xC0, 0x80, 0x41,
     0x00, 0xC1, 0x81, 0x40, 0x01, 0xC0, 0x80, 0x41, 0x01, 0xC0, 0x80, 0x41, 0x00, 0xC1, 0x81, 0x40,
     0x01, 0xC0, 0x80, 0x41, 0x00, 0xC1, 0x81, 0x40, 0x00, 0xC1, 0x81, 0x40, 0x01, 0xC0, 0x80, 0x41,
     0x00, 0xC1, 0x81, 0x40, 0x01, 0xC0, 0x80, 0x41, 0x01, 0xC0, 0x80, 0x41, 0x00, 0xC1, 0x81, 0x40,
     0x00, 0xC1, 0x81, 0x40, 0x01, 0xC0, 0x80, 0x41, 0x01, 0xC0, 0x80, 0x41, 0x00, 0xC1, 0x81, 0x40,
     0x01, 0xC0, 0x80, 0x41, 0x00, 0xC1, 0x81, 0x40, 0x00, 0xC1, 0x81, 0x40, 0x01, 0xC0, 0x80, 0x41,
     0x01, 0xC0, 0x80, 0x41, 0x00, 0xC1, 0x81, 0x40, 0x00, 0xC1, 0x81, 0x40, 0x01, 0xC0, 0x80, 0x41,
     0x00, 0xC1, 0x81, 0x40, 0x01, 0xC0, 0x80, 0x41, 0x01, 0xC0, 0x80, 0x41, 0x00, 0xC1, 0x81, 0x40,
     0x00, 0xC1, 0x81, 0x40, 0x01, 0xC0, 0x80, 0x41, 0x01, 0xC0, 0x80, 0x41, 0x00, 0xC1, 0x81, 0x40,
     0x01, 0xC0, 0x80, 0x41, 0x00, 0xC1, 0x81, 0x40, 0x00, 0xC1, 0x81, 0x40, 0x01, 0xC0, 0x80, 0x41,
     0x00, 0xC1, 0x81, 0x40, 0x01, 0xC0, 0x80, 0x41, 0x01, 0xC0, 0x80, 0x41, 0x00, 0xC1, 0x81, 0x40,
     0x01, 0xC0, 0x80, 0x41, 0x00, 0xC1, 0x81, 0x40, 0x00, 0xC1, 0x81, 0x40, 0x01, 0xC0, 0x80, 0x41,
     0x01, 0xC0, 0x80, 0x41, 0x00, 0xC1, 0x81, 0x40, 0x00, 0xC1, 0x81, 0x40, 0x01, 0xC0, 0x80, 0x41,
     0x00, 0xC1, 0x81, 0x40, 0x01, 0xC0, 0x80, 0x41, 0x01, 0xC0, 0x80, 0x41, 0x00, 0xC1, 0x81, 0x40]"

definition crc16_table_low :: bytes where
  "crc16_table_low =
    [     0x00, 0xC0, 0xC1, 0x01, 0xC3, 0x03, 0x02, 0xC2, 0xC6, 0x06, 0x07, 0xC7, 0x05, 0xC5, 0xC4, 0x04,
     0xCC, 0x0C, 0x0D, 0xCD, 0x0F, 0xCF, 0xCE, 0x0E, 0x0A, 0xCA, 0xCB, 0x0B, 0xC9, 0x09, 0x08, 0xC8,
     0xD8, 0x18, 0x19, 0xD9, 0x1B, 0xDB, 0xDA, 0x1A, 0x1E, 0xDE, 0xDF, 0x1F, 0xDD, 0x1D, 0x1C, 0xDC,
     0x14, 0xD4, 0xD5, 0x15, 0xD7, 0x17, 0x16, 0xD6, 0xD2, 0x12, 0x13, 0xD3, 0x11, 0xD1, 0xD0, 0x10,
     0xF0, 0x30, 0x31, 0xF1, 0x33, 0xF3, 0xF2, 0x32, 0x36, 0xF6, 0xF7, 0x37, 0xF5, 0x35, 0x34, 0xF4,
     0x3C, 0xFC, 0xFD, 0x3D, 0xFF, 0x3F, 0x3E, 0xFE, 0xFA, 0x3A, 0x3B, 0xFB, 0x39, 0xF9, 0xF8, 0x38,
     0x28, 0xE8, 0xE9, 0x29, 0xEB, 0x2B, 0x2A, 0xEA, 0xEE, 0x2E, 0x2F, 0xEF, 0x2D, 0xED, 0xEC, 0x2C,
     0xE4, 0x24, 0x25, 0xE5, 0x27, 0xE7, 0xE6, 0x26, 0x22, 0xE2, 0xE3, 0x23, 0xE1, 0x21, 0x20, 0xE0,
     0xA0, 0x60, 0x61, 0xA1, 0x63, 0xA3, 0xA2, 0x62, 0x66, 0xA6, 0xA7, 0x67, 0xA5, 0x65, 0x64, 0xA4,
     0x6C, 0xAC, 0xAD, 0x6D, 0xAF, 0x6F, 0x6E, 0xAE, 0xAA, 0x6A, 0x6B, 0xAB, 0x69, 0xA9, 0xA8, 0x68,
     0x78, 0xB8, 0xB9, 0x79, 0xBB, 0x7B, 0x7A, 0xBA, 0xBE, 0x7E, 0x7F, 0xBF, 0x7D, 0xBD, 0xBC, 0x7C,
     0xB4, 0x74, 0x75, 0xB5, 0x77, 0xB7, 0xB6, 0x76, 0x72, 0xB2, 0xB3, 0x73, 0xB1, 0x71, 0x70, 0xB0,
     0x50, 0x90, 0x91, 0x51, 0x93, 0x53, 0x52, 0x92, 0x96, 0x56, 0x57, 0x97, 0x55, 0x95, 0x94, 0x54,
     0x9C, 0x5C, 0x5D, 0x9D, 0x5F, 0x9F, 0x9E, 0x5E, 0x5A, 0x9A, 0x9B, 0x5B, 0x99, 0x59, 0x58, 0x98,
     0x88, 0x48, 0x49, 0x89, 0x4B, 0x8B, 0x8A, 0x4A, 0x4E, 0x8E, 0x8F, 0x4F, 0x8D, 0x4D, 0x4C, 0x8C,
     0x44, 0x84, 0x85, 0x45, 0x87, 0x47, 0x46, 0x86, 0x82, 0x42, 0x43, 0x83, 0x41, 0x81, 0x80, 0x40]"

text \<open>The loop over \<open>crc.union_.height_\<close> and \<open>crc.union_.low_\<close>.\<close>

fun crc16_loop :: "byte \<Rightarrow> byte \<Rightarrow> bytes \<Rightarrow> byte \<times> byte" where
  "crc16_loop height low [] = (height, low)"
| "crc16_loop height low (d # ds) =
     (let index = unat (height XOR d)
      in crc16_loop (low XOR crc16_table_height ! index) (crc16_table_low ! index) ds)"

text \<open>After the loop the two bytes of the union are swapped and read as one integer.\<close>

definition union16 :: "byte \<Rightarrow> byte \<Rightarrow> 16 word" where
  "union16 low height = push_bit 8 (ucast height) OR ucast low"

definition crc16 :: "bytes \<Rightarrow> 16 word" where
  "crc16 data = (let (height, low) = crc16_loop 0xFF 0xFF data in union16 height low)"

text \<open>The reference: one bit of the division by the reflected polynomial at a time.\<close>

definition crc_bit :: "16 word \<Rightarrow> 16 word" where
  "crc_bit r = (if bit r 0 then drop_bit 1 r XOR 0xA001 else drop_bit 1 r)"

definition crc_byte :: "16 word \<Rightarrow> byte \<Rightarrow> 16 word" where
  "crc_byte r d = (crc_bit ^^ 8) (r XOR ucast d)"

definition crc16_reference :: "bytes \<Rightarrow> 16 word" where
  "crc16_reference data = foldl crc_byte 0xFFFF data"

lemma crc_bit_xor: "crc_bit (a XOR b) = crc_bit a XOR crc_bit b"
  unfolding crc_bit_def by (auto simp: bit_xor_iff drop_bit_xor xor.assoc xor.commute xor.left_commute)

lemma crc_bits_xor: "(crc_bit ^^ n) (a XOR b) = (crc_bit ^^ n) a XOR (crc_bit ^^ n) b"
  by (induction n) (simp_all add: crc_bit_xor)

lemma crc_bits_high: "(crc_bit ^^ 8) (push_bit 8 (ucast (x :: byte))) = ucast x"
proof -
  have step: "n \<le> 8 \<Longrightarrow> (crc_bit ^^ n) (push_bit 8 (ucast x)) = push_bit (8 - n) (ucast x)" for n
  proof (induction n)
    case 0
    then show ?case by simp
  next
    case (Suc n)
    let ?w = "ucast x :: 16 word"
    have "\<not> bit (push_bit (8 - n) ?w) 0" using Suc.prems by (simp add: bit_push_bit_iff)
    moreover have "drop_bit 1 (push_bit (8 - n) ?w) = push_bit (8 - Suc n) ?w"
      using Suc.prems unat_byte_less [of x]
      by (intro bit_word_eqI) (auto simp: bit_simps Suc_diff_le dest: bit_imp_le_length)
    ultimately show ?case using Suc by (simp add: crc_bit_def)
  qed
  show ?thesis using step [of 8] by simp
qed

text \<open>
  The table lists the images of all bytes. By linearity the image of \<open>2 ^ k + j\<close> is that of \<open>j\<close>
  XOR that of \<open>2 ^ k\<close>, so the list doubles with each bit.
\<close>

fun crc_images :: "nat \<Rightarrow> 16 word list" where
  "crc_images 0 = [0]"
| "crc_images (Suc k) = crc_images k @ map (\<lambda>v. v XOR (crc_bit ^^ 8) (2 ^ k)) (crc_images k)"

lemma length_crc_images [simp]: "length (crc_images k) = 2 ^ k"
  by (induction k) simp_all

lemma crc_bits_0 [simp]: "(crc_bit ^^ n) 0 = 0"
  by (induction n) (simp_all add: crc_bit_def)

lemma pow2_plus_xor:
  fixes j :: nat
  assumes "j < 2 ^ k"
  shows "word_of_nat (2 ^ k + j) = (word_of_nat j XOR 2 ^ k :: 16 word)"
proof -
  have "j AND 2 ^ k = 0"
  proof (rule bit_eqI)
    fix n
    have "take_bit k j = j" using assms by (simp add: take_bit_nat_eq_self_iff)
    then have "bit j n \<Longrightarrow> n < k" by (metis bit_take_bit_iff)
    then show "bit (j AND 2 ^ k) n = bit (0 :: nat) n"
      by (auto simp: bit_and_iff bit_exp_iff)
  qed
  then have "2 ^ k + j = j XOR 2 ^ k"
    by (simp add: add.commute disjunctive_add_eq_xor)
  then show ?thesis by (simp add: of_nat_xor_eq)
qed

lemma crc_images_nth: "i < 2 ^ k \<Longrightarrow> crc_images k ! i = (crc_bit ^^ 8) (word_of_nat i)"
proof (induction k arbitrary: i)
  case 0
  then show ?case by simp
next
  case (Suc k)
  show ?case
  proof (cases "i < 2 ^ k")
    case True
    with Suc.IH show ?thesis by (simp add: nth_append)
  next
    case False
    define j where "j = i - 2 ^ k"
    with False Suc.prems have j: "i = 2 ^ k + j" "j < 2 ^ k" by auto
    then have "crc_images (Suc k) ! i = crc_images k ! j XOR (crc_bit ^^ 8) (2 ^ k)"
      by (simp add: nth_append)
    also have "\<dots> = (crc_bit ^^ 8) (word_of_nat i)"
      using Suc.IH [OF j(2)] j by (simp only: pow2_plus_xor crc_bits_xor)
    finally show ?thesis .
  qed
qed

lemma funpow_8: "(f ^^ 8) x = f (f (f (f (f (f (f (f x)))))))"
  by (simp add: numeral_eq_Suc)

lemma crc_basis:
  "(crc_bit ^^ 8) 1 = 0xC0C1" "(crc_bit ^^ 8) 2 = 0xC181"
  "(crc_bit ^^ 8) 4 = 0xC301" "(crc_bit ^^ 8) 8 = 0xC601"
  "(crc_bit ^^ 8) 16 = 0xCC01" "(crc_bit ^^ 8) 32 = 0xD801"
  "(crc_bit ^^ 8) 64 = 0xF001" "(crc_bit ^^ 8) 128 = 0xA001"
  by (simp_all add: crc_bit_def funpow_8)

lemma crc_tables_images:
  "crc_images (Suc (Suc (Suc (Suc (Suc (Suc (Suc (Suc 0)))))))) =
   map2 (\<lambda>h l. union16 h l) crc16_table_height crc16_table_low"
  by (simp add: crc_basis union16_def crc16_table_height_def crc16_table_low_def)

lemma length_crc_tables [simp]:
  "length crc16_table_height = 256" "length crc16_table_low = 256"
  by (simp_all add: crc16_table_height_def crc16_table_low_def)

lemma crc_table_entry:
  assumes "i < 256"
  shows "union16 (crc16_table_height ! i) (crc16_table_low ! i) = (crc_bit ^^ 8) (word_of_nat i)"
proof -
  have "(crc_bit ^^ 8) (word_of_nat i) = crc_images 8 ! i"
    using assms by (simp add: crc_images_nth)
  also have "crc_images 8 = crc_images (Suc (Suc (Suc (Suc (Suc (Suc (Suc (Suc 0))))))))"
    by (simp add: numeral_eq_Suc)
  also have "\<dots> ! i = union16 (crc16_table_height ! i) (crc16_table_low ! i)"
    using assms by (simp only: crc_tables_images) simp
  finally show ?thesis by simp
qed

lemma union16_xor: "union16 (a XOR c) (b XOR d) = union16 a b XOR union16 c d"
  unfolding union16_def
  by (intro bit_word_eqI) (auto simp: bit_simps dest: bit_imp_le_length)

lemma crc_byte_union:
  "crc_byte (union16 height low) d =
   union16 (low XOR crc16_table_height ! unat (height XOR d)) (crc16_table_low ! unat (height XOR d))"
proof -
  let ?i = "height XOR d"
  have "union16 height low XOR ucast d = push_bit 8 (ucast low) XOR ucast ?i"
    unfolding union16_def
    by (intro bit_word_eqI) (auto simp: bit_simps dest: bit_imp_le_length)
  then have "crc_byte (union16 height low) d =
      ucast low XOR (crc_bit ^^ 8) (ucast ?i)"
    by (simp only: crc_byte_def crc_bits_xor crc_bits_high)
  also have "(crc_bit ^^ 8) (ucast ?i) =
      union16 (crc16_table_height ! unat ?i) (crc16_table_low ! unat ?i)"
    using crc_table_entry [OF unat_byte_less [of ?i]] by simp
  also have "ucast low = union16 low 0"
    by (simp add: union16_def)
  finally show ?thesis by (simp only: union16_xor [symmetric]) simp
qed

lemma crc16_loop_reference:
  "crc16_loop height low data = (h, l) \<Longrightarrow> foldl crc_byte (union16 height low) data = union16 h l"
  by (induction data arbitrary: height low) (auto simp: Let_def crc_byte_union)

section \<open>Error detection of the CRC\<close>

lemma word_xor_cancel: "a XOR c = b XOR c \<Longrightarrow> a = (b :: 'a::len word)"
  by (metis xor.assoc xor.right_neutral xor_self_eq)

lemma crc_bit_inj: "crc_bit a = crc_bit b \<Longrightarrow> a = b"
proof -
  assume eq: "crc_bit a = crc_bit b"
  have top: "bit (crc_bit r) 15 = bit r 0" for r
    by (auto simp: crc_bit_def bit_simps dest: bit_imp_le_length)
  have lsb: "bit a 0 = bit b 0" using top [of a] top [of b] eq by simp
  then have "drop_bit 1 a = drop_bit 1 b"
    using eq by (auto simp: crc_bit_def dest: word_xor_cancel split: if_splits)
  then have rest: "bit a (Suc n) = bit b (Suc n)" for n
    by (metis One_nat_def bit_drop_bit_eq comp_apply plus_1_eq_Suc)
  show "a = b"
  proof (rule bit_word_eqI)
    fix n show "bit a n = bit b n" using lsb rest by (cases n) auto
  qed
qed

lemma crc_bits_inj: "(crc_bit ^^ n) a = (crc_bit ^^ n) b \<Longrightarrow> a = b"
  by (induction n) (auto dest: crc_bit_inj)

lemma crc_byte_inj: "crc_byte r d = crc_byte s d \<Longrightarrow> r = s"
proof -
  assume "crc_byte r d = crc_byte s d"
  then have "r XOR ucast d = s XOR ucast d" unfolding crc_byte_def by (rule crc_bits_inj)
  then show "r = s" by (rule word_xor_cancel)
qed

lemma crc_bytes_inj: "foldl crc_byte r data = foldl crc_byte s data \<Longrightarrow> r = s"
  by (induction data arbitrary: r s) (auto dest: crc_byte_inj)

lemma crc_bits_16: "(crc_bit ^^ 8) ((crc_bit ^^ 8) z) = (crc_bit ^^ 16) z"
proof -
  have "(crc_bit ^^ (8 + 8)) z = (crc_bit ^^ 8) ((crc_bit ^^ 8) z)"
    by (simp only: funpow_add comp_apply)
  moreover have "(8 :: nat) + 8 = 16" by simp
  ultimately show ?thesis by (simp only:)
qed

lemma crc_two_bytes:
  "crc_byte (crc_byte r x) y = (crc_bit ^^ 16) (r XOR union16 x y)"
proof -
  have "crc_byte (crc_byte r x) y = (crc_bit ^^ 8) ((crc_bit ^^ 8) (r XOR ucast x) XOR
      (crc_bit ^^ 8) (push_bit 8 (ucast y)))"
    by (simp only: crc_byte_def crc_bits_high)
  also have "\<dots> = (crc_bit ^^ 8) ((crc_bit ^^ 8) (r XOR ucast x XOR push_bit 8 (ucast y)))"
    by (simp only: crc_bits_xor xor.assoc)
  also have "r XOR ucast x XOR push_bit 8 (ucast y) = r XOR union16 x y"
    unfolding union16_def
    by (intro bit_word_eqI) (auto simp: bit_simps dest: bit_imp_le_length)
  finally show ?thesis
    by (simp only: crc_bits_16)
qed

lemma union16_inj: "union16 a b = union16 c d \<Longrightarrow> a = c \<and> b = d"
proof -
  assume eq: "union16 a b = union16 c d"
  have lo: "bit (union16 a b) n = bit a n" if "n < 8" for a b n
    using that by (auto simp: union16_def bit_simps)
  have hi: "bit (union16 a b) (8 + n) = bit b n" if "n < 8" for a b n
    using that by (auto simp: union16_def bit_simps dest: bit_imp_le_length)
  have "a = c"
  proof (rule bit_word_eqI)
    fix n assume "n < LENGTH(8)"
    then have "n < 8" by simp
    then show "bit a n = bit c n" using lo [of n a b] lo [of n c d] eq by simp
  qed
  moreover have "b = d"
  proof (rule bit_word_eqI)
    fix n assume "n < LENGTH(8)"
    then have "n < 8" by simp
    then show "bit b n = bit d n" using hi [of n a b] hi [of n c d] eq by simp
  qed
  ultimately show ?thesis by simp
qed

section \<open>Adler-32\<close>

text \<open>
  The two halves of the union are 16-bit: \<open>low_ += *data\<close> adds the signed character and is
  truncated to 16 bits before the reduction by 65521, and so is \<open>height_ += low_\<close>.
\<close>

fun adler32_loop :: "16 word \<Rightarrow> 16 word \<Rightarrow> bytes \<Rightarrow> 16 word \<times> 16 word" where
  "adler32_loop low height [] = (low, height)"
| "adler32_loop low height (d # ds) =
     (let low1 = (low + scast d) mod 65521;
          height1 = (height + low1) mod 65521
      in adler32_loop low1 height1 ds)"

definition adler32 :: "bytes \<Rightarrow> 32 word" where
  "adler32 data =
     (let (low, height) = adler32_loop 1 0 data in push_bit 16 (ucast height) OR ucast low)"

text \<open>The Adler-32 checksum as RFC 1950 defines it, on unbounded numbers and unsigned bytes.\<close>

fun adler_reference :: "nat \<Rightarrow> nat \<Rightarrow> bytes \<Rightarrow> nat \<times> nat" where
  "adler_reference a b [] = (a, b)"
| "adler_reference a b (d # ds) =
     (let a1 = (a + unat d) mod 65521 in adler_reference a1 ((b + a1) mod 65521) ds)"

fun adler_sums :: "nat \<Rightarrow> nat \<Rightarrow> bytes \<Rightarrow> nat \<times> nat" where
  "adler_sums a b [] = (a, b)"
| "adler_sums a b (d # ds) = adler_sums (a + unat d) (b + (a + unat d)) ds"

lemma adler_sums_mono: "a \<le> fst (adler_sums a b ds) \<and> b \<le> snd (adler_sums a b ds)"
proof (induction ds arbitrary: a b)
  case Nil
  then show ?case by simp
next
  case (Cons d ds)
  from Cons [of "a + unat d" "b + (a + unat d)"] show ?case by auto
qed

lemma adler_sums_low_le_high:
  "ds \<noteq> [] \<Longrightarrow> fst (adler_sums a b ds) \<le> snd (adler_sums a b ds)"
proof (induction ds arbitrary: a b)
  case Nil
  then show ?case by simp
next
  case (Cons d ds)
  show ?case
  proof (cases "ds = []")
    case True
    then show ?thesis by simp
  next
    case False
    with Cons.IH show ?thesis by simp
  qed
qed

lemma less_7_cases: "(n :: nat) < 8 \<Longrightarrow> n \<noteq> 7 \<Longrightarrow> n < 7"
  by simp

lemma scast_ascii: "unat (d :: byte) < 128 \<Longrightarrow> (scast d :: 16 word) = word_of_nat (unat d)"
proof -
  assume d: "unat d < 128"
  then have "\<not> bit d 7" by (simp add: byte_bit_7)
  moreover have "bit d n \<Longrightarrow> n < 8" for n using bit_imp_le_length [of d n] by simp
  ultimately have no: "7 \<le> n \<Longrightarrow> \<not> bit d n" for n by (metis less_7_cases not_le)
  then show ?thesis
    by (intro bit_word_eqI) (auto simp: bit_simps min_def no)
qed

section \<open>Base64\<close>

text \<open>The alphabet string \<open>base64Hex\<close> as character codes.\<close>

definition base64_hex :: bytes where
  "base64_hex =
    [65, 66, 67, 68, 69, 70, 71, 72, 73, 74, 75, 76, 77, 78, 79, 80,
     81, 82, 83, 84, 85, 86, 87, 88, 89, 90, 97, 98, 99, 100, 101, 102,
     103, 104, 105, 106, 107, 108, 109, 110, 111, 112, 113, 114, 115, 116, 117, 118,
     119, 120, 121, 122, 48, 49, 50, 51, 52, 53, 54, 55, 56, 57, 43, 45]"

definition base64_encode_size :: "nat \<Rightarrow> nat" where
  "base64_encode_size sz = sz div 3 * 4 + (if sz mod 3 \<noteq> 0 then 4 else 0)"

definition base64_decode_size :: "nat \<Rightarrow> nat" where
  "base64_decode_size sz = sz div 4 * 3"

abbreviation base64_char :: "byte \<Rightarrow> byte" where
  "base64_char i \<equiv> base64_hex ! unat i"

text \<open>The loop fills \<open>srcBuf\<close> three bytes at a time; what is left is padded.\<close>

fun base64_groups :: "bytes \<Rightarrow> bytes" where
  "base64_groups (a # b # c # src) =
     base64_char (drop_bit 2 a) #
     base64_char (push_bit 4 (a AND 3) OR drop_bit 4 b) #
     base64_char (push_bit 2 (b AND 15) OR drop_bit 6 c) #
     base64_char (c AND 63) # base64_groups src"
| "base64_groups [a, b] =
     [base64_char (drop_bit 2 a),
      base64_char (push_bit 4 (a AND 3) OR drop_bit 4 b),
      base64_char (push_bit 2 (b AND 15) OR drop_bit 6 0), 61]"
| "base64_groups [a] =
     [base64_char (drop_bit 2 a),
      base64_char (push_bit 4 (a AND 3) OR drop_bit 4 0), 61, 61]"
| "base64_groups [] = []"

definition base64_encode :: "nat \<Rightarrow> bytes \<Rightarrow> bytes option" where
  "base64_encode dst_size src =
     (if dst_size < base64_encode_size (length src) then None else Some (base64_groups src))"

definition base64_decode_mapping :: "byte \<Rightarrow> byte" where
  "base64_decode_mapping c =
     (if 65 \<le> c \<and> c \<le> 90 then c - 65
      else if 97 \<le> c \<and> c \<le> 122 then c - 97 + 24
      else if c = 43 then 62
      else if c = 61 then 0
      else 63)"

fun base64_ungroup :: "bytes \<Rightarrow> bytes" where
  "base64_ungroup (a # b # c # d # src) =
     (let m0 = base64_decode_mapping a; m1 = base64_decode_mapping b;
          m2 = base64_decode_mapping c; m3 = base64_decode_mapping d
      in (push_bit 2 m0 OR drop_bit 4 m1) # (push_bit 4 m1 OR drop_bit 2 m2) #
         (push_bit 6 m2 OR m3) # base64_ungroup src)"
| "base64_ungroup _ = []"

definition base64_decode :: "nat \<Rightarrow> bytes \<Rightarrow> bytes option" where
  "base64_decode dst_size src =
     (if dst_size < base64_decode_size (length src) \<or> length src mod 4 \<noteq> 0 then None
      else Some (base64_ungroup src))"

lemma base64_encode_size_step: "base64_encode_size (n + 3) = base64_encode_size n + 4"
  using div_add_self2 [of 3 n] by (simp add: base64_encode_size_def)

lemma length_base64_groups: "length (base64_groups src) = base64_encode_size (length src)"
proof (induction src rule: base64_groups.induct)
  case (1 a b c src)
  have "length (a # b # c # src) = length src + 3" by simp
  with 1 show ?case by (simp only: base64_encode_size_step) simp
qed (simp_all add: base64_encode_size_def)

section \<open>Hashes\<close>

definition fnv_step :: "64 word \<Rightarrow> 64 word \<Rightarrow> byte \<Rightarrow> 64 word" where
  "fnv_step prime hash d = (hash XOR scast d) * prime"

definition buffer_hash32 :: "bytes \<Rightarrow> 64 word" where
  "buffer_hash32 data = foldl (fnv_step 0x01000193) 0x811c9dc5 data"

definition buffer_hash64 :: "bytes \<Rightarrow> 64 word" where
  "buffer_hash64 data = foldl (fnv_step 0x100000001B3) 0xcbf29ce484222325 data"

definition buffer_hash :: "bytes \<Rightarrow> 64 word" where
  "buffer_hash data = buffer_hash64 data"

section \<open>Comparison\<close>

text \<open>\<open>std::memcmp\<close>: the difference of the first differing bytes, as unsigned values.\<close>

fun memcmp :: "bytes \<Rightarrow> bytes \<Rightarrow> nat \<Rightarrow> int" where
  "memcmp (a # as) (b # bs) (Suc n) = (if a = b then memcmp as bs n else uint a - uint b)"
| "memcmp _ _ _ = 0"

definition buffer_compare :: "bytes \<Rightarrow> bytes \<Rightarrow> int" where
  "buffer_compare l r =
     (let c = memcmp l r (min (length l) (length r)) in
      if c \<noteq> 0 then (if c > 0 then 1 else -1)
      else if length l > length r then 1
      else if length r > length l then -1
      else 0)"

lemma buffer_compare_Cons:
  "buffer_compare (a # as) (b # bs) =
     (if a = b then buffer_compare as bs else if uint a > uint b then 1 else -1)"
  by (auto simp: buffer_compare_def Let_def word_uint_eq_iff)

lemma buffer_compare_less: "buffer_compare l r = -1 \<longleftrightarrow> bytes_less l r"
proof (induction l r rule: bytes_less.induct)
  case (1 ys)
  then show ?case by (cases ys) (simp_all add: buffer_compare_def)
next
  case (2 x xs)
  then show ?case by (simp add: buffer_compare_def)
next
  case (3 x xs y ys)
  then show ?case by (auto simp: buffer_compare_Cons word_less_def word_uint_eq_iff)
qed

lemma buffer_compare_eq: "buffer_compare l r = 0 \<longleftrightarrow> l = r"
proof (induction l r rule: bytes_less.induct)
  case (1 ys)
  then show ?case by (cases ys) (simp_all add: buffer_compare_def)
next
  case (2 x xs)
  then show ?case by (simp add: buffer_compare_def)
next
  case (3 x xs y ys)
  then show ?case by (auto simp: buffer_compare_Cons)
qed

lemma buffer_compare_greater: "buffer_compare l r = 1 \<longleftrightarrow> bytes_less r l"
proof -
  have "buffer_compare l r \<in> {-1, 0, 1}" by (simp add: buffer_compare_def Let_def)
  then show ?thesis
    using buffer_compare_less [of l r] buffer_compare_eq [of l r] bytes_less_linear [of l r]
      bytes_less_asym [of l r] by auto
qed

lemma adler32_loop_small:
  assumes "\<forall>d\<in>set ds. unat d < 128" and "snd (adler_sums a b ds) < 65521"
    and "fst (adler_sums a b ds) < 65521"
  shows "adler32_loop (word_of_nat a) (word_of_nat b) ds =
    map_prod word_of_nat word_of_nat (adler_reference a b ds)"
  using assms
proof (induction ds arbitrary: a b)
  case Nil
  then show ?case by simp
next
  case (Cons d ds)
  let ?a = "a + unat d" and ?b = "b + (a + unat d)"
  have lt: "?a < 65521" "?b < 65521"
    using adler_sums_mono [of ?a ?b ds] Cons.prems(2,3) by auto
  have low: "(word_of_nat a + scast d) mod 65521 = (word_of_nat ?a :: 16 word)"
  proof -
    have "(word_of_nat a + scast d :: 16 word) = word_of_nat ?a"
      using Cons.prems(1) by (simp add: scast_ascii)
    then show ?thesis using lt(1)
      by (intro word_unat_eq_iff [THEN iffD2]) (simp add: unat_mod_distrib unat_of_nat del: of_nat_add)
  qed
  have high: "(word_of_nat b + word_of_nat ?a) mod 65521 = (word_of_nat ?b :: 16 word)"
  proof -
    have "(word_of_nat b + word_of_nat ?a :: 16 word) = word_of_nat ?b" by simp
    then show ?thesis using lt(2)
      by (intro word_unat_eq_iff [THEN iffD2]) (simp add: unat_mod_distrib unat_of_nat del: of_nat_add)
  qed
  have "adler_reference a b (d # ds) = adler_reference ?a ?b ds"
    using lt by (simp add: Let_def)
  with Cons.IH [of ?a ?b] Cons.prems low high show ?case
    by (simp add: Let_def del: of_nat_add)
qed

lemma crc16_foldl: "crc16 data = foldl crc_byte 0xFFFF data"
proof -
  obtain h l where hl: "crc16_loop 0xFF 0xFF data = (h, l)" by force
  have "union16 0xFF 0xFF = 0xFFFF" by (simp add: union16_def)
  with crc16_loop_reference [OF hl] show ?thesis by (simp add: crc16_def hl)
qed

section \<open>Properties\<close>

text \<open>C22: the table-driven CRC with its two swapped bytes is the bitwise CRC-16/MODBUS: reflected
  polynomial 0xA001, initial value 0xFFFF, one shift per bit.\<close>

theorem crc16_is_modbus: "crc16 data = crc16_reference data"
  by (simp add: crc16_foldl crc16_reference_def)

text \<open>the checksum of the storage blocks detects every corruption that stays within two adjacent
  bytes, wherever they are in the data.\<close>

theorem crc16_detects_adjacent_bytes:
  assumes "[x1, x2] \<noteq> [y1, y2]"
  shows "crc16 (pre @ [x1, x2] @ post) \<noteq> crc16 (pre @ [y1, y2] @ post)"
proof
  assume eq: "crc16 (pre @ [x1, x2] @ post) = crc16 (pre @ [y1, y2] @ post)"
  let ?r = "foldl crc_byte 0xFFFF pre"
  have "foldl crc_byte (crc_byte (crc_byte ?r x1) x2) post =
      foldl crc_byte (crc_byte (crc_byte ?r y1) y2) post"
    using eq by (simp add: crc16_foldl)
  then have "crc_byte (crc_byte ?r x1) x2 = crc_byte (crc_byte ?r y1) y2"
    by (rule crc_bytes_inj)
  then have "?r XOR union16 x1 x2 = ?r XOR union16 y1 y2"
    unfolding crc_two_bytes by (rule crc_bits_inj)
  then have "union16 x1 x2 = union16 y1 y2"
    by (metis word_xor_cancel xor.commute)
  then show False using union16_inj assms by blast
qed

theorem crc16_detects_adjacent_bytes_witness:
  "crc16 ([1, 2] @ [3, 4] @ [5]) \<noteq> crc16 ([1, 2] @ [3, 5] @ [5])"
  by (rule crc16_detects_adjacent_bytes) simp

text \<open>as long as the bytes are 7-bit and the sums stay below 65521, the checksum is the one of
  RFC 1950.\<close>

theorem adler32_small:
  assumes "\<forall>d\<in>set data. unat d < 128" and "snd (adler_sums 1 0 data) < 65521" and "data \<noteq> []"
  shows "adler32 data =
    (let (a, b) = adler_reference 1 0 data
     in push_bit 16 (ucast (word_of_nat b :: 16 word)) OR ucast (word_of_nat a :: 16 word))"
proof -
  have "fst (adler_sums 1 0 data) < 65521"
    using adler_sums_low_le_high [OF assms(3), of 1 0] assms(2) by linarith
  from adler32_loop_small [OF assms(1,2) this] show ?thesis
    by (simp add: adler32_def case_prod_unfold Let_def)
qed

theorem adler32_small_witness:
  "adler32 [97, 98] =
    (let (a, b) = adler_reference 1 0 [97, 98]
     in push_bit 16 (ucast (word_of_nat b :: 16 word)) OR ucast (word_of_nat a :: 16 word))"
  by (rule adler32_small) simp_all

text \<open>outside that range it is not: a byte above 127 is added as a negative number, and a long
  enough ASCII text overflows the 16-bit halves before they are reduced.\<close>

theorem adler32_differs:
  "adler32_loop 1 0 [128] = (65409, 65409) \<and> adler_reference 1 0 [128] = (129, 129) \<and>
   adler32_loop 65500 0 [100] = (64, 64) \<and> adler_reference 65500 0 [100] = (79, 79)"
  by (simp add: Let_def)

text \<open>Base64 encoding writes exactly the number of characters announced for the source and
  refuses a destination that is too small.\<close>

theorem base64_encode_length:
  "base64_encode n src =
    (if n < base64_encode_size (length src) then None else Some (base64_groups src)) \<and>
   length (base64_groups src) = base64_encode_size (length src)"
  by (simp add: base64_encode_def length_base64_groups)

text \<open>decoding does not invert encoding: lower-case letters are mapped two too low and all
  digits to 63.\<close>

theorem base64_decode_broken:
  "base64_encode 4 [105, 183, 29] = Some [97, 98, 99, 100] \<and>
   base64_decode 3 [97, 98, 99, 100] = Some [97, 150, 155] \<and>
   base64_encode 4 [211, 77, 52] = Some [48, 48, 48, 48] \<and>
   base64_decode 3 [48, 48, 48, 48] = Some [255, 255, 255]"
  by (simp add: base64_encode_def base64_decode_def base64_encode_size_def base64_decode_size_def
      base64_hex_def base64_decode_mapping_def Let_def)

text \<open>\<open>BufferCompare\<close> is the total lexicographic order of unsigned bytes that the sorted
  containers rely on: it is -1, 0 or 1 exactly for less, equal and greater.\<close>

theorem buffer_compare_order:
  "(buffer_compare l r = -1 \<longleftrightarrow> bytes_less l r) \<and> (buffer_compare l r = 0 \<longleftrightarrow> l = r) \<and>
   (buffer_compare l r = 1 \<longleftrightarrow> bytes_less r l) \<and> buffer_compare r l = - buffer_compare l r"
proof -
  have "buffer_compare l r \<in> {-1, 0, 1}" "buffer_compare r l \<in> {-1, 0, 1}"
    by (simp_all add: buffer_compare_def Let_def)
  then have "buffer_compare r l = - buffer_compare l r"
    using buffer_compare_less [of l r] buffer_compare_eq [of l r] buffer_compare_greater [of l r]
      buffer_compare_less [of r l] buffer_compare_eq [of r l] buffer_compare_greater [of r l] by auto
  then show ?thesis
    using buffer_compare_less buffer_compare_eq buffer_compare_greater by simp
qed

end
