(* ===== verification/IntOps.thy ===== *)
theory IntOps
  imports Prelude
begin

text \<open>
  The integer helpers of \<open>include/sharpen/IntOps.hpp\<close> and \<open>include/sharpen/ByteOrder.hpp\<close>:
  the checked conversions \<open>CheckIntCast\<close> and \<open>IntCast\<close> with their overload resolution, the
  significant size \<open>MinSizeof\<close>, and the byte reversal \<open>ConvertEndian\<close>.
\<close>

section \<open>Checked conversions\<close>

text \<open>An integral type: its number of bits and its signedness.\<close>

record ctype =
  ct_bits :: nat
  ct_signed :: bool

definition ct_max :: "ctype \<Rightarrow> int" where
  "ct_max t = (if ct_signed t then 2 ^ (ct_bits t - 1) - 1 else 2 ^ ct_bits t - 1)"

definition ct_min :: "ctype \<Rightarrow> int" where
  "ct_min t = (if ct_signed t then - (2 ^ (ct_bits t - 1)) else 0)"

definition ct_range :: "ctype \<Rightarrow> int \<Rightarrow> bool" where
  "ct_range t v \<longleftrightarrow> ct_min t \<le> v \<and> v \<le> ct_max t"

text \<open>
  The overloads of \<open>InternalCheckIntCast\<close> differ in how many of the dummy arguments are matched
  before the ellipsis, so the enabled one with the most \<open>int\<close> parameters is chosen: equal types,
  then a widening of an unsigned value, then equal signedness, then unsigned to signed, then signed
  to unsigned.
\<close>

definition check_int_cast :: "ctype \<Rightarrow> ctype \<Rightarrow> int \<Rightarrow> bool" where
  "check_int_cast to from v =
     (if to = from then True
      else if (ct_bits from < ct_bits to \<or> (ct_bits to = ct_bits from \<and> \<not> ct_signed to))
        \<and> \<not> ct_signed from then True
      else if ct_signed to = ct_signed from then v \<le> ct_max to \<and> ct_min to \<le> v
      else if \<not> ct_signed from then v \<le> ct_max to
      else 0 \<le> v \<and> v \<le> ct_max to)"

definition int_cast :: "ctype \<Rightarrow> ctype \<Rightarrow> int \<Rightarrow> exn + int" where
  "int_cast to from v = (if check_int_cast to from v then Inr v else Inl Bad_cast)"

lemma check_int_cast_range:
  assumes "ct_range from v" and "0 < ct_bits from" and "0 < ct_bits to"
  shows "check_int_cast to from v \<longleftrightarrow> ct_range to v"
proof -
  have mono: "(2 :: int) ^ a - 1 < 2 ^ b" if "a \<le> b" for a b :: nat
    using power_increasing [OF that, of "2 :: int"] by linarith
  have wide: "ct_max from \<le> ct_max to"
    if "\<not> ct_signed from" "ct_bits from < ct_bits to \<or> (ct_bits to = ct_bits from \<and> \<not> ct_signed to)"
  proof -
    have "ct_bits from \<le> (if ct_signed to then ct_bits to - 1 else ct_bits to)"
      using that by auto
    then show ?thesis
      using that(1) mono [of "ct_bits from" "ct_bits to"] mono [of "ct_bits from" "ct_bits to - 1"]
      by (auto simp: ct_max_def split: if_splits)
  qed
  show ?thesis
  proof (cases "to = from")
    case True
    with assms(1) show ?thesis by (simp add: check_int_cast_def)
  next
    case False
    have "0 \<le> v" if "\<not> ct_signed from" using that assms(1) by (simp add: ct_range_def ct_min_def)
    moreover have "v \<le> ct_max to" if "\<not> ct_signed from"
      "ct_bits from < ct_bits to \<or> (ct_bits to = ct_bits from \<and> \<not> ct_signed to)"
      using wide [OF that] assms(1) by (simp add: ct_range_def)
    moreover have "- (2 ^ n) \<le> w" if "0 \<le> w" for w :: int and n :: nat
      using that by (rule order_trans [rotated]) simp
    ultimately show ?thesis
      using False by (auto simp: check_int_cast_def ct_range_def ct_min_def)
  qed
qed

section \<open>Significant bytes\<close>

text \<open>
  \<open>MinSizeof\<close> on a little-endian machine: the index of the highest non-zero byte, scanning down
  from \<open>sizeof(val)\<close>.
\<close>

fun min_sizeof_from :: "nat \<Rightarrow> bytes \<Rightarrow> nat" where
  "min_sizeof_from 0 data = 1"
| "min_sizeof_from (Suc i) data = (if data ! i \<noteq> 0 then Suc i else min_sizeof_from i data)"

definition min_sizeof :: "bytes \<Rightarrow> nat" where
  "min_sizeof data = min_sizeof_from (length data) data"

lemma le_nat_append: "le_nat (xs @ ys) = le_nat xs + 256 ^ length xs * le_nat ys"
  by (induction xs) (simp_all add: algebra_simps)

lemma min_sizeof_from_props:
  assumes "n \<le> length data"
  shows "1 \<le> min_sizeof_from n data \<and> min_sizeof_from n data \<le> max 1 n \<and>
    (\<forall>i. min_sizeof_from n data \<le> i \<longrightarrow> i < n \<longrightarrow> data ! i = 0) \<and>
    (1 < min_sizeof_from n data \<longrightarrow> data ! (min_sizeof_from n data - 1) \<noteq> 0)"
  using assms
proof (induction n)
  case 0
  then show ?case by simp
next
  case (Suc n)
  then show ?case by (auto simp: less_Suc_eq)
qed

lemma le_nat_zeros: "\<forall>b\<in>set ys. b = 0 \<Longrightarrow> le_nat ys = 0"
  by (induction ys) auto

section \<open>Byte reversal\<close>

text \<open>The loop of \<open>ConvertEndian\<close>: swap positions \<open>i\<close> and \<open>size - 1 - i\<close> for \<open>i < size/2\<close>.\<close>

function convert_endian_from :: "nat \<Rightarrow> bytes \<Rightarrow> bytes" where
  "convert_endian_from i data =
     (if i < length data div 2
      then let tmp = data ! i; j = length data - 1 - i in
        convert_endian_from (i + 1) (data[i := data ! j, j := tmp])
      else data)"
  by pat_completeness auto
termination
  by (relation "measure (\<lambda>(i, data). length data - i)") auto

declare convert_endian_from.simps [simp del]

definition convert_endian :: "bytes \<Rightarrow> bytes" where
  "convert_endian data = convert_endian_from 0 data"

lemma convert_endian_from_nth:
  "i \<le> length data div 2 \<Longrightarrow> length (convert_endian_from i data) = length data \<and>
   (\<forall>k < length data. convert_endian_from i data ! k =
     (if i \<le> k \<and> k + i < length data then data ! (length data - 1 - k) else data ! k))"
proof (induction i data rule: convert_endian_from.induct)
  case (1 i data)
  let ?n = "length data" and ?j = "length data - 1 - i"
  let ?data = "data[i := data ! ?j, ?j := data ! i]"
  show ?case
  proof (cases "i < ?n div 2")
    case True
    then have step: "convert_endian_from i data = convert_endian_from (i + 1) ?data"
      by (simp add: convert_endian_from.simps [of i data] Let_def)
    have n0: "0 < ?n" using True by (cases data) auto
    have IH: "length (convert_endian_from (i + 1) ?data) = ?n \<and>
      (\<forall>k<?n. convert_endian_from (i + 1) ?data ! k =
        (if i + 1 \<le> k \<and> k + (i + 1) < ?n then ?data ! (?n - 1 - k) else ?data ! k))"
      using 1(1) [OF True refl refl] True by simp
    have "convert_endian_from i data ! k =
        (if i \<le> k \<and> k + i < ?n then data ! (?n - 1 - k) else data ! k)" if k: "k < ?n" for k
    proof -
      have eq: "convert_endian_from i data ! k =
        (if i + 1 \<le> k \<and> k + (i + 1) < ?n then ?data ! (?n - 1 - k) else ?data ! k)"
        using IH k unfolding step by blast
      have h: "i + i + 1 < ?n" using True by simp
      have bound: "?n - 1 - k < ?n" using k by simp
      consider (left) "k = i" | (right) "k = ?j" "k \<noteq> i" | (rest) "k \<noteq> i" "k \<noteq> ?j" by blast
      then show ?thesis
      proof cases
        case left
        then show ?thesis using h unfolding eq by (simp add: nth_list_update)
      next
        case right
        have "?n - 1 - k = i" "\<not> k + (i + 1) < ?n" "i \<le> k" "k + i < ?n" using right(1) h by linarith+
        then show ?thesis using right h k unfolding eq by (simp add: nth_list_update)
      next
        case rest
        have iff: "i \<le> k \<and> k + i < ?n \<longleftrightarrow> i + 1 \<le> k \<and> k + (i + 1) < ?n" using rest h k by linarith
        have ne: "?n - 1 - k \<noteq> i" "i + 1 \<le> k \<Longrightarrow> ?n - 1 - k \<noteq> ?j" using rest h k by linarith+
        have old: "?data ! k = data ! k" using rest by simp
        show ?thesis
        proof (cases "i + 1 \<le> k \<and> k + (i + 1) < ?n")
          case t: True
          have "?data ! (?n - 1 - k) = data ! (?n - 1 - k)" using ne(1) ne(2) t by (metis nth_list_update_neq)
          with t iff show ?thesis unfolding eq by presburger
        next
          case False
          with iff old show ?thesis unfolding eq by presburger
        qed
      qed
    qed
    then show ?thesis unfolding step using IH by simp
  next
    case False
    have stop: "convert_endian_from i data = data"
      using False by (simp add: convert_endian_from.simps [of i data])
    have h: "?n \<le> i + i + 1" using False by linarith
    have "(if i \<le> k \<and> k + i < ?n then data ! (?n - 1 - k) else data ! k) = data ! k" for k
    proof (cases "i \<le> k \<and> k + i < ?n")
      case t: True
      then have "?n - 1 - k = k" using h by linarith
      then show ?thesis by simp
    next
      case f: False
      then show ?thesis by (simp only: if_False)
    qed
    then show ?thesis unfolding stop by (simp only: simp_thms)
  qed
qed

lemma convert_endian_rev: "convert_endian data = rev data"
proof (rule nth_equalityI)
  show "length (convert_endian data) = length (rev data)"
    using convert_endian_from_nth [of 0 data] by (simp add: convert_endian_def)
  fix k assume "k < length (convert_endian data)"
  then show "convert_endian data ! k = rev data ! k"
    using convert_endian_from_nth [of 0 data] by (simp add: convert_endian_def rev_nth)
qed

section \<open>Properties\<close>

text \<open>\<open>IntCast\<close> throws \<open>std::bad_cast\<close> exactly when the value is not representable in the
  target type, and returns it unchanged otherwise, for every pair of integral types.\<close>

theorem int_cast_exact:
  assumes "ct_range from v" and "0 < ct_bits from" and "0 < ct_bits to"
  shows "int_cast to from v = (if ct_range to v then Inr v else Inl Bad_cast)"
  using check_int_cast_range [OF assms] by (simp add: int_cast_def)

theorem int_cast_exact_witness:
  "int_cast \<lparr>ct_bits = 16, ct_signed = True\<rparr> \<lparr>ct_bits = 64, ct_signed = False\<rparr> 40000 =
    (if ct_range \<lparr>ct_bits = 16, ct_signed = True\<rparr> 40000 then Inr 40000 else Inl Bad_cast)"
  by (rule int_cast_exact) (simp_all add: ct_range_def ct_min_def ct_max_def)

text \<open>\<open>MinSizeof\<close> returns the least positive number of bytes that still holds the value.\<close>

theorem min_sizeof_minimal:
  assumes "data \<noteq> []"
  shows "le_nat data < 256 ^ min_sizeof data \<and>
    (\<forall>k. 0 < k \<longrightarrow> k < min_sizeof data \<longrightarrow> 256 ^ k \<le> le_nat data)"
proof -
  let ?m = "min_sizeof data"
  have m: "1 \<le> ?m" "?m \<le> length data" "\<And>i. ?m \<le> i \<Longrightarrow> i < length data \<Longrightarrow> data ! i = 0"
    "1 < ?m \<Longrightarrow> data ! (?m - 1) \<noteq> 0"
    using min_sizeof_from_props [OF order_refl, of data] assms
    by (auto simp: min_sizeof_def Suc_le_eq max_def split: if_splits)
  have "le_nat (drop ?m data) = 0"
    by (rule le_nat_zeros) (use m(3) in \<open>auto simp: in_set_conv_nth\<close>)
  then have eq: "le_nat data = le_nat (take ?m data)"
    using le_nat_append [of "take ?m data" "drop ?m data"] by simp
  then have "le_nat data < 256 ^ ?m"
    using le_nat_bound [of "take ?m data"] m(2) by simp
  moreover have "256 ^ k \<le> le_nat data" if "0 < k" "k < ?m" for k
  proof -
    let ?j = "?m - 1"
    have "data ! ?j \<noteq> 0" using m(4) that by simp
    then have "0 < unat (data ! ?j)" by (simp add: unat_gt_0)
    moreover have "take ?m data = take ?j data @ [data ! ?j]"
      using m(1,2) take_Suc_conv_app_nth [of ?j data] by simp
    ultimately have "le_nat data = le_nat (take ?j data) + 256 ^ ?j * unat (data ! ?j)"
      using eq m(2) by (simp add: le_nat_append)
    moreover have "256 ^ ?j * 1 \<le> 256 ^ ?j * unat (data ! ?j)"
      using \<open>0 < unat (data ! ?j)\<close> by (intro mult_le_mono2) simp
    ultimately have "256 ^ ?j \<le> le_nat data" by linarith
    moreover have "(256 :: nat) ^ k \<le> 256 ^ ?j" using that by (intro power_increasing) auto
    ultimately show ?thesis by linarith
  qed
  ultimately show ?thesis by blast
qed

theorem min_sizeof_minimal_witness:
  "le_nat [0, 3, 0, 0] < 256 ^ min_sizeof [0, 3, 0, 0] \<and>
    (\<forall>k. 0 < k \<longrightarrow> k < min_sizeof [0, 3, 0, 0] \<longrightarrow> 256 ^ k \<le> le_nat [0, 3, 0, 0])"
  by (rule min_sizeof_minimal) simp

text \<open>the in-place swaps of \<open>ConvertEndian\<close> reverse the bytes, so converting twice restores
  the value and the converted little-endian image is the big-endian one.\<close>

theorem convert_endian_reverses:
  "convert_endian data = rev data \<and> convert_endian (convert_endian data) = data"
  by (simp add: convert_endian_rev)

end
