(* ===== verification/BloomFilter.thy ===== *)
theory BloomFilter
  imports BufferOps
begin

text \<open>
  The Bloom filter of \<open>include/sharpen/BloomFilter.hpp\<close>: a block of \<open>char\<close>s and the number of
  probes. The hash of an element is a parameter \<open>code\<close> (\<open>BloomFilterHasher::Hash\<close>);
  the filters of the tables use it with \<open>ByteBuffer::Hash\<close>, which is \<^const>\<open>buffer_hash\<close>.
  Hash arithmetic is kept at 64 bits: it wraps in the code and here.
\<close>

unbundle bit_operations_syntax

record bloom =
  bf_space :: bytes
  bf_hash_count :: nat

definition bf_size :: "bloom \<Rightarrow> nat" where
  "bf_size f = length (bf_space f)"

definition bf_new :: "nat \<Rightarrow> nat \<Rightarrow> bloom" where
  "bf_new bits_of_space count =
     (let sz = bits_of_space div 8 + (if bits_of_space mod 8 \<noteq> 0 then 1 else 0) in
        \<lparr>bf_space = replicate sz 0, bf_hash_count = count\<rparr>)"

definition bf_from :: "bytes \<Rightarrow> nat \<Rightarrow> bloom" where
  "bf_from space count = \<lparr>bf_space = space, bf_hash_count = count\<rparr>"

text \<open>Double hashing: the step between two probes is the hash rotated by 15 in 64 bits.\<close>

definition bf_delta :: "64 word \<Rightarrow> 64 word" where
  "bf_delta hash = drop_bit 17 hash OR push_bit 15 hash"

definition bf_pos :: "64 word \<Rightarrow> nat \<Rightarrow> nat" where
  "bf_pos hash sz = unat hash mod (sz * 8)"

fun bf_add_loop :: "nat \<Rightarrow> 64 word \<Rightarrow> 64 word \<Rightarrow> bytes \<Rightarrow> bytes" where
  "bf_add_loop 0 hash delta space = space"
| "bf_add_loop (Suc n) hash delta space =
     (let pos = bf_pos hash (length space) in
        bf_add_loop n (hash + delta) delta
          (space[pos div 8 := space ! (pos div 8) OR push_bit (pos mod 8) 1]))"

definition bf_add :: "('a \<Rightarrow> 64 word) \<Rightarrow> 'a \<Rightarrow> bloom \<Rightarrow> bloom" where
  "bf_add code obj f =
     f\<lparr>bf_space := bf_add_loop (bf_hash_count f) (code obj) (bf_delta (code obj)) (bf_space f)\<rparr>"

fun bf_contain_loop :: "nat \<Rightarrow> 64 word \<Rightarrow> 64 word \<Rightarrow> bytes \<Rightarrow> bool" where
  "bf_contain_loop 0 hash delta space = True"
| "bf_contain_loop (Suc n) hash delta space =
     (let pos = bf_pos hash (length space) in
        if space ! (pos div 8) AND push_bit (pos mod 8) 1 = 0 then False
        else bf_contain_loop n (hash + delta) delta space)"

definition bf_contain :: "('a \<Rightarrow> 64 word) \<Rightarrow> 'a \<Rightarrow> bloom \<Rightarrow> bool" where
  "bf_contain code obj f =
     bf_contain_loop (bf_hash_count f) (code obj) (bf_delta (code obj)) (bf_space f)"

definition bf_copy_to :: "nat \<Rightarrow> bloom \<Rightarrow> exn + bytes" where
  "bf_copy_to capacity f = (if capacity < bf_size f then Inl Invalid_argument else Inr (bf_space f))"

section \<open>Bits of the space\<close>

definition bf_bit :: "bytes \<Rightarrow> nat \<Rightarrow> bool" where
  "bf_bit space pos = bit (space ! (pos div 8)) (pos mod 8)"

lemma bf_probe_bit: "(w :: byte) AND push_bit k 1 = 0 \<longleftrightarrow> \<not> bit w k" if "k < 8"
proof
  assume "w AND push_bit k 1 = 0"
  then have "\<not> bit (w AND push_bit k 1) k" by simp
  then show "\<not> bit w k" using that by (simp add: bit_simps)
next
  assume "\<not> bit w k"
  then show "w AND push_bit k 1 = 0"
    by (intro bit_word_eqI) (auto simp: bit_simps)
qed

lemma bf_pos_less: "0 < sz \<Longrightarrow> bf_pos hash sz < sz * 8"
  by (simp add: bf_pos_def)

lemma bf_set_bit:
  assumes "pos < length space * 8"
  shows "bf_bit (space[pos div 8 := space ! (pos div 8) OR push_bit (pos mod 8) 1]) p \<longleftrightarrow>
    bf_bit space p \<or> p = pos"
proof (cases "p div 8 = pos div 8")
  case True
  have "p mod 8 = pos mod 8 \<longleftrightarrow> p = pos"
    using True by (metis mod_div_mult_eq)
  moreover have "pos div 8 < length space" using assms by (simp add: less_mult_imp_div_less)
  moreover have "p mod 8 < 8" by simp
  ultimately show ?thesis using True by (auto simp: bf_bit_def bit_simps)
next
  case False
  then show ?thesis by (auto simp: bf_bit_def)
qed

lemma bf_add_loop_length [simp]: "length (bf_add_loop n h d space) = length space"
  by (induction n h d space rule: bf_add_loop.induct) (simp_all add: Let_def)

lemma bf_add_loop_bits:
  "space \<noteq> [] \<Longrightarrow> bf_bit (bf_add_loop n h d space) p \<longleftrightarrow>
     bf_bit space p \<or> (\<exists>i<n. p = bf_pos (h + of_nat i * d) (length space))"
proof (induction n h d space rule: bf_add_loop.induct)
  case (1 h d space)
  then show ?case by simp
next
  case (2 n h d space)
  let ?pos = "bf_pos h (length space)"
  let ?s = "space[?pos div 8 := space ! (?pos div 8) OR push_bit (?pos mod 8) 1]"
  have "bf_bit (bf_add_loop (Suc n) h d space) p \<longleftrightarrow>
      bf_bit ?s p \<or> (\<exists>i<n. p = bf_pos (h + d + of_nat i * d) (length space))"
    using 2(1) [OF refl] 2(2) by (simp add: Let_def)
  also have "bf_bit ?s p \<longleftrightarrow> bf_bit space p \<or> p = ?pos"
    using bf_set_bit [OF bf_pos_less] 2(2) by simp
  also have "(\<exists>i<n. p = bf_pos (h + d + of_nat i * d) (length space)) \<longleftrightarrow>
      (\<exists>i<n. p = bf_pos (h + of_nat (Suc i) * d) (length space))"
    by (simp add: algebra_simps)
  finally show ?case by (auto simp: Ex_less_Suc2)
qed

lemma bf_contain_loop_bits:
  "space \<noteq> [] \<Longrightarrow> bf_contain_loop n h d space \<longleftrightarrow>
     (\<forall>i<n. bf_bit space (bf_pos (h + of_nat i * d) (length space)))"
proof (induction n h d space rule: bf_contain_loop.induct)
  case (1 h d space)
  then show ?case by simp
next
  case (2 n h d space)
  let ?pos = "bf_pos h (length space)"
  have probe: "space ! (?pos div 8) AND push_bit (?pos mod 8) 1 = 0 \<longleftrightarrow> \<not> bf_bit space ?pos"
    unfolding bf_bit_def by (rule bf_probe_bit) simp
  have unfolded: "bf_contain_loop (Suc n) h d space \<longleftrightarrow>
      bf_bit space ?pos \<and> bf_contain_loop n (h + d) d space"
    by (simp only: bf_contain_loop.simps Let_def probe) simp
  show ?case
  proof (cases "bf_bit space ?pos")
    case True
    then have "\<not> space ! (?pos div 8) AND push_bit (?pos mod 8) 1 = 0"
      by (simp only: probe simp_thms)
    from 2(1) [OF refl this 2(2)] unfolded True show ?thesis
      by (simp add: All_less_Suc2 algebra_simps)
  next
    case False
    then have "\<not> (\<forall>i<Suc n. bf_bit space (bf_pos (h + of_nat i * d) (length space)))"
      by (simp add: All_less_Suc2)
    with False unfolded show ?thesis by blast
  qed
qed

lemma bf_add_fields [simp]:
  "bf_size (bf_add code x f) = bf_size f"
  "bf_hash_count (bf_add code x f) = bf_hash_count f"
  by (simp_all add: bf_add_def bf_size_def)

lemma bf_contain_add:
  assumes "0 < bf_size f"
  shows "bf_contain code x (bf_add code y f) \<longleftrightarrow> (\<forall>i<bf_hash_count f.
    let pos = bf_pos (code x + of_nat i * bf_delta (code x)) (bf_size f) in
      bf_bit (bf_space f) pos \<or>
      (\<exists>j<bf_hash_count f. pos = bf_pos (code y + of_nat j * bf_delta (code y)) (bf_size f)))"
proof -
  have ne: "bf_space f \<noteq> []" using assms by (simp add: bf_size_def)
  have ne': "bf_add_loop n h d (bf_space f) \<noteq> []" for n h d
    using ne by (metis bf_add_loop_length length_0_conv)
  have sp: "bf_space (bf_add code y f) =
      bf_add_loop (bf_hash_count f) (code y) (bf_delta (code y)) (bf_space f)"
    by (simp add: bf_add_def)
  show ?thesis
    unfolding bf_contain_def sp bf_add_fields bf_contain_loop_bits [OF ne'] bf_add_loop_bits [OF ne]
      bf_add_loop_length bf_size_def Let_def ..
qed

lemma bf_contain_add_self: "0 < bf_size f \<Longrightarrow> bf_contain code x (bf_add code x f)"
  unfolding bf_contain_add Let_def by blast

lemma bf_contain_add_keep:
  assumes "0 < bf_size f" and "bf_contain code x f"
  shows "bf_contain code x (bf_add code y f)"
proof -
  have ne: "bf_space f \<noteq> []" using assms(1) by (simp add: bf_size_def)
  show ?thesis
    unfolding bf_contain_add [OF assms(1)] Let_def bf_size_def
    using assms(2) unfolding bf_contain_def bf_contain_loop_bits [OF ne] by blast
qed

lemma bf_size_fold [simp]: "bf_size (fold (bf_add code) xs f) = bf_size f"
  by (induction xs arbitrary: f) simp_all

lemma bf_count_fold: "bf_hash_count (fold (bf_add code) xs f) = bf_hash_count f"
  by (induction xs arbitrary: f) simp_all

lemma bf_contain_fold:
  "0 < bf_size f \<Longrightarrow> bf_contain code x f \<or> x \<in> set xs \<Longrightarrow>
   bf_contain code x (fold (bf_add code) xs f)"
proof (induction xs arbitrary: f)
  case (Cons y ys)
  have "bf_contain code x (bf_add code y f) \<or> x \<in> set ys"
    using Cons(2,3) bf_contain_add_self [of f code x] bf_contain_add_keep [of f code x y] by auto
  then show ?case using Cons(1) [of "bf_add code y f"] Cons(2) by simp
qed simp

lemma bf_new_size: "0 < bits \<Longrightarrow> 0 < bf_size (bf_new bits count)"
  by (cases "bits < 8") (auto simp: bf_new_def bf_size_def Let_def div_greater_zero_iff)

text \<open>A filter that is read with fewer probes than it was filled with still knows its elements.\<close>

lemma bf_contain_fewer:
  assumes "bf_contain code x f" and "0 < bf_size f" and "n \<le> bf_hash_count f"
  shows "bf_contain code x (bf_from (bf_space f) n)"
proof -
  have ne: "bf_space f \<noteq> []" using assms(2) by (simp add: bf_size_def)
  show ?thesis
    using assms(1,3) by (simp add: bf_contain_def bf_from_def bf_contain_loop_bits [OF ne])
qed

text \<open>The bytes a filter is stored as rebuild it.\<close>

lemma bf_copy_from:
  "bf_size f \<le> capacity \<Longrightarrow>
   bf_copy_to capacity f = Inr (bf_space f) \<and> bf_from (bf_space f) (bf_hash_count f) = f"
  by (simp add: bf_copy_to_def bf_from_def)

section \<open>Properties\<close>

text \<open>C16: The filter has no false negatives: once every element of a list has been added, in any
  order and with any hash, \<open>Containe\<close> answers true for each of them, also after the filter was
  copied out with \<open>CopyTo\<close> and rebuilt from the copied bytes.\<close>

theorem bloom_no_false_negative:
  assumes "0 < bits" and "x \<in> set xs"
    and "bf_copy_to capacity (fold (bf_add code) xs (bf_new bits count)) = Inr stored"
  shows "bf_contain code x (fold (bf_add code) xs (bf_new bits count)) \<and>
    bf_contain code x (bf_from stored count)"
proof -
  let ?f = "fold (bf_add code) xs (bf_new bits count)"
  have in_f: "bf_contain code x ?f"
    by (rule bf_contain_fold [OF bf_new_size [OF assms(1)]]) (simp add: assms(2))
  have "bf_hash_count ?f = count"
    by (simp add: bf_count_fold bf_new_def Let_def)
  moreover have "stored = bf_space ?f"
    using assms(3) by (simp add: bf_copy_to_def split: if_splits)
  ultimately have "bf_from stored count = ?f" by (simp add: bf_from_def)
  with in_f show ?thesis by simp
qed

theorem bloom_no_false_negative_witness:
  "bf_contain buffer_hash [2] (fold (bf_add buffer_hash) [[1], [2]] (bf_new 16 2)) \<and>
   bf_contain buffer_hash [2] (bf_from (bf_space (fold (bf_add buffer_hash) [[1], [2]] (bf_new 16 2))) 2)"
proof -
  let ?f = "fold (bf_add buffer_hash) [[1], [2]] (bf_new 16 2)"
  have "bf_copy_to (bf_size ?f) ?f = Inr (bf_space ?f)" by (simp only: bf_copy_to_def less_irrefl if_False)
  then show ?thesis by (intro bloom_no_false_negative) simp_all
qed

end
