(* ===== verification/ByteBuffer.thy ===== *)
theory ByteBuffer
  imports Varint BufferOps
begin

text \<open>
  The byte buffer of \<open>include/sharpen/ByteBuffer.hpp\<close> and \<open>src/ByteBuffer.cpp\<close>: a vector of
  \<open>char\<close>s and a mark. Operations that C++ leaves undefined outside their precondition (\<open>pop_back\<close>
  of an empty vector, \<open>erase\<close> out of range) have the value \<open>Inl Undefined\<close>. The serialized form is
  the length as a \<open>Varuint64\<close> followed by the bytes.
\<close>

section \<open>State and construction\<close>

record byte_buffer =
  bb_vector :: bytes
  bb_mark :: nat

definition bb_empty :: byte_buffer where
  "bb_empty = \<lparr>bb_vector = [], bb_mark = 0\<rparr>"

definition bb_sized :: "nat \<Rightarrow> exn + byte_buffer" where
  "bb_sized n = res_bind (vec_resize n []) (\<lambda>v. Inr \<lparr>bb_vector = v, bb_mark = 0\<rparr>)"

definition bb_of :: "bytes \<Rightarrow> byte_buffer" where
  "bb_of p = \<lparr>bb_vector = p, bb_mark = 0\<rparr>"

text \<open>Moves return the new value of the source, too; \<open>swap\<close> takes over the other mark only.\<close>

definition bb_move :: "byte_buffer \<Rightarrow> byte_buffer \<times> byte_buffer" where
  "bb_move other = (other, \<lparr>bb_vector = [], bb_mark = 0\<rparr>)"

definition bb_swap :: "byte_buffer \<Rightarrow> byte_buffer \<Rightarrow> byte_buffer \<times> byte_buffer" where
  "bb_swap b other =
     (\<lparr>bb_vector = bb_vector other, bb_mark = bb_mark other\<rparr>, other\<lparr>bb_vector := bb_vector b\<rparr>)"

section \<open>Operations\<close>

definition bb_size :: "byte_buffer \<Rightarrow> nat" where
  "bb_size b = length (bb_vector b)"

definition bb_check_and_move_mark :: "byte_buffer \<Rightarrow> byte_buffer" where
  "bb_check_and_move_mark b =
     (if bb_mark b > length (bb_vector b) then b\<lparr>bb_mark := length (bb_vector b)\<rparr> else b)"

definition bb_push_back :: "byte \<Rightarrow> byte_buffer \<Rightarrow> byte_buffer" where
  "bb_push_back c b = b\<lparr>bb_vector := bb_vector b @ [c]\<rparr>"

definition bb_pop_back :: "byte_buffer \<Rightarrow> exn + byte_buffer" where
  "bb_pop_back b =
     (if bb_vector b = [] then Inl Undefined
      else Inr (bb_check_and_move_mark (b\<lparr>bb_vector := butlast (bb_vector b)\<rparr>)))"

definition bb_front :: "byte_buffer \<Rightarrow> exn + byte" where
  "bb_front b = (case bb_vector b of [] \<Rightarrow> Inl Undefined | c # _ \<Rightarrow> Inr c)"

definition bb_back :: "byte_buffer \<Rightarrow> exn + byte" where
  "bb_back b = (if bb_vector b = [] then Inl Undefined else Inr (last (bb_vector b)))"

definition bb_get :: "nat \<Rightarrow> byte_buffer \<Rightarrow> exn + byte" where
  "bb_get index b =
     (if index < length (bb_vector b) then Inr (bb_vector b ! index) else Inl Out_of_range)"

definition bb_get_or_default :: "nat \<Rightarrow> byte \<Rightarrow> byte_buffer \<Rightarrow> byte" where
  "bb_get_or_default index d b =
     (if index \<ge> bb_size b then d else bb_vector b ! index)"

definition bb_extend_to :: "nat \<Rightarrow> byte \<Rightarrow> byte_buffer \<Rightarrow> exn + byte_buffer" where
  "bb_extend_to n d b =
     (if n < 2 ^ 63
      then Inr (b\<lparr>bb_vector := take n (bb_vector b) @ replicate (n - bb_size b) d\<rparr>)
      else Inl Length_error)"

definition bb_extend :: "nat \<Rightarrow> byte \<Rightarrow> byte_buffer \<Rightarrow> exn + byte_buffer" where
  "bb_extend n d b = bb_extend_to (add64 (bb_size b) n) d b"

definition bb_reset :: "byte_buffer \<Rightarrow> byte_buffer" where
  "bb_reset b =
     (if bb_vector b = [] then b else b\<lparr>bb_vector := replicate (bb_size b) 0\<rparr>)"

definition bb_shrink :: "byte_buffer \<Rightarrow> byte_buffer" where
  "bb_shrink b = bb_check_and_move_mark b"

definition bb_append :: "bytes \<Rightarrow> byte_buffer \<Rightarrow> byte_buffer" where
  "bb_append p b = (if p = [] then b else foldl (\<lambda>b c. bb_push_back c b) b p)"

definition bb_erase :: "nat \<Rightarrow> byte_buffer \<Rightarrow> exn + byte_buffer" where
  "bb_erase pos b =
     (if pos < length (bb_vector b)
      then Inr (bb_check_and_move_mark
        (b\<lparr>bb_vector := take pos (bb_vector b) @ drop (pos + 1) (bb_vector b)\<rparr>))
      else Inl Undefined)"

definition bb_erase_range :: "nat \<Rightarrow> nat \<Rightarrow> byte_buffer \<Rightarrow> exn + byte_buffer" where
  "bb_erase_range beg fin b =
     (if beg \<le> fin \<and> fin \<le> length (bb_vector b)
      then Inr (bb_check_and_move_mark
        (b\<lparr>bb_vector := take beg (bb_vector b) @ drop fin (bb_vector b)\<rparr>))
      else Inl Undefined)"

text \<open>The iterator forms of \<open>Erase\<close> do not look at the mark.\<close>

definition bb_erase_ite :: "nat \<Rightarrow> nat \<Rightarrow> byte_buffer \<Rightarrow> exn + byte_buffer" where
  "bb_erase_ite beg fin b =
     (if beg \<le> fin \<and> fin \<le> length (bb_vector b)
      then Inr (b\<lparr>bb_vector := take beg (bb_vector b) @ drop fin (bb_vector b)\<rparr>)
      else Inl Undefined)"

definition bb_mark_at :: "nat \<Rightarrow> byte_buffer \<Rightarrow> byte_buffer" where
  "bb_mark_at pos b = bb_check_and_move_mark (b\<lparr>bb_mark := pos\<rparr>)"

definition bb_remaining :: "byte_buffer \<Rightarrow> nat" where
  "bb_remaining b = sub64 (bb_size b) (bb_mark b)"

definition bb_clear :: "byte_buffer \<Rightarrow> byte_buffer" where
  "bb_clear b = (bb_check_and_move_mark b)\<lparr>bb_vector := []\<rparr>"

definition bb_clear_and_shrink :: "byte_buffer \<Rightarrow> byte_buffer" where
  "bb_clear_and_shrink b = bb_shrink (bb_clear b)"

fun bb_find_from :: "byte \<Rightarrow> bytes \<Rightarrow> nat" where
  "bb_find_from e [] = 0"
| "bb_find_from e (c # cs) = (if c = e then 0 else Suc (bb_find_from e cs))"

text \<open>The position of the iterator \<open>Find\<close> returns, and the distance from \<open>rbegin\<close> of \<open>ReverseFind\<close>.\<close>

definition bb_find :: "byte \<Rightarrow> byte_buffer \<Rightarrow> nat" where
  "bb_find e b = bb_find_from e (bb_vector b)"

definition bb_reverse_find :: "byte \<Rightarrow> byte_buffer \<Rightarrow> nat" where
  "bb_reverse_find e b = bb_find_from e (rev (bb_vector b))"

definition bb_compare :: "byte_buffer \<Rightarrow> byte_buffer \<Rightarrow> int" where
  "bb_compare b other = buffer_compare (bb_vector b) (bb_vector other)"

section \<open>Serialization\<close>

definition bb_compute_size :: "byte_buffer \<Rightarrow> exn + nat" where
  "bb_compute_size b =
     res_bind (vu64_bytes (bb_size b)) (\<lambda>h. Inr (length h + bb_size b))"

text \<open>\<open>LoadFrom\<close> returns the offset and the new state; when it throws, the buffer was cleared.\<close>

definition bb_load_from :: "bytes \<Rightarrow> byte_buffer \<Rightarrow> exn + (nat \<times> byte_buffer)" where
  "bb_load_from data b =
     res_bind (vu64_read data) (\<lambda>(n, offset).
       if n \<noteq> 0 then
         (if length data < add64 offset n then Inl Data_corruption
          else res_bind (bb_extend_to n 0 b) (\<lambda>b'.
            res_bind (mem_read data offset n) (\<lambda>v.
              Inr (offset + n, b'\<lparr>bb_vector := v\<rparr>))))
       else Inr (offset, b))"

definition bb_load_from_buffer :: "byte_buffer \<Rightarrow> nat \<Rightarrow> byte_buffer \<Rightarrow> exn + (nat \<times> byte_buffer)" where
  "bb_load_from_buffer buf offset b = bb_load_from (drop offset (bb_vector buf)) b"

text \<open>The bytes \<open>UnsafeStoreTo\<close> writes at its argument; it returns their number.\<close>

definition bb_unsafe_store_to :: "byte_buffer \<Rightarrow> exn + bytes" where
  "bb_unsafe_store_to b =
     res_bind (vu64_bytes (bb_size b)) (\<lambda>h. Inr (h @ bb_vector b))"

definition bb_store_to :: "byte_buffer \<Rightarrow> nat \<Rightarrow> exn + bytes" where
  "bb_store_to b sz =
     res_bind (bb_compute_size b) (\<lambda>need.
       if need > sz then Inl Invalid_argument else bb_unsafe_store_to b)"

definition bb_store_to_buffer :: "byte_buffer \<Rightarrow> byte_buffer \<Rightarrow> nat \<Rightarrow> exn + byte_buffer" where
  "bb_store_to_buffer b buf offset =
     res_bind (bb_compute_size b) (\<lambda>need.
       let sz = sub64 (bb_size buf) offset in
         res_bind (if need > sz then bb_extend_to (need - sz) 0 buf else Inr buf) (\<lambda>buf'.
           res_bind (bb_unsafe_store_to b) (\<lambda>w.
             res_bind (mem_write (bb_vector buf') offset w) (\<lambda>v. Inr (buf'\<lparr>bb_vector := v\<rparr>)))))"

section \<open>The serialized form\<close>

definition bb_enc :: "bytes \<Rightarrow> bytes" where
  "bb_enc v = venc (length v) @ v"

lemma bb_enc_length: "length (bb_enc v) = vsize (length v) + length v"
  by (simp add: bb_enc_def vsize_def)

lemma bb_enc_not_Nil [simp]: "bb_enc v \<noteq> []"
  by (simp add: bb_enc_def)

lemma bb_compute_size_enc:
  "bb_size b < 2 ^ 64 \<Longrightarrow> bb_compute_size b = Inr (length (bb_enc (bb_vector b)))"
  by (simp add: bb_compute_size_def vu64_bytes_venc bb_enc_def bb_size_def)

lemma bb_unsafe_store_enc:
  "bb_size b < 2 ^ 64 \<Longrightarrow> bb_unsafe_store_to b = Inr (bb_enc (bb_vector b))"
  by (simp add: bb_unsafe_store_to_def vu64_bytes_venc bb_enc_def bb_size_def)

lemma vsize_bound: "n < 2 ^ 64 \<Longrightarrow> vsize n \<le> 10"
  using venc_length_bound [of n 10] by (simp add: vsize_def)

lemma bb_load_enc:
  assumes "length v < 2 ^ 31" and "v = [] \<longrightarrow> bb_vector b = []"
  shows "bb_load_from (bb_enc v @ rest) b = Inr (length (bb_enc v), b\<lparr>bb_vector := v\<rparr>)"
proof -
  have read: "vu64_read (bb_enc v @ rest) = Inr (length v, vsize (length v))"
    using vu64_read_venc [OF assms(1), of "v @ rest"] by (simp add: bb_enc_def)
  have small: "add64 (vsize (length v)) (length v) = vsize (length v) + length v"
    using vsize_bound [of "length v"] assms(1) by (intro add64_small) simp
  have mem: "mem_read (bb_enc v @ rest) (vsize (length v)) (length v) = Inr v"
    using mem_read_append [of "vsize (length v)" "venc (length v)" "length v" v rest]
    by (simp add: bb_enc_def vsize_def)
  show ?thesis
  proof (cases "v = []")
    case True
    then have "b\<lparr>bb_vector := v\<rparr> = b" using assms(2) by simp
    with True show ?thesis using read by (simp add: bb_load_from_def bb_enc_length)
  next
    case False
    then show ?thesis
      using read mem small assms(1) by (simp add: bb_load_from_def bb_extend_to_def bb_enc_length)
  qed
qed

lemma bb_load_from_bound:
  assumes "bb_load_from data b = Inr (k, b')"
  shows "0 < k \<and> k \<le> length data"
proof -
  from assms obtain n off where r: "vu64_read data = Inr (n, off)"
    by (auto simp: bb_load_from_def res_bind_eq_Inr split: prod.splits)
  from vu64_read_bound [OF this] show ?thesis
    using assms r by (auto simp: bb_load_from_def res_bind_eq_Inr mem_read_def split: if_splits)
qed

lemma bb_load_from_memory_safe:
  assumes "length data < 2 ^ 63" and "bb_load_from data b = Inl Undefined"
  shows "vu64_read data = Inl Undefined"
proof (rule ccontr)
  assume no: "\<not> ?thesis"
  with assms(2) obtain n off where r: "vu64_read data = Inr (n, off)"
    by (cases "vu64_read data") (auto simp: bb_load_from_def)
  from vu64_read_bound [OF r] have off: "off \<le> length data" "n < 2 ^ 64" by auto
  from assms(2) r have "n \<noteq> 0" "\<not> length data < add64 off n" "n < 2 ^ 63"
    "mem_read data off n = Inl Undefined"
    by (auto simp: bb_load_from_def bb_extend_to_def mem_read_def split: if_splits)
  moreover have "add64 off n = off + n"
    using off assms(1) \<open>n < 2 ^ 63\<close> by (intro add64_small) simp
  ultimately show False by (simp add: mem_read_def split: if_splits)
qed

section \<open>The mark\<close>

definition bb_wf :: "byte_buffer \<Rightarrow> bool" where
  "bb_wf b \<longleftrightarrow> bb_mark b \<le> bb_size b"

lemma bb_wf_check [simp]: "bb_wf (bb_check_and_move_mark b)"
  by (simp add: bb_wf_def bb_check_and_move_mark_def bb_size_def)

lemma bb_foldl_push: "foldl (\<lambda>b c. bb_push_back c b) b p = b\<lparr>bb_vector := bb_vector b @ p\<rparr>"
  by (induction p arbitrary: b) (simp_all add: bb_push_back_def)

lemma bb_append_eq: "bb_append p b = b\<lparr>bb_vector := bb_vector b @ p\<rparr>"
  by (simp add: bb_append_def bb_foldl_push)

text \<open>The operations that keep the mark inside the buffer, as data.\<close>

datatype bb_op =
    Push_back byte
  | Pop_back
  | Extend nat byte
  | Append bytes
  | Erase nat
  | Erase_range nat nat
  | Mark nat
  | Reset
  | Shrink

fun bb_apply :: "bb_op \<Rightarrow> byte_buffer \<Rightarrow> exn + byte_buffer" where
  "bb_apply (Push_back c) b = Inr (bb_push_back c b)"
| "bb_apply Pop_back b = bb_pop_back b"
| "bb_apply (Extend n d) b = bb_extend n d b"
| "bb_apply (Append p) b = Inr (bb_append p b)"
| "bb_apply (Erase pos) b = bb_erase pos b"
| "bb_apply (Erase_range beg fin) b = bb_erase_range beg fin b"
| "bb_apply (Mark pos) b = Inr (bb_mark_at pos b)"
| "bb_apply Reset b = Inr (bb_reset b)"
| "bb_apply Shrink b = Inr (bb_shrink b)"

lemma bb_extend_wf:
  assumes "bb_extend n d b = Inr b'" and "bb_wf b" and "bb_size b + n < 2 ^ 64"
  shows "bb_wf b'"
  using assms add64_small [OF assms(3)]
  by (auto simp: bb_extend_def bb_extend_to_def bb_wf_def bb_size_def split: if_splits)

lemma bb_apply_wf:
  assumes "bb_apply c b = Inr b'" and "bb_wf b" and "\<forall>n d. c = Extend n d \<longrightarrow> bb_size b + n < 2 ^ 64"
  shows "bb_wf b'"
  using assms
proof (cases c)
  case (Extend n d)
  then show ?thesis using assms bb_extend_wf by simp
next
  case (Erase pos)
  then show ?thesis using assms(1) by (auto simp: bb_erase_def split: if_splits)
next
  case (Erase_range beg fin)
  then show ?thesis using assms(1) by (auto simp: bb_erase_range_def split: if_splits)
next
  case Pop_back
  then show ?thesis using assms(1) by (auto simp: bb_pop_back_def split: if_splits)
qed (auto simp: bb_push_back_def bb_append_eq bb_mark_at_def bb_reset_def bb_shrink_def,
    auto simp: bb_wf_def bb_size_def)

lemma bb_store_to_buffer_small:
  assumes "bb_size b < 2 ^ 31" and "bb_size buf < 2 ^ 62" and "offset \<le> bb_size buf"
    and "bb_size buf - offset < length (bb_enc (bb_vector b))"
  shows "bb_store_to_buffer b buf offset =
    (if bb_vector buf = [] then Inr (buf\<lparr>bb_vector := bb_enc (bb_vector b)\<rparr>) else Inl Undefined)"
proof -
  let ?enc = "bb_enc (bb_vector b)" and ?room = "bb_size buf - offset"
  let ?new = "length ?enc - ?room"
  have need: "bb_compute_size b = Inr (length ?enc)" "bb_unsafe_store_to b = Inr ?enc"
    using assms(1) by (simp_all add: bb_compute_size_enc bb_unsafe_store_enc)
  have sz: "sub64 (bb_size buf) offset = ?room" using assms(2,3) by (intro sub64_le) simp_all
  have "length ?enc < 2 ^ 63"
    using vsize_bound [of "bb_size b"] assms(1) by (simp add: bb_enc_length bb_size_def)
  then have ext: "bb_extend_to ?new 0 buf =
      Inr (buf\<lparr>bb_vector := take ?new (bb_vector buf) @ replicate (?new - bb_size buf) 0\<rparr>)"
    by (simp add: bb_extend_to_def)
  have len: "length (take ?new (bb_vector buf) @ replicate (?new - bb_size buf) 0) = ?new"
    by (simp add: bb_size_def min_def)
  show ?thesis
  proof (cases "bb_vector buf = []")
    case True
    then show ?thesis
      using assms(3,4) need ext sz
      by (simp add: bb_store_to_buffer_def bb_size_def mem_write_def)
  next
    case False
    then have "0 < bb_size buf" by (simp add: bb_size_def)
    moreover have "?new + ?room = length ?enc" "offset + ?room = bb_size buf"
      using assms(3,4) by simp_all
    ultimately have "\<not> offset + length ?enc \<le> ?new" by linarith
    then have "mem_write (take ?new (bb_vector buf) @ replicate (?new - bb_size buf) 0) offset ?enc =
        Inl Undefined"
      using len by (simp only: mem_write_def if_False)
    with False show ?thesis
      using assms(4) need ext sz by (simp add: bb_store_to_buffer_def)
  qed
qed

section \<open>Properties\<close>

text \<open>A byte buffer round-trips through its serialized form: \<open>ComputeSize\<close> is the number of
  bytes \<open>UnsafeStoreTo\<close> writes, and \<open>LoadFrom\<close> of these bytes, whatever follows them, consumes
  exactly them and restores the contents. The buffer loaded into must be empty when the stored one
  was, because \<open>LoadFrom\<close> leaves its target alone for a stored length of zero.\<close>

theorem byte_buffer_roundtrip:
  assumes "bb_size b < 2 ^ 31" and "bb_vector b = [] \<longrightarrow> bb_vector old = []"
  shows "\<exists>w. bb_unsafe_store_to b = Inr w \<and> bb_compute_size b = Inr (length w) \<and>
    bb_load_from (w @ rest) old = Inr (length w, old\<lparr>bb_vector := bb_vector b\<rparr>)"
  using bb_unsafe_store_enc [of b] bb_compute_size_enc [of b] bb_load_enc [of "bb_vector b" old rest]
    assms by (simp add: bb_size_def)

theorem byte_buffer_roundtrip_witness:
  "\<exists>w. bb_unsafe_store_to (bb_of [7, 0, 9]) = Inr w \<and> bb_compute_size (bb_of [7, 0, 9]) = Inr (length w) \<and>
    bb_load_from (w @ [1]) (bb_of [5]) = Inr (length w, (bb_of [5])\<lparr>bb_vector := bb_vector (bb_of [7, 0, 9])\<rparr>)"
  by (rule byte_buffer_roundtrip) (simp_all add: bb_size_def bb_of_def)

text \<open>\<open>LoadFrom\<close> is safe on any input: what it consumes lies inside the input, and the only
  undefined behaviour it can run into is the shift of \<open>Varint::Get\<close>; in particular a corrupt length
  never makes it read past the end, not even when \<open>offset + sz\<close> wraps around.\<close>

theorem byte_buffer_load_safe:
  assumes "length data < 2 ^ 63"
  shows "(case bb_load_from data b of
      Inr (k, b') \<Rightarrow> 0 < k \<and> k \<le> length data
    | Inl e \<Rightarrow> e = Undefined \<longrightarrow> vu64_read data = Inl Undefined)"
  using bb_load_from_bound [of data b] bb_load_from_memory_safe [OF assms, of b]
  by (auto split: sum.splits)

theorem byte_buffer_load_safe_witness:
  "(case bb_load_from [3, 1, 2] bb_empty of
      Inr (k, b') \<Rightarrow> 0 < k \<and> k \<le> length [3 :: byte, 1, 2]
    | Inl e \<Rightarrow> e = Undefined \<longrightarrow> vu64_read [3, 1, 2] = Inl Undefined)"
  by (rule byte_buffer_load_safe) simp

text \<open>Every editing operation keeps the mark inside the buffer (for buffers whose sizes do not
  wrap around in 64 bits).\<close>

theorem byte_buffer_mark_kept:
  assumes "bb_apply c b = Inr b'" and "bb_mark b \<le> bb_size b" and "bb_size b < 2 ^ 63"
    and "\<forall>n d. c = Extend n d \<longrightarrow> n < 2 ^ 63"
  shows "bb_mark b' \<le> bb_size b'"
  using bb_apply_wf [OF assms(1)] assms(2-4) unfolding bb_wf_def by force

theorem byte_buffer_mark_kept_witness:
  "bb_mark \<lparr>bb_vector = [1], bb_mark = 1\<rparr> \<le> bb_size \<lparr>bb_vector = [1 :: byte], bb_mark = 1\<rparr>"
  by (rule byte_buffer_mark_kept [of Pop_back "\<lparr>bb_vector = [1, 2], bb_mark = 2\<rparr>"])
    (simp_all add: bb_pop_back_def bb_check_and_move_mark_def bb_size_def)

text \<open>\<open>Clear\<close> checks the mark before it empties the vector, so a mark inside the buffer is left
  beyond its end and \<open>Remaining\<close> wraps around to almost \<open>2 ^ 64\<close>.\<close>

theorem byte_buffer_clear_loses_mark:
  "0 < bb_mark b \<and> bb_mark b \<le> bb_size b \<and> bb_size b < 2 ^ 64 \<longrightarrow>
   bb_mark (bb_clear b) = bb_mark b \<and> bb_remaining (bb_clear b) = 2 ^ 64 - bb_mark b"
  by (auto simp: bb_clear_def bb_check_and_move_mark_def bb_remaining_def bb_size_def sub64_wrap)

theorem byte_buffer_clear_loses_mark_witness:
  "bb_remaining (bb_clear (bb_mark_at 1 (bb_of [8]))) = 2 ^ 64 - 1"
  using byte_buffer_clear_loses_mark [of "bb_mark_at 1 (bb_of [8])"]
  by (simp add: bb_mark_at_def bb_of_def bb_size_def bb_check_and_move_mark_def)

text \<open>\<open>StoreTo(buf,offset)\<close> enlarges the target with \<open>ExtendTo(needSize - size)\<close>: when the room
  after the offset does not suffice, it writes out of bounds unless the target was empty.\<close>

theorem byte_buffer_store_grows_wrongly:
  assumes "bb_size b < 2 ^ 31" and "bb_size buf < 2 ^ 62" and "offset \<le> bb_size buf"
    and "bb_compute_size b = Inr need" and "bb_size buf - offset < need"
  shows "bb_store_to_buffer b buf offset =
    (if bb_vector buf = [] then Inr (buf\<lparr>bb_vector := bb_enc (bb_vector b)\<rparr>) else Inl Undefined)"
  using bb_store_to_buffer_small [OF assms(1-3)] bb_compute_size_enc [of b] assms(1,4,5) by simp

theorem byte_buffer_store_grows_wrongly_witness:
  "bb_store_to_buffer (bb_of [1, 2]) (bb_of [9]) 1 =
    (if bb_vector (bb_of [9]) = [] then Inr ((bb_of [9])\<lparr>bb_vector := bb_enc (bb_vector (bb_of [1, 2]))\<rparr>)
     else Inl Undefined)"
  by (rule byte_buffer_store_grows_wrongly [where need = 3])
    (simp_all add: bb_size_def bb_of_def bb_compute_size_def vu64_bytes_venc venc_small)

end
