(* ===== verification/Serializator.thy ===== *)
theory Serializator
  imports ByteBuffer "HOL-Library.While_Combinator"
begin

text \<open>
  \<open>include/sharpen/BinarySerializator.hpp\<close>: storing and loading of scalars, byte buffers, optionals,
  pairs and containers. Every overload of the code is one definition, with the operations of the
  component type as arguments (the template instantiation). A store is the list of bytes it writes,
  a load returns the number of bytes consumed and the object.

  The contract the overloads share is the locale \<open>serializable\<close>; each overload provides it whenever
  its component types do.
\<close>

section \<open>The overloads\<close>

subsection \<open>Scalars\<close>

text \<open>A standard-layout scalar of \<open>k\<close> bytes, as its unsigned value.\<close>

definition ser_scalar_size :: "nat \<Rightarrow> nat \<Rightarrow> exn + nat" where
  "ser_scalar_size k x = Inr k"

definition ser_scalar_load :: "nat \<Rightarrow> bytes \<Rightarrow> exn + (nat \<times> nat)" where
  "ser_scalar_load k data =
     (if length data < k then Inl Invalid_argument
      else res_bind (mem_read data 0 k) (\<lambda>v. Inr (k, le_nat v)))"

definition ser_scalar_store :: "nat \<Rightarrow> nat \<Rightarrow> exn + bytes" where
  "ser_scalar_store k x = Inr (le_bytes k x)"

subsection \<open>Byte buffers\<close>

text \<open>The member functions of \<open>ByteBuffer\<close>, on the contents; objects are loaded into fresh buffers.\<close>

definition ser_buf_size :: "bytes \<Rightarrow> exn + nat" where
  "ser_buf_size v = bb_compute_size (bb_of v)"

definition ser_buf_load :: "bytes \<Rightarrow> exn + (nat \<times> bytes)" where
  "ser_buf_load data = res_bind (bb_load_from data bb_empty) (\<lambda>(k, b). Inr (k, bb_vector b))"

definition ser_buf_store :: "bytes \<Rightarrow> exn + bytes" where
  "ser_buf_store v = bb_unsafe_store_to (bb_of v)"

subsection \<open>Optionals\<close>

definition ser_opt_size :: "('a \<Rightarrow> exn + nat) \<Rightarrow> 'a option \<Rightarrow> exn + nat" where
  "ser_opt_size sz obj =
     (case obj of None \<Rightarrow> Inr 1 | Some x \<Rightarrow> res_bind (sz x) (\<lambda>n. Inr (1 + n)))"

definition ser_opt_load ::
  "(bytes \<Rightarrow> exn + (nat \<times> 'a)) \<Rightarrow> bytes \<Rightarrow> exn + (nat \<times> 'a option)" where
  "ser_opt_load load data =
     (case data of
        [] \<Rightarrow> Inl Invalid_argument
      | exist # rest \<Rightarrow>
          if exist \<noteq> 0 then
            (if length data = 1 then Inl Data_corruption
             else res_bind (load rest) (\<lambda>(k, x). Inr (1 + k, Some x)))
          else Inr (1, None))"

definition ser_opt_store :: "('a \<Rightarrow> exn + bytes) \<Rightarrow> 'a option \<Rightarrow> exn + bytes" where
  "ser_opt_store store obj =
     (case obj of None \<Rightarrow> Inr [0] | Some x \<Rightarrow> res_bind (store x) (\<lambda>w. Inr (1 # w)))"

subsection \<open>Pairs\<close>

definition ser_pair_size ::
  "('a \<Rightarrow> exn + nat) \<Rightarrow> ('b \<Rightarrow> exn + nat) \<Rightarrow> 'a \<times> 'b \<Rightarrow> exn + nat" where
  "ser_pair_size sz1 sz2 obj =
     res_bind (sz1 (fst obj)) (\<lambda>m. res_bind (sz2 (snd obj)) (\<lambda>n. Inr (m + n)))"

definition ser_pair_load ::
  "(bytes \<Rightarrow> exn + (nat \<times> 'a)) \<Rightarrow> (bytes \<Rightarrow> exn + (nat \<times> 'b)) \<Rightarrow> bytes \<Rightarrow> exn + (nat \<times> 'a \<times> 'b)" where
  "ser_pair_load load1 load2 data =
     (if length data < 2 then Inl Invalid_argument
      else res_bind (load1 data) (\<lambda>(k, x).
        if length data = k then Inl Data_corruption
        else res_bind (load2 (drop k data)) (\<lambda>(m, y). Inr (k + m, (x, y)))))"

definition ser_pair_store ::
  "('a \<Rightarrow> exn + bytes) \<Rightarrow> ('b \<Rightarrow> exn + bytes) \<Rightarrow> 'a \<times> 'b \<Rightarrow> exn + bytes" where
  "ser_pair_store store1 store2 obj =
     res_bind (store1 (fst obj)) (\<lambda>v. res_bind (store2 (snd obj)) (\<lambda>w. Inr (v @ w)))"

subsection \<open>Containers\<close>

fun ser_range_size :: "('a \<Rightarrow> exn + nat) \<Rightarrow> 'a list \<Rightarrow> exn + nat" where
  "ser_range_size sz [] = Inr 0"
| "ser_range_size sz (x # xs) =
     res_bind (sz x) (\<lambda>n. res_bind (ser_range_size sz xs) (\<lambda>m. Inr (n + m)))"

text \<open>\<open>ComputeSize\<close> counts the header of the size in bytes, \<open>UnsafeStoreTo\<close> writes the number of elements.\<close>

definition ser_container_size :: "('a \<Rightarrow> exn + nat) \<Rightarrow> 'a list \<Rightarrow> exn + nat" where
  "ser_container_size sz xs =
     res_bind (ser_range_size sz xs) (\<lambda>n.
       res_bind (vu64_bytes n) (\<lambda>h. Inr (length h + n)))"

fun ser_store_elems :: "('a \<Rightarrow> exn + bytes) \<Rightarrow> 'a list \<Rightarrow> exn + bytes" where
  "ser_store_elems store [] = Inr []"
| "ser_store_elems store (x # xs) =
     res_bind (store x) (\<lambda>w. res_bind (ser_store_elems store xs) (\<lambda>ws. Inr (w @ ws)))"

definition ser_container_store :: "('a \<Rightarrow> exn + bytes) \<Rightarrow> 'a list \<Rightarrow> exn + bytes" where
  "ser_container_store store xs =
     res_bind (vu64_bytes (length xs)) (\<lambda>h.
       res_bind (ser_store_elems store xs) (\<lambda>ws. Inr (h @ ws)))"

text \<open>\<open>put\<close> is \<open>PutToContainer\<close>, \<open>reserve n\<close> holds when \<open>PrepareContainer\<close> succeeds.\<close>

fun ser_load_elems ::
  "(bytes \<Rightarrow> exn + (nat \<times> 'a)) \<Rightarrow> ('c \<Rightarrow> 'a \<Rightarrow> 'c) \<Rightarrow> nat \<Rightarrow> bytes \<Rightarrow> nat \<Rightarrow> 'c \<Rightarrow> exn + (nat \<times> 'c)" where
  "ser_load_elems load put 0 data offset c = Inr (offset, c)"
| "ser_load_elems load put (Suc count) data offset c =
     (if length data \<le> offset then Inl Data_corruption
      else res_bind (load (drop offset data)) (\<lambda>(k, x).
        ser_load_elems load put count data (offset + k) (put c x)))"

definition ser_container_load ::
  "(bytes \<Rightarrow> exn + (nat \<times> 'a)) \<Rightarrow> (nat \<Rightarrow> bool) \<Rightarrow> ('c \<Rightarrow> 'a \<Rightarrow> 'c) \<Rightarrow> bytes \<Rightarrow> 'c \<Rightarrow> exn + (nat \<times> 'c)" where
  "ser_container_load load reserve put data c =
     (if data = [] then Inl Invalid_argument
      else res_bind (vu64_read data) (\<lambda>(count, k).
        if \<not> reserve count then Inl Length_error
        else ser_load_elems load put count data k c))"

subsection \<open>Whole objects\<close>

definition ser_store_to ::
  "('a \<Rightarrow> exn + nat) \<Rightarrow> ('a \<Rightarrow> exn + bytes) \<Rightarrow> 'a \<Rightarrow> nat \<Rightarrow> exn + bytes" where
  "ser_store_to sz store obj capacity =
     res_bind (sz obj) (\<lambda>need. if capacity < need then Inl Invalid_argument else store obj)"

definition ser_store_to_buffer ::
  "('a \<Rightarrow> exn + nat) \<Rightarrow> ('a \<Rightarrow> exn + bytes) \<Rightarrow> 'a \<Rightarrow> byte_buffer \<Rightarrow> nat \<Rightarrow> exn + (nat \<times> byte_buffer)" where
  "ser_store_to_buffer sz store obj buf offset =
     res_bind (sz obj) (\<lambda>need.
       let room = sub64 (bb_size buf) offset in
         res_bind (if need > room then bb_extend (need - room) 0 buf else Inr buf) (\<lambda>buf'.
           res_bind (store obj) (\<lambda>w.
             res_bind (mem_write (bb_vector buf') offset w) (\<lambda>v.
               Inr (length w, buf'\<lparr>bb_vector := v\<rparr>)))))"

text \<open>
  The range forms \<open>UnsafeStoreRangeTo\<close> and \<open>LoadRangeFrom\<close> never advance \<open>begin\<close>; the value \<open>None\<close>
  stands for a run that does not end.
\<close>

partial_function (option) ser_store_range ::
  "('a \<Rightarrow> exn + bytes) \<Rightarrow> 'a list \<Rightarrow> nat \<Rightarrow> (exn + nat) option" where
  "ser_store_range store xs offset =
     (if xs = [] then Some (Inr offset)
      else case store (hd xs) of
        Inl e \<Rightarrow> Some (Inl e)
      | Inr w \<Rightarrow> ser_store_range store xs (offset + length w))"

partial_function (option) ser_load_range ::
  "(bytes \<Rightarrow> exn + (nat \<times> 'a)) \<Rightarrow> 'a list \<Rightarrow> bytes \<Rightarrow> nat \<Rightarrow> (exn + (nat \<times> 'a list)) option" where
  "ser_load_range load xs data offset =
     (if xs = [] then Some (Inr (offset, xs))
      else case load (drop offset data) of
        Inl e \<Rightarrow> Some (Inl e)
      | Inr (k, x) \<Rightarrow> ser_load_range load (x # tl xs) data (offset + k))"

section \<open>The contract\<close>

text \<open>
  What a serializable type promises for the objects in \<open>valid\<close>: storing succeeds with at least one
  byte and no more than \<open>ComputeSize\<close>, loading the stored bytes back gives the object and consumes
  exactly them, and a successful load of any input stays inside the input.
\<close>

locale serializable =
  fixes valid :: "'a \<Rightarrow> bool"
    and sz :: "'a \<Rightarrow> exn + nat"
    and load :: "bytes \<Rightarrow> exn + (nat \<times> 'a)"
    and store :: "'a \<Rightarrow> exn + bytes"
  assumes stores: "valid x \<Longrightarrow> \<exists>w n. store x = Inr w \<and> sz x = Inr n \<and> w \<noteq> [] \<and> length w \<le> n"
    and loads: "valid x \<Longrightarrow> store x = Inr w \<Longrightarrow> load (w @ rest) = Inr (length w, x)"
    and load_bound: "load data = Inr (k, x) \<Longrightarrow> 0 < k \<and> k \<le> length data"
begin

lemma roundtrip:
  assumes "valid x"
  shows "\<exists>w. store x = Inr w \<and> load (w @ rest) = Inr (length w, x)"
  using stores [OF assms] loads [OF assms] by blast

lemma store_to_fits:
  assumes "valid x" and "sz x = Inr n" and "n \<le> capacity"
  shows "\<exists>w. ser_store_to sz store x capacity = Inr w \<and> length w \<le> capacity"
  using stores [OF assms(1)] assms(2,3) by (auto simp: ser_store_to_def)

text \<open>The elements of a container, stored one after the other, load back in order.\<close>

lemma store_elems:
  assumes "\<forall>x\<in>set xs. valid x"
  shows "\<exists>ws n. ser_store_elems store xs = Inr ws \<and> ser_range_size sz xs = Inr n \<and>
    length xs \<le> length ws \<and> length ws \<le> n"
  using assms
proof (induction xs)
  case (Cons x xs)
  then obtain w n ws m where "store x = Inr w" "sz x = Inr n" "w \<noteq> []" "length w \<le> n"
    "ser_store_elems store xs = Inr ws" "ser_range_size sz xs = Inr m"
    "length xs \<le> length ws" "length ws \<le> m"
    using stores [of x] by auto
  moreover then have "Suc (length xs) \<le> length w + length ws" by (cases w) auto
  ultimately show ?case by simp
qed simp

lemma load_elems:
  assumes "\<forall>x\<in>set xs. valid x" and "ser_store_elems store xs = Inr ws"
  shows "ser_load_elems load put (length xs) (pre @ ws @ rest) (length pre) c =
    Inr (length pre + length ws, foldl put c xs)"
  using assms
proof (induction xs arbitrary: ws pre c)
  case (Cons x xs)
  then obtain w ws' where w: "store x = Inr w" "ser_store_elems store xs = Inr ws'" "ws = w @ ws'"
    by (auto simp: res_bind_eq_Inr)
  moreover have "w \<noteq> []" using stores [of x] Cons.prems w by auto
  moreover have "load (w @ ws' @ rest) = Inr (length w, x)"
    using loads [of x w] Cons.prems w by simp
  moreover have "ser_load_elems load put (length xs) (pre @ w @ ws' @ rest) (length pre + length w) (put c x) =
      Inr (length pre + length w + length ws', foldl put (put c x) xs)"
    using Cons.IH [of ws' "pre @ w" "put c x"] Cons.prems w by simp
  ultimately show ?case by (simp add: add.assoc)
qed simp

lemma load_elems_bound:
  "ser_load_elems load put n data offset c = Inr (k, c') \<Longrightarrow> offset \<le> length data \<Longrightarrow>
   offset \<le> k \<and> k \<le> length data"
proof (induction n arbitrary: offset c)
  case (Suc n)
  from Suc.prems obtain m x where l: "load (drop offset data) = Inr (m, x)"
    and r: "ser_load_elems load put n data (offset + m) (put c x) = Inr (k, c')"
    by (auto simp: res_bind_eq_Inr split: if_splits prod.splits)
  have "offset + m \<le> length data" using load_bound [OF l] Suc.prems(2) by auto
  with Suc.IH [OF r] show ?case by simp
qed simp

end

section \<open>The overloads provide the contract\<close>

text \<open>Monotonicity of the header size: the element count is never larger than the size in bytes.\<close>

lemma vsize_mono: "m \<le> n \<Longrightarrow> vsize m \<le> vsize n"
proof (induction n arbitrary: m rule: less_induct)
  case (less n)
  consider (small) "m < 128" | (large) "\<not> m < 128" "\<not> n < 128" using less.prems by linarith
  then show ?case
  proof cases
    case small
    then have "vsize m = 1" by (simp add: vsize_def venc_small)
    moreover have "0 < vsize n" by simp
    ultimately show ?thesis by linarith
  next
    case large
    then have "n div 128 < n" "m div 128 \<le> n div 128" using less.prems by (simp_all add: div_le_mono)
    from less.IH [OF this] show ?thesis using large by (simp add: vsize_def venc_large)
  qed
qed

lemma scalar_serializable:
  assumes "0 < k"
  shows "serializable (\<lambda>x. x < 256 ^ k) (ser_scalar_size k) (ser_scalar_load k) (ser_scalar_store k)"
proof
  fix x :: nat assume "x < 256 ^ k"
  then show "\<exists>w n. ser_scalar_store k x = Inr w \<and> ser_scalar_size k x = Inr n \<and> w \<noteq> [] \<and> length w \<le> n"
    using assms by (cases k) (simp_all add: ser_scalar_store_def ser_scalar_size_def)
next
  fix x :: nat and w rest assume "x < 256 ^ k" and "ser_scalar_store k x = Inr w"
  then show "ser_scalar_load k (w @ rest) = Inr (length w, x)"
    using mem_read_append [of 0 "[]" k w rest]
    by (auto simp: ser_scalar_store_def ser_scalar_load_def le_nat_le_bytes_small)
next
  fix data m x assume "ser_scalar_load k data = Inr (m, x)"
  then show "0 < m \<and> m \<le> length data"
    using assms by (auto simp: ser_scalar_load_def res_bind_eq_Inr split: if_splits)
qed

lemma ser_buf_store_enc: "length v < 2 ^ 64 \<Longrightarrow> ser_buf_store v = Inr (bb_enc v)"
  by (simp add: ser_buf_store_def bb_unsafe_store_enc bb_size_def bb_of_def)

lemma ser_buf_size_enc: "length v < 2 ^ 64 \<Longrightarrow> ser_buf_size v = Inr (length (bb_enc v))"
  by (simp add: ser_buf_size_def bb_compute_size_enc bb_size_def bb_of_def)

lemma ser_buf_load_enc:
  "length v < 2 ^ 31 \<Longrightarrow> ser_buf_load (bb_enc v @ rest) = Inr (length (bb_enc v), v)"
  by (simp add: ser_buf_load_def bb_load_enc bb_empty_def)

lemma buf_serializable:
  "serializable (\<lambda>v. length v < 2 ^ 31) ser_buf_size ser_buf_load ser_buf_store"
proof
  fix v :: bytes assume "length v < 2 ^ 31"
  then show "\<exists>w n. ser_buf_store v = Inr w \<and> ser_buf_size v = Inr n \<and> w \<noteq> [] \<and> length w \<le> n"
    by (simp add: ser_buf_store_enc ser_buf_size_enc)
next
  fix v :: bytes and w rest
  assume "length v < 2 ^ 31" and "ser_buf_store v = Inr w"
  then show "ser_buf_load (w @ rest) = Inr (length w, v)"
    using ser_buf_store_enc [of v] ser_buf_load_enc [of v rest] by simp
next
  fix data k v assume "ser_buf_load data = Inr (k, v)"
  then show "0 < k \<and> k \<le> length data"
    using bb_load_from_bound by (auto simp: ser_buf_load_def res_bind_eq_Inr)
qed

lemma opt_serializable:
  assumes "serializable valid sz load store"
  shows "serializable (pred_option valid) (ser_opt_size sz) (ser_opt_load load) (ser_opt_store store)"
proof -
  note laws = serializable.stores [OF assms] serializable.loads [OF assms] serializable.load_bound [OF assms]
  show ?thesis
  proof
    fix x assume "pred_option valid x"
    then show "\<exists>w n. ser_opt_store store x = Inr w \<and> ser_opt_size sz x = Inr n \<and> w \<noteq> [] \<and> length w \<le> n"
      using laws(1) by (cases x) (fastforce simp: ser_opt_store_def ser_opt_size_def)+
  next
    fix x w rest assume v: "pred_option valid x" and w: "ser_opt_store store x = Inr w"
    then show "ser_opt_load load (w @ rest) = Inr (length w, x)"
    proof (cases x)
      case None
      with w show ?thesis by (auto simp: ser_opt_store_def ser_opt_load_def)
    next
      case (Some y)
      with v w obtain w' where w': "store y = Inr w'" "w = 1 # w'" "valid y"
        by (auto simp: ser_opt_store_def res_bind_eq_Inr)
      then have "w' \<noteq> []" using laws(1) [of y] by auto
      with Some w' show ?thesis using laws(2) [of y w' rest] by (simp add: ser_opt_load_def)
    qed
  next
    fix data k x assume "ser_opt_load load data = Inr (k, x)"
    then show "0 < k \<and> k \<le> length data"
      using laws(3) by (fastforce simp: ser_opt_load_def res_bind_eq_Inr split: list.splits if_splits)
  qed
qed

lemma pair_serializable:
  assumes "serializable valid1 sz1 load1 store1" and "serializable valid2 sz2 load2 store2"
  shows "serializable (\<lambda>(x, y). valid1 x \<and> valid2 y)
    (ser_pair_size sz1 sz2) (ser_pair_load load1 load2) (ser_pair_store store1 store2)"
proof -
  note one = serializable.stores [OF assms(1)] serializable.loads [OF assms(1)]
    serializable.load_bound [OF assms(1)]
  note two = serializable.stores [OF assms(2)] serializable.loads [OF assms(2)]
    serializable.load_bound [OF assms(2)]
  show ?thesis
  proof
    fix p assume v: "case p of (x, y) \<Rightarrow> valid1 x \<and> valid2 y"
    obtain x y where p: "p = (x, y)" by (cases p)
    from v p one(1) [of x] two(1) [of y] show
      "\<exists>w n. ser_pair_store store1 store2 p = Inr w \<and> ser_pair_size sz1 sz2 p = Inr n \<and>
        w \<noteq> [] \<and> length w \<le> n"
      by (auto simp: ser_pair_store_def ser_pair_size_def)
  next
    fix p w rest
    assume v: "case p of (x, y) \<Rightarrow> valid1 x \<and> valid2 y" and w: "ser_pair_store store1 store2 p = Inr w"
    obtain x y where p: "p = (x, y)" by (cases p)
    with w obtain a b where ab: "store1 x = Inr a" "store2 y = Inr b" "w = a @ b"
      by (auto simp: ser_pair_store_def res_bind_eq_Inr)
    moreover have "load1 (a @ b @ rest) = Inr (length a, x)" "load2 (b @ rest) = Inr (length b, y)"
      using v p ab one(2) two(2) by auto
    moreover have "a \<noteq> []" "b \<noteq> []" using v p ab one(1) [of x] two(1) [of y] by auto
    moreover then have "2 \<le> length a + length b" by (cases a; cases b) auto
    ultimately show "ser_pair_load load1 load2 (w @ rest) = Inr (length w, p)"
      using p by (simp add: ser_pair_load_def)
  next
    fix data k p assume "ser_pair_load load1 load2 data = Inr (k, p)"
    then obtain m n x y where "load1 data = Inr (m, x)" "load2 (drop m data) = Inr (n, y)" "k = m + n"
      by (auto simp: ser_pair_load_def res_bind_eq_Inr split: if_splits)
    with one(3) two(3) show "0 < k \<and> k \<le> length data" by fastforce
  qed
qed

lemma container_serializable:
  assumes "serializable valid sz load store" and "\<And>n. n \<le> max_count \<Longrightarrow> reserve n"
    and "max_count < 2 ^ 31"
  shows "serializable
    (\<lambda>xs. (\<forall>x\<in>set xs. valid x) \<and> length xs \<le> max_count \<and> (\<forall>n. ser_range_size sz xs = Inr n \<longrightarrow> n < 2 ^ 64))
    (ser_container_size sz) (\<lambda>data. ser_container_load load reserve (\<lambda>c x. c @ [x]) data [])
    (ser_container_store store)"
proof -
  note laws = serializable.store_elems [OF assms(1)] serializable.load_elems [OF assms(1)]
    serializable.load_elems_bound [OF assms(1)]
  show ?thesis
  proof
    fix xs assume v: "(\<forall>x\<in>set xs. valid x) \<and> length xs \<le> max_count \<and>
      (\<forall>n. ser_range_size sz xs = Inr n \<longrightarrow> n < 2 ^ 64)"
    then obtain ws n where ws: "ser_store_elems store xs = Inr ws" "ser_range_size sz xs = Inr n"
      "length xs \<le> length ws" "length ws \<le> n"
      using laws(1) by blast
    moreover from this v have "n < 2 ^ 64" "length xs < 2 ^ 64" "vsize (length xs) \<le> vsize n"
      by (auto intro: vsize_mono)
    ultimately show "\<exists>w n. ser_container_store store xs = Inr w \<and> ser_container_size sz xs = Inr n \<and>
      w \<noteq> [] \<and> length w \<le> n"
      by (simp add: ser_container_store_def ser_container_size_def vu64_bytes_venc vsize_def)
  next
    fix xs w rest
    assume v: "(\<forall>x\<in>set xs. valid x) \<and> length xs \<le> max_count \<and>
      (\<forall>n. ser_range_size sz xs = Inr n \<longrightarrow> n < 2 ^ 64)"
      and st: "ser_container_store store xs = Inr w"
    have small: "length xs < 2 ^ 31" "length xs < 2 ^ 64" using v assms(3) by auto
    from st obtain ws where ws: "ser_store_elems store xs = Inr ws" "w = venc (length xs) @ ws"
      by (auto simp: ser_container_store_def res_bind_eq_Inr vu64_bytes_venc [OF small(2)])
    have "foldl (\<lambda>c x. c @ [x]) ys xs = ys @ xs" for ys :: "'a list"
      by (induction xs arbitrary: ys) auto
    then show "ser_container_load load reserve (\<lambda>c x. c @ [x]) (w @ rest) [] = Inr (length w, xs)"
      using laws(2) [of xs ws "\<lambda>c x. c @ [x]" "venc (length xs)" rest "[]"] v ws assms(2)
        vu64_read_venc [OF small(1), of "ws @ rest"]
      by (simp add: ser_container_load_def vsize_def)
  next
    fix data k xs
    assume "ser_container_load load reserve (\<lambda>c x. c @ [x]) data [] = Inr (k, xs)"
    then obtain n off where r: "vu64_read data = Inr (n, off)"
      and l: "ser_load_elems load (\<lambda>c x. c @ [x]) n data off [] = Inr (k, xs)"
      by (auto simp: ser_container_load_def res_bind_eq_Inr split: if_splits)
    from vu64_read_bound [OF r] laws(3) [OF l] show "0 < k \<and> k \<le> length data" by linarith
  qed
qed

text \<open>The contract on the instances the code uses: 64-bit integers and lists of key-value pairs.\<close>

interpretation u64: serializable "\<lambda>x. x < 256 ^ 8" "ser_scalar_size 8" "ser_scalar_load 8" "ser_scalar_store 8"
  by (rule scalar_serializable) simp

interpretation buf: serializable "\<lambda>v. length v < 2 ^ 31" ser_buf_size ser_buf_load ser_buf_store
  by (rule buf_serializable)

interpretation opt_buf: serializable "pred_option (\<lambda>v. length v < 2 ^ 31)" "ser_opt_size ser_buf_size"
  "ser_opt_load ser_buf_load" "ser_opt_store ser_buf_store"
  by (rule opt_serializable) (rule buf_serializable)

interpretation entry: serializable "\<lambda>(k, v). length k < 2 ^ 31 \<and> length v < 2 ^ 31"
  "ser_pair_size ser_buf_size ser_buf_size" "ser_pair_load ser_buf_load ser_buf_load"
  "ser_pair_store ser_buf_store ser_buf_store"
  by (rule pair_serializable) (rule buf_serializable)+

text \<open>A vector of entries; \<open>reserve\<close> throws beyond the \<open>max_size\<close> of a vector of 64-byte elements.\<close>

definition vec_reserve :: "nat \<Rightarrow> bool" where
  "vec_reserve n \<longleftrightarrow> n < 2 ^ 57"

interpretation entries: serializable
  "\<lambda>xs. (\<forall>x\<in>set xs. case x of (k, v) \<Rightarrow> length k < 2 ^ 31 \<and> length v < 2 ^ 31) \<and> length xs \<le> 2 ^ 30 \<and>
    (\<forall>n. ser_range_size (ser_pair_size ser_buf_size ser_buf_size) xs = Inr n \<longrightarrow> n < 2 ^ 64)"
  "ser_container_size (ser_pair_size ser_buf_size ser_buf_size)"
  "\<lambda>data. ser_container_load (ser_pair_load ser_buf_load ser_buf_load) vec_reserve (\<lambda>c x. c @ [x]) data []"
  "ser_container_store (ser_pair_store ser_buf_store ser_buf_store)"
  by (rule container_serializable [OF entry.serializable_axioms]) (simp_all add: vec_reserve_def)

section \<open>Range operations\<close>

lemma ser_store_range_Some:
  assumes "ser_store_range store xs offset = Some r"
  shows "xs = [] \<or> (\<exists>e. r = Inl e)"
  using assms
proof (rule ser_store_range.raw_induct [rotated])
  fix f store xs offset r
  assume IH: "\<And>store xs offset r. f store xs offset = Some r \<Longrightarrow> xs = [] \<or> (\<exists>e. r = Inl e)"
    and step: "(if xs = [] then Some (Inr offset) else case store (hd xs) of Inl e \<Rightarrow> Some (Inl e)
      | Inr w \<Rightarrow> f store xs (offset + length w)) = Some r"
  show "xs = [] \<or> (\<exists>e. r = Inl e)"
  proof (cases "xs = []")
    case False
    with step show ?thesis
      by (cases "store (hd xs)") (auto dest: IH)
  qed simp
qed

lemma ser_load_range_Some:
  assumes "ser_load_range load xs data offset = Some r"
  shows "xs = [] \<or> (\<exists>e. r = Inl e)"
  using assms
proof (rule ser_load_range.raw_induct [rotated])
  fix f load xs data offset r
  assume IH: "\<And>load xs data offset r. f load xs data offset = Some r \<Longrightarrow> xs = [] \<or> (\<exists>e. r = Inl e)"
    and step: "(if xs = [] then Some (Inr (offset, xs)) else case load (drop offset data) of Inl e \<Rightarrow> Some (Inl e)
      | Inr (k, x) \<Rightarrow> f load (x # tl xs) data (offset + k)) = Some r"
  show "xs = [] \<or> (\<exists>e. r = Inl e)"
  proof (cases "xs = []")
    case False
    with step show ?thesis
      by (cases "load (drop offset data)") (auto dest: IH)
  qed simp
qed

text \<open>\<open>StoreTo\<close> into a buffer overlays the stored bytes at the offset and keeps everything around them.\<close>

lemma ser_store_to_buffer_overlay:
  assumes "sz x = Inr (length w)" and "store x = Inr w" and "offset \<le> bb_size buf"
    and "bb_size buf + length w < 2 ^ 63"
  shows "ser_store_to_buffer sz store x buf offset = Inr (length w,
    buf\<lparr>bb_vector := take offset (bb_vector buf) @ w @ drop (offset + length w) (bb_vector buf)\<rparr>)"
proof -
  let ?n = "bb_size buf"
  have room: "sub64 ?n offset = ?n - offset" using assms(3,4) by (intro sub64_le) simp_all
  show ?thesis
  proof (cases "length w > ?n - offset")
    case True
    let ?more = "length w - (?n - offset)"
    have fit: "?n + ?more < 2 ^ 63" using assms(4) by linarith
    then have "add64 ?n ?more = ?n + ?more" by (intro add64_small) simp
    moreover note fit
    ultimately have "bb_extend ?more 0 buf = Inr (buf\<lparr>bb_vector := bb_vector buf @ replicate ?more 0\<rparr>)"
      by (simp add: bb_extend_def bb_extend_to_def bb_size_def)
    then show ?thesis using assms True room
      by (simp add: ser_store_to_buffer_def mem_write_def bb_size_def)
  next
    case False
    then show ?thesis using assms room
      by (simp add: ser_store_to_buffer_def mem_write_def bb_size_def)
  qed
qed

section \<open>Properties\<close>



text \<open>C33: \<open>UnsafeStoreRangeTo\<close> and \<open>LoadRangeFrom\<close> never advance their iterator: on a range with an
  element they either throw or do not return at all, so no range is ever stored or loaded.\<close>

theorem range_operations_never_return:
  "xs \<noteq> [] \<longrightarrow> (\<nexists>n. ser_store_range store xs offset = Some (Inr n)) \<and>
    (\<nexists>r. ser_load_range load xs data offset = Some (Inr r))"
  using ser_store_range_Some [of store xs offset] ser_load_range_Some [of load xs data offset] by blast

theorem range_operations_never_return_witness:
  "\<nexists>n. ser_store_range (ser_scalar_store 8) [1, 2] 0 = Some (Inr n)"
  using range_operations_never_return [of "[1 :: nat, 2]" "ser_scalar_store 8" 0] by simp

end
