(* ===== verification/Raft.thy ===== *)
theory Raft
  imports Prelude
begin

text \<open>
  The consensus core of \<open>include/sharpen/RaftWrapper.hpp\<close>. The persistent storage, the log entries and
  the replicated application are template parameters of the class (\<open>RaftConcepts.hpp\<close>): here they are
  a record of functions over a storage type \<open>'s\<close>, a log type \<open>'l\<close>, a member id \<open>'i\<close> and an
  application state \<open>'a\<close>. What the code relies on when it calls the storage is the locale
  \<open>raft_storage\<close>; it is interpreted on a storage that keeps its entries in index order.
\<close>

section \<open>Parameters\<close>

type_synonym ('i, 'm) members = "('i \<times> 'm) list"

record ('s, 'l, 'i, 'a, 'm) raft_ops =
  log_index :: "'l \<Rightarrow> nat"
  log_term :: "'l \<Rightarrow> nat"
  append_log :: "'l \<Rightarrow> 's \<Rightarrow> 's"
  set_voted_for :: "'i \<Rightarrow> 's \<Rightarrow> 's"
  reset_voted_for :: "'s \<Rightarrow> 's"
  is_voted_for :: "'s \<Rightarrow> bool"
  get_voted_for :: "'s \<Rightarrow> 'i"
  set_current_term :: "nat \<Rightarrow> 's \<Rightarrow> 's"
  increase_current_term :: "'s \<Rightarrow> 's"
  current_term :: "'s \<Rightarrow> nat"
  remove_logs_after :: "nat \<Rightarrow> 's \<Rightarrow> 's"
  contain_log :: "nat \<Rightarrow> 's \<Rightarrow> bool"
  check_log :: "nat \<Rightarrow> nat \<Rightarrow> 's \<Rightarrow> bool"
  get_log :: "nat \<Rightarrow> 's \<Rightarrow> 'l"
  get_last_log :: "'s \<Rightarrow> 'l"
  empty_logs :: "'s \<Rightarrow> bool"
  set_last_applied_index :: "nat \<Rightarrow> 's \<Rightarrow> 's"
  get_last_applied_index :: "'s \<Rightarrow> nat"
  app_apply :: "'l \<Rightarrow> 'a \<Rightarrow> ('i, 'm) members \<Rightarrow> 's \<Rightarrow> exn option \<times> 'a \<times> ('i, 'm) members \<times> 's"
  app_install_snapshot :: "nat \<Rightarrow> nat \<Rightarrow> nat \<Rightarrow> nat \<Rightarrow> bytes \<Rightarrow> bool \<Rightarrow>
    'a \<Rightarrow> ('i, 'm) members \<Rightarrow> 's \<Rightarrow> 'a \<times> ('i, 'm) members \<times> 's"

text \<open>
  \<open>app_apply\<close> also returns the exception it throws, if any, with the state it leaves;
  \<open>app_install_snapshot\<close> takes the term, the last included index and term, the offset, the chunk and
  the flag \<open>done\<close>.
\<close>

section \<open>State\<close>

datatype raft_role = Follower | Leader | Candidate

datatype raft_append_result = Success | Access_denied | Lower_term | Leak_of_logs

datatype raft_apply_policy = Stop | Ignore

record ('s, 'i, 'a, 'm) raft =
  r_self :: 'i
  r_leader :: "'i option"
  r_storage :: 's
  r_role :: raft_role
  r_commit :: nat
  r_applied :: nat
  r_app :: 'a
  r_members :: "('i, 'm) members"
  r_votes :: nat

definition raft_new ::
  "('s, 'l, 'i, 'a, 'm) raft_ops \<Rightarrow> 'i \<Rightarrow> 's \<Rightarrow> 'a \<Rightarrow> ('s, 'i, 'a, 'm) raft" where
  "raft_new ops self s app =
     \<lparr>r_self = self, r_leader = None, r_storage = s, r_role = Follower,
      r_commit = get_last_applied_index ops s, r_applied = get_last_applied_index ops s,
      r_app = app, r_members = [], r_votes = 0\<rparr>"

abbreviation raft_term :: "('s, 'l, 'i, 'a, 'm) raft_ops \<Rightarrow> ('s, 'i, 'a, 'm) raft \<Rightarrow> nat" where
  "raft_term ops r \<equiv> current_term ops (r_storage r)"

definition raft_last_index :: "('s, 'l, 'i, 'a, 'm) raft_ops \<Rightarrow> 's \<Rightarrow> nat" where
  "raft_last_index ops s = (if empty_logs ops s then 0 else log_index ops (get_last_log ops s))"

definition raft_last_term :: "('s, 'l, 'i, 'a, 'm) raft_ops \<Rightarrow> 's \<Rightarrow> nat" where
  "raft_last_term ops s = (if empty_logs ops s then 0 else log_term ops (get_last_log ops s))"

section \<open>Roles and terms\<close>

definition raft_convert_follower :: "('s, 'i, 'a, 'm) raft \<Rightarrow> ('s, 'i, 'a, 'm) raft" where
  "raft_convert_follower r = r\<lparr>r_votes := 0, r_role := Follower\<rparr>"

definition raft_bigger_term ::
  "('s, 'l, 'i, 'a, 'm) raft_ops \<Rightarrow> nat \<Rightarrow> ('s, 'i, 'a, 'm) raft \<Rightarrow> ('s, 'i, 'a, 'm) raft" where
  "raft_bigger_term ops t r =
     (raft_convert_follower r)\<lparr>r_leader := None, r_storage := set_current_term ops t (r_storage r)\<rparr>"

definition raft_react_new_term ::
  "('s, 'l, 'i, 'a, 'm) raft_ops \<Rightarrow> nat \<Rightarrow> ('s, 'i, 'a, 'm) raft \<Rightarrow> ('s, 'i, 'a, 'm) raft" where
  "raft_react_new_term ops t r = (if t > raft_term ops r then raft_bigger_term ops t r else r)"

definition raft_member_majority :: "('s, 'i, 'a, 'm) raft \<Rightarrow> nat" where
  "raft_member_majority r = length (r_members r) div 2"

section \<open>Elections\<close>

definition raft_raise_election ::
  "('s, 'l, 'i, 'a, 'm) raft_ops \<Rightarrow> ('s, 'i, 'a, 'm) raft \<Rightarrow> ('s, 'i, 'a, 'm) raft" where
  "raft_raise_election ops r =
     r\<lparr>r_leader := None, r_votes := 0, r_role := Candidate,
       r_storage := set_voted_for ops (r_self r) (increase_current_term ops (r_storage r))\<rparr>"

definition raft_react_vote :: "nat \<Rightarrow> ('s, 'i, 'a, 'm) raft \<Rightarrow> ('s, 'i, 'a, 'm) raft" where
  "raft_react_vote vote r = r\<lparr>r_votes := r_votes r + vote\<rparr>"

definition raft_stop_election :: "('s, 'i, 'a, 'm) raft \<Rightarrow> bool \<times> ('s, 'i, 'a, 'm) raft" where
  "raft_stop_election r =
     (if r_role r = Candidate \<and> r_votes r \<ge> raft_member_majority r
      then (True, r\<lparr>r_role := Leader, r_leader := Some (r_self r)\<rparr>)
      else (False, r))"

definition raft_request_vote ::
  "('s, 'l, 'i, 'a, 'm) raft_ops \<Rightarrow> nat \<Rightarrow> 'i \<Rightarrow> nat \<Rightarrow> nat \<Rightarrow> ('s, 'i, 'a, 'm) raft \<Rightarrow>
     bool \<times> ('s, 'i, 'a, 'm) raft" where
  "raft_request_vote ops candidate_term candidate last_index last_term r =
     (if r_role r = Leader then (False, r)
      else if raft_term ops r > candidate_term then (False, r)
      else
        let r1 = (if raft_term ops r < candidate_term
                  then (let b = raft_bigger_term ops candidate_term r in
                    b\<lparr>r_storage := reset_voted_for ops (r_storage b), r_leader := None\<rparr>)
                  else r);
            s = r_storage r1
        in if (\<not> is_voted_for ops s \<or> get_voted_for ops s = candidate) \<and>
              last_index \<ge> raft_last_index ops s \<and> last_term \<ge> raft_last_term ops s
           then (True, (raft_convert_follower r1)\<lparr>r_storage := set_voted_for ops candidate s\<rparr>)
           else (False, r1))"

section \<open>Replication\<close>

text \<open>
  \<open>ApplyLogs\<close>: the first component is the exception of the application, which the code rethrows after
  it stepped \<open>lastApplied_\<close> back.
\<close>

function raft_apply_logs ::
  "('s, 'l, 'i, 'a, 'm) raft_ops \<Rightarrow> raft_apply_policy \<Rightarrow> ('s, 'i, 'a, 'm) raft \<Rightarrow>
     exn option \<times> ('s, 'i, 'a, 'm) raft" where
  "raft_apply_logs ops policy r =
     (if r_applied r < r_commit r then
        (let i = r_applied r + 1; s = r_storage r in
         if contain_log ops i s then
           (case app_apply ops (get_log ops i s) (r_app r) (r_members r) s of
              (Some e, a, m, s') \<Rightarrow> (Some e, r\<lparr>r_app := a, r_members := m, r_storage := s'\<rparr>)
            | (None, a, m, s') \<Rightarrow>
                raft_apply_logs ops policy
                  (r\<lparr>r_app := a, r_members := m,
                     r_storage := set_last_applied_index ops i s', r_applied := i\<rparr>))
         else if policy = Stop then (None, r)
         else raft_apply_logs ops policy
           (r\<lparr>r_storage := set_last_applied_index ops i s, r_applied := i\<rparr>))
      else (None, r))"
  by pat_completeness auto
termination
  by (relation "measure (\<lambda>(ops, policy, r). r_commit r - r_applied r)") auto

declare raft_apply_logs.simps [simp del]

text \<open>The loop of \<open>AppendEntries\<close> over the entries; \<open>noskip\<close> is its local flag.\<close>

fun raft_append_loop ::
  "('s, 'l, 'i, 'a, 'm) raft_ops \<Rightarrow> nat \<Rightarrow> 'l list \<Rightarrow> bool \<Rightarrow> 's \<Rightarrow> 's" where
  "raft_append_loop ops applied [] noskip s = s"
| "raft_append_loop ops applied (e # es) noskip s =
     (if log_index ops e > applied then
        (let contain = (noskip \<and> contain_log ops (log_index ops e) s);
             dirty = (contain \<and> \<not> check_log ops (log_index ops e) (log_term ops e) s);
             s1 = (if dirty then remove_logs_after ops (log_index ops e) s else s);
             noskip1 = (if dirty then False else noskip);
             s2 = (if \<not> contain then append_log ops e s1 else s1)
         in raft_append_loop ops applied es noskip1 s2)
      else raft_append_loop ops applied es noskip s)"

text \<open>Who may append: the first part of \<open>AppendEntries\<close> and of \<open>InstallSnapshot\<close>.\<close>

definition raft_accept_leader ::
  "('s, 'l, 'i, 'a, 'm) raft_ops \<Rightarrow> 'i \<Rightarrow> nat \<Rightarrow> ('s, 'i, 'a, 'm) raft \<Rightarrow>
     raft_append_result + ('s, 'i, 'a, 'm) raft" where
  "raft_accept_leader ops leader leader_term r =
     (if leader_term < raft_term ops r then Inl Lower_term
      else if raft_term ops r < leader_term
        then Inr ((raft_bigger_term ops leader_term r)\<lparr>r_leader := Some leader\<rparr>)
      else if r_role r = Leader then Inl Access_denied
      else if r_leader r \<noteq> None \<and> r_leader r \<noteq> Some leader then Inl Access_denied
      else Inr (r\<lparr>r_leader := Some leader\<rparr>))"

definition raft_append_entries ::
  "('s, 'l, 'i, 'a, 'm) raft_ops \<Rightarrow> 'l list \<Rightarrow> 'i \<Rightarrow> nat \<Rightarrow> nat \<Rightarrow> nat \<Rightarrow> nat \<Rightarrow> ('s, 'i, 'a, 'm) raft \<Rightarrow>
     (exn + raft_append_result) \<times> ('s, 'i, 'a, 'm) raft" where
  "raft_append_entries ops es leader leader_term prev_index prev_term leader_commit r =
     (case raft_accept_leader ops leader leader_term r of
        Inl res \<Rightarrow> (Inr res, r)
      | Inr r0 \<Rightarrow>
          let r1 = r0\<lparr>r_storage := reset_voted_for ops (r_storage r0)\<rparr>; s = r_storage r1 in
          if prev_index \<noteq> 0 \<and> prev_index > r_applied r1 \<and>
             \<not> (contain_log ops prev_index s \<and> check_log ops prev_index prev_term s)
          then (Inr Leak_of_logs, r1)
          else
            let s' = raft_append_loop ops (r_applied r1) es True s;
                r2 = r1\<lparr>r_storage := s',
                  r_commit := (if r_commit r1 < leader_commit
                    then min leader_commit (raft_last_index ops s') else r_commit r1)\<rparr>
            in case raft_apply_logs ops Stop r2 of
                 (Some e, r3) \<Rightarrow> (Inl e, r3)
               | (None, r3) \<Rightarrow> (Inr Success, r3))"

definition raft_install_snapshot ::
  "('s, 'l, 'i, 'a, 'm) raft_ops \<Rightarrow> 'i \<Rightarrow> nat \<Rightarrow> nat \<Rightarrow> nat \<Rightarrow> nat \<Rightarrow> bytes \<Rightarrow> bool \<Rightarrow>
     ('s, 'i, 'a, 'm) raft \<Rightarrow> raft_append_result \<times> ('s, 'i, 'a, 'm) raft" where
  "raft_install_snapshot ops leader leader_term last_index last_term offset data finished r =
     (case raft_accept_leader ops leader leader_term r of
        Inl res \<Rightarrow> (res, r)
      | Inr r1 \<Rightarrow>
          let (a, m, s) = app_install_snapshot ops leader_term last_index last_term offset data finished
                (r_app r1) (r_members r1) (r_storage r1) in
            (Success, r1\<lparr>r_storage := s, r_members := m, r_app := a\<rparr>))"

definition raft_append_log ::
  "('s, 'l, 'i, 'a, 'm) raft_ops \<Rightarrow> 'l \<Rightarrow> ('s, 'i, 'a, 'm) raft \<Rightarrow> ('s, 'i, 'a, 'm) raft" where
  "raft_append_log ops l r = r\<lparr>r_storage := append_log ops l (r_storage r)\<rparr>"

definition raft_set_commit_index :: "nat \<Rightarrow> ('s, 'i, 'a, 'm) raft \<Rightarrow> ('s, 'i, 'a, 'm) raft" where
  "raft_set_commit_index i r = (if r_commit r < i then r\<lparr>r_commit := i\<rparr> else r)"

definition raft_is_valid_index :: "nat \<Rightarrow> bool" where
  "raft_is_valid_index i \<longleftrightarrow> i = 0"

section \<open>Events\<close>

text \<open>Everything a node does, as one step function: calls of the owner and messages of other nodes.\<close>

datatype ('l, 'i) raft_event =
    Ev_request_vote nat 'i nat nat
  | Ev_raise_election
  | Ev_react_vote nat
  | Ev_stop_election
  | is_append_entries: Ev_append_entries "'l list" 'i nat nat nat nat
  | Ev_install_snapshot 'i nat nat nat nat bytes bool
  | Ev_new_term nat
  | Ev_append_log 'l
  | Ev_set_commit nat
  | Ev_apply_logs raft_apply_policy

fun raft_step ::
  "('s, 'l, 'i, 'a, 'm) raft_ops \<Rightarrow> ('l, 'i) raft_event \<Rightarrow> ('s, 'i, 'a, 'm) raft \<Rightarrow> ('s, 'i, 'a, 'm) raft" where
  "raft_step ops (Ev_request_vote t c li lt) r = snd (raft_request_vote ops t c li lt r)"
| "raft_step ops Ev_raise_election r = raft_raise_election ops r"
| "raft_step ops (Ev_react_vote v) r = raft_react_vote v r"
| "raft_step ops Ev_stop_election r = snd (raft_stop_election r)"
| "raft_step ops (Ev_append_entries es l t pi pt lc) r = snd (raft_append_entries ops es l t pi pt lc r)"
| "raft_step ops (Ev_install_snapshot l t li lt off data fin) r =
     snd (raft_install_snapshot ops l t li lt off data fin r)"
| "raft_step ops (Ev_new_term t) r = raft_react_new_term ops t r"
| "raft_step ops (Ev_append_log l) r = raft_append_log ops l r"
| "raft_step ops (Ev_set_commit i) r = raft_set_commit_index i r"
| "raft_step ops (Ev_apply_logs policy) r = snd (raft_apply_logs ops policy r)"

text \<open>The states a node can reach from its construction.\<close>

inductive raft_reach ::
  "('s, 'l, 'i, 'a, 'm) raft_ops \<Rightarrow> ('s, 'i, 'a, 'm) raft \<Rightarrow> ('s, 'i, 'a, 'm) raft \<Rightarrow> bool"
  for ops and r0 where
  start: "raft_reach ops r0 r0"
| step: "raft_reach ops r0 r \<Longrightarrow> raft_reach ops r0 (raft_step ops ev r)"

section \<open>What the code relies on in the storage\<close>

text \<open>
  \<open>logs s\<close> is the abstract log of a storage, by index, and \<open>voted s\<close> its vote. Appending is only
  specified for an entry beyond every stored one, and \<open>RemoveLogsAfter(i)\<close> removes \<open>[i,end)\<close>, as the
  comments at its call say.
\<close>

definition raft_agrees ::
  "('s, 'l, 'i, 'a, 'm) raft_ops \<Rightarrow> (nat \<Rightarrow> 'l option) \<Rightarrow> nat \<Rightarrow> 'l list \<Rightarrow> bool" where
  "raft_agrees ops log applied es \<longleftrightarrow> (\<forall>e\<in>set es. applied < log_index ops e \<longrightarrow>
     (case log (log_index ops e) of
        Some l \<Rightarrow> log_term ops l = log_term ops e
      | None \<Rightarrow> \<forall>i\<in>dom log. i < log_index ops e))"

text \<open>The map a list of entries stands for, leaving out what is already applied.\<close>

definition raft_entries ::
  "('s, 'l, 'i, 'a, 'm) raft_ops \<Rightarrow> nat \<Rightarrow> 'l list \<Rightarrow> nat \<Rightarrow> 'l option" where
  "raft_entries ops applied es = map_of (map (\<lambda>e. (log_index ops e, e)) (filter (\<lambda>e. applied < log_index ops e) es))"

definition raft_prev_ok ::
  "('s, 'l, 'i, 'a, 'm) raft_ops \<Rightarrow> (nat \<Rightarrow> 'l option) \<Rightarrow> nat \<Rightarrow> nat \<Rightarrow> nat \<Rightarrow> bool" where
  "raft_prev_ok ops log applied prev prev_term \<longleftrightarrow>
     prev = 0 \<or> prev \<le> applied \<or> (\<exists>l. log prev = Some l \<and> log_term ops l = prev_term)"

locale raft_storage =
  fixes ops :: "('s, 'l, 'i, 'a, 'm) raft_ops"
    and good :: "'s \<Rightarrow> bool"
    and logs :: "'s \<Rightarrow> nat \<Rightarrow> 'l option"
    and voted :: "'s \<Rightarrow> 'i option"
  assumes contain_iff: "good s \<Longrightarrow> contain_log ops i s \<longleftrightarrow> logs s i \<noteq> None"
    and get_eq: "good s \<Longrightarrow> logs s i = Some l \<Longrightarrow> get_log ops i s = l"
    and check_iff: "good s \<Longrightarrow> logs s i = Some l \<Longrightarrow> check_log ops i t s \<longleftrightarrow> log_term ops l = t"
    and empty_iff: "good s \<Longrightarrow> empty_logs ops s \<longleftrightarrow> logs s = Map.empty"
    and last_eq: "good s \<Longrightarrow> logs s i = Some l \<Longrightarrow>
      i \<le> log_index ops (get_last_log ops s) \<and>
      logs s (log_index ops (get_last_log ops s)) = Some (get_last_log ops s)"
    and append_logs: "good s \<Longrightarrow> \<forall>i\<in>dom (logs s). i < log_index ops e \<Longrightarrow>
      good (append_log ops e s) \<and> logs (append_log ops e s) = (logs s)(log_index ops e \<mapsto> e)"
    and remove_logs: "good s \<Longrightarrow>
      good (remove_logs_after ops i s) \<and> logs (remove_logs_after ops i s) = logs s |` {..<i}"
    and keep_wf: "good s \<Longrightarrow> good (set_voted_for ops c s)" "good s \<Longrightarrow> good (reset_voted_for ops s)"
      "good s \<Longrightarrow> good (set_current_term ops t s)" "good s \<Longrightarrow> good (increase_current_term ops s)"
      "good s \<Longrightarrow> good (set_last_applied_index ops i s)"
    and keep_logs: "good s \<Longrightarrow> logs (set_voted_for ops c s) = logs s"
      "good s \<Longrightarrow> logs (reset_voted_for ops s) = logs s"
      "good s \<Longrightarrow> logs (set_current_term ops t s) = logs s"
      "good s \<Longrightarrow> logs (increase_current_term ops s) = logs s"
      "good s \<Longrightarrow> logs (set_last_applied_index ops i s) = logs s"
    and term_eq: "current_term ops (set_current_term ops t s) = t"
      "current_term ops (increase_current_term ops s) = current_term ops s + 1"
      "current_term ops (set_voted_for ops c s) = current_term ops s"
      "current_term ops (reset_voted_for ops s) = current_term ops s"
      "current_term ops (append_log ops e s) = current_term ops s"
      "current_term ops (remove_logs_after ops i s) = current_term ops s"
      "current_term ops (set_last_applied_index ops i s) = current_term ops s"
    and voted_iff: "is_voted_for ops s \<longleftrightarrow> voted s \<noteq> None"
    and voted_get: "voted s = Some c \<Longrightarrow> get_voted_for ops s = c"
    and voted_eq: "voted (set_voted_for ops c s) = Some c" "voted (reset_voted_for ops s) = None"
      "voted (set_current_term ops t s) = voted s" "voted (increase_current_term ops s) = voted s"
      "voted (append_log ops e s) = voted s" "voted (remove_logs_after ops i s) = voted s"
      "voted (set_last_applied_index ops i s) = voted s"
begin

lemmas frame = keep_wf keep_logs term_eq voted_eq

lemma append_loop_frame:
  "current_term ops (raft_append_loop ops applied es noskip s) = current_term ops s \<and>
   voted (raft_append_loop ops applied es noskip s) = voted s"
  by (induction es arbitrary: noskip s) (simp_all add: frame Let_def)

text \<open>After the dirty suffix is gone the loop only appends.\<close>

lemma append_loop_tail:
  assumes "good s" and "sorted_wrt (\<lambda>a b. log_index ops a < log_index ops b) es"
    and "\<forall>e\<in>set es. applied < log_index ops e \<and> (\<forall>i\<in>dom (logs s). i < log_index ops e)"
  shows "good (raft_append_loop ops applied es False s) \<and>
    logs (raft_append_loop ops applied es False s) = logs s ++ map_of (map (\<lambda>e. (log_index ops e, e)) es)"
  using assms
proof (induction es arbitrary: s)
  case (Cons e es)
  have app: "good (append_log ops e s)" "logs (append_log ops e s) = (logs s)(log_index ops e \<mapsto> e)"
    using append_logs [of s e] Cons.prems by auto
  have fresh: "map_of (map (\<lambda>e. (log_index ops e, e)) es) (log_index ops e) = None"
    using Cons.prems(2) by (auto simp: map_of_eq_None_iff)
  have "(logs s)(log_index ops e \<mapsto> e) ++ map_of (map (\<lambda>e. (log_index ops e, e)) es) =
      logs s ++ map_of (map (\<lambda>e. (log_index ops e, e)) (e # es))"
    using fresh by (auto simp: fun_eq_iff map_add_def split: option.splits)
  moreover have "good (raft_append_loop ops applied es False (append_log ops e s)) \<and>
      logs (raft_append_loop ops applied es False (append_log ops e s)) =
        logs (append_log ops e s) ++ map_of (map (\<lambda>e. (log_index ops e, e)) es)"
  proof (rule Cons.IH)
    show "\<forall>x\<in>set es. applied < log_index ops x \<and>
        (\<forall>i\<in>dom (logs (append_log ops e s)). i < log_index ops x)"
      unfolding app(2) dom_fun_upd using Cons.prems(2,3) by simp
  qed (use Cons.prems(2) app(1) in simp_all)
  moreover have "raft_append_loop ops applied (e # es) False s =
      raft_append_loop ops applied es False (append_log ops e s)"
    using Cons.prems(3) by (simp add: Let_def)
  ultimately show ?case using app(2) by presburger
qed (simp add: map_add_def)

text \<open>Entries that agree with the log, or lie beyond it, are all there afterwards.\<close>

lemma append_loop_agrees:
  assumes "good s" and "sorted_wrt (\<lambda>a b. log_index ops a < log_index ops b) es" and "raft_agrees ops (logs s) applied es"
  shows "good (raft_append_loop ops applied es True s) \<and>
    logs (raft_append_loop ops applied es True s) =
      map_of (map (\<lambda>e. (log_index ops e, e)) (filter (\<lambda>e. applied < log_index ops e) es)) ++ logs s"
  using assms
proof (induction es arbitrary: s)
  case (Cons e es)
  let ?i = "log_index ops e"
  have sorted: "\<forall>x\<in>set es. ?i < log_index ops x" "sorted_wrt (\<lambda>a b. log_index ops a < log_index ops b) es"
    using Cons.prems(2) by auto
  consider (skip) "\<not> applied < ?i" | (have_it) l where "applied < ?i" "logs s ?i = Some l"
    | (new) "applied < ?i" "logs s ?i = None" by (cases "logs s ?i") auto
  then show ?case
  proof cases
    case skip
    then show ?thesis using Cons.IH [of s] Cons.prems sorted by (simp add: raft_agrees_def)
  next
    case have_it
    then have "contain_log ops ?i s" "check_log ops ?i (log_term ops e) s"
      using Cons.prems(1,3) contain_iff check_iff by (auto simp: raft_agrees_def)
    then have "raft_append_loop ops applied (e # es) True s = raft_append_loop ops applied es True s"
      using have_it(1) by (simp add: Let_def)
    moreover have "raft_agrees ops (logs s) applied es" using Cons.prems(3) by (simp add: raft_agrees_def)
    ultimately show ?thesis using Cons.IH [of s] Cons.prems(1) sorted have_it
      by (auto simp: fun_eq_iff map_add_def split: option.splits)
  next
    case new
    then have beyond: "\<forall>i\<in>dom (logs s). i < ?i" using Cons.prems(3) by (simp add: raft_agrees_def)
    then have app: "good (append_log ops e s)" "logs (append_log ops e s) = (logs s)(?i \<mapsto> e)"
      using append_logs Cons.prems(1) by auto
    have "\<not> contain_log ops ?i s" using new Cons.prems(1) contain_iff by simp
    then have step: "raft_append_loop ops applied (e # es) True s =
        raft_append_loop ops applied es True (append_log ops e s)"
      using new(1) by (simp add: Let_def)
    have "logs s (log_index ops x) = None" if "x \<in> set es" for x
      using beyond sorted(1) that by (metis domIff not_less_iff_gr_or_eq)
    moreover have "\<forall>i\<in>insert ?i (dom (logs s)). i < log_index ops x" if "x \<in> set es" for x
    proof -
      have "?i < log_index ops x" using sorted(1) that by simp
      with beyond show ?thesis using order_less_trans by blast
    qed
    ultimately have "case logs (append_log ops e s) (log_index ops x) of
        Some l \<Rightarrow> log_term ops l = log_term ops x
      | None \<Rightarrow> \<forall>i\<in>dom (logs (append_log ops e s)). i < log_index ops x" if "x \<in> set es" for x
      using that unfolding app(2) dom_fun_upd by simp (metis order_less_irrefl)
    then have "raft_agrees ops (logs (append_log ops e s)) applied es" by (simp add: raft_agrees_def)
    from Cons.IH [OF app(1) sorted(2) this] show ?thesis
      using step app(2) new sorted(1) by (auto simp: fun_eq_iff map_add_def split: option.splits)
  qed
qed simp

text \<open>The first entry that disagrees: the suffix is removed, but the entry itself is not appended.\<close>

lemma append_loop_conflict:
  assumes "good s" and "sorted_wrt (\<lambda>a b. log_index ops a < log_index ops b) (pre @ e # post)"
    and "raft_agrees ops (logs s) applied pre" and "applied < log_index ops e"
    and "logs s (log_index ops e) = Some l" and "log_term ops l \<noteq> log_term ops e"
  shows "good (raft_append_loop ops applied (pre @ e # post) True s) \<and>
    logs (raft_append_loop ops applied (pre @ e # post) True s) (log_index ops e) = None"
  using assms
proof (induction pre arbitrary: s)
  case Nil
  let ?i = "log_index ops e" and ?s = "remove_logs_after ops (log_index ops e) s"
  have "contain_log ops ?i s" "\<not> check_log ops ?i (log_term ops e) s"
    using Nil contain_iff check_iff by auto
  then have step: "raft_append_loop ops applied ([] @ e # post) True s =
      raft_append_loop ops applied post False ?s"
    using Nil.prems(4) by (simp add: Let_def)
  have rem: "good ?s" "logs ?s = logs s |` {..<?i}" using remove_logs [OF Nil.prems(1)] by auto
  have "\<forall>x\<in>set post. applied < log_index ops x \<and> (\<forall>i\<in>dom (logs ?s). i < log_index ops x)"
    using Nil.prems(2,4) rem(2) by (auto dest: order_less_trans)
  from append_loop_tail [OF rem(1) _ this] show ?case
    using Nil.prems(2) step rem(2) by (auto simp: map_add_def map_of_eq_None_iff split: option.splits)
next
  case (Cons p pre)
  let ?i = "log_index ops p"
  have lt: "?i < log_index ops e" "sorted_wrt (\<lambda>a b. log_index ops a < log_index ops b) (pre @ e # post)"
    using Cons.prems(2) by auto
  have keep: "raft_agrees ops (logs s) applied pre" using Cons.prems(3) by (simp add: raft_agrees_def)
  have "\<not> (applied < ?i \<and> logs s ?i = None)"
  proof
    assume *: "applied < ?i \<and> logs s ?i = None"
    then have "\<forall>i\<in>dom (logs s). i < ?i" using Cons.prems(3) by (simp add: raft_agrees_def)
    then have "log_index ops e < ?i" using Cons.prems(5) by blast
    with lt(1) show False by simp
  qed
  then have "applied < ?i \<Longrightarrow> contain_log ops ?i s \<and> check_log ops ?i (log_term ops p) s"
    using Cons.prems(1,3) contain_iff check_iff by (auto simp: raft_agrees_def)
  then have "raft_append_loop ops applied ((p # pre) @ e # post) True s =
      raft_append_loop ops applied (pre @ e # post) True s"
    by (auto simp: Let_def)
  then show ?case using Cons.IH [OF Cons.prems(1) lt(2) keep Cons.prems(4-6)] by simp
qed

text \<open>The logs applied by \<open>ApplyLogs\<close>, for an application that only changes its own state.\<close>

lemma apply_logs_run:
  assumes "\<And>l a m s. app_apply ops l a m s = (None, f l a, m, s)"
    and "good (r_storage r)" and "r_applied r \<le> r_commit r"
  shows "\<exists>k r'. raft_apply_logs ops Stop r = (None, r') \<and> r_applied r \<le> k \<and> k \<le> r_commit r \<and>
    (k = r_commit r \<or> logs (r_storage r) (k + 1) = None) \<and>
    (\<forall>i. r_applied r < i \<longrightarrow> i \<le> k \<longrightarrow> logs (r_storage r) i \<noteq> None) \<and>
    r_applied r' = k \<and> r_commit r' = r_commit r \<and> r_role r' = r_role r \<and>
    r_app r' = fold f (map (\<lambda>i. the (logs (r_storage r) i)) [r_applied r + 1..<k + 1]) (r_app r) \<and>
    good (r_storage r') \<and> logs (r_storage r') = logs (r_storage r)"
  using assms(2,3)
proof (induction "r_commit r - r_applied r" arbitrary: r)
  case 0
  then have "raft_apply_logs ops Stop r = (None, r)" by (simp add: raft_apply_logs.simps [of _ _ r])
  with 0 show ?case by (intro exI [of _ "r_applied r"] exI [of _ r]) simp
next
  case (Suc n)
  let ?i = "r_applied r + 1" and ?s = "r_storage r"
  have lt: "r_applied r < r_commit r" using Suc.hyps(2) by simp
  show ?case
  proof (cases "logs ?s ?i")
    case None
    then have "raft_apply_logs ops Stop r = (None, r)"
      using lt contain_iff [OF Suc.prems(1)] by (simp add: raft_apply_logs.simps [of _ _ r] Let_def)
    with None lt Suc.prems show ?thesis by (intro exI [of _ "r_applied r"] exI [of _ r]) simp
  next
    case (Some l)
    let ?r = "r\<lparr>r_app := f l (r_app r), r_storage := set_last_applied_index ops ?i ?s, r_applied := ?i\<rparr>"
    have step: "raft_apply_logs ops Stop r = raft_apply_logs ops Stop ?r"
      using lt Some contain_iff [OF Suc.prems(1)] get_eq [OF Suc.prems(1) Some] assms(1)
      by (simp add: raft_apply_logs.simps [of _ _ r] Let_def)
    have "n = r_commit ?r - r_applied ?r" "good (r_storage ?r)" "r_applied ?r \<le> r_commit ?r"
      using Suc.hyps(2) Suc.prems lt by (simp_all add: keep_wf)
    from Suc.hyps(1) [OF this] obtain k r' where k: "raft_apply_logs ops Stop ?r = (None, r')"
      "?i \<le> k" "k \<le> r_commit r" "k = r_commit r \<or> logs ?s (k + 1) = None"
      "\<forall>i. ?i < i \<longrightarrow> i \<le> k \<longrightarrow> logs ?s i \<noteq> None" "r_applied r' = k" "r_commit r' = r_commit r"
      "r_role r' = r_role r"
      "r_app r' = fold f (map (\<lambda>i. the (logs ?s i)) [?i + 1..<k + 1]) (f l (r_app r))"
      "good (r_storage r')" "logs (r_storage r') = logs ?s"
      by (auto simp: keep_logs Suc.prems(1))
    have "[?i..<k + 1] = ?i # [?i + 1..<k + 1]" using k(2) by (simp add: upt_conv_Cons)
    then have "r_app r' = fold f (map (\<lambda>i. the (logs ?s i)) [?i..<k + 1]) (r_app r)"
      using k(9) Some by simp
    moreover have "\<forall>i. r_applied r < i \<longrightarrow> i \<le> k \<longrightarrow> logs ?s i \<noteq> None"
      using k(5) Some by (metis Suc_eq_plus1 Suc_leI le_neq_implies_less option.distinct(1))
    ultimately show ?thesis using k step by (intro exI [of _ k] exI [of _ r']) simp
  qed
qed

lemma apply_logs_keep:
  assumes "\<And>l a m s. app_apply ops l a m s = (None, f l a, m, s)" and "good (r_storage r)"
  shows "\<exists>r'. raft_apply_logs ops Stop r = (None, r') \<and> good (r_storage r') \<and>
    logs (r_storage r') = logs (r_storage r)"
proof (cases "r_applied r \<le> r_commit r")
  case True
  then show ?thesis using apply_logs_run [OF assms] by blast
next
  case False
  then have "raft_apply_logs ops Stop r = (None, r)" by (simp add: raft_apply_logs.simps [of _ _ r])
  with assms(2) show ?thesis by simp
qed

lemma accept_leader_keeps:
  "raft_accept_leader ops l t r = Inr r0 \<Longrightarrow> good (r_storage r) \<Longrightarrow>
   good (r_storage r0) \<and> logs (r_storage r0) = logs (r_storage r) \<and> r_applied r0 = r_applied r \<and>
   r_commit r0 = r_commit r"
  by (auto simp: raft_accept_leader_def raft_bigger_term_def raft_convert_follower_def keep_wf keep_logs
      split: if_splits)

text \<open>\<open>AppendEntries\<close> past its checks: the loop runs on a storage with the same log.\<close>

lemma append_entries_storage:
  assumes "\<And>l a m s. app_apply ops l a m s = (None, f l a, m, s)"
    and "good (r_storage r)" and "raft_accept_leader ops leader t r = Inr r0"
    and "raft_prev_ok ops (logs (r_storage r)) (r_applied r) prev prev_term"
    and "good (raft_append_loop ops (r_applied r) es True (reset_voted_for ops (r_storage r0)))"
  shows "\<exists>r'. raft_append_entries ops es leader t prev prev_term lc r = (Inr Success, r') \<and>
    logs (r_storage r') =
      logs (raft_append_loop ops (r_applied r) es True (reset_voted_for ops (r_storage r0)))"
proof -
  let ?s = "reset_voted_for ops (r_storage r0)"
  let ?s' = "raft_append_loop ops (r_applied r) es True ?s"
  let ?r2 = "r0\<lparr>r_storage := ?s', r_commit :=
    (if r_commit r0 < lc then min lc (raft_last_index ops ?s') else r_commit r0)\<rparr>"
  note acc = accept_leader_keeps [OF assms(3,2)]
  have s: "good ?s" "logs ?s = logs (r_storage r)" using acc by (simp_all add: keep_wf keep_logs)
  have ok: "\<not> (prev \<noteq> 0 \<and> prev > r_applied r0 \<and> \<not> (contain_log ops prev ?s \<and> check_log ops prev prev_term ?s))"
    using assms(4) acc s contain_iff [OF s(1)] check_iff [OF s(1)] by (auto simp: raft_prev_ok_def)
  obtain r' where ap: "raft_apply_logs ops Stop ?r2 = (None, r')" "logs (r_storage r') = logs ?s'"
    using apply_logs_keep [OF assms(1), of ?r2] assms(5) by auto
  have "raft_append_entries ops es leader t prev prev_term lc r = (Inr Success, r')"
    using assms(3) acc ok ap(1)
    by (cases "r_commit r < lc") (simp_all add: raft_append_entries_def Let_def)
  with ap(2) show ?thesis by blast
qed

lemma append_entries_agrees:
  assumes "\<And>l a m s. app_apply ops l a m s = (None, f l a, m, s)"
    and "good (r_storage r)" and "raft_accept_leader ops leader t r = Inr r0"
    and "raft_prev_ok ops (logs (r_storage r)) (r_applied r) prev prev_term"
    and "sorted_wrt (\<lambda>a b. log_index ops a < log_index ops b) es"
    and "raft_agrees ops (logs (r_storage r)) (r_applied r) es"
  shows "\<exists>r'. raft_append_entries ops es leader t prev prev_term lc r = (Inr Success, r') \<and>
    logs (r_storage r') = raft_entries ops (r_applied r) es ++ logs (r_storage r)"
proof -
  let ?s = "reset_voted_for ops (r_storage r0)"
  have s: "good ?s" "logs ?s = logs (r_storage r)"
    using accept_leader_keeps [OF assms(3,2)] by (simp_all add: keep_wf keep_logs)
  from append_loop_agrees [OF s(1) assms(5), of "r_applied r"] assms(6) s(2)
  have "good (raft_append_loop ops (r_applied r) es True ?s)"
    "logs (raft_append_loop ops (r_applied r) es True ?s) =
      raft_entries ops (r_applied r) es ++ logs (r_storage r)"
    by (simp_all add: raft_entries_def)
  with append_entries_storage [OF assms(1-4), of es lc] show ?thesis by simp
qed

lemma append_entries_conflict:
  assumes "\<And>l a m s. app_apply ops l a m s = (None, f l a, m, s)"
    and "good (r_storage r)" and "raft_accept_leader ops leader t r = Inr r0"
    and "raft_prev_ok ops (logs (r_storage r)) (r_applied r) prev prev_term"
    and "sorted_wrt (\<lambda>a b. log_index ops a < log_index ops b) (pre @ e # post)"
    and "raft_agrees ops (logs (r_storage r)) (r_applied r) pre" and "r_applied r < log_index ops e"
    and "logs (r_storage r) (log_index ops e) = Some l" and "log_term ops l \<noteq> log_term ops e"
  shows "\<exists>r'. raft_append_entries ops (pre @ e # post) leader t prev prev_term lc r = (Inr Success, r') \<and>
    logs (r_storage r') (log_index ops e) = None"
proof -
  let ?s = "reset_voted_for ops (r_storage r0)"
  have s: "good ?s" "logs ?s = logs (r_storage r)"
    using accept_leader_keeps [OF assms(3,2)] by (simp_all add: keep_wf keep_logs)
  from append_loop_conflict [OF s(1) assms(5), of "r_applied r" l] assms(6-9) s(2)
  have "good (raft_append_loop ops (r_applied r) (pre @ e # post) True ?s)"
    "logs (raft_append_loop ops (r_applied r) (pre @ e # post) True ?s) (log_index ops e) = None"
    by simp_all
  with append_entries_storage [OF assms(1-4), of "pre @ e # post" lc] show ?thesis by auto
qed

text \<open>The last index depends on the abstract log only.\<close>

lemma last_index_cong:
  assumes "good s" and "good s'" and "logs s = logs s'"
  shows "raft_last_index ops s = raft_last_index ops s' \<and> raft_last_term ops s = raft_last_term ops s'"
proof (cases "logs s = Map.empty")
  case True
  then show ?thesis using assms by (simp add: raft_last_index_def raft_last_term_def empty_iff)
next
  case False
  then obtain i l where "logs s i = Some l" by fastforce
  then have last: "logs s (log_index ops (get_last_log ops s)) = Some (get_last_log ops s)"
    "logs s' (log_index ops (get_last_log ops s')) = Some (get_last_log ops s')"
    using last_eq [OF assms(1), of i l] last_eq [OF assms(2), of i l] assms(3) by auto
  then have "log_index ops (get_last_log ops s) = log_index ops (get_last_log ops s')"
    using last_eq [OF assms(1)] last_eq [OF assms(2)] assms(3) by (metis le_antisym)
  moreover from this have "get_last_log ops s = get_last_log ops s'"
    using last assms(3) by (metis option.inject)
  ultimately show ?thesis using assms False
    by (simp add: raft_last_index_def raft_last_term_def empty_iff)
qed

lemma request_vote_refuses_short_log:
  assumes "good (r_storage r)" and "last_index < raft_last_index ops (r_storage r)"
  shows "\<not> fst (raft_request_vote ops t c last_index last_term r)"
proof -
  let ?s = "reset_voted_for ops (set_current_term ops t (r_storage r))"
  have "raft_last_index ops ?s = raft_last_index ops (r_storage r)"
    using assms(1) last_index_cong [of ?s "r_storage r"] by (simp add: keep_wf keep_logs)
  then show ?thesis
    using assms(2)
    by (simp add: raft_request_vote_def Let_def raft_bigger_term_def raft_convert_follower_def)
qed

lemma request_vote_grants:
  assumes "raft_request_vote ops t c li lt r = (True, r')"
  shows "voted (r_storage r') = Some c \<and> current_term ops (r_storage r') = t \<and> r_role r' = Follower"
  using assms
  by (auto simp: raft_request_vote_def Let_def raft_bigger_term_def raft_convert_follower_def
      term_eq voted_eq split: if_splits)

lemma request_vote_once:
  assumes "voted (r_storage r) = Some c" and "current_term ops (r_storage r) = t"
    and "raft_request_vote ops t d li lt r = (True, r')"
  shows "d = c"
  using assms voted_get [OF assms(1)]
  by (auto simp: raft_request_vote_def Let_def voted_iff split: if_splits)

end

section \<open>Applications that leave term and vote alone\<close>

locale raft_node = raft_storage ops good logs voted
  for ops :: "('s, 'l, 'i, 'a, 'm) raft_ops" and good logs voted +
  assumes apply_keeps: "app_apply ops l a m s = (x, a', m', s') \<Longrightarrow>
      current_term ops s' = current_term ops s \<and> voted s' = voted s"
    and install_keeps: "app_install_snapshot ops t li lt off data fin a m s = (a', m', s') \<Longrightarrow>
      current_term ops s' = current_term ops s \<and> voted s' = voted s"
begin

lemma apply_logs_frame:
  "raft_apply_logs ops policy r = (x, r') \<Longrightarrow>
   current_term ops (r_storage r') = current_term ops (r_storage r) \<and>
   voted (r_storage r') = voted (r_storage r) \<and> r_role r' = r_role r \<and> r_leader r' = r_leader r \<and>
   r_self r' = r_self r"
proof (induction "r_commit r - r_applied r" arbitrary: r)
  case 0
  then show ?case by (simp add: raft_apply_logs.simps [of _ _ r])
next
  case (Suc n)
  let ?i = "Suc (r_applied r)" and ?s = "r_storage r"
  have lt: "r_applied r < r_commit r" using Suc.hyps(2) by simp
  obtain y a m s where ap: "app_apply ops (get_log ops ?i ?s) (r_app r) (r_members r) ?s = (y, a, m, s)"
    by (cases "app_apply ops (get_log ops ?i ?s) (r_app r) (r_members r) ?s")
  note keeps = apply_keeps [OF ap]
  note IH = Suc.hyps(1) [of "r\<lparr>r_app := a, r_members := m,
      r_storage := set_last_applied_index ops ?i s, r_applied := ?i\<rparr>"]
    Suc.hyps(1) [of "r\<lparr>r_storage := set_last_applied_index ops ?i ?s, r_applied := ?i\<rparr>"]
  show ?case
    using Suc.prems lt keeps IH Suc.hyps(2)
    by (auto simp: raft_apply_logs.simps [of _ _ r] Let_def ap term_eq voted_eq
        split: if_splits option.splits)
qed

lemma accept_leader_Inr:
  assumes "raft_accept_leader ops l t r = Inr r1"
  shows "current_term ops (r_storage r1) = t \<and> raft_term ops r \<le> t \<and> r_role r1 \<noteq> Leader \<and>
    voted (r_storage r1) = voted (r_storage r) \<and> r_self r1 = r_self r \<and> r_leader r1 = Some l"
  using assms
  by (auto simp: raft_accept_leader_def raft_bigger_term_def raft_convert_follower_def term_eq voted_eq
      split: if_splits)

lemma append_entries_frame:
  assumes "raft_append_entries ops es l t pi pt lc r = (x, r')"
  shows "raft_term ops r \<le> raft_term ops r' \<and> r_self r' = r_self r \<and> (r_role r' = Leader \<longrightarrow> r' = r)"
proof (cases "raft_accept_leader ops l t r")
  case (Inl res)
  then show ?thesis using assms by (simp add: raft_append_entries_def)
next
  case (Inr r0)
  note acc = accept_leader_Inr [OF Inr]
  let ?r1 = "r0\<lparr>r_storage := reset_voted_for ops (r_storage r0)\<rparr>"
  let ?s = "raft_append_loop ops (r_applied ?r1) es True (r_storage ?r1)"
  let ?r2 = "?r1\<lparr>r_storage := ?s, r_commit := (if r_commit ?r1 < lc then min lc (raft_last_index ops ?s)
      else r_commit ?r1)\<rparr>"
  obtain y r3 where ap: "raft_apply_logs ops Stop ?r2 = (y, r3)"
    by (cases "raft_apply_logs ops Stop ?r2")
  have "r' = ?r1 \<or> r' = r3"
    using assms Inr ap by (auto simp: raft_append_entries_def Let_def split: if_splits option.splits)
  moreover have "raft_term ops ?r1 = t" using acc by (simp add: term_eq)
  moreover have "raft_term ops r3 = t \<and> r_self r3 = r_self r \<and> r_role r3 \<noteq> Leader"
    using apply_logs_frame [OF ap] append_loop_frame acc by (simp add: term_eq)
  ultimately show ?thesis using acc by auto
qed

lemma install_snapshot_frame:
  assumes "raft_install_snapshot ops l t li lt off data fin r = (x, r')"
  shows "raft_term ops r \<le> raft_term ops r' \<and> r_self r' = r_self r \<and> (r_role r' = Leader \<longrightarrow> r' = r) \<and>
    voted (r_storage r') = voted (r_storage r)"
proof (cases "raft_accept_leader ops l t r")
  case (Inl res)
  then show ?thesis using assms by (simp add: raft_install_snapshot_def)
next
  case (Inr r1)
  obtain a m s where i: "app_install_snapshot ops t li lt off data fin (r_app r1) (r_members r1) (r_storage r1)
      = (a, m, s)" by (cases "app_install_snapshot ops t li lt off data fin (r_app r1) (r_members r1) (r_storage r1)")
  then have "r' = r1\<lparr>r_storage := s, r_members := m, r_app := a\<rparr>"
    using assms Inr by (simp add: raft_install_snapshot_def)
  then show ?thesis using accept_leader_Inr [OF Inr] install_keeps [OF i] by simp
qed

lemma step_term: "raft_term ops r \<le> raft_term ops (raft_step ops ev r)"
proof (cases ev)
  case (Ev_append_entries es l t pi pt lc)
  then show ?thesis using append_entries_frame [of es l t pi pt lc r]
    by (cases "raft_append_entries ops es l t pi pt lc r") simp
next
  case (Ev_install_snapshot l t li lt off data fin)
  then show ?thesis using install_snapshot_frame [of l t li lt off data fin r]
    by (cases "raft_install_snapshot ops l t li lt off data fin r") simp
next
  case (Ev_apply_logs policy)
  then show ?thesis using apply_logs_frame [of policy r] by (cases "raft_apply_logs ops policy r") simp
qed (auto simp: raft_request_vote_def raft_raise_election_def raft_react_vote_def raft_stop_election_def
    raft_react_new_term_def raft_append_log_def raft_set_commit_index_def raft_bigger_term_def
    raft_convert_follower_def Let_def term_eq)

text \<open>A leader always knows itself as the leader.\<close>

definition leads :: "('s, 'i, 'a, 'm) raft \<Rightarrow> bool" where
  "leads r \<longleftrightarrow> (r_role r = Leader \<longrightarrow> r_leader r = Some (r_self r))"

lemma step_leads: "leads r \<Longrightarrow> leads (raft_step ops ev r) \<and> r_self (raft_step ops ev r) = r_self r"
proof (cases ev)
  case (Ev_append_entries es l t pi pt lc)
  assume "leads r"
  moreover obtain x r' where "raft_append_entries ops es l t pi pt lc r = (x, r')"
    by (cases "raft_append_entries ops es l t pi pt lc r")
  ultimately show ?thesis using Ev_append_entries append_entries_frame [of es l t pi pt lc r x r']
    unfolding leads_def by fastforce
next
  case (Ev_install_snapshot l t li lt off data fin)
  assume "leads r"
  moreover obtain x r' where "raft_install_snapshot ops l t li lt off data fin r = (x, r')"
    by (cases "raft_install_snapshot ops l t li lt off data fin r")
  ultimately show ?thesis using Ev_install_snapshot install_snapshot_frame [of l t li lt off data fin r x r']
    unfolding leads_def by fastforce
next
  case (Ev_apply_logs policy)
  assume "leads r"
  moreover obtain x r' where "raft_apply_logs ops policy r = (x, r')"
    by (cases "raft_apply_logs ops policy r")
  ultimately show ?thesis using Ev_apply_logs apply_logs_frame [of policy r x r']
    unfolding leads_def by fastforce
qed (auto simp: leads_def raft_request_vote_def raft_raise_election_def raft_react_vote_def
    raft_stop_election_def raft_react_new_term_def raft_append_log_def raft_set_commit_index_def
    raft_bigger_term_def raft_convert_follower_def Let_def)

lemma reach_leads:
  "raft_reach ops r0 r \<Longrightarrow> leads r0 \<Longrightarrow> leads r \<and> r_self r = r_self r0 \<and> raft_term ops r0 \<le> raft_term ops r"
proof (induction rule: raft_reach.induct)
  case (step r ev)
  then show ?case using step_leads [of r ev] step_term [of r ev] by auto
qed simp

text \<open>Within a term a vote stays, unless entries are appended.\<close>

lemma step_vote:
  assumes "voted (r_storage r) = Some c" and "raft_term ops (raft_step ops ev r) = raft_term ops r"
    and "\<not> is_append_entries ev"
  shows "voted (r_storage (raft_step ops ev r)) = Some c"
proof (cases ev)
  case (Ev_request_vote t d li lt)
  then show ?thesis
    using assms voted_get [OF assms(1)]
    by (auto simp: raft_request_vote_def raft_bigger_term_def raft_convert_follower_def Let_def term_eq
        voted_eq voted_iff split: if_splits)
next
  case Ev_raise_election
  then show ?thesis using assms by (simp add: raft_raise_election_def term_eq)
next
  case (Ev_install_snapshot l t li lt off data fin)
  moreover obtain x r' where "raft_install_snapshot ops l t li lt off data fin r = (x, r')"
    by (cases "raft_install_snapshot ops l t li lt off data fin r")
  ultimately show ?thesis using assms(1) install_snapshot_frame [of l t li lt off data fin r x r'] by simp
next
  case (Ev_apply_logs policy)
  moreover obtain x r' where "raft_apply_logs ops policy r = (x, r')"
    by (cases "raft_apply_logs ops policy r")
  ultimately show ?thesis using assms(1) apply_logs_frame [of policy r x r'] by simp
next
  case (Ev_new_term t)
  then show ?thesis using assms(1,2)
    by (simp add: raft_react_new_term_def raft_bigger_term_def raft_convert_follower_def term_eq
        split: if_splits)
qed (use assms(1,3) in \<open>auto simp: raft_react_vote_def raft_stop_election_def raft_react_new_term_def
    raft_append_log_def raft_set_commit_index_def raft_bigger_term_def raft_convert_follower_def
    voted_eq\<close>)

lemma run_term: "raft_term ops r \<le> raft_term ops (fold (raft_step ops) evs r)"
  by (induction evs arbitrary: r) (auto intro: order_trans [OF step_term])

lemma run_vote:
  assumes "voted (r_storage r) = Some c" and "raft_term ops (fold (raft_step ops) evs r) = raft_term ops r"
    and "\<forall>ev\<in>set evs. \<not> is_append_entries ev"
  shows "voted (r_storage (fold (raft_step ops) evs r)) = Some c"
  using assms
proof (induction evs arbitrary: r)
  case (Cons ev evs)
  have "raft_term ops (raft_step ops ev r) = raft_term ops r"
    using step_term [of r ev] run_term [of "raft_step ops ev r" evs] Cons.prems(2) by simp
  moreover from this have "voted (r_storage (raft_step ops ev r)) = Some c"
    using step_vote [of r c ev] Cons.prems(1,3) by simp
  ultimately show ?case using Cons.IH [of "raft_step ops ev r"] Cons.prems by simp
qed simp

end

section \<open>A storage that keeps its entries in index order\<close>

record entry =
  en_index :: nat
  en_term :: nat
  en_cmd :: nat

record mem_storage =
  ms_term :: nat
  ms_voted :: "nat option"
  ms_logs :: "entry list"
  ms_applied :: nat

definition mem_wf :: "mem_storage \<Rightarrow> bool" where
  "mem_wf s \<longleftrightarrow> sorted_wrt (\<lambda>a b. en_index a < en_index b) (ms_logs s)"

definition mem_log :: "mem_storage \<Rightarrow> nat \<Rightarrow> entry option" where
  "mem_log s i = find (\<lambda>e. en_index e = i) (ms_logs s)"

text \<open>The application collects the commands it applies; a snapshot replaces them.\<close>

definition mem_ops :: "(mem_storage, entry, nat, nat list, unit) raft_ops" where
  "mem_ops =
     \<lparr>log_index = en_index, log_term = en_term,
      append_log = (\<lambda>e s. s\<lparr>ms_logs := ms_logs s @ [e]\<rparr>),
      set_voted_for = (\<lambda>c s. s\<lparr>ms_voted := Some c\<rparr>),
      reset_voted_for = (\<lambda>s. s\<lparr>ms_voted := None\<rparr>),
      is_voted_for = (\<lambda>s. ms_voted s \<noteq> None),
      get_voted_for = (\<lambda>s. the (ms_voted s)),
      set_current_term = (\<lambda>t s. s\<lparr>ms_term := t\<rparr>),
      increase_current_term = (\<lambda>s. s\<lparr>ms_term := ms_term s + 1\<rparr>),
      current_term = ms_term,
      remove_logs_after = (\<lambda>i s. s\<lparr>ms_logs := filter (\<lambda>e. en_index e < i) (ms_logs s)\<rparr>),
      contain_log = (\<lambda>i s. mem_log s i \<noteq> None),
      check_log = (\<lambda>i t s. case mem_log s i of None \<Rightarrow> False | Some e \<Rightarrow> en_term e = t),
      get_log = (\<lambda>i s. the (mem_log s i)),
      get_last_log = (\<lambda>s. last (ms_logs s)),
      empty_logs = (\<lambda>s. ms_logs s = []),
      set_last_applied_index = (\<lambda>i s. s\<lparr>ms_applied := i\<rparr>),
      get_last_applied_index = ms_applied,
      app_apply = (\<lambda>e a m s. (None, a @ [en_cmd e], m, s)),
      app_install_snapshot = (\<lambda>t li lt off data fin a m s. (map unat data, m, s))\<rparr>"

lemmas mem_simps = mem_ops_def mem_wf_def mem_log_def

lemma mem_log_Some:
  "mem_wf s \<Longrightarrow> mem_log s i = Some l \<longleftrightarrow> l \<in> set (ms_logs s) \<and> en_index l = i"
proof -
  have "sorted_wrt (\<lambda>a b. en_index a < en_index b) xs \<Longrightarrow>
      find (\<lambda>e. en_index e = i) xs = Some l \<longleftrightarrow> l \<in> set xs \<and> en_index l = i" for xs
    by (induction xs) auto
  then show "mem_wf s \<Longrightarrow> mem_log s i = Some l \<longleftrightarrow> l \<in> set (ms_logs s) \<and> en_index l = i"
    by (simp add: mem_wf_def mem_log_def)
qed

lemma mem_log_eqI:
  assumes "mem_wf s" and "\<And>i l. f i = Some l \<longleftrightarrow> l \<in> set (ms_logs s) \<and> en_index l = i"
  shows "mem_log s = f"
proof
  fix i show "mem_log s i = f i"
    using mem_log_Some [OF assms(1), of i] assms(2) [of i] by (metis not_None_eq)
qed

lemma mem_last:
  assumes "mem_wf s" and "mem_log s i = Some l"
  shows "i \<le> en_index (last (ms_logs s)) \<and>
    mem_log s (en_index (last (ms_logs s))) = Some (last (ms_logs s))"
proof -
  have l: "l \<in> set (ms_logs s)" "en_index l = i" using assms mem_log_Some by auto
  then have ne: "ms_logs s \<noteq> []" by auto
  then have split: "ms_logs s = butlast (ms_logs s) @ [last (ms_logs s)]" by simp
  have "sorted_wrt (\<lambda>a b. en_index a < en_index b) (butlast (ms_logs s) @ [last (ms_logs s)])"
    using assms(1) split by (simp add: mem_wf_def)
  then have "\<forall>x\<in>set (butlast (ms_logs s)). en_index x < en_index (last (ms_logs s))"
    by (simp add: sorted_wrt_append)
  moreover have "set (ms_logs s) = insert (last (ms_logs s)) (set (butlast (ms_logs s)))"
    using split by (metis Un_insert_right append.right_neutral list.simps(15) list.set(1) set_append sup_bot.right_neutral)
  ultimately have "i \<le> en_index (last (ms_logs s))" using l by auto
  then show ?thesis using ne assms(1) by (simp add: mem_log_Some)
qed

lemma mem_append:
  assumes "mem_wf s" and "\<forall>i\<in>dom (mem_log s). i < en_index e"
  shows "mem_wf (s\<lparr>ms_logs := ms_logs s @ [e]\<rparr>)"
    and "mem_log (s\<lparr>ms_logs := ms_logs s @ [e]\<rparr>) = (mem_log s)(en_index e \<mapsto> e)"
proof -
  have below: "\<forall>x\<in>set (ms_logs s). en_index x < en_index e"
    using assms mem_log_Some [OF assms(1)] by blast
  then show good: "mem_wf (s\<lparr>ms_logs := ms_logs s @ [e]\<rparr>)"
    using assms(1) by (simp add: mem_wf_def sorted_wrt_append)
  show "mem_log (s\<lparr>ms_logs := ms_logs s @ [e]\<rparr>) = (mem_log s)(en_index e \<mapsto> e)"
  proof (rule mem_log_eqI [OF good])
    fix i l
    show "((mem_log s)(en_index e \<mapsto> e)) i = Some l \<longleftrightarrow>
      l \<in> set (ms_logs (s\<lparr>ms_logs := ms_logs s @ [e]\<rparr>)) \<and> en_index l = i"
      using below mem_log_Some [OF assms(1), of i l] by auto
  qed
qed

lemma mem_remove:
  assumes "mem_wf s"
  shows "mem_wf (s\<lparr>ms_logs := filter (\<lambda>e. en_index e < i) (ms_logs s)\<rparr>)"
    and "mem_log (s\<lparr>ms_logs := filter (\<lambda>e. en_index e < i) (ms_logs s)\<rparr>) = mem_log s |` {..<i}"
proof -
  show good: "mem_wf (s\<lparr>ms_logs := filter (\<lambda>e. en_index e < i) (ms_logs s)\<rparr>)"
    using assms by (simp add: mem_wf_def sorted_wrt_filter)
  show "mem_log (s\<lparr>ms_logs := filter (\<lambda>e. en_index e < i) (ms_logs s)\<rparr>) = mem_log s |` {..<i}"
  proof (rule mem_log_eqI [OF good])
    fix j l
    show "(mem_log s |` {..<i}) j = Some l \<longleftrightarrow>
      l \<in> set (ms_logs (s\<lparr>ms_logs := filter (\<lambda>e. en_index e < i) (ms_logs s)\<rparr>)) \<and> en_index l = j"
      using mem_log_Some [OF assms, of j l] by (auto simp: restrict_map_def)
  qed
qed

interpretation mem: raft_node mem_ops mem_wf mem_log ms_voted
proof
  fix s i l assume "mem_wf s" and "mem_log s i = Some l"
  then show "i \<le> log_index mem_ops (get_last_log mem_ops s) \<and>
      mem_log s (log_index mem_ops (get_last_log mem_ops s)) = Some (get_last_log mem_ops s)"
    using mem_last by (simp add: mem_ops_def)
next
  fix s e
  assume "mem_wf s" and "\<forall>i\<in>dom (mem_log s). i < log_index mem_ops e"
  then show "mem_wf (append_log mem_ops e s) \<and>
    mem_log (append_log mem_ops e s) = (mem_log s)(log_index mem_ops e \<mapsto> e)"
    using mem_append by (simp add: mem_ops_def)
next
  fix s i assume "mem_wf s"
  then show "mem_wf (remove_logs_after mem_ops i s) \<and>
    mem_log (remove_logs_after mem_ops i s) = mem_log s |` {..<i}"
    using mem_remove by (simp add: mem_ops_def)
next
  fix s assume "mem_wf s"
  show "empty_logs mem_ops s \<longleftrightarrow> mem_log s = Map.empty"
    by (cases "ms_logs s") (auto simp: mem_simps fun_eq_iff)
qed (auto simp: mem_simps)

text \<open>A node with a vote, two entries and nothing applied.\<close>

definition mem_node :: "(mem_storage, nat, nat list, unit) raft" where
  "mem_node =
     (raft_new mem_ops 7
       \<lparr>ms_term = 3, ms_voted = Some 1,
        ms_logs = [\<lparr>en_index = 1, en_term = 1, en_cmd = 10\<rparr>, \<lparr>en_index = 2, en_term = 2, en_cmd = 20\<rparr>],
        ms_applied = 0\<rparr> [])\<lparr>r_commit := 1\<rparr>"

lemmas mem_node_simps = mem_node_def raft_new_def mem_simps

lemma mem_node_wf: "mem_wf (r_storage mem_node)"
  by (simp add: mem_node_simps)

lemma mem_apply: "app_apply mem_ops l a m s = (None, a @ [en_cmd l], m, s)"
  by (simp add: mem_ops_def)

section \<open>Properties\<close>







text \<open>C1: Without appended entries a node votes for one candidate per term: after it granted a vote for
  \<open>c\<close> in term \<open>t\<close>, whatever else happens, it grants no vote for another candidate while the term is \<open>t\<close>.\<close>

theorem raft_votes_once:
  assumes "raft_node ops good logs voted"
    and "raft_request_vote ops t c li lt r = (True, ra)"
    and "\<forall>ev\<in>set evs. \<not> is_append_entries ev"
    and "raft_term ops (fold (raft_step ops) evs ra) = t"
    and "raft_request_vote ops t d li' lt' (fold (raft_step ops) evs ra) = (True, rb)"
  shows "d = c"
proof -
  note storage = raft_node.axioms(1) [OF assms(1)]
  have g: "voted (r_storage ra) = Some c" "raft_term ops ra = t"
    using raft_storage.request_vote_grants [OF storage assms(2)] by auto
  then have "voted (r_storage (fold (raft_step ops) evs ra)) = Some c"
    using raft_node.run_vote [OF assms(1) g(1) _ assms(3)] assms(4) by simp
  then show ?thesis using raft_storage.request_vote_once [OF storage _ assms(4,5)] by simp
qed

theorem raft_votes_once_witness:
  "\<nexists>rb. raft_request_vote mem_ops 4 2 5 5
     (fold (raft_step mem_ops) [Ev_new_term 4] (snd (raft_request_vote mem_ops 4 1 2 2 mem_node))) = (True, rb)"
proof
  let ?ra = "snd (raft_request_vote mem_ops 4 1 2 2 mem_node)"
  note run = mem_node_simps raft_request_vote_def raft_bigger_term_def raft_convert_follower_def Let_def
    raft_last_index_def raft_last_term_def raft_react_new_term_def
  have granted: "raft_request_vote mem_ops 4 1 2 2 mem_node = (True, ?ra)" by (simp add: run)
  assume "\<exists>rb. raft_request_vote mem_ops 4 2 5 5 (fold (raft_step mem_ops) [Ev_new_term 4] ?ra) = (True, rb)"
  then obtain rb where
    "raft_request_vote mem_ops 4 2 5 5 (fold (raft_step mem_ops) [Ev_new_term 4] ?ra) = (True, rb)" ..
  then have "(2 :: nat) = 1"
    by (rule raft_votes_once [OF mem.raft_node_axioms granted, rotated 2]) (simp_all add: run)
  then show False by simp
qed

text \<open>\<open>AppendEntries\<close> of the current term forgets the vote: a node that has voted for another
  candidate in this term then votes again in it, so a term can have two granted votes of one node.\<close>

theorem raft_append_resets_vote:
  assumes "raft_node ops good logs voted" and "\<And>l a m s. app_apply ops l a m s = (None, f l a, m, s)"
    and "good (r_storage r)" and "voted (r_storage r) = Some c" and "r_role r = Follower"
    and "r_leader r = None \<or> r_leader r = Some l"
    and "raft_last_index ops (r_storage r) \<le> li" and "raft_last_term ops (r_storage r) \<le> lt"
  shows "fst (raft_request_vote ops (raft_term ops r) d li lt
    (snd (raft_append_entries ops [] l (raft_term ops r) 0 0 0 r)))"
proof -
  note storage = raft_node.axioms(1) [OF assms(1)]
  let ?r = "r\<lparr>r_leader := Some l, r_storage := reset_voted_for ops (r_storage r)\<rparr>"
  have good: "good (r_storage ?r)" "logs (r_storage ?r) = logs (r_storage r)"
    using assms(3) by (simp_all add: raft_storage.keep_wf [OF storage] raft_storage.keep_logs [OF storage])
  obtain r' where ap: "raft_apply_logs ops Stop ?r = (None, r')" "good (r_storage r')"
    "logs (r_storage r') = logs (r_storage r)"
    using raft_storage.apply_logs_keep [OF storage assms(2) good(1)] good(2) by auto
  have "raft_accept_leader ops l (raft_term ops r) r = Inr (r\<lparr>r_leader := Some l\<rparr>)"
    using assms(5,6) by (auto simp: raft_accept_leader_def)
  then have step: "snd (raft_append_entries ops [] l (raft_term ops r) 0 0 0 r) = r'"
    using ap(1) by (simp add: raft_append_entries_def Let_def)
  have frame: "raft_term ops r' = raft_term ops r" "voted (r_storage r') = None" "r_role r' = Follower"
    using raft_node.apply_logs_frame [OF assms(1) ap(1)] assms(5)
    by (simp_all add: raft_storage.term_eq [OF storage] raft_storage.voted_eq [OF storage])
  have "raft_last_index ops (r_storage r') \<le> li" "raft_last_term ops (r_storage r') \<le> lt"
    using raft_storage.last_index_cong [OF storage ap(2) assms(3) ap(3)] assms(7,8) by auto
  then show ?thesis
    using frame by (simp add: step raft_request_vote_def Let_def raft_storage.voted_iff [OF storage])
qed

theorem raft_append_resets_vote_witness:
  "fst (raft_request_vote mem_ops (raft_term mem_ops mem_node) 2 2 2
    (snd (raft_append_entries mem_ops [] 1 (raft_term mem_ops mem_node) 0 0 0 mem_node)))"
  by (rule raft_append_resets_vote [OF mem.raft_node_axioms mem_apply mem_node_wf])
    (auto simp: mem_node_simps raft_last_index_def raft_last_term_def)



text \<open>\<open>RequestVote\<close> compares index and term of the last entries separately: a candidate whose log is
  shorter is refused whatever its last term, also when that term is the newer one and its log
  therefore the more up-to-date of the two.\<close>

theorem raft_refuses_shorter_log:
  assumes "raft_storage ops good logs voted" and "good (r_storage r)"
    and "last_index < raft_last_index ops (r_storage r)"
  shows "\<forall>last_term. \<not> fst (raft_request_vote ops t c last_index last_term r)"
  using raft_storage.request_vote_refuses_short_log [OF assms] by blast

theorem raft_refuses_shorter_log_witness:
  "\<not> fst (raft_request_vote mem_ops 9 1 1 8 mem_node)"
proof -
  have "1 < raft_last_index mem_ops (r_storage mem_node)"
    by (simp add: mem_node_simps raft_last_index_def)
  from raft_refuses_shorter_log [OF mem.raft_storage_axioms mem_node_wf this] show ?thesis by blast
qed

end
