(* ===== verification/Quorum.thy ===== *)
theory Quorum
  imports Prelude
begin

text \<open>
  \<open>include/sharpen/Quorum.hpp\<close>: a proposal to a range of proposers, decided by a majority of their
  answers. Every proposer has a future whose callback may run on any thread, so the callback is split
  at its accesses to the shared waiter and a step relation interleaves the pieces arbitrarily. The
  trace records what the waiter completes: the continuation with its result, the timer of the
  time-limited form, and the finish future.
\<close>

section \<open>State\<close>

datatype quorum_effect = Continue bool | Cancel_timer | Finish

text \<open>
  Where the callback of a future is: not called; after \<open>finishCounter_.fetch_sub\<close>, with its result;
  after the success or error counter, with the result of the comparison; after the continuation;
  returned.
\<close>

datatype quorum_pc =
    Pending
  | Counted nat
  | Voted nat "bool option"
  | Decided nat
  | Returned

record waiter =
  w_futures :: "(bool \<times> quorum_pc) list"
  w_finish_counter :: nat
  w_success_counter :: nat
  w_error_counter :: nat
  w_majority :: nat
  w_continuation :: bool
  w_finish :: bool
  w_timed :: bool
  w_trace :: "quorum_effect list"

text \<open>
  A future is its outcome (\<open>!future.IsError() && future.Get()\<close>) and the state of its callback;
  \<open>w_continuation\<close> and \<open>w_finish\<close> say whether the pointers are set.
\<close>

definition init_waiter :: "bool \<Rightarrow> bool list \<Rightarrow> bool \<Rightarrow> nat \<Rightarrow> waiter" where
  "init_waiter timed outcomes finish majority =
     \<lparr>w_futures = map (\<lambda>b. (b, Pending)) outcomes, w_finish_counter = length outcomes,
      w_success_counter = 0, w_error_counter = 0, w_majority = majority,
      w_continuation = True, w_finish = finish, w_timed = timed, w_trace = []\<rparr>"

definition default_majority :: "nat \<Rightarrow> nat" where
  "default_majority n = (n + 1) div 2"

text \<open>\<open>ProposeAsync\<close>: an empty range is answered at once, and the finish pointer is dereferenced.\<close>

definition propose_async :: "bool \<Rightarrow> bool list \<Rightarrow> bool \<Rightarrow> nat \<Rightarrow> exn + (quorum_effect list + waiter)" where
  "propose_async timed outcomes finish majority =
     (if outcomes = [] then (if finish then Inr (Inl [Continue True, Finish]) else Inl Undefined)
      else Inr (Inr (init_waiter timed outcomes finish majority)))"

section \<open>Steps\<close>

definition complete_continuation :: "bool \<Rightarrow> waiter \<Rightarrow> waiter" where
  "complete_continuation b w =
     w\<lparr>w_trace := w_trace w @ (if w_continuation w then [Continue b] else []), w_continuation := False\<rparr>"

definition complete_finish :: "waiter \<Rightarrow> waiter" where
  "complete_finish w =
     w\<lparr>w_trace := w_trace w @ (if w_timed w then [Cancel_timer] else []) @
         (if w_finish w then [Finish] else []),
       w_finish := False\<rparr>"

definition set_pc :: "nat \<Rightarrow> quorum_pc \<Rightarrow> waiter \<Rightarrow> waiter" where
  "set_pc i pc w = w\<lparr>w_futures := (w_futures w)[i := (fst (w_futures w ! i), pc)]\<rparr>"

text \<open>One piece of the callback of future \<open>i\<close>; \<open>None\<close> when the callback has returned.\<close>

definition callback_step :: "nat \<Rightarrow> waiter \<Rightarrow> waiter option" where
  "callback_step i w =
     (case snd (w_futures w ! i) of
        Pending \<Rightarrow>
          (let k = w_finish_counter w - 1 in
             Some (set_pc i (Counted k) (w\<lparr>w_finish_counter := k\<rparr>)))
      | Counted k \<Rightarrow>
          if fst (w_futures w ! i) then
            (let s = w_success_counter w + 1 in
               Some (set_pc i (Voted k (if s = w_majority w then Some True else None))
                 (w\<lparr>w_success_counter := s\<rparr>)))
          else
            (let e = w_error_counter w in
               Some (set_pc i
                 (Voted k (if length (w_futures w) - e = w_majority w then Some False else None))
                 (w\<lparr>w_error_counter := e + 1\<rparr>)))
      | Voted k None \<Rightarrow> Some (set_pc i (Decided k) w)
      | Voted k (Some b) \<Rightarrow> Some (set_pc i (Decided k) (complete_continuation b w))
      | Decided k \<Rightarrow> Some (set_pc i Returned (if k = 0 then complete_finish w else w))
      | Returned \<Rightarrow> None)"

text \<open>
  The timeout callback of the time-limited form cancels the proposers whose futures are pending; each
  one is only cancelled when the next one is found, or after the loop. \<open>ite = None\<close> is \<open>end\<close>.
\<close>

fun timeout_loop :: "nat \<Rightarrow> bool list \<Rightarrow> nat option \<Rightarrow> nat list" where
  "timeout_loop i [] ite = (case ite of None \<Rightarrow> [] | Some j \<Rightarrow> [j])"
| "timeout_loop i (p # ps) ite =
     (if p then (case ite of None \<Rightarrow> [] | Some j \<Rightarrow> [j]) @ timeout_loop (i + 1) ps (Some i)
      else timeout_loop (i + 1) ps ite)"

definition timeout_cancels :: "bool list \<Rightarrow> nat list" where
  "timeout_cancels ps = timeout_loop 0 ps None"

inductive quorum_step :: "waiter \<Rightarrow> waiter \<Rightarrow> bool" where
  "i < length (w_futures w) \<Longrightarrow> callback_step i w = Some w' \<Longrightarrow> quorum_step w w'"

inductive quorum_reach :: "waiter \<Rightarrow> waiter \<Rightarrow> bool" for w0 where
  start: "quorum_reach w0 w0"
| step: "quorum_reach w0 w \<Longrightarrow> quorum_step w w' \<Longrightarrow> quorum_reach w0 w'"

definition quorum_done :: "waiter \<Rightarrow> bool" where
  "quorum_done w \<longleftrightarrow> (\<forall>f\<in>set (w_futures w). snd f = Returned)"

section \<open>Counting\<close>

definition count_if :: "('a \<Rightarrow> bool) \<Rightarrow> 'a list \<Rightarrow> nat" where
  "count_if P xs = length (filter P xs)"

lemma count_if_simps [simp]:
  "count_if P [] = 0"
  "count_if P (x # xs) = (if P x then 1 else 0) + count_if P xs"
  "count_if P (xs @ ys) = count_if P xs + count_if P ys"
  by (simp_all add: count_if_def)

lemma count_if_update:
  "i < length xs \<Longrightarrow>
   count_if P (xs[i := y]) + (if P (xs ! i) then 1 else 0) = count_if P xs + (if P y then 1 else 0)"
proof (induction xs arbitrary: i)
  case (Cons x xs)
  then show ?case
  proof (cases i)
    case (Suc j)
    with Cons.prems Cons.IH [of j] show ?thesis by auto
  qed simp
qed simp

lemma count_if_le: "count_if P xs \<le> length xs"
  by (simp add: count_if_def)

lemma count_if_mono: "(\<And>x. x \<in> set xs \<Longrightarrow> P x \<Longrightarrow> Q x) \<Longrightarrow> count_if P xs \<le> count_if Q xs"
  by (induction xs) auto

lemma count_if_none: "(\<And>x. x \<in> set xs \<Longrightarrow> \<not> P x) \<Longrightarrow> count_if P xs = 0"
  by (induction xs) auto

fun has_voted :: "quorum_pc \<Rightarrow> bool" where
  "has_voted (Voted _ _) = True"
| "has_voted (Decided _) = True"
| "has_voted Returned = True"
| "has_voted _ = False"

fun is_last :: "quorum_pc \<Rightarrow> bool" where
  "is_last (Counted k) = (k = 0)"
| "is_last (Voted k _) = (k = 0)"
| "is_last (Decided k) = (k = 0)"
| "is_last _ = False"

definition votes :: "bool \<Rightarrow> (bool \<times> quorum_pc) list \<Rightarrow> nat" where
  "votes b fs = count_if (\<lambda>f. fst f = b \<and> has_voted (snd f)) fs"

definition armed :: "bool \<Rightarrow> (bool \<times> quorum_pc) list \<Rightarrow> nat" where
  "armed b fs = count_if (\<lambda>f. \<exists>k. snd f = Voted k (Some b)) fs"

definition pending :: "(bool \<times> quorum_pc) list \<Rightarrow> nat" where
  "pending fs = count_if (\<lambda>f. snd f = Pending) fs"

definition closing :: "(bool \<times> quorum_pc) list \<Rightarrow> nat" where
  "closing fs = count_if (\<lambda>f. is_last (snd f)) fs"

lemmas quorum_counts = votes_def armed_def pending_def closing_def

lemma counts_update:
  assumes "i < length fs" and "fs ! i = (b, p)"
  shows "votes c (fs[i := (b, p')]) + (if b = c \<and> has_voted p then 1 else 0) =
      votes c fs + (if b = c \<and> has_voted p' then 1 else 0)"
    and "armed c (fs[i := (b, p')]) + (if \<exists>k. p = Voted k (Some c) then 1 else 0) =
      armed c fs + (if \<exists>k. p' = Voted k (Some c) then 1 else 0)"
    and "pending (fs[i := (b, p')]) + (if p = Pending then 1 else 0) =
      pending fs + (if p' = Pending then 1 else 0)"
    and "closing (fs[i := (b, p')]) + (if is_last p then 1 else 0) =
      closing fs + (if is_last p' then 1 else 0)"
  using count_if_update [OF assms(1), of "\<lambda>f. fst f = c \<and> has_voted (snd f)" "(b, p')"]
    count_if_update [OF assms(1), of "\<lambda>f. \<exists>k. snd f = Voted k (Some c)" "(b, p')"]
    count_if_update [OF assms(1), of "\<lambda>f. snd f = Pending" "(b, p')"]
    count_if_update [OF assms(1), of "\<lambda>f. is_last (snd f)" "(b, p')"]
  by (simp_all only: assms(2) quorum_counts fst_conv snd_conv)

lemma votes_bound: "votes True fs + votes False fs \<le> length fs"
  unfolding votes_def by (induction fs) auto

definition continues :: "bool \<Rightarrow> quorum_effect list \<Rightarrow> nat" where
  "continues b tr = count_if (\<lambda>e. e = Continue b) tr"

definition finishes :: "quorum_effect list \<Rightarrow> nat" where
  "finishes tr = count_if (\<lambda>e. e = Finish) tr"

section \<open>The invariant\<close>

definition quorum_inv :: "bool list \<Rightarrow> bool \<Rightarrow> waiter \<Rightarrow> bool" where
  "quorum_inv outcomes finish w \<longleftrightarrow>
     (let fs = w_futures w; m = w_majority w; tr = w_trace w in
        map fst fs = outcomes \<and> 1 \<le> m \<and> m \<le> length fs \<and>
        w_success_counter w = votes True fs \<and> w_error_counter w = votes False fs \<and>
        w_finish_counter w = pending fs \<and>
        armed True fs + continues True tr = (if m \<le> votes True fs then 1 else 0) \<and>
        armed False fs + continues False tr = (if length fs < m + votes False fs then 1 else 0) \<and>
        w_continuation w = (continues True tr + continues False tr = 0) \<and>
        w_finish w = (finish \<and> finishes tr = 0) \<and>
        (if finish then closing fs + finishes tr = (if pending fs = 0 then 1 else 0)
         else finishes tr = 0))"

lemma map_fst_update: "i < length fs \<Longrightarrow> fs ! i = (b, p) \<Longrightarrow> map fst (fs[i := (b, p')]) = map fst fs"
  by (metis fst_conv list_update_id map_update)

lemma quorum_inv_init:
  assumes "1 \<le> m" and "m \<le> length outcomes"
  shows "quorum_inv outcomes finish (init_waiter timed outcomes finish m)"
proof -
  have "pending (map (\<lambda>b. (b, Pending)) xs) = length xs" "votes c (map (\<lambda>b. (b, Pending)) xs) = 0"
    "armed c (map (\<lambda>b. (b, Pending)) xs) = 0" "closing (map (\<lambda>b. (b, Pending)) xs) = 0"
    for xs :: "bool list" and c
    unfolding quorum_counts by (induction xs) auto
  then show ?thesis
    using assms
    by (auto simp: quorum_inv_def init_waiter_def continues_def finishes_def o_def Let_def)
qed

lemma quorum_inv_step:
  assumes "quorum_inv outcomes finish w" and "i < length (w_futures w)" and "callback_step i w = Some w'"
  shows "quorum_inv outcomes finish w'"
proof -
  let ?fs = "w_futures w"
  obtain b p where f: "?fs ! i = (b, p)" by (cases "?fs ! i")
  note upd = counts_update [OF assms(2) f] and keep = map_fst_update [OF assms(2) f]
  note inv = assms(1) [unfolded quorum_inv_def Let_def]
  have bound: "votes True (?fs[i := (b, p')]) + votes False (?fs[i := (b, p')]) \<le> length ?fs" for p'
    using votes_bound [of "?fs[i := (b, p')]"] by simp
  show ?thesis
  proof (cases p)
    case Pending
    then have w': "w' = set_pc i (Counted (w_finish_counter w - 1)) (w\<lparr>w_finish_counter := w_finish_counter w - 1\<rparr>)"
      using assms(3) f by (simp add: callback_step_def Let_def)
    let ?k = "w_finish_counter w - 1"
    note u = upd(1) [of True "Counted ?k"] upd(1) [of False "Counted ?k"] upd(2) [of True "Counted ?k"]
      upd(2) [of False "Counted ?k"] upd(3) [of "Counted ?k"] upd(4) [of "Counted ?k"]
    have eqs: "votes c (?fs[i := (b, Counted ?k)]) = votes c ?fs" "armed c (?fs[i := (b, Counted ?k)]) = armed c ?fs"
      "Suc (pending (?fs[i := (b, Counted ?k)])) = pending ?fs"
      "closing (?fs[i := (b, Counted ?k)]) = closing ?fs + (if ?k = 0 then 1 else 0)" for c
      using upd(1) [of c "Counted ?k"] upd(2) [of c "Counted ?k"] upd(3) [of "Counted ?k"]
        upd(4) [of "Counted ?k"] Pending by simp_all
    show ?thesis
      using inv eqs keep [of "Counted ?k"] unfolding w' quorum_inv_def set_pc_def Let_def
      by (simp add: f split: if_splits)
  next
    case (Counted k)
    let ?d = "if b then (if w_success_counter w + 1 = w_majority w then Some True else None)
      else (if length ?fs - w_error_counter w = w_majority w then Some False else None)"
    let ?new = "?fs[i := (b, Voted k ?d)]"
    have w': "w' = w\<lparr>w_futures := ?new,
        w_success_counter := w_success_counter w + (if b then 1 else 0),
        w_error_counter := w_error_counter w + (if b then 0 else 1)\<rparr>"
      using assms(3) f Counted by (auto simp: callback_step_def Let_def set_pc_def)
    have eqs: "votes c ?new = votes c ?fs + (if b = c then 1 else 0)"
      "armed c ?new = armed c ?fs + (if ?d = Some c then 1 else 0)"
      "pending ?new = pending ?fs" "closing ?new = closing ?fs" for c
      using upd(1) [of c "Voted k ?d"] upd(2) [of c "Voted k ?d"] upd(3) [of "Voted k ?d"]
        upd(4) [of "Voted k ?d"] Counted by simp_all
    have "armed True ?new + continues True (w_trace w) = (if w_majority w \<le> votes True ?new then 1 else 0)"
      "armed False ?new + continues False (w_trace w) =
        (if length ?fs < w_majority w + votes False ?new then 1 else 0)"
      using inv unfolding eqs by (auto split: if_splits)
    then show ?thesis
      using inv keep [of "Voted k ?d"] unfolding w' quorum_inv_def Let_def eqs
      by (simp add: eqs)
  next
    case (Voted k d)
    let ?new = "?fs[i := (b, Decided k)]"
    let ?tr = "w_trace w @ (case d of None \<Rightarrow> [] | Some c \<Rightarrow> if w_continuation w then [Continue c] else [])"
    have w': "w' = w\<lparr>w_futures := ?new, w_trace := ?tr, w_continuation := (w_continuation w \<and> d = None)\<rparr>"
      using assms(3) f Voted
      by (auto simp: callback_step_def Let_def set_pc_def complete_continuation_def split: option.splits)
    have eqs: "votes c ?new = votes c ?fs" "armed c ?new + (if d = Some c then 1 else 0) = armed c ?fs"
      "pending ?new = pending ?fs" "closing ?new = closing ?fs" for c
      using upd(1) [of c "Decided k"] upd(2) [of c "Decided k"] upd(3) [of "Decided k"]
        upd(4) [of "Decided k"] Voted by simp_all
    have "finishes ?tr = finishes (w_trace w)"
      by (simp add: finishes_def split: option.split)
    moreover have cont: "w_continuation w" if "d = Some c" for c
    proof -
      have "1 \<le> armed c ?fs" using eqs(2) [of c] that by simp
      then show ?thesis
        using inv votes_bound [of ?fs] by (cases c) (auto split: if_splits)
    qed
    have tr: "continues c ?tr = continues c (w_trace w) + (if d = Some c then 1 else 0)" for c
      using cont by (auto simp: continues_def split: option.split)
    have "(w_continuation w \<and> d = None) = (continues True ?tr + continues False ?tr = 0)"
      using inv unfolding tr by (cases d) auto
    moreover have "armed c ?new + continues c ?tr = armed c ?fs + continues c (w_trace w)" for c
      unfolding tr using eqs(2) [of c] by simp
    ultimately show ?thesis
      using inv keep [of "Decided k"] unfolding w' quorum_inv_def Let_def
      by (simp add: eqs(1,3,4))
  next
    case (Decided k)
    let ?new = "?fs[i := (b, Returned)]"
    let ?tr = "w_trace w @ (if k = 0 then (if w_timed w then [Cancel_timer] else []) @
        (if w_finish w then [Finish] else []) else [])"
    have w': "w' = w\<lparr>w_futures := ?new, w_trace := ?tr, w_finish := (w_finish w \<and> k \<noteq> 0)\<rparr>"
      using assms(3) f Decided
      by (auto simp: callback_step_def Let_def set_pc_def complete_finish_def)
    have eqs: "votes c ?new = votes c ?fs" "armed c ?new = armed c ?fs"
      "pending ?new = pending ?fs" "closing ?new + (if k = 0 then 1 else 0) = closing ?fs" for c
      using upd(1) [of c Returned] upd(2) [of c Returned] upd(3) [of Returned]
        upd(4) [of Returned] Decided by simp_all
    have tr: "continues c ?tr = continues c (w_trace w)"
      "finishes ?tr = finishes (w_trace w) + (if k = 0 \<and> w_finish w then 1 else 0)" for c
      by (simp_all add: continues_def finishes_def)
    have fin: "w_finish w" if "finish" "k = 0"
      using inv eqs(4) that by (auto split: if_splits)
    show ?thesis
      using inv keep [of Returned] fin eqs(4) unfolding w' quorum_inv_def Let_def
      by (auto simp: eqs(1,2,3) tr split: if_splits)
  next
    case Returned
    then show ?thesis using assms(3) f by (simp add: callback_step_def)
  qed
qed

inductive_cases quorum_stepE: "quorum_step w w'"

lemma quorum_inv_reach:
  "quorum_reach w0 w \<Longrightarrow> quorum_inv outcomes finish w0 \<Longrightarrow> quorum_inv outcomes finish w"
  by (induction rule: quorum_reach.induct) (auto elim!: quorum_stepE intro: quorum_inv_step)

text \<open>The votes cast so far, against the outcomes.\<close>

lemma votes_le: "votes b fs \<le> count_if (\<lambda>x. x = b) (map fst fs)"
  unfolding votes_def by (induction fs) auto

lemma votes_done: "(\<forall>f\<in>set fs. snd f = Returned) \<Longrightarrow> votes b fs = count_if (\<lambda>x. x = b) (map fst fs)"
  unfolding votes_def by (induction fs) auto

lemma idle_done:
  "(\<forall>f\<in>set fs. snd f = Returned) \<Longrightarrow> armed b fs = 0 \<and> pending fs = 0 \<and> closing fs = 0"
  unfolding quorum_counts by (induction fs) auto

lemma count_both: "count_if (\<lambda>x. x) bs + count_if (\<lambda>x. \<not> x) bs = length bs"
  by (induction bs) auto

lemma continues_in: "Continue b \<in> set tr \<longleftrightarrow> 0 < continues b tr"
  unfolding continues_def by (induction tr) auto

lemma quorum_inv_result:
  assumes "quorum_inv outcomes finish w" and "Continue b \<in> set (w_trace w)"
  shows "b = (w_majority w \<le> count_if (\<lambda>x. x) outcomes)"
proof -
  note inv = assms(1) [unfolded quorum_inv_def Let_def]
  have "0 < continues b (w_trace w)" using assms(2) by (simp add: continues_in)
  moreover have "votes True (w_futures w) \<le> count_if (\<lambda>x. x) outcomes"
    "votes False (w_futures w) \<le> count_if (\<lambda>x. \<not> x) outcomes"
    using votes_le [of True "w_futures w"] votes_le [of False "w_futures w"] inv by simp_all
  moreover have "length (w_futures w) = count_if (\<lambda>x. x) outcomes + count_if (\<lambda>x. \<not> x) outcomes"
    using count_both [of outcomes] inv by (metis length_map)
  ultimately show ?thesis using inv by (cases b) (auto split: if_splits)
qed

lemma quorum_inv_at_most_once:
  "quorum_inv outcomes finish w \<Longrightarrow> continues True (w_trace w) + continues False (w_trace w) \<le> 1"
  using votes_bound [of "w_futures w"] by (auto simp: quorum_inv_def Let_def split: if_splits)

lemma quorum_inv_done:
  assumes "quorum_inv outcomes finish w" and "quorum_done w"
  shows "continues True (w_trace w) + continues False (w_trace w) = 1 \<and>
    finishes (w_trace w) = (if finish then 1 else 0)"
proof -
  note inv = assms(1) [unfolded quorum_inv_def Let_def]
  have idle: "armed c (w_futures w) = 0" "pending (w_futures w) = 0" "closing (w_futures w) = 0" for c
    using idle_done assms(2) by (auto simp: quorum_done_def)
  have "votes True (w_futures w) + votes False (w_futures w) = length (w_futures w)"
    using votes_done [of "w_futures w"] count_both [of "map fst (w_futures w)"] assms(2)
    by (simp add: quorum_done_def)
  then show ?thesis using inv idle by (auto split: if_splits)
qed

text \<open>Progress: a run only stops when every callback has returned, and it does stop.\<close>

fun pc_rank :: "quorum_pc \<Rightarrow> nat" where
  "pc_rank Pending = 4"
| "pc_rank (Counted _) = 3"
| "pc_rank (Voted _ _) = 2"
| "pc_rank (Decided _) = 1"
| "pc_rank Returned = 0"

definition quorum_rank :: "waiter \<Rightarrow> nat" where
  "quorum_rank w = sum_list (map (\<lambda>f. pc_rank (snd f)) (w_futures w))"

lemma sum_list_update_less:
  "i < length xs \<Longrightarrow> (g y :: nat) < g (xs ! i) \<Longrightarrow> sum_list (map g (xs[i := y])) < sum_list (map g xs)"
proof (induction xs arbitrary: i)
  case (Cons x xs)
  then show ?case by (cases i) auto
qed simp

lemma complete_futures [simp]:
  "w_futures (complete_continuation b w) = w_futures w" "w_futures (complete_finish w) = w_futures w"
  by (simp_all add: complete_continuation_def complete_finish_def)

lemma quorum_step_rank: "quorum_step w w' \<Longrightarrow> quorum_rank w' < quorum_rank w"
proof (erule quorum_stepE)
  fix i assume i: "i < length (w_futures w)" and st: "callback_step i w = Some w'"
  have "\<exists>p'. w_futures w' = (w_futures w)[i := (fst (w_futures w ! i), p')] \<and>
      pc_rank p' < pc_rank (snd (w_futures w ! i))"
    using st by (auto simp: callback_step_def Let_def set_pc_def split: quorum_pc.splits option.splits if_splits)
  then show "quorum_rank w' < quorum_rank w"
    using sum_list_update_less [OF i] by (fastforce simp: quorum_rank_def)
qed

lemma quorum_progress: "\<not> quorum_done w \<Longrightarrow> \<exists>w'. quorum_step w w'"
proof -
  assume "\<not> quorum_done w"
  then obtain i where i: "i < length (w_futures w)" "snd (w_futures w ! i) \<noteq> Returned"
    by (auto simp: quorum_done_def in_set_conv_nth)
  then have "\<exists>w'. callback_step i w = Some w'"
    by (auto simp: callback_step_def Let_def split: quorum_pc.splits option.splits)
  with i show ?thesis by (auto intro: quorum_step.intros)
qed

lemma quorum_rank_reach: "quorum_reach w0 w \<Longrightarrow> quorum_rank w \<le> quorum_rank w0"
  by (induction rule: quorum_reach.induct) (auto dest: quorum_step_rank)

lemma quorum_step_majority: "quorum_step w w' \<Longrightarrow> w_majority w' = w_majority w"
  by (erule quorum_stepE)
    (auto simp: callback_step_def Let_def set_pc_def complete_continuation_def complete_finish_def
      split: quorum_pc.splits option.splits if_splits)

lemma quorum_reach_majority: "quorum_reach w0 w \<Longrightarrow> w_majority w = w_majority w0"
  by (induction rule: quorum_reach.induct) (auto dest: quorum_step_majority)

text \<open>A schedule: the futures whose callbacks run their next piece, in order.\<close>

fun run_schedule :: "nat list \<Rightarrow> waiter \<Rightarrow> waiter option" where
  "run_schedule [] w = Some w"
| "run_schedule (i # is) w =
     (if i < length (w_futures w) then
        (case callback_step i w of None \<Rightarrow> None | Some w' \<Rightarrow> run_schedule is w')
      else None)"

lemma run_schedule_reach: "run_schedule is w = Some w' \<Longrightarrow> quorum_reach w0 w \<Longrightarrow> quorum_reach w0 w'"
proof (induction "is" arbitrary: w)
  case (Cons i "is")
  then obtain v where "i < length (w_futures w)" "callback_step i w = Some v" "run_schedule is v = Some w'"
    by (auto split: if_splits option.splits)
  with Cons.IH [of v] Cons.prems(2) show ?case
    using quorum_reach.step [OF _ quorum_step.intros] by blast
qed simp

text \<open>The default majority of the proposers, with the proposing node itself, is a majority of all nodes.\<close>

lemma default_majority_strict:
  "0 < n \<Longrightarrow> 1 \<le> default_majority n \<and> default_majority n \<le> n \<and> n + 1 < 2 * (default_majority n + 1)"
  by (simp add: default_majority_def) linarith

text \<open>A timeout cancels every pending proposer, once and in order.\<close>

lemma timeout_loop_eq:
  "timeout_loop i ps ite =
     (case ite of None \<Rightarrow> [] | Some j \<Rightarrow> [j]) @ filter (\<lambda>j. ps ! (j - i)) [i..<i + length ps]"
proof (induction i ps ite rule: timeout_loop.induct)
  case (2 i p ps ite)
  let ?old = "case ite of None \<Rightarrow> [] | Some j \<Rightarrow> [j]"
  have upt: "[i..<i + length (p # ps)] = i # [Suc i..<Suc i + length ps]"
    by (simp add: upt_conv_Cons del: upt_Suc)
  have shift: "filter (\<lambda>j. (p # ps) ! (j - i)) [Suc i..<Suc i + length ps] =
      filter (\<lambda>j. ps ! (j - Suc i)) [Suc i..<Suc i + length ps]"
    by (intro filter_cong) (auto simp: Suc_diff_Suc [symmetric] Suc_le_eq)
  have "filter (\<lambda>j. (p # ps) ! (j - i)) [i..<i + length (p # ps)] =
      (if p then [i] else []) @ filter (\<lambda>j. ps ! (j - Suc i)) [Suc i..<Suc i + length ps]"
    by (simp only: upt filter.simps shift) simp
  then show ?case using 2 by (simp del: upt_Suc split: if_splits)
qed (simp split: option.split)

lemma timeout_cancels_pending: "timeout_cancels ps = filter (\<lambda>j. ps ! j) [0..<length ps]"
  by (simp add: timeout_cancels_def timeout_loop_eq)

section \<open>Properties\<close>

text \<open>C5: However the callbacks of the proposers interleave, the continuation is completed at most once
  and only with the true verdict, that is whether at least \<open>majority\<close> proposers succeed; when all
  callbacks have returned it has been completed exactly once, and so has the finish future.\<close>

theorem quorum_decides_once:
  assumes "1 \<le> majority" and "majority \<le> length outcomes"
    and "quorum_reach (init_waiter timed outcomes finish majority) w"
  shows "continues True (w_trace w) + continues False (w_trace w) \<le> 1 \<and>
    (\<forall>b. Continue b \<in> set (w_trace w) \<longrightarrow> b = (majority \<le> count_if (\<lambda>x. x) outcomes)) \<and>
    (quorum_done w \<longrightarrow> continues True (w_trace w) + continues False (w_trace w) = 1 \<and>
      finishes (w_trace w) = (if finish then 1 else 0))"
proof -
  have inv: "quorum_inv outcomes finish w"
    by (rule quorum_inv_reach [OF assms(3) quorum_inv_init [OF assms(1,2)]])
  have "w_majority w = majority"
    using quorum_reach_majority [OF assms(3)] by (simp add: init_waiter_def)
  with quorum_inv_at_most_once [OF inv] quorum_inv_result [OF inv] quorum_inv_done [OF inv]
  show ?thesis by simp
qed

theorem quorum_decides_once_witness:
  "\<exists>w. run_schedule [0, 1, 1, 0, 2, 2, 0, 2, 0, 1, 1, 2] (init_waiter False [True, False, True] True 2) = Some w \<and>
    Continue True \<in> set (w_trace w) \<and> Continue False \<notin> set (w_trace w) \<and> finishes (w_trace w) = 1"
proof -
  let ?w0 = "init_waiter False [True, False, True] True 2"
  obtain w where w: "run_schedule [0, 1, 1, 0, 2, 2, 0, 2, 0, 1, 1, 2] ?w0 = Some w"
    and fin: "quorum_done w"
    by (simp add: init_waiter_def callback_step_def set_pc_def Let_def complete_continuation_def
        complete_finish_def quorum_done_def)
  have "quorum_reach ?w0 w" by (rule run_schedule_reach [OF w quorum_reach.start])
  from quorum_decides_once [OF _ _ this] fin
  have "continues True (w_trace w) + continues False (w_trace w) = 1" "finishes (w_trace w) = 1"
    "Continue False \<notin> set (w_trace w)" by auto
  moreover from this have "Continue True \<in> set (w_trace w)"
    by (simp add: continues_in)
  ultimately show ?thesis using w by blast
qed



end
