(* ===== verification/SortedKeys.thy ===== *)
theory SortedKeys
  imports BufferOps
begin

text \<open>
  Sorted sequences searched with \<open>std::lower_bound\<close>, the data structure behind the blocks of the
  tables. The locale \<open>key_order\<close> is what a comparator has to provide; inside it, a sorted sequence is
  shown to be a finite map from keys to values, and lookup, insertion, replacement and erasure at
  the lower bound are the operations of that map.
\<close>

section \<open>Edits of a sequence\<close>

definition insert_at :: "nat \<Rightarrow> 'a \<Rightarrow> 'a list \<Rightarrow> 'a list" where
  "insert_at i x xs = take i xs @ x # drop i xs"

definition erase_at :: "nat \<Rightarrow> 'a list \<Rightarrow> 'a list" where
  "erase_at i xs = take i xs @ drop (i + 1) xs"

lemma length_insert_at [simp]: "i \<le> length xs \<Longrightarrow> length (insert_at i x xs) = length xs + 1"
  by (simp add: insert_at_def)

lemma set_insert_at [simp]: "set (insert_at i x xs) = insert x (set xs)"
  using set_append [of "take i xs" "drop i xs"] by (simp add: insert_at_def)

lemma split_at: "i < length xs \<Longrightarrow> xs = take i xs @ xs ! i # drop (i + 1) xs"
  using id_take_nth_drop [of i xs] by simp

text \<open>The lower bound of a sequence that is split by the predicate.\<close>

lemma lower_bound_split:
  assumes "\<forall>a\<in>set as. p a" and "\<forall>b\<in>set bs. \<not> p b"
  shows "lower_bound p (as @ bs) = length as"
proof -
  have "partitioned p (as @ bs)"
    using assms by (auto simp: partitioned_def nth_append split: if_splits)
  then have "lower_bound p (as @ bs) = length (takeWhile p (as @ bs))" by (rule lower_bound_partitioned)
  also have "takeWhile p (as @ bs) = as"
    using assms by (cases bs) (auto simp: takeWhile_append2)
  finally show ?thesis .
qed

definition assoc :: "('a \<Rightarrow> 'k) \<Rightarrow> ('a \<Rightarrow> 'v) \<Rightarrow> 'a list \<Rightarrow> 'k \<Rightarrow> 'v option" where
  "assoc key val xs = map_of (map (\<lambda>x. (key x, val x)) xs)"

lemma assoc_Nil [simp]: "assoc key val [] = Map.empty"
  by (simp add: assoc_def)

lemma assoc_append: "assoc key val (xs @ ys) = assoc key val ys ++ assoc key val xs"
  by (simp add: assoc_def)

lemma assoc_Cons: "assoc key val (x # xs) = (assoc key val xs)(key x \<mapsto> val x)"
  by (simp add: assoc_def)

lemma dom_assoc [simp]: "dom (assoc key val xs) = key ` set xs"
  by (simp add: assoc_def dom_map_of_conv_image_fst image_image)

lemma assoc_None: "assoc key val xs k = None \<longleftrightarrow> k \<notin> key ` set xs"
  using dom_assoc [of key val xs] by blast

lemma map_add_mid: "m1 k = None \<Longrightarrow> m2(k \<mapsto> v) ++ m1 = (m2 ++ m1)(k \<mapsto> v)"
  by (rule ext) (auto simp: map_add_def split: option.split)

lemma map_add_mid_again: "m1 k = None \<Longrightarrow> m2(k \<mapsto> w) ++ m1 = (m2(k \<mapsto> v) ++ m1)(k \<mapsto> w)"
  by (rule ext) (auto simp: map_add_def split: option.split)

lemma map_add_mid_del: "m1 k = None \<Longrightarrow> m2 k = None \<Longrightarrow> m2 ++ m1 = (m2(k \<mapsto> v) ++ m1)(k := None)"
  by (rule ext) (auto simp: map_add_def split: option.split)

lemma sorted_wrt_mid:
  "sorted_wrt r (as @ x # bs) \<longleftrightarrow> sorted_wrt r (as @ bs) \<and> (\<forall>a\<in>set as. r a x) \<and> (\<forall>b\<in>set bs. r x b)"
  by (auto simp: sorted_wrt_append)

section \<open>Comparators\<close>

locale key_order =
  fixes less :: "'k \<Rightarrow> 'k \<Rightarrow> bool"
  assumes irrefl: "\<not> less a a"
    and trans: "less a b \<Longrightarrow> less b c \<Longrightarrow> less a c"
    and linear: "a \<noteq> b \<Longrightarrow> less a b \<or> less b a"
begin

lemma asym: "less a b \<Longrightarrow> \<not> less b a"
  using irrefl trans by blast

lemma not_less: "\<not> less a b \<longleftrightarrow> a = b \<or> less b a"
  using irrefl asym linear by blast

abbreviation sorted_by :: "('a \<Rightarrow> 'k) \<Rightarrow> 'a list \<Rightarrow> bool" where
  "sorted_by key xs \<equiv> sorted_wrt (\<lambda>a b. less (key a) (key b)) xs"

abbreviation find_key :: "('a \<Rightarrow> 'k) \<Rightarrow> 'k \<Rightarrow> 'a list \<Rightarrow> nat" where
  "find_key key k xs \<equiv> lower_bound (\<lambda>x. less (key x) k) xs"

lemma find_key_takeWhile:
  "sorted_by key xs \<Longrightarrow> find_key key k xs = length (takeWhile (\<lambda>x. less (key x) k) xs)"
  by (intro lower_bound_partitioned partitioned_sorted [where r = "\<lambda>a b. less (key a) (key b)"])
    (auto intro: trans)

lemma find_key_below: "sorted_by key xs \<Longrightarrow> x \<in> set (take (find_key key k xs) xs) \<Longrightarrow> less (key x) k"
  unfolding find_key_takeWhile by (metis set_takeWhileD takeWhile_eq_take)

lemma find_key_above:
  assumes "sorted_by key xs" and "x \<in> set (drop (find_key key k xs) xs)"
  shows "key x = k \<or> less k (key x)"
proof -
  let ?ys = "dropWhile (\<lambda>x. less (key x) k) xs"
  have "drop (find_key key k xs) xs = ?ys"
    unfolding find_key_takeWhile [OF assms(1)] by (simp add: dropWhile_eq_drop)
  then have x: "x \<in> set ?ys" using assms(2) by simp
  then obtain y zs where ys: "?ys = y # zs" by (cases ?ys) auto
  then have y: "\<not> less (key y) k" by (metis hd_dropWhile list.distinct(1) list.sel(1))
  have "sorted_by key ?ys"
    using assms(1) by (metis sorted_wrt_append takeWhile_dropWhile_id)
  then have "x = y \<or> less (key y) (key x)" using x ys by auto
  then show ?thesis using y not_less trans by blast
qed

lemma find_key_hit:
  assumes "sorted_by key xs"
  shows "k \<in> key ` set xs \<longleftrightarrow> find_key key k xs < length xs \<and> key (xs ! find_key key k xs) = k"
proof
  let ?i = "find_key key k xs"
  assume "k \<in> key ` set xs"
  then obtain x where x: "x \<in> set xs" "key x = k" by auto
  have "x \<notin> set (take ?i xs)" using find_key_below [OF assms, of x k] x(2) irrefl by auto
  then have x': "x \<in> set (drop ?i xs)" using x(1) by (metis UnE append_take_drop_id set_append)
  then have i: "?i < length xs" by (metis drop_eq_Nil2 empty_iff empty_set not_le)
  then have drop: "drop ?i xs = xs ! ?i # drop (?i + 1) xs" by (simp add: Cons_nth_drop_Suc)
  have "sorted_by key (drop ?i xs)"
    using assms by (metis append_take_drop_id sorted_wrt_append)
  then have "x = xs ! ?i \<or> less (key (xs ! ?i)) (key x)" using x' drop by auto
  moreover have "key (xs ! ?i) = k \<or> less k (key (xs ! ?i))"
    using find_key_above [OF assms, of "xs ! ?i" k] drop by simp
  ultimately show "?i < length xs \<and> key (xs ! ?i) = k" using i x(2) asym by auto
next
  assume "find_key key k xs < length xs \<and> key (xs ! find_key key k xs) = k"
  then show "k \<in> key ` set xs" by (metis image_eqI nth_mem)
qed

lemma assoc_find_key:
  assumes "sorted_by key xs"
  shows "assoc key val xs k =
    (let i = find_key key k xs in if i < length xs \<and> key (xs ! i) = k then Some (val (xs ! i)) else None)"
proof (cases "k \<in> key ` set xs")
  case True
  let ?i = "find_key key k xs"
  from True have i: "?i < length xs" "key (xs ! ?i) = k" using find_key_hit [OF assms] by auto
  have "k \<notin> key ` set (take ?i xs)" using find_key_below [OF assms] irrefl by blast
  then have "assoc key val (take ?i xs) k = None" by (simp add: assoc_None)
  then have "assoc key val (take ?i xs @ xs ! ?i # drop (?i + 1) xs) k = Some (val (xs ! ?i))"
    using i(2) by (simp add: assoc_append assoc_Cons map_add_def)
  then show ?thesis using i split_at [OF i(1)] by (simp add: Let_def)
next
  case False
  then have "assoc key val xs k = None" by (simp add: assoc_None)
  with False show ?thesis using find_key_hit [OF assms, of k] by (simp add: Let_def)
qed

lemma sorted_distinct: "sorted_by key xs \<Longrightarrow> distinct (map key xs)"
  by (induction xs) (use irrefl in auto)

text \<open>Insertion of a new key at its lower bound.\<close>

lemma insert_sorted:
  assumes "sorted_by key xs" and "key x \<notin> key ` set xs"
  shows "sorted_by key (insert_at (find_key key (key x) xs) x xs)"
    and "assoc key val (insert_at (find_key key (key x) xs) x xs) = (assoc key val xs)(key x \<mapsto> val x)"
proof -
  let ?i = "find_key key (key x) xs"
  have above: "less (key x) (key y)" if "y \<in> set (drop ?i xs)" for y
    using find_key_above [OF assms(1) that] assms(2) that by (metis image_eqI in_set_dropD)
  have below: "less (key y) (key x)" if "y \<in> set (take ?i xs)" for y
    using find_key_below [OF assms(1) that] .
  have "sorted_by key (take ?i xs @ drop ?i xs)" using assms(1) by simp
  then show "sorted_by key (insert_at ?i x xs)"
    unfolding insert_at_def sorted_wrt_mid using above below by blast
  have "assoc key val (take ?i xs) (key x) = None"
    using assms(2) by (auto simp: assoc_None dest: in_set_takeD)
  then have "assoc key val (take ?i xs @ x # drop ?i xs) =
      (assoc key val (take ?i xs @ drop ?i xs))(key x \<mapsto> val x)"
    unfolding assoc_append assoc_Cons by (rule map_add_mid)
  then show "assoc key val (insert_at ?i x xs) = (assoc key val xs)(key x \<mapsto> val x)"
    by (simp add: insert_at_def)
qed

text \<open>Replacement of the element of a key that is there.\<close>

lemma replace_sorted:
  assumes "sorted_by key xs" and "find_key key (key x) xs < length xs"
    and "key (xs ! find_key key (key x) xs) = key x"
  shows "sorted_by key (xs[find_key key (key x) xs := x])"
    and "assoc key val (xs[find_key key (key x) xs := x]) = (assoc key val xs)(key x \<mapsto> val x)"
proof -
  let ?i = "find_key key (key x) xs"
  have xs: "xs = take ?i xs @ xs ! ?i # drop (?i + 1) xs" by (rule split_at [OF assms(2)])
  have upd: "xs[?i := x] = take ?i xs @ x # drop (?i + 1) xs"
    using assms(2) by (simp add: upd_conv_take_nth_drop)
  have "sorted_by key (take ?i xs @ xs ! ?i # drop (?i + 1) xs)" using assms(1) xs by simp
  then show "sorted_by key (xs[?i := x])"
    unfolding upd sorted_wrt_mid assms(3) by blast
  have "key x \<notin> key ` set (take ?i xs)" using find_key_below [OF assms(1)] irrefl by (metis imageE)
  then have "assoc key val (take ?i xs) (key x) = None" by (simp add: assoc_None)
  then have "assoc key val (take ?i xs @ x # drop (?i + 1) xs) =
      (assoc key val (take ?i xs @ xs ! ?i # drop (?i + 1) xs))(key x \<mapsto> val x)"
    unfolding assoc_append assoc_Cons assms(3) by (rule map_add_mid_again)
  then show "assoc key val (xs[?i := x]) = (assoc key val xs)(key x \<mapsto> val x)"
    using xs upd by simp
qed

text \<open>Erasure of the element of a key that is there.\<close>

lemma erase_sorted:
  assumes "sorted_by key xs" and "find_key key k xs < length xs" and "key (xs ! find_key key k xs) = k"
  shows "sorted_by key (erase_at (find_key key k xs) xs)"
    and "assoc key val (erase_at (find_key key k xs) xs) = (assoc key val xs)(k := None)"
proof -
  let ?i = "find_key key k xs"
  have xs: "xs = take ?i xs @ xs ! ?i # drop (?i + 1) xs" by (rule split_at [OF assms(2)])
  have sorted: "sorted_by key (take ?i xs @ xs ! ?i # drop (?i + 1) xs)" using assms(1) xs by simp
  then show "sorted_by key (erase_at ?i xs)"
    unfolding erase_at_def sorted_wrt_mid by blast
  have "k \<notin> key ` set (take ?i xs)" using find_key_below [OF assms(1)] irrefl by (metis imageE)
  moreover have "k \<notin> key ` set (drop (?i + 1) xs)"
    using sorted irrefl unfolding sorted_wrt_mid assms(3) by blast
  ultimately have "assoc key val (take ?i xs) k = None" "assoc key val (drop (?i + 1) xs) k = None"
    by (simp_all add: assoc_None)
  then have "assoc key val (take ?i xs @ drop (?i + 1) xs) =
      (assoc key val (take ?i xs @ xs ! ?i # drop (?i + 1) xs))(k := None)"
    unfolding assoc_append assoc_Cons assms(3) by (rule map_add_mid_del)
  then show "assoc key val (erase_at ?i xs) = (assoc key val xs)(k := None)"
    using xs by (simp add: erase_at_def)
qed

text \<open>
  A sequence of sorted groups, found by their last elements: the group at the lower bound is the only
  one that can hold the key.
\<close>

abbreviation find_part :: "('a \<Rightarrow> 'k) \<Rightarrow> ('g \<Rightarrow> 'a list) \<Rightarrow> 'k \<Rightarrow> 'g list \<Rightarrow> nat" where
  "find_part key part k gs \<equiv> lower_bound (\<lambda>g. less (key (last (part g))) k) gs"

lemma last_part_sorted:
  assumes "sorted_by key (concat (map part gs))" and "\<forall>g\<in>set gs. part g \<noteq> []"
  shows "sorted_by (\<lambda>g. key (last (part g))) gs"
  using assms by (induction gs) (auto simp: sorted_wrt_append)

lemma find_part_takeWhile:
  assumes "sorted_by key (concat (map part gs))" and "\<forall>g\<in>set gs. part g \<noteq> []"
  shows "find_part key part k gs = length (takeWhile (\<lambda>g. less (key (last (part g))) k) gs)"
  using find_key_takeWhile [OF last_part_sorted [OF assms]] .

lemma part_less_last:
  assumes "sorted_by key xs" and "x \<in> set xs"
  shows "key x = key (last xs) \<or> less (key x) (key (last xs))"
proof -
  have "xs \<noteq> []" using assms(2) by auto
  then obtain ys y where xs: "xs = ys @ [y]" by (cases xs rule: rev_cases) auto
  show ?thesis using assms unfolding xs by (auto simp: sorted_wrt_append)
qed

lemma find_part_below:
  assumes "sorted_by key (concat (map part gs))" and "\<forall>g\<in>set gs. part g \<noteq> []"
    and "g \<in> set (take (find_part key part k gs) gs)" and "x \<in> set (part g)"
  shows "less (key x) k"
proof -
  have last: "less (key (last (part g))) k"
    using find_key_below [OF last_part_sorted [OF assms(1,2)] assms(3)] .
  have "g \<in> set gs" using assms(3) by (rule in_set_takeD)
  then have "sorted_by key (part g)"
    using assms(1) by (induction gs) (auto simp: sorted_wrt_append)
  then show ?thesis using part_less_last [OF _ assms(4)] last trans by metis
qed

lemma find_part_above:
  assumes "sorted_by key (concat (map part gs))" and "\<forall>g\<in>set gs. part g \<noteq> []"
    and "find_part key part k gs < length gs"
    and "x \<in> set (concat (map part (drop (find_part key part k gs + 1) gs)))"
  shows "less k (key x)"
proof -
  let ?i = "find_part key part k gs"
  have g: "gs ! ?i \<in> set (drop ?i gs)" using assms(3) by (metis Cons_nth_drop_Suc list.set_intros(1))
  have last: "key (last (part (gs ! ?i))) = k \<or> less k (key (last (part (gs ! ?i))))"
    using find_key_above [OF last_part_sorted [OF assms(1,2)] g] .
  have "part (gs ! ?i) \<noteq> []" using assms(2,3) by simp
  then have "last (part (gs ! ?i)) \<in> set (part (gs ! ?i))" by simp
  moreover have "sorted_by key (concat (map part (take ?i gs @ gs ! ?i # drop (?i + 1) gs)))"
    using assms(1) split_at [OF assms(3)] by simp
  ultimately have "less (key (last (part (gs ! ?i)))) (key x)"
    using assms(4) by (simp add: sorted_wrt_append) blast
  then show ?thesis using last trans by metis
qed

lemma find_part_end:
  assumes "sorted_by key (concat (map part gs))" and "\<forall>g\<in>set gs. part g \<noteq> []"
    and "find_part key part k gs = length gs"
  shows "k \<notin> key ` set (concat (map part gs))"
proof
  assume "k \<in> key ` set (concat (map part gs))"
  then obtain g x where "g \<in> set gs" "x \<in> set (part g)" "key x = k" by auto
  then show False using find_part_below [OF assms(1,2), of g k x] assms(3) irrefl by simp
qed

lemma assoc_find_part:
  assumes "sorted_by key (concat (map part gs))" and "\<forall>g\<in>set gs. part g \<noteq> []"
  shows "assoc key val (concat (map part gs)) k =
    (let i = find_part key part k gs in if i < length gs then assoc key val (part (gs ! i)) k else None)"
proof (cases "find_part key part k gs < length gs")
  case True
  let ?i = "find_part key part k gs"
  let ?as = "concat (map part (take ?i gs))" and ?bs = "concat (map part (drop (?i + 1) gs))"
  have "gs = take ?i gs @ gs ! ?i # drop (?i + 1) gs" by (rule split_at [OF True])
  then have "concat (map part gs) = concat (map part (take ?i gs @ gs ! ?i # drop (?i + 1) gs))" by simp
  then have cut: "concat (map part gs) = ?as @ part (gs ! ?i) @ ?bs" by simp
  have "key x \<noteq> k" if x: "x \<in> set ?as" for x
  proof -
    obtain g where "g \<in> set (take ?i gs)" "x \<in> set (part g)" using x by auto
    then show ?thesis using find_part_below [OF assms] irrefl by blast
  qed
  then have "k \<notin> key ` set ?as" by blast
  moreover have "k \<notin> key ` set ?bs" using find_part_above [OF assms True] irrefl by blast
  ultimately have "assoc key val ?as k = None" "assoc key val ?bs k = None" by (simp_all add: assoc_None)
  then show ?thesis using True unfolding cut by (simp add: assoc_append map_add_def split: option.split)
next
  case False
  then have "find_part key part k gs = length gs" by (simp add: le_antisym not_less)
  then have "k \<notin> key ` set (concat (map part gs))" by (rule find_part_end [OF assms])
  then have "assoc key val (concat (map part gs)) k = None" by (simp only: assoc_None not_False_eq_True)
  with False show ?thesis by (simp add: Let_def)
qed

end

interpretation bytes: key_order bytes_less
proof
  show "\<And>a b c. bytes_less a b \<Longrightarrow> bytes_less b c \<Longrightarrow> bytes_less a c" by (rule bytes_less_trans)
  show "\<And>a b. a \<noteq> b \<Longrightarrow> bytes_less a b \<or> bytes_less b a" by (rule bytes_less_linear)
qed simp

section \<open>The comparators of the tables\<close>

text \<open>
  The blocks hold an optional function pointer; without one keys are compared as byte strings. The
  search uses \<open>WarppedComp\<close> and the tests for equality \<open>CompKey\<close>.
\<close>

type_synonym comparator = "(bytes \<Rightarrow> bytes \<Rightarrow> int) option"

definition key_less :: "comparator \<Rightarrow> bytes \<Rightarrow> bytes \<Rightarrow> bool" where
  "key_less cmp left key =
     (case cmp of None \<Rightarrow> buffer_compare left key < 0 | Some c \<Rightarrow> c left key = -1)"

definition key_comp :: "comparator \<Rightarrow> bytes \<Rightarrow> bytes \<Rightarrow> int" where
  "key_comp cmp left right = (case cmp of None \<Rightarrow> buffer_compare left right | Some c \<Rightarrow> c left right)"

definition good_comparator :: "comparator \<Rightarrow> bool" where
  "good_comparator cmp \<longleftrightarrow>
     key_order (key_less cmp) \<and> (\<forall>a b. key_comp cmp a b = 0 \<longleftrightarrow> a = b) \<and>
     (\<forall>a b. key_comp cmp a b = 1 \<longleftrightarrow> key_less cmp b a)"

lemma key_less_None: "key_less None a b = bytes_less a b"
proof -
  have "buffer_compare a b \<in> {-1, 0, 1}" by (simp add: buffer_compare_def Let_def)
  then show ?thesis
    using buffer_compare_less [of a b] by (auto simp: key_less_def)
qed

lemma good_comparator_None [simp]: "good_comparator None"
proof -
  have "key_less None = bytes_less" by (intro ext) (rule key_less_None)
  then show ?thesis
    using bytes.key_order_axioms
    by (simp add: good_comparator_def key_comp_def buffer_compare_eq buffer_compare_greater)
qed

lemma good_comparatorD:
  "good_comparator cmp \<Longrightarrow> key_order (key_less cmp)"
  "good_comparator cmp \<Longrightarrow> key_comp cmp a b = 0 \<longleftrightarrow> a = b"
  "good_comparator cmp \<Longrightarrow> key_comp cmp a b = 1 \<longleftrightarrow> key_less cmp b a"
  by (simp_all add: good_comparator_def)

end
