(* ===== verification/SstKeyValue.thy ===== *)
theory SstKeyValue
  imports SortedKeys ByteBuffer
begin

text \<open>
  The key-value pairs and groups of the sorted string tables (\<open>SstKeyValuePair\<close> and
  \<open>SstKeyValueGroup\<close> under \<open>include/sharpen/\<close> and \<open>src/\<close>). A stored pair only holds the part of
  its key that is not shared with the first key of its group; a group is a sequence of pairs sorted
  by key and searched with \<open>lower_bound\<close>. Keys and values are the contents of byte buffers.
\<close>

section \<open>Pairs\<close>

record kv =
  kv_shared :: nat
  kv_uniqued :: nat
  kv_key :: bytes
  kv_value :: bytes

definition kv_empty :: kv where
  "kv_empty = \<lparr>kv_shared = 0, kv_uniqued = 0, kv_key = [], kv_value = []\<rparr>"

definition kv_new :: "nat \<Rightarrow> nat \<Rightarrow> bytes \<Rightarrow> bytes \<Rightarrow> kv" where
  "kv_new shared uniqued key value =
     \<lparr>kv_shared = shared, kv_uniqued = uniqued, kv_key = key, kv_value = value\<rparr>"

text \<open>\<open>LoadFrom\<close> into a pair whose key and value buffers still hold \<open>old\<close>.\<close>

definition kv_load :: "bytes \<Rightarrow> kv \<Rightarrow> exn + (nat \<times> kv)" where
  "kv_load data old =
     (if length data < 3 then Inl Invalid_argument
      else res_bind (vu64_read data) (\<lambda>(shared, o1).
        res_bind (vu64_read (drop o1 data)) (\<lambda>(uniqued, k2).
          let offset = o1 + k2 in
          if offset > length data then Inl Invalid_argument
          else res_bind (vec_resize (add64 uniqued shared) (kv_key old)) (\<lambda>key.
            res_bind
              (if uniqued \<noteq> 0 then
                 (if add64 offset uniqued > length data then Inl Invalid_argument
                  else res_bind (mem_read data offset uniqued) (\<lambda>u.
                    res_bind (mem_write key shared u) (\<lambda>key'. Inr (key', offset + uniqued))))
               else Inr (key, offset))
              (\<lambda>(key', offset).
                res_bind (vu64_read (drop offset data)) (\<lambda>(vsize, k3).
                  res_bind (vec_resize vsize (kv_value old)) (\<lambda>value.
                    let offset = offset + k3 in
                    if vsize \<noteq> 0 then
                      (if add64 offset vsize > length data then Inl Invalid_argument
                       else res_bind (mem_read data offset vsize) (\<lambda>v.
                         Inr (offset + vsize, kv_new shared uniqued key' v)))
                    else Inr (offset, kv_new shared uniqued key' value))))))))"

definition kv_compute_size :: "kv \<Rightarrow> exn + nat" where
  "kv_compute_size p =
     res_bind (vu64_bytes (kv_shared p)) (\<lambda>a.
       res_bind (vu64_bytes (kv_uniqued p)) (\<lambda>b.
         res_bind (vu64_bytes (length (kv_value p))) (\<lambda>c.
           Inr (length a + length b + kv_uniqued p + length c + length (kv_value p)))))"

definition kv_store :: "kv \<Rightarrow> exn + bytes" where
  "kv_store p =
     res_bind (vu64_bytes (kv_shared p)) (\<lambda>a.
       res_bind (vu64_bytes (kv_uniqued p)) (\<lambda>b.
         res_bind (if kv_uniqued p \<noteq> 0 then mem_read (kv_key p) (kv_shared p) (kv_uniqued p) else Inr [])
           (\<lambda>u. res_bind (vu64_bytes (length (kv_value p))) (\<lambda>c.
              Inr (a @ b @ u @ c @ kv_value p)))))"

text \<open>
  The two checked forms of storing, shared by every class of the tables: into a range of
  \<open>capacity\<close> bytes, and into a buffer from \<open>offset\<close> on, which is extended when it is too small.
\<close>

definition store_checked :: "exn + nat \<Rightarrow> exn + bytes \<Rightarrow> nat \<Rightarrow> exn + bytes" where
  "store_checked need w capacity =
     res_bind need (\<lambda>n. if capacity < n then Inl Invalid_argument else w)"

definition store_extending :: "exn + nat \<Rightarrow> exn + bytes \<Rightarrow> bytes \<Rightarrow> nat \<Rightarrow> exn + bytes" where
  "store_extending need w buf offset =
     res_bind need (\<lambda>n. let size = sub64 (length buf) offset in
       res_bind (if n > size then vec_resize (add64 (length buf) (n - size)) buf else Inr buf) (\<lambda>buf'.
         res_bind w (\<lambda>w'. mem_write buf' offset w')))"

lemma store_extending_fits:
  assumes "need = Inr (length w)" and "offset \<le> length buf" and "length buf + length w < 2 ^ 63"
  shows "store_extending need (Inr w) buf offset = Inr (take offset buf @ w @ drop (offset + length w) buf)"
proof -
  have sub: "sub64 (length buf) offset = length buf - offset" using assms(2,3) by (intro sub64_le) simp_all
  have add: "add64 (length buf) (length w - (length buf - offset)) = offset + length w"
    if "length w > length buf - offset" using that assms(2,3) by (simp add: add64_small)
  show ?thesis
    using assms sub add by (auto simp: store_extending_def vec_resize_def mem_write_def Let_def)
qed

definition kv_store_to :: "kv \<Rightarrow> nat \<Rightarrow> exn + bytes" where
  "kv_store_to p = store_checked (kv_compute_size p) (kv_store p)"

definition kv_store_to_buffer :: "kv \<Rightarrow> bytes \<Rightarrow> nat \<Rightarrow> exn + bytes" where
  "kv_store_to_buffer p = store_extending (kv_compute_size p) (kv_store p)"

definition kv_set_shared_key :: "bytes \<Rightarrow> nat \<Rightarrow> kv \<Rightarrow> exn + kv" where
  "kv_set_shared_key data sz p =
     (if sz < kv_shared p then Inl Invalid_argument
      else res_bind (mem_read data 0 (kv_shared p)) (\<lambda>s.
        res_bind (mem_write (kv_key p) 0 s) (\<lambda>key. Inr (p\<lparr>kv_key := key\<rparr>))))"

section \<open>The serialized form of a pair\<close>

definition kv_ok :: "kv \<Rightarrow> bool" where
  "kv_ok p \<longleftrightarrow> kv_shared p + kv_uniqued p = length (kv_key p) \<and>
     length (kv_key p) < 2 ^ 31 \<and> length (kv_value p) < 2 ^ 31"

definition kv_enc :: "kv \<Rightarrow> bytes" where
  "kv_enc p = venc (kv_shared p) @ venc (kv_uniqued p) @ drop (kv_shared p) (kv_key p) @
     venc (length (kv_value p)) @ kv_value p"

lemma kv_store_enc: "kv_ok p \<Longrightarrow> kv_store p = Inr (kv_enc p)"
  by (auto simp: kv_store_def kv_ok_def kv_enc_def vu64_bytes_venc mem_read_def)

lemma kv_compute_size_enc: "kv_ok p \<Longrightarrow> kv_compute_size p = Inr (length (kv_enc p))"
  by (auto simp: kv_compute_size_def kv_ok_def kv_enc_def vu64_bytes_venc)

lemma kv_enc_length: "3 \<le> length (kv_enc p)"
proof -
  have "1 \<le> length (venc n)" for n by (cases "venc n") auto
  from this [of "kv_shared p"] this [of "kv_uniqued p"] this [of "length (kv_value p)"]
  show ?thesis unfolding kv_enc_def length_append by linarith
qed

lemma vu64_read_at:
  assumes "n < 2 ^ 31" and "data = pre @ venc n @ rest"
  shows "vu64_read (drop (length pre) data) = Inr (n, length (venc n))"
  using vu64_read_venc [OF assms(1), of rest] assms(2) by (simp add: vsize_def)

text \<open>One run of \<open>LoadFrom\<close>, with every read it makes.\<close>

lemma kv_load_run:
  assumes "3 \<le> length data" and "kv_key old = []" and "kv_value old = []"
    and "vu64_read data = Inr (sh, o1)" and "vu64_read (drop o1 data) = Inr (u, k2)"
    and "mem_read data (o1 + k2) u = Inr uk"
    and "vu64_read (drop (o1 + k2 + u) data) = Inr (n, k3)"
    and "mem_read data (o1 + k2 + u + k3) n = Inr v"
    and "u + sh < 2 ^ 63" and "n < 2 ^ 63" and "length data < 2 ^ 63"
  shows "kv_load data old = Inr (o1 + k2 + u + k3 + n, kv_new sh u (replicate sh 0 @ uk) v)"
proof -
  have len: "length uk = u" "length v = n" "o1 + k2 + u \<le> length data" "o1 + k2 + u + k3 + n \<le> length data"
    using mem_read_length [OF assms(6)] mem_read_length [OF assms(8)] assms(6,8)
    by (simp_all add: mem_read_def split: if_splits)
  then have adds: "add64 u sh = u + sh" "add64 (o1 + k2) u = o1 + k2 + u"
    "add64 (o1 + k2 + u + k3) n = o1 + k2 + u + k3 + n"
    using assms(9,11) by (simp_all add: add64_small)
  have w: "mem_write (replicate (u + sh) 0) sh uk = Inr (replicate sh 0 @ uk)"
    using len(1) by (simp add: mem_write_def)
  have sz: "vec_resize (u + sh) (kv_key old) = Inr (replicate (u + sh) 0)"
    "vec_resize n (kv_value old) = Inr (replicate n 0)"
    using assms(2,3,9,10) by (simp_all add: vec_resize_def)
  have key: "(if u \<noteq> 0 then
        (if add64 (o1 + k2) u > length data then Inl Invalid_argument
         else res_bind (mem_read data (o1 + k2) u) (\<lambda>u'.
           res_bind (mem_write (replicate (u + sh) 0) sh u') (\<lambda>key'. Inr (key', o1 + k2 + u))))
      else Inr (replicate (u + sh) 0, o1 + k2)) = Inr (replicate sh 0 @ uk, o1 + k2 + u)"
    using len adds w assms(6) by (cases "u = 0") simp_all
  show ?thesis
    using assms(1,4,5,7,8) len adds sz key by (cases "n = 0") (simp_all add: kv_load_def Let_def)
qed

text \<open>Loading gives the pair back, up to the shared part of its key.\<close>

lemma kv_load_enc:
  assumes "kv_ok p" and "kv_key old = []" and "kv_value old = []" and "length (kv_enc p @ rest) < 2 ^ 63"
  shows "kv_load (kv_enc p @ rest) old =
    Inr (length (kv_enc p), p\<lparr>kv_key := replicate (kv_shared p) 0 @ drop (kv_shared p) (kv_key p)\<rparr>)"
proof -
  let ?s = "kv_shared p" and ?u = "kv_uniqued p" and ?uk = "drop (kv_shared p) (kv_key p)"
    and ?v = "kv_value p"
  let ?a = "venc ?s" and ?b = "venc ?u" and ?c = "venc (length ?v)"
  let ?data = "?a @ ?b @ ?uk @ ?c @ ?v @ rest"
  have data: "kv_enc p @ rest = ?data" by (simp add: kv_enc_def)
  have small: "?s < 2 ^ 31" "?u < 2 ^ 31" "length ?v < 2 ^ 31" "length ?uk = ?u"
    using assms(1) by (auto simp: kv_ok_def)
  have r1: "vu64_read ?data = Inr (?s, length ?a)"
    using vu64_read_at [OF small(1), of ?data "[]"] by simp
  have r2: "vu64_read (drop (length ?a) ?data) = Inr (?u, length ?b)"
    using vu64_read_at [OF small(2), of ?data ?a] by simp
  have r3: "vu64_read (drop (length ?a + length ?b + ?u) ?data) = Inr (length ?v, length ?c)"
    using vu64_read_at [OF small(3), of ?data "?a @ ?b @ ?uk"] small(4) by (simp add: add.assoc)
  have m1: "mem_read ?data (length ?a + length ?b) ?u = Inr ?uk"
    using mem_read_append [of "length ?a + length ?b" "?a @ ?b" ?u ?uk "?c @ ?v @ rest"] small(4) by simp
  have m2: "mem_read ?data (length ?a + length ?b + ?u + length ?c) (length ?v) = Inr ?v"
    using mem_read_append [of "length ?a + length ?b + ?u + length ?c" "?a @ ?b @ ?uk @ ?c" "length ?v" ?v rest]
      small(4) by simp
  have "3 \<le> length ?data" using kv_enc_length [of p] data by (metis length_append trans_le_add1)
  moreover have "?u + ?s < 2 ^ 63" "length ?v < 2 ^ 63" using small by simp_all
  moreover have "length ?data < 2 ^ 63" using assms(4) data by simp
  ultimately have "kv_load ?data old = Inr (length ?a + length ?b + ?u + length ?c + length ?v,
      kv_new ?s ?u (replicate ?s 0 @ ?uk) ?v)"
    using kv_load_run [OF _ assms(2,3) r1 r2 m1 r3 m2] by blast
  moreover have "length ?a + length ?b + ?u + length ?c + length ?v = length (kv_enc p)"
    using small(4) by (simp add: kv_enc_def)
  ultimately show ?thesis unfolding data by (simp add: kv_new_def)
qed

lemma kv_load_bound:
  assumes "kv_load data old = Inr (k, p)"
  shows "0 < k \<and> k \<le> length data"
proof -
  from assms obtain sh o1 u k2 where r: "vu64_read data = Inr (sh, o1)" "vu64_read (drop o1 data) = Inr (u, k2)"
    by (auto simp: kv_load_def res_bind_eq_Inr split: if_splits)
  from assms r obtain off n k3 where off: "vu64_read (drop off data) = Inr (n, k3)"
    "k = off + k3 + n" "n \<noteq> 0 \<longrightarrow> off + k3 + n \<le> length data"
    by (auto simp: kv_load_def res_bind_eq_Inr Let_def mem_read_def split: if_splits)
  from vu64_read_bound [OF off(1)] have "0 < k3" "off + k3 \<le> length data" by auto
  with off show ?thesis by (cases "n = 0") auto
qed

section \<open>Groups\<close>

record group =
  sg_pairs :: "kv list"
  sg_cmp :: comparator

definition sg_new :: group where
  "sg_new = \<lparr>sg_pairs = [], sg_cmp = None\<rparr>"

definition sg_size :: "group \<Rightarrow> nat" where
  "sg_size g = length (sg_pairs g)"

definition sg_is_empty :: "group \<Rightarrow> bool" where
  "sg_is_empty g \<longleftrightarrow> sg_pairs g = []"

text \<open>The loop of \<open>LoadFrom\<close> after the first pair; \<open>data\<close> is what is left from \<open>offset\<close> on.\<close>

function sg_load_loop :: "bytes \<Rightarrow> bytes \<Rightarrow> kv list \<Rightarrow> exn + kv list" where
  "sg_load_loop first data pairs =
     (if data = [] then Inr pairs
      else case kv_load data kv_empty of
        Inl e \<Rightarrow> Inl e
      | Inr (k, p) \<Rightarrow>
          (case kv_set_shared_key first (kv_shared p) p of
             Inl e \<Rightarrow> Inl e
           | Inr p' \<Rightarrow> sg_load_loop first (drop k data) (pairs @ [p'])))"
  by pat_completeness auto
termination
  by (relation "measure (\<lambda>(first, data, pairs). length data)") (auto dest: kv_load_bound)

declare sg_load_loop.simps [simp del]

definition sg_load :: "bytes \<Rightarrow> group \<Rightarrow> exn + group" where
  "sg_load data g =
     (if length data < 3 then Inr (g\<lparr>sg_pairs := []\<rparr>)
      else res_bind (kv_load data kv_empty) (\<lambda>(k, p).
        res_bind (sg_load_loop (kv_key p) (drop k data) [p]) (\<lambda>ps. Inr (g\<lparr>sg_pairs := ps\<rparr>))))"

fun sum_sizes :: "kv list \<Rightarrow> exn + nat" where
  "sum_sizes [] = Inr 0"
| "sum_sizes (p # ps) = res_bind (kv_compute_size p) (\<lambda>n. res_bind (sum_sizes ps) (\<lambda>m. Inr (n + m)))"

definition sg_compute_size :: "group \<Rightarrow> exn + nat" where
  "sg_compute_size g = sum_sizes (sg_pairs g)"

fun store_pairs :: "kv list \<Rightarrow> exn + bytes" where
  "store_pairs [] = Inr []"
| "store_pairs (p # ps) = res_bind (kv_store p) (\<lambda>a. res_bind (store_pairs ps) (\<lambda>b. Inr (a @ b)))"

definition sg_unsafe_store_to :: "group \<Rightarrow> exn + bytes" where
  "sg_unsafe_store_to g = store_pairs (sg_pairs g)"

definition sg_store_to :: "group \<Rightarrow> nat \<Rightarrow> exn + bytes" where
  "sg_store_to g = store_checked (sg_compute_size g) (sg_unsafe_store_to g)"

definition sg_store_to_buffer :: "group \<Rightarrow> bytes \<Rightarrow> nat \<Rightarrow> exn + bytes" where
  "sg_store_to_buffer g = store_extending (sg_compute_size g) (sg_unsafe_store_to g)"

definition sg_find :: "group \<Rightarrow> bytes \<Rightarrow> nat" where
  "sg_find g key = lower_bound (\<lambda>p. key_less (sg_cmp g) (kv_key p) key) (sg_pairs g)"

definition sg_hit :: "group \<Rightarrow> nat \<Rightarrow> bytes \<Rightarrow> bool" where
  "sg_hit g i key \<longleftrightarrow> i < sg_size g \<and> key_comp (sg_cmp g) (kv_key (sg_pairs g ! i)) key = 0"

definition sg_exist :: "group \<Rightarrow> bytes \<Rightarrow> bool" where
  "sg_exist g key \<longleftrightarrow> sg_hit g (sg_find g key) key"

definition sg_get :: "group \<Rightarrow> bytes \<Rightarrow> exn + kv" where
  "sg_get g key =
     (let i = sg_find g key in if sg_hit g i key then Inr (sg_pairs g ! i) else Inl Out_of_range)"

definition sg_delete :: "bytes \<Rightarrow> group \<Rightarrow> group" where
  "sg_delete key g =
     (let i = sg_find g key in
        if sg_hit g i key then g\<lparr>sg_pairs := erase_at i (sg_pairs g)\<rparr> else g)"

fun common_prefix :: "bytes \<Rightarrow> bytes \<Rightarrow> nat" where
  "common_prefix (a # as) (b # bs) = (if a = b then Suc (common_prefix as bs) else 0)"
| "common_prefix _ _ = 0"

text \<open>\<open>ComputeKeySizes\<close> against the first key of the group.\<close>

definition sg_key_sizes :: "bytes \<Rightarrow> bytes \<Rightarrow> nat \<times> nat" where
  "sg_key_sizes first key =
     (let shared = common_prefix first key in (shared, length key - shared))"

abbreviation sg_first_key :: "group \<Rightarrow> bytes" where
  "sg_first_key g \<equiv> kv_key (hd (sg_pairs g))"

definition sg_check_key :: "group \<Rightarrow> bytes \<Rightarrow> bool" where
  "sg_check_key g key \<longleftrightarrow> sg_is_empty g \<or> fst (sg_key_sizes (sg_first_key g) key) \<noteq> 0"

definition kv_resize :: "bytes \<Rightarrow> kv \<Rightarrow> kv" where
  "kv_resize first p =
     (let (sh, u) = sg_key_sizes first (kv_key p) in p\<lparr>kv_shared := sh, kv_uniqued := u\<rparr>)"

definition sg_try_put :: "bytes \<Rightarrow> bytes \<Rightarrow> group \<Rightarrow> bool \<times> group" where
  "sg_try_put key value g =
     (let i = sg_find g key; ps = sg_pairs g in
        if i \<noteq> length ps then
          (if key_comp (sg_cmp g) (kv_key (ps ! i)) key = 0
           then (True, g\<lparr>sg_pairs := ps[i := (ps ! i)\<lparr>kv_value := value\<rparr>]\<rparr>)
           else
             let (sh, u) = sg_key_sizes (sg_first_key g) key in
             if sh = 0 then (False, g)
             else if i = 0
               then (True, g\<lparr>sg_pairs := kv_new 0 (length key) key value # map (kv_resize key) ps\<rparr>)
             else (True, g\<lparr>sg_pairs := insert_at (i + 1) (kv_new sh u key value) ps\<rparr>))
        else if ps = [] then (True, g\<lparr>sg_pairs := [kv_new 0 (length key) key value]\<rparr>)
        else
          let (sh, u) = sg_key_sizes (sg_first_key g) key in
          if sh = 0 then (False, g)
          else (True, g\<lparr>sg_pairs := ps @ [kv_new sh u key value]\<rparr>))"

definition sg_put :: "bytes \<Rightarrow> bytes \<Rightarrow> group \<Rightarrow> exn + group" where
  "sg_put key value g =
     (case sg_try_put key value g of (True, g') \<Rightarrow> Inr g' | (False, _) \<Rightarrow> Inl Invalid_argument)"

section \<open>Invariant\<close>

text \<open>
  The keys are sorted, and every pair shares with the first key the prefix it says it shares; the
  first one shares nothing.
\<close>

definition kv_shares :: "bytes \<Rightarrow> kv \<Rightarrow> bool" where
  "kv_shares first p \<longleftrightarrow> kv_ok p \<and> kv_shared p \<le> length first \<and>
     take (kv_shared p) (kv_key p) = take (kv_shared p) first"

definition sg_shape :: "kv list \<Rightarrow> bool" where
  "sg_shape ps \<longleftrightarrow> (ps \<noteq> [] \<longrightarrow> kv_shared (hd ps) = 0) \<and> (\<forall>p\<in>set ps. kv_shares (kv_key (hd ps)) p)"

definition sg_sorted :: "group \<Rightarrow> bool" where
  "sg_sorted g \<longleftrightarrow>
     sorted_wrt (\<lambda>a b. key_less (sg_cmp g) (kv_key a) (kv_key b)) (sg_pairs g)"

definition sg_wf :: "group \<Rightarrow> bool" where
  "sg_wf g \<longleftrightarrow> good_comparator (sg_cmp g) \<and> sg_sorted g \<and> sg_shape (sg_pairs g)"

text \<open>The map a group stands for.\<close>

definition sg_map :: "group \<Rightarrow> bytes \<Rightarrow> bytes option" where
  "sg_map g = assoc kv_key kv_value (sg_pairs g)"

section \<open>A group and its serialized form\<close>

definition sg_enc :: "kv list \<Rightarrow> bytes" where
  "sg_enc ps = concat (map kv_enc ps)"

lemma store_pairs_enc: "\<forall>p\<in>set ps. kv_ok p \<Longrightarrow> store_pairs ps = Inr (sg_enc ps)"
  by (induction ps) (simp_all add: sg_enc_def kv_store_enc)

lemma sum_sizes_enc: "\<forall>p\<in>set ps. kv_ok p \<Longrightarrow> sum_sizes ps = Inr (length (sg_enc ps))"
  by (induction ps) (simp_all add: sg_enc_def kv_compute_size_enc)

lemma kv_set_shared_restores:
  assumes "kv_shares first p"
  shows "kv_set_shared_key first (kv_shared p)
    (p\<lparr>kv_key := replicate (kv_shared p) 0 @ drop (kv_shared p) (kv_key p)\<rparr>) = Inr p"
proof -
  have sh: "kv_shared p \<le> length first" "kv_shared p \<le> length (kv_key p)"
    "take (kv_shared p) (kv_key p) = take (kv_shared p) first"
    using assms by (auto simp: kv_shares_def kv_ok_def)
  then have "take (kv_shared p) first @ drop (kv_shared p) (kv_key p) = kv_key p"
    by (metis append_take_drop_id)
  with sh show ?thesis by (simp add: kv_set_shared_key_def mem_read_def mem_write_def)
qed

lemma sg_load_loop_enc:
  assumes "\<forall>p\<in>set ps. kv_shares first p" and "length (sg_enc ps) < 2 ^ 63"
  shows "sg_load_loop first (sg_enc ps) acc = Inr (acc @ ps)"
  using assms
proof (induction ps arbitrary: acc)
  case Nil
  then show ?case by (simp add: sg_load_loop.simps [of first] sg_enc_def)
next
  case (Cons p ps)
  let ?p = "p\<lparr>kv_key := replicate (kv_shared p) 0 @ drop (kv_shared p) (kv_key p)\<rparr>"
  have enc: "sg_enc (p # ps) = kv_enc p @ sg_enc ps" by (simp add: sg_enc_def)
  have ok: "kv_ok p" "kv_shares first p" using Cons.prems(1) by (auto simp: kv_shares_def)
  have load: "kv_load (kv_enc p @ sg_enc ps) kv_empty = Inr (length (kv_enc p), ?p)"
    using Cons.prems(2) by (intro kv_load_enc ok) (simp_all add: kv_empty_def enc)
  have "sg_load_loop first (kv_enc p @ sg_enc ps) acc = sg_load_loop first (sg_enc ps) (acc @ [p])"
    using load kv_set_shared_restores [OF ok(2)] kv_enc_length [of p]
    by (subst sg_load_loop.simps) auto
  moreover have "\<forall>q\<in>set ps. kv_shares first q" "length (sg_enc ps) < 2 ^ 63"
    using Cons.prems enc by auto
  ultimately show ?case using Cons.IH [of "acc @ [p]"] enc by simp
qed

lemma sg_load_enc:
  assumes "sg_shape ps" and "length (sg_enc ps) < 2 ^ 63"
  shows "sg_load (sg_enc ps) g = Inr (g\<lparr>sg_pairs := ps\<rparr>)"
proof (cases ps)
  case Nil
  then show ?thesis by (simp add: sg_load_def sg_enc_def)
next
  case (Cons p qs)
  have enc: "sg_enc ps = kv_enc p @ sg_enc qs" using Cons by (simp add: sg_enc_def)
  have ok: "kv_ok p" "kv_shared p = 0" "\<forall>q\<in>set qs. kv_shares (kv_key p) q"
    using assms(1) Cons by (auto simp: sg_shape_def kv_shares_def)
  have "kv_load (kv_enc p @ sg_enc qs) kv_empty =
      Inr (length (kv_enc p), p\<lparr>kv_key := replicate (kv_shared p) 0 @ drop (kv_shared p) (kv_key p)\<rparr>)"
    using assms(2) enc by (intro kv_load_enc ok) (simp_all add: kv_empty_def)
  then have load: "kv_load (kv_enc p @ sg_enc qs) kv_empty = Inr (length (kv_enc p), p)"
    using ok(2) by simp
  have "sg_load_loop (kv_key p) (sg_enc qs) [p] = Inr ([p] @ qs)"
    using assms(2) enc by (intro sg_load_loop_enc ok) simp
  then show ?thesis
    using load kv_enc_length [of p] Cons unfolding enc by (simp add: sg_load_def)
qed

section \<open>A group as a map\<close>

lemma sg_wfD:
  assumes "sg_wf g"
  shows "key_order (key_less (sg_cmp g))" "key_comp (sg_cmp g) a b = 0 \<longleftrightarrow> a = b"
    "sorted_wrt (\<lambda>a b. key_less (sg_cmp g) (kv_key a) (kv_key b)) (sg_pairs g)"
  using assms good_comparatorD by (auto simp: sg_wf_def sg_sorted_def)

lemma sg_hit_iff:
  assumes "sg_wf g"
  shows "sg_hit g (sg_find g key) key \<longleftrightarrow> sg_map g key \<noteq> None"
  using key_order.find_key_hit [OF sg_wfD(1,3) [OF assms], of key] sg_wfD(2) [OF assms]
  by (auto simp: sg_hit_def sg_find_def sg_size_def sg_map_def assoc_None)

lemma sg_get_map:
  assumes "sg_wf g"
  shows "sg_get g key = (case sg_map g key of
    None \<Rightarrow> Inl Out_of_range | Some v \<Rightarrow> Inr (sg_pairs g ! sg_find g key)) \<and>
    (\<forall>v. sg_map g key = Some v \<longrightarrow> kv_key (sg_pairs g ! sg_find g key) = key \<and>
      kv_value (sg_pairs g ! sg_find g key) = v)"
proof -
  have "sg_map g key = (let i = sg_find g key in
      if i < length (sg_pairs g) \<and> kv_key (sg_pairs g ! i) = key then Some (kv_value (sg_pairs g ! i)) else None)"
    using key_order.assoc_find_key [OF sg_wfD(1,3) [OF assms]] by (simp add: sg_map_def sg_find_def)
  then show ?thesis
    using sg_wfD(2) [OF assms]
    by (auto simp: sg_get_def sg_hit_def sg_size_def Let_def split: if_splits)
qed

lemma sg_delete_map:
  assumes "sg_wf g"
  shows "sg_map (sg_delete key g) = (sg_map g)(key := None) \<and> sg_sorted (sg_delete key g)"
proof (cases "sg_hit g (sg_find g key) key")
  case True
  then have "sg_find g key < length (sg_pairs g)" "kv_key (sg_pairs g ! sg_find g key) = key"
    using sg_wfD(2) [OF assms] by (auto simp: sg_hit_def sg_size_def)
  from key_order.erase_sorted [OF sg_wfD(1,3) [OF assms], of key, folded sg_find_def, OF this]
  show ?thesis using True by (simp add: sg_delete_def sg_map_def sg_sorted_def Let_def)
next
  case False
  then have "sg_map g key = None" using sg_hit_iff [OF assms] by simp
  then have "(sg_map g)(key := None) = sg_map g" by auto
  with False assms show ?thesis by (simp add: sg_delete_def Let_def sg_wf_def)
qed

section \<open>Insertion\<close>

lemma common_prefix_props:
  "common_prefix a b \<le> length a \<and> common_prefix a b \<le> length b \<and>
   take (common_prefix a b) a = take (common_prefix a b) b"
  by (induction a b rule: common_prefix.induct) auto

lemma kv_shares_sizes:
  assumes "sg_key_sizes first key = (sh, u)" and "length key < 2 ^ 31" and "length value < 2 ^ 31"
  shows "kv_shares first (kv_new sh u key value)"
  using assms common_prefix_props [of first key]
  by (auto simp: kv_shares_def kv_ok_def kv_new_def sg_key_sizes_def Let_def)

lemma kv_shares_self: "kv_ok p \<Longrightarrow> kv_shared p = 0 \<Longrightarrow> kv_shares first p"
  by (simp add: kv_shares_def)

lemma kv_resize_simps [simp]:
  "kv_key (kv_resize first p) = kv_key p" "kv_value (kv_resize first p) = kv_value p"
  by (simp_all add: kv_resize_def split: prod.split)

lemma kv_resize_shares:
  assumes "kv_ok p" shows "kv_shares first (kv_resize first p)"
  using assms common_prefix_props [of first "kv_key p"]
  by (auto simp: kv_shares_def kv_ok_def kv_resize_def sg_key_sizes_def Let_def)

lemma assoc_resize: "assoc kv_key kv_value (map (kv_resize first) ps) = assoc kv_key kv_value ps"
  by (simp add: assoc_def o_def)

text \<open>The cases of \<open>TryPut\<close>.\<close>

lemma sg_try_put_hit:
  assumes "sg_hit g (sg_find g key) key"
  shows "sg_try_put key value g = (True,
    g\<lparr>sg_pairs := (sg_pairs g)[sg_find g key := (sg_pairs g ! sg_find g key)\<lparr>kv_value := value\<rparr>]\<rparr>)"
  using assms by (simp add: sg_try_put_def sg_hit_def sg_size_def Let_def)

lemma sg_find_le: "sg_find g key \<le> length (sg_pairs g)"
  by (simp add: sg_find_def)

lemma sg_try_put_overwrite:
  assumes "sg_wf g" and "sg_hit g (sg_find g key) key" and "length value < 2 ^ 31"
    and "sg_try_put key value g = (True, g')"
  shows "sg_wf g' \<and> sg_map g' = (sg_map g)(key \<mapsto> value)"
proof -
  let ?i = "sg_find g key" and ?ps = "sg_pairs g"
  let ?x = "(?ps ! ?i)\<lparr>kv_value := value\<rparr>"
  have i: "?i < length ?ps" "kv_key (?ps ! ?i) = key"
    using assms(2) sg_wfD(2) [OF assms(1)] by (auto simp: sg_hit_def sg_size_def)
  have g': "g' = g\<lparr>sg_pairs := ?ps[?i := ?x]\<rparr>"
    using sg_try_put_hit [OF assms(2), of "value"] assms(4) by simp
  have rep: "sorted_wrt (\<lambda>a b. key_less (sg_cmp g) (kv_key a) (kv_key b)) (?ps[?i := ?x])"
    "assoc kv_key kv_value (?ps[?i := ?x]) = (assoc kv_key kv_value ?ps)(key \<mapsto> value)"
    using key_order.replace_sorted(1) [OF sg_wfD(1,3) [OF assms(1)], where x = ?x]
      key_order.replace_sorted(2) [OF sg_wfD(1,3) [OF assms(1)], where x = ?x and val = kv_value] i
    by (simp_all add: sg_find_def)
  have shares: "kv_shares f ?x = (kv_shares f (?ps ! ?i))" if "kv_ok (?ps ! ?i)" for f
    using that assms(3) by (simp add: kv_shares_def kv_ok_def)
  have ok: "\<forall>p\<in>set ?ps. kv_shares (kv_key (hd ?ps)) p" "kv_shared (hd ?ps) = 0"
    using assms(1) i(1) by (auto simp: sg_wf_def sg_shape_def)
  have hd: "kv_key (hd (?ps[?i := ?x])) = kv_key (hd ?ps)" "kv_shared (hd (?ps[?i := ?x])) = kv_shared (hd ?ps)"
    using i by (cases ?ps; cases ?i; simp)+
  have "kv_shares (kv_key (hd ?ps)) ?x"
    using ok(1) i(1) shares [of "kv_key (hd ?ps)"] nth_mem [OF i(1)] unfolding kv_shares_def by blast
  then have "sg_shape (?ps[?i := ?x])"
    unfolding sg_shape_def hd using ok set_update_subset_insert [of ?ps ?i ?x] by auto
  with rep assms(1) show ?thesis by (simp add: g' sg_wf_def sg_sorted_def sg_map_def)
qed

lemma sg_try_put_end:
  assumes "sg_wf g" and "\<not> sg_hit g (sg_find g key) key" and "length key < 2 ^ 31"
    and "length value < 2 ^ 31" and "sg_find g key = 0 \<or> sg_find g key = length (sg_pairs g)"
    and "sg_try_put key value g = (True, g')"
  shows "sg_wf g' \<and> sg_map g' = (sg_map g)(key \<mapsto> value)"
proof -
  let ?i = "sg_find g key" and ?ps = "sg_pairs g"
  have miss: "key \<notin> kv_key ` set ?ps"
    using assms(2) sg_hit_iff [OF assms(1), of key] by (simp add: sg_map_def assoc_None)
  have ok: "\<forall>p\<in>set ?ps. kv_shares (kv_key (hd ?ps)) p" using assms(1) by (simp add: sg_wf_def sg_shape_def)
  have ins: "sorted_wrt (\<lambda>a b. key_less (sg_cmp g) (kv_key a) (kv_key b)) (insert_at ?i x ?ps)"
    "assoc kv_key kv_value (insert_at ?i x ?ps) = (assoc kv_key kv_value ?ps)(key \<mapsto> kv_value x)"
    if "kv_key x = key" for x
    using key_order.insert_sorted(1) [OF sg_wfD(1,3) [OF assms(1)], where x = x]
      key_order.insert_sorted(2) [OF sg_wfD(1,3) [OF assms(1)], where x = x and val = kv_value] that miss
    by (simp_all add: sg_find_def)
  consider (first) "?i = 0" "?ps \<noteq> []" | (last) "?i = length ?ps" "?ps \<noteq> []" | (empty) "?ps = []"
    using assms(5) by (cases "?ps = []") auto
  then show ?thesis
  proof cases
    case first
    let ?x = "kv_new 0 (length key) key value"
    have "\<not> key_comp (sg_cmp g) (kv_key (?ps ! 0)) key = 0"
      using assms(2) first by (auto simp: sg_hit_def sg_size_def)
    then have g': "g' = g\<lparr>sg_pairs := ?x # map (kv_resize key) ?ps\<rparr>"
      using assms(6) first by (auto simp: sg_try_put_def Let_def split: prod.splits if_splits)
    have x: "kv_key ?x = key" "kv_value ?x = value" by (simp_all add: kv_new_def)
    have sorted: "sorted_wrt (\<lambda>a b. key_less (sg_cmp g) (kv_key a) (kv_key b)) (?x # map (kv_resize key) ?ps)"
      using ins(1) [OF x(1)] first by (simp add: insert_at_def sorted_wrt_map)
    have "assoc kv_key kv_value (?x # map (kv_resize key) ?ps) = (assoc kv_key kv_value ?ps)(key \<mapsto> value)"
      using x by (simp add: assoc_Cons assoc_resize)
    moreover have "sg_shape (?x # map (kv_resize key) ?ps)"
      using ok assms(3,4) kv_resize_shares
      by (auto simp: sg_shape_def kv_shares_def kv_ok_def kv_new_def)
    ultimately show ?thesis using sorted assms(1) by (simp add: g' sg_wf_def sg_sorted_def sg_map_def)
  next
    case last
    obtain sh u where sz: "sg_key_sizes (sg_first_key g) key = (sh, u)" by fastforce
    let ?x = "kv_new sh u key value"
    have g': "g' = g\<lparr>sg_pairs := ?ps @ [?x]\<rparr>"
      using assms(6) last sz by (auto simp: sg_try_put_def Let_def split: if_splits)
    have x: "kv_key ?x = key" "kv_value ?x = value" by (simp_all add: kv_new_def)
    have "insert_at ?i ?x ?ps = ?ps @ [?x]" using last by (simp add: insert_at_def)
    with ins [OF x(1)] x(2)
    have "sorted_wrt (\<lambda>a b. key_less (sg_cmp g) (kv_key a) (kv_key b)) (?ps @ [?x])"
      "assoc kv_key kv_value (?ps @ [?x]) = (assoc kv_key kv_value ?ps)(key \<mapsto> value)" by simp_all
    moreover have "sg_shape (?ps @ [?x])"
      using ok kv_shares_sizes [OF sz assms(3,4)] assms(1) last(2)
      by (auto simp: sg_shape_def sg_wf_def)
    ultimately show ?thesis using assms(1) by (simp add: g' sg_wf_def sg_sorted_def sg_map_def)
  next
    case empty
    then have "?i = 0" using sg_find_le [of g key] by simp
    then have "g' = g\<lparr>sg_pairs := [kv_new 0 (length key) key value]\<rparr>"
      using assms(6) empty by (simp add: sg_try_put_def Let_def)
    then show ?thesis
      using assms(1,3,4) empty
      by (simp add: sg_wf_def sg_sorted_def sg_map_def sg_shape_def kv_shares_def kv_ok_def kv_new_def assoc_Cons)
  qed
qed

lemma sg_try_put_middle:
  assumes "sg_wf g" and "\<not> sg_hit g (sg_find g key) key"
    and "0 < sg_find g key" and "sg_find g key < length (sg_pairs g)"
    and "sg_try_put key value g = (True, g')"
  shows "\<not> sg_sorted g' \<and> (\<exists>p\<in>set (sg_pairs g'). kv_key p = key)"
proof -
  let ?i = "sg_find g key" and ?ps = "sg_pairs g"
  obtain sh u where sz: "sg_key_sizes (sg_first_key g) key = (sh, u)" by fastforce
  let ?x = "kv_new sh u key value"
  have "\<not> key_comp (sg_cmp g) (kv_key (?ps ! ?i)) key = 0"
    using assms(2,4) by (auto simp: sg_hit_def sg_size_def)
  then have g': "g' = g\<lparr>sg_pairs := insert_at (?i + 1) ?x ?ps\<rparr>"
    using assms(3-5) sz by (auto simp: sg_try_put_def Let_def split: if_splits)
  have split: "insert_at (?i + 1) ?x ?ps = take ?i ?ps @ ?ps ! ?i # ?x # drop (?i + 1) ?ps"
    using assms(4) by (simp add: insert_at_def take_Suc_conv_app_nth)
  have "?ps ! ?i \<in> set (drop ?i ?ps)" using assms(4) by (metis Cons_nth_drop_Suc list.set_intros(1))
  then have "kv_key (?ps ! ?i) = key \<or> key_less (sg_cmp g) key (kv_key (?ps ! ?i))"
    using key_order.find_key_above [OF sg_wfD(1,3) [OF assms(1)], of "?ps ! ?i" key] by (simp add: sg_find_def)
  then have "\<not> key_less (sg_cmp g) (kv_key (?ps ! ?i)) key"
    using key_order.asym [OF sg_wfD(1) [OF assms(1)]] key_order.irrefl [OF sg_wfD(1) [OF assms(1)]]
    by metis
  then have "\<not> sorted_wrt (\<lambda>a b. key_less (sg_cmp g) (kv_key a) (kv_key b)) (insert_at (?i + 1) ?x ?ps)"
    unfolding split by (simp add: sorted_wrt_append kv_new_def)
  then show ?thesis by (simp add: g' sg_sorted_def kv_new_def)
qed

section \<open>Deleting the first pair\<close>

lemma sg_delete_first:
  assumes "sg_wf g" and "sg_pairs g = [p, q]" and "length (kv_enc q) < 2 ^ 63"
  shows "\<exists>w. sg_unsafe_store_to (sg_delete (kv_key p) g) = Inr w \<and>
    sg_load w sg_new = Inr (sg_new\<lparr>sg_pairs :=
      [q\<lparr>kv_key := replicate (kv_shared q) 0 @ drop (kv_shared q) (kv_key q)\<rparr>]\<rparr>)"
proof -
  have "sg_map g (kv_key p) \<noteq> None" using assms(2) by (simp add: sg_map_def assoc_None)
  then have hit: "sg_hit g (sg_find g (kv_key p)) (kv_key p)" using sg_hit_iff [OF assms(1)] by simp
  have "sorted_wrt (\<lambda>a b. key_less (sg_cmp g) (kv_key a) (kv_key b)) [p, q]"
    using sg_wfD(3) [OF assms(1)] assms(2) by simp
  then have "kv_key q \<noteq> kv_key p"
    using key_order.irrefl [OF sg_wfD(1) [OF assms(1)]] by auto
  then have "sg_find g (kv_key p) = 0"
    using hit assms(2) sg_wfD(2) [OF assms(1)]
    by (auto simp: sg_hit_def sg_size_def less_Suc_eq)
  with hit assms(2) have del: "sg_delete (kv_key p) g = g\<lparr>sg_pairs := [q]\<rparr>"
    by (simp add: sg_delete_def erase_at_def)
  have ok: "kv_ok q" using assms(1,2) by (auto simp: sg_wf_def sg_shape_def kv_shares_def)
  have "kv_load (kv_enc q @ []) kv_empty = Inr (length (kv_enc q),
      q\<lparr>kv_key := replicate (kv_shared q) 0 @ drop (kv_shared q) (kv_key q)\<rparr>)"
    using assms(3) by (intro kv_load_enc ok) (simp_all add: kv_empty_def)
  then have "sg_load (kv_enc q) sg_new = Inr (sg_new\<lparr>sg_pairs :=
      [q\<lparr>kv_key := replicate (kv_shared q) 0 @ drop (kv_shared q) (kv_key q)\<rparr>]\<rparr>)"
    using kv_enc_length [of q] by (simp add: sg_load_def sg_load_loop.simps)
  then show ?thesis using ok del by (simp add: sg_unsafe_store_to_def kv_store_enc)
qed

text \<open>Two keys with a common prefix, and a third one between them.\<close>

definition sg_example :: group where
  "sg_example = \<lparr>sg_pairs = [kv_new 0 2 [7, 1] [10], kv_new 1 1 [7, 9] [20]], sg_cmp = None\<rparr>"

lemma sg_example_wf: "sg_wf sg_example"
  by (simp add: sg_example_def sg_wf_def sg_sorted_def key_less_None sg_shape_def kv_shares_def kv_ok_def
      kv_new_def)

lemma sg_example_find: "sg_find sg_example [7, 5] = 1"
  by (simp add: sg_example_def sg_find_def lower_bound_def lower_bound_from.simps key_less_None kv_new_def)

section \<open>Properties\<close>

text \<open>A well-formed group round-trips: \<open>ComputeSize\<close> is the number of bytes stored, and loading them
  rebuilds every pair with its full key, although only the first key is stored in full.\<close>

theorem sst_group_roundtrip:
  assumes "sg_wf g" and "sg_unsafe_store_to g = Inr w" and "length w < 2 ^ 63"
  shows "sg_compute_size g = Inr (length w) \<and> sg_load w g' = Inr (g'\<lparr>sg_pairs := sg_pairs g\<rparr>)"
proof -
  have shape: "sg_shape (sg_pairs g)" and ok: "\<forall>p\<in>set (sg_pairs g). kv_ok p"
    using assms(1) by (auto simp: sg_wf_def sg_shape_def kv_shares_def)
  then have "w = sg_enc (sg_pairs g)"
    using assms(2) store_pairs_enc by (auto simp: sg_unsafe_store_to_def)
  then show ?thesis
    using sum_sizes_enc [OF ok] sg_load_enc [OF shape] assms(3) by (simp add: sg_compute_size_def)
qed

theorem sst_group_roundtrip_witness:
  "\<exists>w. sg_unsafe_store_to sg_example = Inr w \<and> sg_compute_size sg_example = Inr (length w) \<and>
    sg_load w sg_new = Inr (sg_new\<lparr>sg_pairs := sg_pairs sg_example\<rparr>)"
proof -
  have "sg_unsafe_store_to sg_example = Inr (sg_enc (sg_pairs sg_example))"
    using sg_example_wf store_pairs_enc
    by (auto simp: sg_unsafe_store_to_def sg_wf_def sg_shape_def kv_shares_def)
  moreover have "length (sg_enc (sg_pairs sg_example)) < 2 ^ 63"
    by (simp add: sg_example_def sg_enc_def kv_enc_def kv_new_def venc_small)
  ultimately show ?thesis using sst_group_roundtrip [OF sg_example_wf] by blast
qed



text \<open>\<open>TryPut\<close> of a new key that sorts strictly inside the group puts the pair behind the first
  greater one: it reports success and the group is no longer sorted, so its binary search is void.\<close>

theorem sst_group_put_breaks_order:
  assumes "sg_wf g" and "sg_map g key = None" and "0 < sg_find g key" and "sg_find g key < sg_size g"
    and "sg_try_put key val g = (True, g')"
  shows "\<not> sg_sorted g' \<and> (\<exists>p\<in>set (sg_pairs g'). kv_key p = key)"
  using sg_try_put_middle [OF assms(1) _ assms(3) _ assms(5)] sg_hit_iff [OF assms(1), of key] assms(2,4)
  by (simp add: sg_size_def)

theorem sst_group_put_breaks_order_witness:
  "\<not> sg_sorted (snd (sg_try_put [7, 5] [30] sg_example)) \<and>
   \<not> sg_exist (snd (sg_try_put [7, 5] [30] sg_example)) [7, 5]"
proof
  have put: "sg_try_put [7, 5] [30] sg_example = (True, snd (sg_try_put [7, 5] [30] sg_example))"
    using sg_example_find
    by (simp add: sg_try_put_def sg_example_def kv_new_def sg_key_sizes_def key_comp_def buffer_compare_def)
  show "\<not> sg_sorted (snd (sg_try_put [7, 5] [30] sg_example))"
    using sst_group_put_breaks_order [OF sg_example_wf _ _ _ put] sg_example_find
    by (simp add: sg_map_def sg_size_def sg_example_def assoc_Cons kv_new_def)
  have "snd (sg_try_put [7, 5] [30] sg_example) =
      \<lparr>sg_pairs = [kv_new 0 2 [7, 1] [10], kv_new 1 1 [7, 9] [20], kv_new 1 1 [7, 5] [30]], sg_cmp = None\<rparr>"
    using sg_example_find
    by (simp add: sg_try_put_def sg_example_def kv_new_def sg_key_sizes_def key_comp_def buffer_compare_def
        insert_at_def)
  then show "\<not> sg_exist (snd (sg_try_put [7, 5] [30] sg_example)) [7, 5]"
    by (simp add: sg_exist_def sg_hit_def sg_find_def sg_size_def lower_bound_def lower_bound_from.simps
        key_less_None kv_new_def key_comp_def buffer_compare_def)
qed

text \<open>\<open>Delete\<close> of the first key does not recompute the shared sizes: the new first pair is stored
  without the prefix it shared, and is loaded with zero bytes in its place.\<close>

theorem sst_group_delete_first_loses_prefix:
  assumes "sg_wf g" and "sg_pairs g = [p, q]"
  shows "\<exists>w. sg_unsafe_store_to (sg_delete (kv_key p) g) = Inr w \<and>
    sg_load w sg_new = Inr (sg_new\<lparr>sg_pairs :=
      [q\<lparr>kv_key := replicate (kv_shared q) 0 @ drop (kv_shared q) (kv_key q)\<rparr>]\<rparr>)"
proof (rule sg_delete_first [OF assms])
  have ok: "kv_ok q" using assms by (auto simp: sg_wf_def sg_shape_def kv_shares_def)
  then have "length (venc (kv_shared q)) \<le> 10" "length (venc (kv_uniqued q)) \<le> 10"
    "length (venc (length (kv_value q))) \<le> 10"
    using vsize_bound by (auto simp: kv_ok_def simp flip: vsize_def)
  moreover have "length (drop (kv_shared q) (kv_key q)) \<le> length (kv_key q)" by simp
  moreover have "length (kv_key q) < 2 ^ 31" "length (kv_value q) < 2 ^ 31"
    using ok by (simp_all add: kv_ok_def)
  ultimately have "length (kv_enc q) < 10 + 10 + 2 ^ 31 + 10 + 2 ^ 31"
    unfolding kv_enc_def length_append by linarith
  then show "length (kv_enc q) < 2 ^ 63" by simp
qed

theorem sst_group_delete_first_loses_prefix_witness:
  "\<exists>w. sg_unsafe_store_to (sg_delete [7, 1] sg_example) = Inr w \<and>
    sg_load w sg_new = Inr (sg_new\<lparr>sg_pairs := [kv_new 1 1 [0, 9] [20]]\<rparr>)"
  using sst_group_delete_first_loses_prefix [OF sg_example_wf, of "kv_new 0 2 [7, 1] [10]" "kv_new 1 1 [7, 9] [20]"]
  by (simp add: sg_example_def kv_new_def)

end
