(* ===== verification/SstDataBlock.thy ===== *)
theory SstDataBlock
  imports SstKeyValue
begin

text \<open>
  The data blocks of the sorted string tables (\<open>include/sharpen/SstDataBlock.hpp\<close>,
  \<open>src/SstDataBlock.cpp\<close>): a sequence of groups searched by their last keys, stored behind a CRC and
  an index of offsets.
\<close>

section \<open>State\<close>

record data_block =
  db_groups :: "group list"
  db_cmp :: comparator

datatype exist_status = Exist | Not_exist | Deleted

definition db_new :: data_block where
  "db_new = \<lparr>db_groups = [], db_cmp = None\<rparr>"

definition max_key_per_groups :: nat where
  "max_key_per_groups = 16"

definition db_key_count :: "data_block \<Rightarrow> nat" where
  "db_key_count b = sum_list (map sg_size (db_groups b))"

abbreviation sg_last_key :: "group \<Rightarrow> bytes" where
  "sg_last_key g \<equiv> kv_key (last (sg_pairs g))"

section \<open>Loading\<close>

text \<open>\<open>number * sizeof(Uint64) + offset\<close>, in 64 bits.\<close>

definition index_end :: "nat \<Rightarrow> nat \<Rightarrow> nat" where
  "index_end number offset = add64 ((number * 8) mod 2 ^ 64) offset"

text \<open>
  The loop that reads the offsets of consecutive groups; \<open>left\<close> is the number of groups still to
  delimit. The last group, or the only read when there is none, extends to the end of the data.
\<close>

fun db_load_index :: "bytes \<Rightarrow> nat \<Rightarrow> nat \<Rightarrow> (nat \<times> nat) list \<Rightarrow> exn + (nat \<times> nat) list" where
  "db_load_index data offset (Suc (Suc left)) acc =
     res_bind (mem_read data offset 8) (\<lambda>b1.
       if le_nat b1 > length data then Inl Data_corruption
       else res_bind (mem_read data (offset + 8) 8) (\<lambda>b2.
         if le_nat b2 > length data \<or> le_nat b2 < le_nat b1 then Inl Data_corruption
         else db_load_index data (offset + 8) (Suc left)
           (acc @ [(le_nat b1, le_nat b2 - le_nat b1)])))"
| "db_load_index data offset _ acc =
     res_bind (mem_read data offset 8) (\<lambda>b1.
       if le_nat b1 > length data then Inl Data_corruption
       else Inr (acc @ [(le_nat b1, length data - le_nat b1)]))"

fun db_load_groups :: "comparator \<Rightarrow> bytes \<Rightarrow> (nat \<times> nat) list \<Rightarrow> exn + group list" where
  "db_load_groups cmp data [] = Inr []"
| "db_load_groups cmp data ((beg, len) # is) =
     res_bind (mem_read data beg len) (\<lambda>range.
       res_bind (sg_load range sg_new) (\<lambda>g.
         res_bind (db_load_groups cmp data is) (\<lambda>gs. Inr (g\<lparr>sg_cmp := cmp\<rparr> # gs))))"

text \<open>\<open>indexs.reserve(number)\<close> throws beyond the \<open>max_size\<close> of a vector of pairs of sizes.\<close>

definition db_load :: "bytes \<Rightarrow> data_block \<Rightarrow> exn + data_block" where
  "db_load data b =
     (if length data < 3 then Inl Invalid_argument
      else if le_nat (take 2 data) \<noteq> unat (crc16 (drop 2 data)) then Inl Data_corruption
      else res_bind (vu64_read (drop 2 data)) (\<lambda>(number, k).
        if index_end number (2 + k) > length data then Inl Data_corruption
        else if number \<ge> 2 ^ 59 then Inl Length_error
        else res_bind (db_load_index data (2 + k) number []) (\<lambda>is.
          res_bind (db_load_groups (db_cmp b) data is) (\<lambda>gs. Inr (b\<lparr>db_groups := gs\<rparr>)))))"

section \<open>Storing\<close>

fun sum_group_sizes :: "group list \<Rightarrow> exn + nat" where
  "sum_group_sizes [] = Inr 0"
| "sum_group_sizes (g # gs) =
     res_bind (sg_compute_size g) (\<lambda>n. res_bind (sum_group_sizes gs) (\<lambda>m. Inr (n + m)))"

definition db_compute_size :: "data_block \<Rightarrow> exn + nat" where
  "db_compute_size b =
     res_bind (vu64_bytes (length (db_groups b))) (\<lambda>h.
       res_bind (sum_group_sizes (db_groups b)) (\<lambda>n.
         Inr (2 + length h + length (db_groups b) * 8 + n)))"

text \<open>The loop of \<open>UnsafeStoreTo\<close>: the offsets and the bytes of the groups from \<open>pos\<close> on.\<close>

fun db_store_groups :: "group list \<Rightarrow> nat \<Rightarrow> exn + (bytes \<times> bytes)" where
  "db_store_groups [] pos = Inr ([], [])"
| "db_store_groups (g # gs) pos =
     res_bind (sg_unsafe_store_to g) (\<lambda>w.
       res_bind (db_store_groups gs (pos + length w)) (\<lambda>(offs, ws).
         Inr (le_bytes 8 pos @ offs, w @ ws)))"

definition db_store :: "data_block \<Rightarrow> exn + bytes" where
  "db_store b =
     res_bind (vu64_bytes (length (db_groups b))) (\<lambda>h.
       res_bind (db_store_groups (db_groups b) (2 + length h + 8 * length (db_groups b)))
         (\<lambda>(offs, ws).
           let body = h @ offs @ ws in Inr (le_bytes 2 (unat (crc16 body)) @ body)))"

definition db_store_to :: "data_block \<Rightarrow> nat \<Rightarrow> exn + bytes" where
  "db_store_to b = store_checked (db_compute_size b) (db_store b)"

definition db_store_to_buffer :: "data_block \<Rightarrow> bytes \<Rightarrow> nat \<Rightarrow> exn + bytes" where
  "db_store_to_buffer b = store_extending (db_compute_size b) (db_store b)"

section \<open>Lookup\<close>

definition db_find_group :: "data_block \<Rightarrow> bytes \<Rightarrow> nat" where
  "db_find_group b key = lower_bound (\<lambda>g. key_less (db_cmp b) (sg_last_key g) key) (db_groups b)"

definition db_find_insert_group :: "data_block \<Rightarrow> bytes \<Rightarrow> nat" where
  "db_find_insert_group b key =
     (let i = db_find_group b key; n = length (db_groups b) in
        if i = n \<and> n \<noteq> 0 then i - 1
        else if i \<noteq> 0 \<and> key_comp (db_cmp b) key (sg_first_key (db_groups b ! i)) = -1 \<and>
          \<not> sg_check_key (db_groups b ! i) key then i - 1
        else i)"

definition db_exist :: "data_block \<Rightarrow> bytes \<Rightarrow> exist_status" where
  "db_exist b key =
     (let i = db_find_group b key in
        if i \<noteq> length (db_groups b) \<and> sg_exist (db_groups b ! i) key then
          (case sg_get (db_groups b ! i) key of
             Inr p \<Rightarrow> if kv_value p \<noteq> [] then Exist else Deleted
           | Inl _ \<Rightarrow> Not_exist)
        else Not_exist)"

definition db_get :: "data_block \<Rightarrow> bytes \<Rightarrow> exn + bytes" where
  "db_get b key =
     (let i = db_find_group b key in
        if i = length (db_groups b) then Inl Out_of_range
        else res_bind (sg_get (db_groups b ! i) key) (\<lambda>p. Inr (kv_value p)))"

section \<open>Insertion\<close>

fun sg_put_all :: "kv list \<Rightarrow> group \<Rightarrow> exn + group" where
  "sg_put_all [] g = Inr g"
| "sg_put_all (p # ps) g = res_bind (sg_put (kv_key p) (kv_value p) g) (sg_put_all ps)"

text \<open>
  A full group is divided: the pairs from \<open>maxKeyPerGroups_\<close> on are moved into a new group, which
  also gets the new key and is placed behind it; the moved pairs stay behind as empty pairs.
\<close>

definition db_put :: "bytes \<Rightarrow> bytes \<Rightarrow> data_block \<Rightarrow> exn + data_block" where
  "db_put key value b =
     (let i = db_find_insert_group b key; gs = db_groups b;
          single = snd (sg_try_put key value (sg_new\<lparr>sg_cmp := db_cmp b\<rparr>)) in
      if i \<noteq> length gs then
        (let g = gs ! i in
         if sg_check_key g key then
           (if sg_size g \<ge> max_key_per_groups then
              res_bind (sg_put_all (drop max_key_per_groups (sg_pairs g)) sg_new) (\<lambda>moved.
                let rest = g\<lparr>sg_pairs := take max_key_per_groups (sg_pairs g) @
                      replicate (sg_size g - max_key_per_groups) kv_empty\<rparr> in
                Inr (b\<lparr>db_groups := insert_at (i + 1) (snd (sg_try_put key value moved)) (gs[i := rest])\<rparr>))
            else Inr (b\<lparr>db_groups := gs[i := snd (sg_try_put key value g)]\<rparr>))
         else
           (let j = (if key_comp (db_cmp b) key (sg_first_key g) = 1 then i + 1 else i) in
              Inr (b\<lparr>db_groups := insert_at j single gs\<rparr>)))
      else Inr (b\<lparr>db_groups := gs @ [single]\<rparr>))"

definition db_delete :: "bytes \<Rightarrow> data_block \<Rightarrow> exn + data_block" where
  "db_delete key b = db_put key [] b"

section \<open>Whole blocks\<close>

fun db_put_all :: "(bytes \<times> bytes) list \<Rightarrow> data_block \<Rightarrow> exn + data_block" where
  "db_put_all [] b = Inr b"
| "db_put_all ((k, v) # kvs) b = res_bind (db_put k v b) (db_put_all kvs)"

definition db_pairs :: "data_block \<Rightarrow> kv list" where
  "db_pairs b = concat (map sg_pairs (db_groups b))"

abbreviation db_items :: "data_block \<Rightarrow> (bytes \<times> bytes) list" where
  "db_items b \<equiv> map (\<lambda>p. (kv_key p, kv_value p)) (db_pairs b)"

text \<open>
  \<open>MergeWith\<close> over a range of blocks: with \<open>reserveCurrent\<close> the pairs of this block are put last, into
  a fresh block without a comparator, so that they win.
\<close>

definition db_merge_with :: "data_block list \<Rightarrow> bool \<Rightarrow> data_block \<Rightarrow> exn + data_block" where
  "db_merge_with others reserve_current b =
     (if reserve_current
      then res_bind (db_put_all (concat (map db_items others)) db_new) (db_put_all (db_items b))
      else db_put_all (concat (map db_items others)) b)"

text \<open>The loop of \<open>Split\<close>, over the groups from the last one on.\<close>

fun db_split_loop :: "nat \<Rightarrow> nat \<Rightarrow> group list \<Rightarrow> group list" where
  "db_split_loop key_count moved [] = []"
| "db_split_loop key_count moved (g # gs) =
     (if moved < key_count then g # db_split_loop key_count (moved + sg_size g) gs else [])"

definition db_split :: "data_block \<Rightarrow> data_block \<times> data_block" where
  "db_split b =
     (let moved = db_split_loop (db_key_count b div 2) 0 (rev (db_groups b)) in
        (db_new\<lparr>db_groups := moved\<rparr>,
         b\<lparr>db_groups := take (length (db_groups b) - length moved) (db_groups b)\<rparr>))"

definition db_is_atomic :: "data_block \<Rightarrow> bool" where
  "db_is_atomic b \<longleftrightarrow> (\<exists>g\<in>set (db_groups b). sg_size g > db_key_count b div 2)"

abbreviation db_first_key :: "data_block \<Rightarrow> bytes" where
  "db_first_key b \<equiv> sg_first_key (hd (db_groups b))"

abbreviation db_last_key :: "data_block \<Rightarrow> bytes" where
  "db_last_key b \<equiv> sg_last_key (last (db_groups b))"

definition db_is_overlapped :: "data_block \<Rightarrow> data_block \<Rightarrow> bool" where
  "db_is_overlapped b other \<longleftrightarrow>
     \<not> (db_groups b = [] \<or> db_groups other = []) \<and>
     \<not> buffer_compare (db_last_key b) (db_first_key other) < 0 \<and>
     \<not> buffer_compare (db_first_key b) (db_last_key other) > 0"

text \<open>\<open>EraseDeleted\<close>: the two nested loops, over the pairs of a group and over the groups.\<close>

fun erase_empty_pairs :: "kv list \<Rightarrow> kv list" where
  "erase_empty_pairs [] = []"
| "erase_empty_pairs (p # ps) = (if kv_value p = [] then erase_empty_pairs ps else p # erase_empty_pairs ps)"

fun erase_deleted_groups :: "group list \<Rightarrow> group list" where
  "erase_deleted_groups [] = []"
| "erase_deleted_groups (g # gs) =
     (let g' = g\<lparr>sg_pairs := erase_empty_pairs (sg_pairs g)\<rparr> in
        if sg_is_empty g' then erase_deleted_groups gs else g' # erase_deleted_groups gs)"

definition db_erase_deleted :: "data_block \<Rightarrow> data_block" where
  "db_erase_deleted b = b\<lparr>db_groups := erase_deleted_groups (db_groups b)\<rparr>"

section \<open>The serialized form of a block\<close>

fun block_offsets :: "nat \<Rightarrow> bytes list \<Rightarrow> nat list" where
  "block_offsets pos [] = []"
| "block_offsets pos (w # ws) = pos # block_offsets (pos + length w) ws"

fun block_ranges :: "nat \<Rightarrow> bytes list \<Rightarrow> (nat \<times> nat) list" where
  "block_ranges pos [] = []"
| "block_ranges pos (w # ws) = (pos, length w) # block_ranges (pos + length w) ws"

abbreviation group_encs :: "group list \<Rightarrow> bytes list" where
  "group_encs gs \<equiv> map (\<lambda>g. sg_enc (sg_pairs g)) gs"

abbreviation index_enc :: "nat \<Rightarrow> bytes list \<Rightarrow> bytes" where
  "index_enc pos ws \<equiv> concat (map (le_bytes 8) (block_offsets pos ws))"

definition db_body :: "group list \<Rightarrow> bytes" where
  "db_body gs = (let h = venc (length gs); ws = group_encs gs in
     h @ index_enc (2 + length h + 8 * length gs) ws @ concat ws)"

lemma length_index_enc [simp]: "length (index_enc pos ws) = 8 * length ws"
  by (induction ws arbitrary: pos) simp_all

lemma sg_shape_ok: "sg_shape ps \<Longrightarrow> p \<in> set ps \<Longrightarrow> kv_ok p"
  by (auto simp: sg_shape_def kv_shares_def)

lemma db_store_groups_enc:
  "\<forall>g\<in>set gs. sg_shape (sg_pairs g) \<Longrightarrow>
   db_store_groups gs pos = Inr (index_enc pos (group_encs gs), concat (group_encs gs))"
proof (induction gs arbitrary: pos)
  case (Cons g gs)
  have "sg_unsafe_store_to g = Inr (sg_enc (sg_pairs g))"
    unfolding sg_unsafe_store_to_def using Cons.prems sg_shape_ok by (intro store_pairs_enc) auto
  with Cons show ?case by simp
qed simp

lemma db_store_enc:
  assumes "\<forall>g\<in>set (db_groups b). sg_shape (sg_pairs g)" and "length (db_groups b) < 2 ^ 31"
  shows "db_store b = Inr (le_bytes 2 (unat (crc16 (db_body (db_groups b)))) @ db_body (db_groups b))"
  using assms by (simp add: db_store_def vu64_bytes_venc db_store_groups_enc db_body_def Let_def)

lemma sum_group_sizes_enc:
  "\<forall>g\<in>set gs. sg_shape (sg_pairs g) \<Longrightarrow> sum_group_sizes gs = Inr (length (concat (group_encs gs)))"
proof (induction gs)
  case (Cons g gs)
  have "sg_compute_size g = Inr (length (sg_enc (sg_pairs g)))"
    unfolding sg_compute_size_def using Cons.prems sg_shape_ok by (intro sum_sizes_enc) auto
  with Cons show ?case by simp
qed simp

lemma db_compute_size_enc:
  assumes "\<forall>g\<in>set (db_groups b). sg_shape (sg_pairs g)" and "length (db_groups b) < 2 ^ 31"
  shows "db_compute_size b = Inr (2 + length (db_body (db_groups b)))"
  using assms by (simp add: db_compute_size_def vu64_bytes_venc sum_group_sizes_enc db_body_def Let_def)

lemma mem_read_drop: "drop off data = xs @ r \<Longrightarrow> xs \<noteq> [] \<Longrightarrow> mem_read data off (length xs) = Inr xs"
proof -
  assume d: "drop off data = xs @ r" "xs \<noteq> []"
  then have "length data - off = length xs + length r" by (metis length_append length_drop)
  moreover have "0 < length xs" using d(2) by simp
  ultimately have "off + length xs \<le> length data" by linarith
  then show ?thesis using d(1) by (simp add: mem_read_def)
qed

lemma mem_read_le_bytes:
  assumes "drop off data = le_bytes 8 n @ r"
  shows "mem_read data off 8 = Inr (le_bytes 8 n)"
proof -
  have "le_bytes 8 n \<noteq> []" by (metis length_le_bytes list.size(3) zero_neq_numeral)
  from mem_read_drop [OF assms this] show ?thesis by simp
qed

lemma drop_more: "drop off data = xs @ r \<Longrightarrow> drop (off + length xs) data = r"
  by (metis add.commute append_eq_conv_conj drop_drop)

lemma db_load_index_enc:
  assumes "drop off data = index_enc pos ws @ r" and "ws \<noteq> []"
    and "pos + length (concat ws) = length data" and "length data < 2 ^ 63"
  shows "db_load_index data off (length ws) acc = Inr (acc @ block_ranges pos ws)"
  using assms
proof (induction ws arbitrary: off pos acc)
  case (Cons w ws)
  have read1: "mem_read data off 8 = Inr (le_bytes 8 pos)"
    using Cons.prems(1) by (intro mem_read_le_bytes) simp
  have "pos < 256 ^ 8" using Cons.prems(3,4) by simp
  then have val1: "le_nat (le_bytes 8 pos) = pos" by (rule le_nat_le_bytes_small)
  show ?case
  proof (cases ws)
    case Nil
    with Cons.prems(3) read1 val1 show ?thesis by simp
  next
    case (Cons w2 ws2)
    have next_off: "drop (off + 8) data = index_enc (pos + length w) ws @ r"
      using drop_more [of off data "le_bytes 8 pos" "index_enc (pos + length w) ws @ r"] Cons.prems(1) by simp
    then have read2: "mem_read data (off + 8) 8 = Inr (le_bytes 8 (pos + length w))"
      using Cons by (intro mem_read_le_bytes) simp
    have "pos + length w < 256 ^ 8" using Cons.prems(3,4) by simp
    then have val2: "le_nat (le_bytes 8 (pos + length w)) = pos + length w" by (rule le_nat_le_bytes_small)
    have rest: "db_load_index data (off + 8) (length ws) (acc @ [(pos, length w)]) =
        Inr ((acc @ [(pos, length w)]) @ block_ranges (pos + length w) ws)"
      using Cons.prems(3,4) Cons by (intro Cons.IH next_off) simp_all
    have "length (w # ws) = Suc (Suc (length ws2))" "length ws = Suc (length ws2)" using Cons by simp_all
    then show ?thesis
      using read1 val1 read2 val2 rest Cons.prems(3) by simp
  qed
qed simp

lemma db_load_groups_enc:
  assumes "drop pos data = concat (group_encs gs)" and "\<forall>g\<in>set gs. sg_shape (sg_pairs g)"
    and "pos + length (concat (group_encs gs)) = length data" and "length data < 2 ^ 63"
  shows "db_load_groups cmp data (block_ranges pos (group_encs gs)) = Inr (map (\<lambda>g. g\<lparr>sg_cmp := cmp\<rparr>) gs)"
  using assms
proof (induction gs arbitrary: pos)
  case (Cons g gs)
  let ?w = "sg_enc (sg_pairs g)"
  have read: "mem_read data pos (length ?w) = Inr ?w"
    using Cons.prems(1,3) by (simp add: mem_read_def)
  have load: "sg_load ?w sg_new = Inr (sg_new\<lparr>sg_pairs := sg_pairs g\<rparr>)"
    using Cons.prems(2-4) by (intro sg_load_enc) simp_all
  have "drop (pos + length ?w) data = concat (group_encs gs)"
    using Cons.prems(1) by (intro drop_more) simp
  then have "db_load_groups cmp data (block_ranges (pos + length ?w) (group_encs gs)) =
      Inr (map (\<lambda>g. g\<lparr>sg_cmp := cmp\<rparr>) gs)"
    using Cons.prems(2-4) by (intro Cons.IH) simp_all
  with read load show ?case by (simp add: sg_new_def)
qed simp

lemma crc16_bytes: "le_nat (le_bytes 2 (unat (crc16 body))) = unat (crc16 body)"
  using unsigned_less [of "crc16 body", where 'a = nat] by (intro le_nat_le_bytes_small) simp

lemma db_load_enc:
  assumes "gs \<noteq> []" and "\<forall>g\<in>set gs. sg_shape (sg_pairs g)" and "length gs < 2 ^ 31"
    and "data = le_bytes 2 (unat (crc16 (db_body gs))) @ db_body gs" and "length data < 2 ^ 63"
  shows "db_load data b = Inr (b\<lparr>db_groups := map (\<lambda>g. g\<lparr>sg_cmp := db_cmp b\<rparr>) gs\<rparr>)"
proof -
  let ?ws = "group_encs gs" and ?h = "venc (length gs)"
  let ?pos = "2 + length ?h + 8 * length gs"
  have body: "db_body gs = ?h @ index_enc ?pos ?ws @ concat ?ws" by (simp add: db_body_def Let_def)
  have two: "drop 2 data = db_body gs" "take 2 data = le_bytes 2 (unat (crc16 (db_body gs)))"
    using assms(4) by simp_all
  have len: "length data = ?pos + length (concat ?ws)" using assms(4) body by simp
  have h: "0 < length ?h" by simp
  have num: "vu64_read (drop 2 data) = Inr (length gs, length ?h)"
    unfolding two(1) body using vu64_read_venc [OF assms(3)] by (simp add: vsize_def)
  have "drop (2 + length ?h) data = drop (length ?h) (db_body gs)"
    using two(1) by (metis add.commute drop_drop)
  then have idx: "drop (2 + length ?h) data = index_enc ?pos ?ws @ concat ?ws" unfolding body by simp
  have "drop ?pos data = drop (8 * length gs) (drop (2 + length ?h) data)" by (simp add: add.commute)
  then have grp: "drop ?pos data = concat ?ws" unfolding idx by simp
  have ind: "index_end (length gs) (2 + length ?h) = ?pos"
    using assms(3,5) len by (simp add: index_end_def add64_def)
  have "db_load_index data (2 + length ?h) (length ?ws) [] = Inr ([] @ block_ranges ?pos ?ws)"
    using assms(1,5) len by (intro db_load_index_enc [OF idx]) auto
  moreover have "db_load_groups (db_cmp b) data (block_ranges ?pos ?ws) =
      Inr (map (\<lambda>g. g\<lparr>sg_cmp := db_cmp b\<rparr>) gs)"
    using len assms(5) by (intro db_load_groups_enc grp assms(2)) simp_all
  moreover have "\<not> length data < 3" using len h assms(1) by (cases gs) simp_all
  moreover have "length gs < 2 ^ 59" using assms(3) by simp
  ultimately show ?thesis
    unfolding db_load_def two(2) crc16_bytes using two(1) num ind len by simp
qed

lemma db_load_wrong_crc:
  assumes "3 \<le> length data" and "le_nat (take 2 data) \<noteq> unat (crc16 (drop 2 data))"
  shows "db_load data b = Inl Data_corruption"
  using assms by (simp add: db_load_def)

text \<open>A block without groups has nothing behind its number of groups, but one offset is read.\<close>

lemma db_store_empty: "db_store db_new = Inr (le_bytes 2 (unat (crc16 [0])) @ [0])"
  by (simp add: db_store_def db_new_def vu64_bytes_venc venc_small Let_def)

lemma db_load_empty: "db_load (le_bytes 2 (unat (crc16 [0])) @ [0]) b = Inl Undefined"
proof -
  have "vu64_read ([0] :: bytes) = Inr (0, 1)" using vu64_read_venc [of 0 "[]"] by (simp add: venc_small vsize_def)
  moreover have "index_end 0 k = k" if "k < 2 ^ 64" for k using that by (simp add: index_end_def add64_def)
  ultimately show ?thesis
    unfolding db_load_def by (simp add: crc16_bytes mem_read_def)
qed

section \<open>A block as a map\<close>

definition db_map :: "data_block \<Rightarrow> bytes \<Rightarrow> bytes option" where
  "db_map b = assoc kv_key kv_value (db_pairs b)"

definition db_wf :: "data_block \<Rightarrow> bool" where
  "db_wf b \<longleftrightarrow> good_comparator (db_cmp b) \<and>
     (\<forall>g\<in>set (db_groups b). sg_pairs g \<noteq> [] \<and> sg_wf g \<and> sg_cmp g = db_cmp b) \<and>
     sorted_wrt (\<lambda>p q. key_less (db_cmp b) (kv_key p) (kv_key q)) (db_pairs b)"

lemma db_wfD:
  assumes "db_wf b"
  shows "key_order (key_less (db_cmp b))"
    "sorted_wrt (\<lambda>p q. key_less (db_cmp b) (kv_key p) (kv_key q)) (concat (map sg_pairs (db_groups b)))"
    "\<forall>g\<in>set (db_groups b). sg_pairs g \<noteq> []"
    "g \<in> set (db_groups b) \<Longrightarrow> sg_wf g \<and> sg_cmp g = db_cmp b \<and> sg_shape (sg_pairs g)"
  using assms good_comparatorD(1) by (auto simp: db_wf_def db_pairs_def sg_wf_def)

lemma db_find_le: "db_find_group b key \<le> length (db_groups b)"
  by (simp add: db_find_group_def)

lemma db_map_find:
  assumes "db_wf b"
  shows "db_map b key = (let i = db_find_group b key in
    if i < length (db_groups b) then sg_map (db_groups b ! i) key else None)"
  using key_order.assoc_find_part [OF db_wfD(1-3) [OF assms], where val = kv_value, of key]
  by (simp add: db_map_def db_pairs_def db_find_group_def sg_map_def Let_def)

lemma db_get_map:
  assumes "db_wf b"
  shows "db_get b key = (case db_map b key of Some v \<Rightarrow> Inr v | None \<Rightarrow> Inl Out_of_range)"
proof (cases "db_find_group b key < length (db_groups b)")
  case True
  then have "db_groups b ! db_find_group b key \<in> set (db_groups b)" by simp
  then have g: "sg_wf (db_groups b ! db_find_group b key)" using db_wfD(4) [OF assms] by blast
  show ?thesis
    using True sg_get_map [OF g, of key] db_map_find [OF assms, of key]
    by (auto simp: db_get_def Let_def split: option.splits)
next
  case False
  then have "db_find_group b key = length (db_groups b)" using db_find_le [of b key] by simp
  then show ?thesis using db_map_find [OF assms, of key] by (simp add: db_get_def Let_def)
qed

lemma db_exist_map:
  assumes "db_wf b"
  shows "db_exist b key = (case db_map b key of
    None \<Rightarrow> Not_exist | Some v \<Rightarrow> if v = [] then Deleted else Exist)"
proof (cases "db_find_group b key < length (db_groups b)")
  case True
  then have "db_groups b ! db_find_group b key \<in> set (db_groups b)" by simp
  then have g: "sg_wf (db_groups b ! db_find_group b key)" using db_wfD(4) [OF assms] by blast
  show ?thesis
    using True sg_get_map [OF g, of key] sg_hit_iff [OF g, of key] db_map_find [OF assms, of key]
    by (auto simp: db_exist_def sg_exist_def Let_def split: option.splits)
next
  case False
  then have "db_find_group b key = length (db_groups b)" using db_find_le [of b key] by simp
  then show ?thesis using db_map_find [OF assms, of key] by (simp add: db_exist_def Let_def)
qed

section \<open>Insertion\<close>

lemma sg_try_put_empty:
  "sg_pairs g = [] \<Longrightarrow> sg_try_put key val g = (True, g\<lparr>sg_pairs := [kv_new 0 (length key) key val]\<rparr>)"
  using sg_find_le [of g key] by (simp add: sg_try_put_def)

lemma db_find_insert_check:
  assumes "db_find_group b key < length (db_groups b)"
    and "sg_check_key (db_groups b ! db_find_group b key) key"
  shows "db_find_insert_group b key = db_find_group b key"
  using assms by (auto simp: db_find_insert_group_def Let_def)

lemma db_put_full:
  assumes "db_find_group b key = i" and "i < length (db_groups b)" and "sg_check_key (db_groups b ! i) key"
    and "sg_size (db_groups b ! i) = max_key_per_groups"
  shows "db_put key val b = Inr (b\<lparr>db_groups := insert_at (i + 1)
    (sg_new\<lparr>sg_pairs := [kv_new 0 (length key) key val]\<rparr>) (db_groups b)\<rparr>)"
proof -
  let ?g = "db_groups b ! i"
  have at: "db_find_insert_group b key = i" using db_find_insert_check assms(1-3) by simp
  have "drop max_key_per_groups (sg_pairs ?g) = []" "take max_key_per_groups (sg_pairs ?g) = sg_pairs ?g"
    using assms(4) by (simp_all add: sg_size_def)
  then show ?thesis
    using at assms(2-4) by (simp add: db_put_def Let_def sg_try_put_empty sg_new_def)
qed

lemma db_find_insert_behind:
  assumes "db_wf b" and "db_find_group b key = i" and "i < length (db_groups b)"
    and "b' = b\<lparr>db_groups := insert_at (i + 1) g (db_groups b)\<rparr>" and "sg_last_key g = key"
  shows "db_find_group b' key = i" "db_groups b' ! i = db_groups b ! i"
proof -
  let ?p = "\<lambda>g. key_less (db_cmp b) (sg_last_key g) key" and ?gs = "db_groups b"
  have ord: "key_order (key_less (db_cmp b))" using db_wfD(1) [OF assms(1)] .
  have i: "i = length (takeWhile ?p ?gs)"
    using key_order.find_part_takeWhile [OF db_wfD(1-3) [OF assms(1)], of key] assms(2)
    by (simp add: db_find_group_def)
  then have "\<forall>g\<in>set (take i ?gs). ?p g" by (metis set_takeWhileD takeWhile_eq_take)
  moreover have "\<not> ?p h" if "h \<in> set (drop i ?gs)" for h
  proof -
    have "sg_last_key h = key \<or> key_less (db_cmp b) key (sg_last_key h)"
      using key_order.find_key_above [OF ord key_order.last_part_sorted [OF db_wfD(1-3) [OF assms(1)]], of h key]
        that assms(2) by (simp add: db_find_group_def)
    then show ?thesis using key_order.asym [OF ord] key_order.irrefl [OF ord] by metis
  qed
  moreover have "\<not> ?p g" using key_order.irrefl [OF ord] assms(5) by simp
  moreover have cut: "insert_at (i + 1) g ?gs = take i ?gs @ ?gs ! i # g # drop (i + 1) ?gs"
    using assms(3) by (simp add: insert_at_def take_Suc_conv_app_nth)
  moreover have "?gs ! i # drop (i + 1) ?gs = drop i ?gs" using assms(3) by (simp add: Cons_nth_drop_Suc)
  then have "set (?gs ! i # g # drop (i + 1) ?gs) = insert g (set (drop i ?gs))"
    by (metis insert_commute list.simps(15))
  ultimately have "lower_bound ?p (insert_at (i + 1) g ?gs) = length (take i ?gs)"
    unfolding cut by (intro lower_bound_split) auto
  then show "db_find_group b' key = i" using assms(3,4) by (simp add: db_find_group_def)
  show "db_groups b' ! i = db_groups b ! i" using assms(3) by (simp add: assms(4) insert_at_def nth_append)
qed

text \<open>Overwriting the value of a key in a group that is not full.\<close>

lemma sg_try_put_hit_keys:
  assumes "sg_hit g (sg_find g key) key" and "sg_try_put key val g = (True, g')"
  shows "map kv_key (sg_pairs g') = map kv_key (sg_pairs g) \<and> sg_cmp g' = sg_cmp g"
proof -
  let ?i = "sg_find g key"
  have "?i < length (sg_pairs g)" using assms(1) by (simp add: sg_hit_def sg_size_def)
  then have "map kv_key ((sg_pairs g)[?i := (sg_pairs g ! ?i)\<lparr>kv_value := val\<rparr>]) = map kv_key (sg_pairs g)"
    by (simp add: map_update list_update_same_conv)
  then show ?thesis using sg_try_put_hit [OF assms(1), of val] assms(2) by simp
qed

lemma sorted_keys_cong:
  "map kv_key ps = map kv_key qs \<Longrightarrow>
   sorted_wrt (\<lambda>p q. r (kv_key p) (kv_key q)) ps = sorted_wrt (\<lambda>p q. r (kv_key p) (kv_key q)) qs"
  using sorted_wrt_map [of r kv_key] by metis

lemma last_key_cong: "map kv_key ps = map kv_key qs \<Longrightarrow> ps \<noteq> [] \<Longrightarrow> kv_key (last ps) = kv_key (last qs)"
  by (metis last_map map_is_Nil_conv)

lemma length_takeWhile_update:
  "i < length xs \<Longrightarrow> p x = p (xs ! i) \<Longrightarrow> length (takeWhile p (xs[i := x])) = length (takeWhile p xs)"
  by (induction xs arbitrary: i) (auto split: nat.split)

lemma db_put_overwrite:
  assumes "db_wf b" and "db_map b key \<noteq> None" and "length key < 2 ^ 31" and "length val < 2 ^ 31"
    and "sg_check_key (db_groups b ! db_find_group b key) key"
    and "sg_size (db_groups b ! db_find_group b key) < max_key_per_groups"
  shows "\<exists>b'. db_put key val b = Inr b' \<and> db_wf b' \<and> db_map b' = (db_map b)(key \<mapsto> val)"
proof -
  let ?i = "db_find_group b key" and ?gs = "db_groups b"
  let ?g = "?gs ! ?i"
  have i: "?i < length ?gs" and in_g: "sg_map ?g key \<noteq> None"
    using assms(2) db_map_find [OF assms(1), of key] by (auto simp: Let_def split: if_splits)
  have g: "sg_wf ?g" "sg_cmp ?g = db_cmp b" "sg_pairs ?g \<noteq> []"
    using db_wfD(3,4) [OF assms(1)] i by auto
  have hit: "sg_hit ?g (sg_find ?g key) key" using in_g sg_hit_iff [OF g(1)] by simp
  obtain g' where put: "sg_try_put key val ?g = (True, g')" using sg_try_put_hit [OF hit] by blast
  have keys: "map kv_key (sg_pairs g') = map kv_key (sg_pairs ?g)" "sg_cmp g' = db_cmp b"
    using sg_try_put_hit_keys [OF hit put] g(2) by auto
  have g': "sg_wf g'" "sg_map g' = (sg_map ?g)(key \<mapsto> val)"
    using sg_try_put_overwrite [OF g(1) hit assms(4) put] by auto
  have ne: "sg_pairs g' \<noteq> []" using keys(1) g(3) by auto
  let ?b = "b\<lparr>db_groups := ?gs[?i := g']\<rparr>"
  have ins: "db_put key val b = Inr ?b"
    using db_find_insert_check [OF i assms(5)] assms(5,6) i put by (simp add: db_put_def Let_def)
  have upd: "map (\<lambda>g. map kv_key (sg_pairs g)) (?gs[?i := g']) = map (\<lambda>g. map kv_key (sg_pairs g)) ?gs"
    using keys(1) i by (simp add: map_update list_update_same_conv)
  then have "map kv_key (db_pairs ?b) = map kv_key (db_pairs b)"
    by (simp add: db_pairs_def map_concat o_def)
  then have sorted: "sorted_wrt (\<lambda>p q. key_less (db_cmp b) (kv_key p) (kv_key q)) (db_pairs ?b)"
    using sorted_keys_cong assms(1) unfolding db_wf_def by metis
  have wf: "db_wf ?b"
    using assms(1) sorted g'(1) keys(2) ne set_update_subset_insert [of ?gs ?i g']
    unfolding db_wf_def by (auto dest: subsetD)
  have find: "db_find_group ?b k = db_find_group b k" for k
  proof -
    have "length (takeWhile (\<lambda>g. key_less (db_cmp b) (sg_last_key g) k) (?gs[?i := g'])) =
        length (takeWhile (\<lambda>g. key_less (db_cmp b) (sg_last_key g) k) ?gs)"
      using last_key_cong [OF keys(1) ne] by (intro length_takeWhile_update) (simp_all add: i)
    then show ?thesis
      using key_order.find_part_takeWhile [OF db_wfD(1-3) [OF assms(1)], of k]
        key_order.find_part_takeWhile [OF db_wfD(1-3) [OF wf], of k] by (simp add: db_find_group_def)
  qed
  have "db_map ?b k = ((db_map b)(key \<mapsto> val)) k" for k
    using db_map_find [OF wf, of k] db_map_find [OF assms(1), of k] find [of k] g'(2) i
    by (auto simp: Let_def nth_list_update)
  with ins wf show ?thesis by blast
qed

section \<open>Insertion in ascending order\<close>

text \<open>What holds of a block that is only extended at its end.\<close>

definition db_built :: "data_block \<Rightarrow> bool" where
  "db_built b \<longleftrightarrow> db_wf b \<and> db_cmp b = None \<and> (\<forall>g\<in>set (db_groups b). sg_size g \<le> max_key_per_groups)"

lemma sg_single_wf:
  assumes "length key < 2 ^ 31" and "length val < 2 ^ 31"
  shows "sg_wf (sg_new\<lparr>sg_pairs := [kv_new 0 (length key) key val]\<rparr>)"
  using assms by (simp add: sg_wf_def sg_new_def sg_sorted_def sg_shape_def kv_shares_def kv_ok_def kv_new_def)

lemma sg_find_end:
  assumes "sg_wf g" and "\<forall>p\<in>set (sg_pairs g). key_less (sg_cmp g) (kv_key p) key"
  shows "sg_find g key = length (sg_pairs g)"
  using lower_bound_split [of "sg_pairs g" "\<lambda>p. key_less (sg_cmp g) (kv_key p) key" "[]"] assms(2)
  by (simp add: sg_find_def)

lemma sg_try_put_append:
  assumes "sg_wf g" and "sg_pairs g \<noteq> []" and "\<forall>p\<in>set (sg_pairs g). key_less (sg_cmp g) (kv_key p) key"
    and "sg_check_key g key" and "length key < 2 ^ 31" and "length val < 2 ^ 31"
  shows "\<exists>sh u. sg_try_put key val g = (True, g\<lparr>sg_pairs := sg_pairs g @ [kv_new sh u key val]\<rparr>) \<and>
    sg_wf (g\<lparr>sg_pairs := sg_pairs g @ [kv_new sh u key val]\<rparr>)"
proof -
  obtain sh u where sz: "sg_key_sizes (sg_first_key g) key = (sh, u)" by fastforce
  have i: "sg_find g key = length (sg_pairs g)" using sg_find_end [OF assms(1,3)] .
  have "sh \<noteq> 0" using assms(2,4) sz by (simp add: sg_check_key_def sg_is_empty_def)
  then have put: "sg_try_put key val g = (True, g\<lparr>sg_pairs := sg_pairs g @ [kv_new sh u key val]\<rparr>)"
    using sz assms(2) i by (simp add: sg_try_put_def)
  have "\<not> sg_hit g (sg_find g key) key" using i by (simp add: sg_hit_def sg_size_def)
  from sg_try_put_end [OF assms(1) this assms(5,6) _ put] i put show ?thesis by blast
qed

lemma db_built_extend:
  assumes "db_built b" and "db_groups b = gs @ hs" and "sg_wf g" and "sg_pairs g \<noteq> []" and "sg_cmp g = None"
    and "sg_size g \<le> max_key_per_groups"
    and "concat (map sg_pairs (gs @ [g])) = db_pairs b @ [kv_new sh u key val]"
    and "\<forall>p\<in>set (db_pairs b). bytes_less (kv_key p) key"
  shows "db_built (b\<lparr>db_groups := gs @ [g]\<rparr>)"
proof -
  have less: "key_less None = bytes_less" by (intro ext) (rule key_less_None)
  have "sorted_wrt (\<lambda>p q. bytes_less (kv_key p) (kv_key q)) (db_pairs b @ [kv_new sh u key val])"
    using assms(1,8) by (auto simp: db_built_def db_wf_def sorted_wrt_append kv_new_def less)
  then show ?thesis
    using assms(1-7) less by (auto simp: db_built_def db_wf_def db_pairs_def)
qed

lemma db_put_ascending:
  assumes "db_built b" and "\<forall>p\<in>set (db_pairs b). bytes_less (kv_key p) key"
    and "length key < 2 ^ 31" and "length val < 2 ^ 31"
  shows "\<exists>b' sh u. db_put key val b = Inr b' \<and> db_built b' \<and> db_pairs b' = db_pairs b @ [kv_new sh u key val]"
proof (cases "db_groups b" rule: rev_cases)
  case Nil
  let ?b = "b\<lparr>db_groups := [] @ [sg_new\<lparr>sg_pairs := [kv_new 0 (length key) key val]\<rparr>]\<rparr>"
  have "db_find_insert_group b key = 0"
    using Nil db_find_le [of b key] by (simp add: db_find_insert_group_def)
  then have "db_put key val b = Inr ?b"
    using Nil assms(1) by (simp add: db_put_def sg_try_put_empty sg_new_def db_built_def)
  moreover have "db_built ?b"
    using assms Nil sg_single_wf [OF assms(3,4)]
    by (intro db_built_extend) (simp_all add: db_pairs_def sg_new_def sg_size_def max_key_per_groups_def)
  ultimately show ?thesis using Nil by (auto simp: db_pairs_def)
next
  case (snoc gs g)
  let ?n = "length gs" and ?single = "sg_new\<lparr>sg_pairs := [kv_new 0 (length key) key val]\<rparr>"
  have less: "key_less None = bytes_less" by (intro ext) (rule key_less_None)
  have wf: "db_wf b" "db_cmp b = None" "sg_size g \<le> max_key_per_groups"
    using assms(1) snoc by (auto simp: db_built_def)
  have g: "sg_wf g" "sg_cmp g = None" "sg_pairs g \<noteq> []"
    using db_wfD(3,4) [OF wf(1)] snoc wf(2) by auto
  have "\<forall>h\<in>set (db_groups b). bytes_less (sg_last_key h) key"
    using assms(2) db_wfD(3) [OF wf(1)] by (auto simp: db_pairs_def)
  then have "db_find_group b key = length (db_groups b)"
    using lower_bound_split [of "db_groups b" "\<lambda>h. key_less (db_cmp b) (sg_last_key h) key" "[]"] wf(2) less
    by (simp add: db_find_group_def)
  then have at: "db_find_insert_group b key = ?n" using snoc by (simp add: db_find_insert_group_def)
  have below: "\<forall>p\<in>set (sg_pairs g). bytes_less (kv_key p) key"
    using assms(2) snoc by (auto simp: db_pairs_def)
  have new_group: "\<exists>b' sh u. Inr (b\<lparr>db_groups := db_groups b @ [?single]\<rparr>) = (Inr b' :: exn + data_block) \<and>
      db_built b' \<and> db_pairs b' = db_pairs b @ [kv_new sh u key val]"
  proof -
    have "db_built (b\<lparr>db_groups := db_groups b @ [?single]\<rparr>)"
      using assms sg_single_wf [OF assms(3,4)]
      by (intro db_built_extend) (simp_all add: db_pairs_def sg_new_def sg_size_def max_key_per_groups_def)
    then show ?thesis by (auto simp: db_pairs_def)
  qed
  consider (full) "sg_check_key g key" "sg_size g = max_key_per_groups"
    | (room) "sg_check_key g key" "\<not> max_key_per_groups \<le> sg_size g" | (other) "\<not> sg_check_key g key"
    using wf(3) by fastforce
  then show ?thesis
  proof cases
    case full
    then have "drop max_key_per_groups (sg_pairs g) = []" "take max_key_per_groups (sg_pairs g) = sg_pairs g"
      by (simp_all add: sg_size_def)
    then have "db_put key val b = Inr (b\<lparr>db_groups := db_groups b @ [?single]\<rparr>)"
      using at full snoc by (simp add: db_put_def sg_try_put_empty sg_new_def insert_at_def)
    then show ?thesis using new_group by simp
  next
    case room
    obtain sh u where put: "sg_try_put key val g = (True, g\<lparr>sg_pairs := sg_pairs g @ [kv_new sh u key val]\<rparr>)"
      "sg_wf (g\<lparr>sg_pairs := sg_pairs g @ [kv_new sh u key val]\<rparr>)"
      using sg_try_put_append [OF g(1,3) _ room(1) assms(3,4)] below g(2) less by auto
    let ?g = "g\<lparr>sg_pairs := sg_pairs g @ [kv_new sh u key val]\<rparr>"
    have "db_put key val b = Inr (b\<lparr>db_groups := gs @ [?g]\<rparr>)"
      using at room snoc put(1) by (simp add: db_put_def)
    moreover have "db_built (b\<lparr>db_groups := gs @ [?g]\<rparr>)"
      using assms(1,2) snoc put(2) g(2) room(2)
      by (intro db_built_extend) (simp_all add: db_pairs_def sg_size_def)
    ultimately show ?thesis using snoc by (auto simp: db_pairs_def)
  next
    case other
    have "bytes_less (sg_first_key g) key" using below g(3) by simp
    then have "key_comp (db_cmp b) key (sg_first_key g) = 1"
      using good_comparatorD(3) [OF good_comparator_None] wf(2) less by simp
    then have "db_put key val b = Inr (b\<lparr>db_groups := db_groups b @ [?single]\<rparr>)"
      using at other snoc wf(2) by (simp add: db_put_def sg_try_put_empty sg_new_def insert_at_def)
    then show ?thesis using new_group by simp
  qed
qed

lemma db_put_all_ascending:
  assumes "db_built b" and "sorted_wrt (\<lambda>a c. bytes_less (fst a) (fst c)) kvs"
    and "\<forall>(k, v)\<in>set kvs. length k < 2 ^ 31 \<and> length v < 2 ^ 31"
    and "\<forall>p\<in>set (db_pairs b). \<forall>(k, v)\<in>set kvs. bytes_less (kv_key p) k"
  shows "\<exists>b'. db_put_all kvs b = Inr b' \<and> db_built b' \<and> db_items b' = db_items b @ kvs"
  using assms
proof (induction kvs arbitrary: b)
  case (Cons kv kvs)
  obtain k v where kv: "kv = (k, v)" by fastforce
  from Cons.prems kv obtain b1 sh u where b1: "db_put k v b = Inr b1" "db_built b1"
    "db_pairs b1 = db_pairs b @ [kv_new sh u k v]"
    using db_put_ascending [of b k v] by auto
  have "\<forall>p\<in>set (db_pairs b1). \<forall>(k, v)\<in>set kvs. bytes_less (kv_key p) k"
    using Cons.prems(2,4) kv b1(3) by (auto simp: kv_new_def)
  then obtain b' where "db_put_all kvs b1 = Inr b'" "db_built b'" "db_items b' = db_items b1 @ kvs"
    using Cons.IH [OF b1(2)] Cons.prems(2,3) by auto
  then show ?case using kv b1 by (auto simp: kv_new_def)
qed simp

section \<open>Splitting and cleaning\<close>

lemma two_elements: "2 \<le> length xs \<Longrightarrow> \<exists>a b r. xs = a # b # r"
  by (cases xs; cases "tl xs") auto

lemma db_split_loop_prefix:
  "\<exists>rest. gs = db_split_loop n moved gs @ rest \<and>
    (n \<le> moved + sum_list (map sg_size gs) \<longrightarrow> n \<le> moved + sum_list (map sg_size (db_split_loop n moved gs)))"
proof (induction n moved gs rule: db_split_loop.induct)
  case (2 n moved g gs)
  show ?case
  proof (cases "moved < n")
    case True
    from 2 [OF True] obtain rest where "gs = db_split_loop n (moved + sg_size g) gs @ rest"
      "n \<le> moved + sg_size g + sum_list (map sg_size gs) \<longrightarrow>
        n \<le> moved + sg_size g + sum_list (map sg_size (db_split_loop n (moved + sg_size g) gs))" by blast
    then show ?thesis using True by (intro exI [of _ rest]) (simp add: add.assoc)
  qed simp
qed simp

lemma erase_empty_pairs_filter: "erase_empty_pairs ps = filter (\<lambda>p. kv_value p \<noteq> []) ps"
  by (induction ps) simp_all

lemma erase_deleted_pairs:
  "concat (map sg_pairs (erase_deleted_groups gs)) = filter (\<lambda>p. kv_value p \<noteq> []) (concat (map sg_pairs gs)) \<and>
   (\<forall>g\<in>set (erase_deleted_groups gs). sg_pairs g \<noteq> [])"
  by (induction gs) (simp_all add: erase_empty_pairs_filter sg_is_empty_def Let_def)

text \<open>Sixteen keys with a common prefix, and one group each for two-byte keys.\<close>

definition db_full_example :: data_block where
  "db_full_example = \<lparr>db_groups =
     [\<lparr>sg_pairs = map (\<lambda>i. kv_new (if i = 0 then 0 else 1) (if i = 0 then 2 else 1) [7, word_of_nat i] [1])
        [0, 1, 2, 3, 4, 5, 6, 7, 8, 9, 10, 11, 12, 13, 14, 15], sg_cmp = None\<rparr>], db_cmp = None\<rparr>"

definition db_split_example :: data_block where
  "db_split_example = \<lparr>db_groups =
     map (\<lambda>i. \<lparr>sg_pairs = [kv_new 0 1 [i] [i]], sg_cmp = None\<rparr>) [1, 2, 3, 4], db_cmp = None\<rparr>"

lemma db_full_example_wf: "db_wf db_full_example"
  by (simp add: db_wf_def db_full_example_def db_pairs_def sg_wf_def sg_sorted_def sg_shape_def kv_shares_def
      kv_ok_def kv_new_def key_less_None)

lemma db_split_example_wf: "db_wf db_split_example"
  by (simp add: db_wf_def db_split_example_def db_pairs_def sg_wf_def sg_sorted_def sg_shape_def kv_shares_def
      kv_ok_def kv_new_def key_less_None)

section \<open>Properties\<close>



text \<open>C28: The checksum protects the body of a stored block: replacing any two adjacent bytes behind it,
  other than by themselves, makes \<open>LoadFrom\<close> throw \<open>DataCorruptionException\<close>.\<close>

theorem sst_block_detects_corruption:
  assumes "db_store b = Inr w" and "w = pre @ [x1, x2] @ post" and "2 \<le> length pre" and "[x1, x2] \<noteq> [y1, y2]"
  shows "db_load (pre @ [y1, y2] @ post) b' = Inl Data_corruption"
proof (rule db_load_wrong_crc)
  obtain body where w: "w = le_bytes 2 (unat (crc16 body)) @ body"
    using assms(1) by (auto simp: db_store_def res_bind_eq_Inr Let_def)
  obtain a p where pre: "pre = a @ p" "length a = 2"
    using assms(3) by (metis append_take_drop_id length_take min.absorb2)
  have cut: "a = le_bytes 2 (unat (crc16 body))" "body = p @ [x1, x2] @ post"
    using w assms(2) pre by (auto simp: append_eq_append_conv)
  have "crc16 (p @ [x1, x2] @ post) \<noteq> crc16 (p @ [y1, y2] @ post)"
    by (rule crc16_detects_adjacent_bytes [OF assms(4)])
  then have "unat (crc16 body) \<noteq> unat (crc16 (p @ [y1, y2] @ post))" using cut(2) by (simp only: word_unat_eq_iff not_False_eq_True simp_thms)
  then show "le_nat (take 2 (pre @ [y1, y2] @ post)) \<noteq> unat (crc16 (drop 2 (pre @ [y1, y2] @ post)))"
    using pre cut(1) crc16_bytes [of body] by simp
qed (use assms(3) in simp)

theorem sst_block_detects_corruption_witness:
  "\<exists>w x1 x2 post. db_store db_split_example = Inr w \<and> w = take 2 w @ [x1, x2] @ post \<and>
    db_load (take 2 w @ [x1 + 1, x2] @ post) db_new = Inl Data_corruption"
proof -
  obtain w where w: "db_store db_split_example = Inr w" "4 \<le> length w"
  proof -
    have "\<forall>g\<in>set (db_groups db_split_example). sg_shape (sg_pairs g)" "length (db_groups db_split_example) < 2 ^ 31"
      using db_wfD(4) [OF db_split_example_wf] by (auto simp: db_split_example_def)
    from db_store_enc [OF this] show ?thesis
      by (rule that) (simp add: db_split_example_def db_body_def Let_def venc_small)
  qed
  have "2 \<le> length (drop 2 w)" using w(2) by simp
  from two_elements [OF this] obtain x1 x2 post where d: "drop 2 w = x1 # x2 # post" by blast
  then have cut: "w = take 2 w @ [x1, x2] @ post" by (metis append.left_neutral append_Cons append_take_drop_id)
  have "db_load (take 2 w @ [x1 + 1, x2] @ post) db_new = Inl Data_corruption"
    using w(2) by (intro sst_block_detects_corruption [OF w(1) cut]) simp_all
  then show ?thesis using w(1) cut by blast
qed

text \<open>C13: Keys that are put in ascending order into an empty block are all kept, in order: the block is
  well-formed, and \<open>Get\<close> returns the value put for a key, or throws when the key was not put.\<close>

theorem sst_block_build_ascending:
  assumes "sorted_wrt (\<lambda>a c. bytes_less (fst a) (fst c)) kvs"
    and "\<forall>(k, v)\<in>set kvs. length k < 2 ^ 31 \<and> length v < 2 ^ 31"
  shows "\<exists>b. db_put_all kvs db_new = Inr b \<and> db_wf b \<and> db_items b = kvs \<and>
    (\<forall>key. db_get b key = (case map_of kvs key of Some v \<Rightarrow> Inr v | None \<Rightarrow> Inl Out_of_range))"
proof -
  have "db_built db_new" by (simp add: db_built_def db_wf_def db_new_def db_pairs_def)
  moreover have "db_pairs db_new = []" by (simp add: db_new_def db_pairs_def)
  ultimately obtain b where b: "db_put_all kvs db_new = Inr b" "db_built b" "db_items b = kvs"
    using db_put_all_ascending [of db_new kvs] assms by auto
  then have "db_wf b" "db_map b = map_of kvs" by (simp_all add: db_built_def db_map_def assoc_def)
  then show ?thesis using b db_get_map by auto
qed

theorem sst_block_build_ascending_witness:
  "\<exists>b. db_put_all [([1, 1], [10]), ([1, 2], []), ([2], [30])] db_new = Inr b \<and>
    db_get b [1, 2] = Inr [] \<and> db_get b [2] = Inr [30] \<and> db_get b [3] = Inl Out_of_range"
  using sst_block_build_ascending [of "[([1, 1], [10]), ([1, 2], []), ([2], [30])]"] by auto



text \<open>\<open>Put\<close> of a key that is already in a full group does not overwrite it: the key goes into a
  new group behind the full one, and \<open>Get\<close> keeps returning the old value.\<close>

theorem sst_block_full_group_loses_update:
  assumes "db_wf b" and "db_map b key = Some old" and "sg_check_key (db_groups b ! db_find_group b key) key"
    and "sg_size (db_groups b ! db_find_group b key) = max_key_per_groups"
  shows "\<exists>b'. db_put key val b = Inr b' \<and> db_key_count b' = db_key_count b + 1 \<and> db_get b' key = Inr old"
proof -
  let ?i = "db_find_group b key" and ?g = "sg_new\<lparr>sg_pairs := [kv_new 0 (length key) key val]\<rparr>"
  let ?b = "b\<lparr>db_groups := insert_at (?i + 1) ?g (db_groups b)\<rparr>"
  have i: "?i < length (db_groups b)"
    using assms(2) db_map_find [OF assms(1), of key] by (auto simp: Let_def split: if_splits)
  have put: "db_put key val b = Inr ?b" using db_put_full [OF refl i assms(3,4)] .
  have "sg_last_key ?g = key" by (simp add: kv_new_def)
  note find = db_find_insert_behind [OF assms(1) refl i refl this]
  have "db_get b key = Inr old" using db_get_map [OF assms(1)] assms(2) by simp
  then have "db_get ?b key = Inr old" using find i by (simp add: db_get_def Let_def)
  moreover have "db_key_count ?b = db_key_count b + 1"
  proof -
    have "db_key_count b = sum_list (map sg_size (take (?i + 1) (db_groups b) @ drop (?i + 1) (db_groups b)))"
      by (simp add: db_key_count_def)
    also have "\<dots> + 1 = db_key_count ?b"
      by (simp only: db_key_count_def insert_at_def map_append sum_list_append) (simp add: sg_size_def)
    finally show ?thesis by simp
  qed
  ultimately show ?thesis using put by blast
qed

theorem sst_block_full_group_loses_update_witness:
  "\<exists>b. db_put [7, 4] [99] db_full_example = Inr b \<and> db_get b [7, 4] = Inr [1]"
proof -
  have i: "db_find_group db_full_example [7, 4] = 0"
    by (simp add: db_find_group_def db_full_example_def lower_bound_def lower_bound_from.simps key_less_None
        kv_new_def)
  have "db_map db_full_example [7, 4] = Some [1]"
    by (simp add: db_map_def db_pairs_def db_full_example_def assoc_Cons kv_new_def)
  moreover have "sg_check_key (db_groups db_full_example ! 0) [7, 4]"
    "sg_size (db_groups db_full_example ! 0) = max_key_per_groups"
    by (simp_all add: db_full_example_def sg_check_key_def sg_is_empty_def sg_key_sizes_def kv_new_def sg_size_def
        max_key_per_groups_def)
  ultimately show ?thesis
    using sst_block_full_group_loses_update [OF db_full_example_wf, of "[7, 4]" "[1]" "[99]"] i by auto
qed

text \<open>\<open>Split\<close> moves at least half of the keys, in whole groups from the end, and loses none; but it
  moves the groups in reverse order and without the comparator, so that a half of two or more groups is
  not sorted.\<close>

theorem sst_block_split_reverses:
  assumes "db_wf b" and "db_split b = (moved, kept)"
  shows "db_groups b = db_groups kept @ rev (db_groups moved) \<and> db_key_count b div 2 \<le> db_key_count moved \<and>
    db_cmp moved = None \<and> db_cmp kept = db_cmp b \<and>
    (2 \<le> length (db_groups moved) \<longrightarrow>
      \<not> sorted_wrt (\<lambda>p q. key_less (db_cmp b) (kv_key p) (kv_key q)) (db_pairs moved))"
proof -
  let ?n = "db_key_count b div 2" and ?gs = "db_groups b"
  have m: "db_groups moved = db_split_loop ?n 0 (rev ?gs)"
    and k: "db_groups kept = take (length ?gs - length (db_groups moved)) ?gs"
    and cmp: "db_cmp moved = None" "db_cmp kept = db_cmp b"
    using assms(2) by (auto simp: db_split_def Let_def db_new_def)
  obtain rest where rest: "rev ?gs = db_groups moved @ rest"
    and half: "?n \<le> sum_list (map sg_size (rev ?gs)) \<longrightarrow> ?n \<le> sum_list (map sg_size (db_groups moved))"
    using db_split_loop_prefix [of "rev ?gs" ?n 0] m by auto
  have "sum_list (map sg_size (rev ?gs)) = db_key_count b"
    by (metis db_key_count_def rev_map sum_list_rev)
  then have count: "?n \<le> db_key_count moved" using half by (simp add: db_key_count_def)
  have gs: "?gs = rev rest @ rev (db_groups moved)" using rest by (metis rev_append rev_rev_ident)
  then have kept: "db_groups kept = rev rest" using k by simp
  have "\<not> sorted_wrt (\<lambda>p q. key_less (db_cmp b) (kv_key p) (kv_key q)) (db_pairs moved)"
    if two: "2 \<le> length (db_groups moved)"
  proof
    assume s: "sorted_wrt (\<lambda>p q. key_less (db_cmp b) (kv_key p) (kv_key q)) (db_pairs moved)"
    obtain g1 g2 r where g: "db_groups moved = g1 # g2 # r"
      using two_elements [of "db_groups moved"] two by auto
    then have "g1 \<in> set ?gs" "g2 \<in> set ?gs" using gs by auto
    then have ne: "hd (sg_pairs g1) \<in> set (sg_pairs g1)" "hd (sg_pairs g2) \<in> set (sg_pairs g2)"
      using db_wfD(3) [OF assms(1)] by auto
    have "key_less (db_cmp b) (sg_first_key g2) (sg_first_key g1)"
      using db_wfD(2) [OF assms(1)] ne unfolding gs g by (simp add: sorted_wrt_append)
    moreover have "key_less (db_cmp b) (sg_first_key g1) (sg_first_key g2)"
      using s ne unfolding db_pairs_def g by (simp add: sorted_wrt_append)
    ultimately show False using key_order.asym [OF db_wfD(1) [OF assms(1)]] by blast
  qed
  with gs kept count cmp show ?thesis by simp
qed

theorem sst_block_split_reverses_witness:
  "\<not> sorted_wrt (\<lambda>p q. key_less None (kv_key p) (kv_key q)) (db_pairs (fst (db_split db_split_example))) \<and>
   db_get (fst (db_split db_split_example)) [4] = Inl Out_of_range"
proof
  have split: "db_split db_split_example = (fst (db_split db_split_example), snd (db_split db_split_example))" by simp
  have moved: "db_groups (fst (db_split db_split_example)) =
      [\<lparr>sg_pairs = [kv_new 0 1 [4] [4]], sg_cmp = None\<rparr>, \<lparr>sg_pairs = [kv_new 0 1 [3] [3]], sg_cmp = None\<rparr>]"
    by (simp add: db_split_def db_split_example_def db_key_count_def sg_size_def Let_def)
  then show "\<not> sorted_wrt (\<lambda>p q. key_less None (kv_key p) (kv_key q)) (db_pairs (fst (db_split db_split_example)))"
    using sst_block_split_reverses [OF db_split_example_wf split] by (simp add: db_split_example_def)
  have "db_cmp (fst (db_split db_split_example)) = None"
    by (simp add: db_split_def Let_def db_new_def)
  then show "db_get (fst (db_split db_split_example)) [4] = Inl Out_of_range"
    using moved by (simp add: db_get_def db_find_group_def lower_bound_def lower_bound_from.simps key_less_None
        kv_new_def)
qed

text \<open>\<open>EraseDeleted\<close> removes exactly the pairs with an empty value and the groups left empty, and
  keeps the other pairs in their order.\<close>

theorem sst_block_erase_deleted:
  "db_pairs (db_erase_deleted b) = filter (\<lambda>p. kv_value p \<noteq> []) (db_pairs b) \<and>
   (\<forall>g\<in>set (db_groups (db_erase_deleted b)). sg_pairs g \<noteq> [])"
  using erase_deleted_pairs [of "db_groups b"] by (simp add: db_erase_deleted_def db_pairs_def)

end
