(* ===== verification/WriteBatch.thy ===== *)
theory WriteBatch
  imports SstKeyValue
begin

text \<open>
  Write batches (\<open>include/sharpen/WriteBatch.hpp\<close>, \<open>src/WriteBatch.cpp\<close>): the sequence of puts and
  deletes that the memory table applies at once and the log stores behind a CRC. \<open>LoadFrom\<close> appends to
  the actions that are already there, so that its result is the sequence and the exception, if any.
\<close>

section \<open>State and operations\<close>

datatype action_type = Put | Delete

record action =
  act_type :: action_type
  act_key :: bytes
  act_value :: bytes

type_synonym batch = "action list"

abbreviation put_action :: "bytes \<Rightarrow> bytes \<Rightarrow> action" where
  "put_action k v \<equiv> \<lparr>act_type = Put, act_key = k, act_value = v\<rparr>"

abbreviation delete_action :: "bytes \<Rightarrow> action" where
  "delete_action k \<equiv> \<lparr>act_type = Delete, act_key = k, act_value = []\<rparr>"

definition wb_put :: "bytes \<Rightarrow> bytes \<Rightarrow> batch \<Rightarrow> batch" where
  "wb_put key value b = b @ [put_action key value]"

definition wb_delete :: "bytes \<Rightarrow> batch \<Rightarrow> batch" where
  "wb_delete key b = b @ [delete_action key]"

section \<open>Loading\<close>

text \<open>\<open>ByteBuffer key{n}; memcpy(key.Data(),data + offset,n)\<close>.\<close>

definition read_buffer :: "bytes \<Rightarrow> nat \<Rightarrow> nat \<Rightarrow> exn + bytes" where
  "read_buffer data offset n = res_bind (vec_resize n []) (\<lambda>_. mem_read data offset n)"

text \<open>The value of a put; the second component is where the loop goes on: behind the size.\<close>

definition wb_load_value :: "bytes \<Rightarrow> nat \<Rightarrow> exn + (bytes \<times> nat)" where
  "wb_load_value data offset =
     (if length data < offset then Inl Data_corruption
      else res_bind (vu64_read (drop offset data)) (\<lambda>(vsize, k).
        if length data < offset + k then Inl Data_corruption
        else res_bind (read_buffer data (offset + k) vsize) (\<lambda>v. Inr (v, offset + k))))"

text \<open>
  One round of the loop of \<open>LoadFrom\<close>. \<open>char\<close> is signed: of the types, those above 127 are negative,
  and every type that is neither 1 nor above 2 is a put.
\<close>

definition wb_load_action :: "bytes \<Rightarrow> nat \<Rightarrow> exn + (action \<times> nat)" where
  "wb_load_action data offset =
     (if length data < offset then Inl Data_corruption
      else res_bind (mem_read data offset 1) (\<lambda>t.
        if sint (hd t) > 2 then Inl Data_corruption
        else if length data < offset + 1 then Inl Data_corruption
        else res_bind (vu64_read (drop (offset + 1) data)) (\<lambda>(ksize, k).
          let offset' = offset + 1 + k in
          if length data < add64 offset' ksize then Inl Data_corruption
          else res_bind (read_buffer data offset' ksize) (\<lambda>key.
            if hd t = 1 then Inr (delete_action key, offset' + ksize)
            else res_bind (wb_load_value data (offset' + ksize)) (\<lambda>(v, offset'').
              Inr (put_action key v, offset''))))))"

fun wb_load_loop :: "nat \<Rightarrow> bytes \<Rightarrow> nat \<Rightarrow> batch \<Rightarrow> batch \<times> exn option" where
  "wb_load_loop 0 data offset b = (b, None)"
| "wb_load_loop (Suc n) data offset b =
     (case wb_load_action data offset of
        Inl e \<Rightarrow> (b, Some e)
      | Inr (a, offset') \<Rightarrow> wb_load_loop n data offset' (b @ [a]))"

definition wb_load :: "bytes \<Rightarrow> batch \<Rightarrow> batch \<times> exn option" where
  "wb_load data b =
     (if length data < 3 then (b, Some Invalid_argument)
      else if le_nat (take 2 data) \<noteq> unat (crc16 (drop 2 data)) then (b, Some Data_corruption)
      else case vu64_read (drop 2 data) of
        Inl e \<Rightarrow> (b, Some e)
      | Inr (num, k) \<Rightarrow> wb_load_loop num data (2 + k) b)"

text \<open>\<open>LoadFrom(buf,offset)\<close> passes \<open>buf.Data()\<close> with the size of the rest.\<close>

definition wb_load_buffer :: "bytes \<Rightarrow> nat \<Rightarrow> batch \<Rightarrow> batch \<times> exn option" where
  "wb_load_buffer buf offset b = wb_load (take (length buf - offset) buf) b"

section \<open>Storing\<close>

definition wb_action_size :: "action \<Rightarrow> exn + nat" where
  "wb_action_size a =
     res_bind (vu64_bytes (length (act_key a))) (\<lambda>h.
       if act_type a = Put
       then res_bind (vu64_bytes (length (act_value a))) (\<lambda>h'.
         Inr (1 + length h + length (act_key a) + length h' + length (act_value a)))
       else Inr (1 + length h + length (act_key a)))"

fun wb_sum_sizes :: "batch \<Rightarrow> exn + nat" where
  "wb_sum_sizes [] = Inr 0"
| "wb_sum_sizes (a # as) =
     res_bind (wb_action_size a) (\<lambda>n. res_bind (wb_sum_sizes as) (\<lambda>m. Inr (n + m)))"

definition wb_compute_size :: "batch \<Rightarrow> exn + nat" where
  "wb_compute_size b =
     res_bind (vu64_bytes (length b)) (\<lambda>h. res_bind (wb_sum_sizes b) (\<lambda>n. Inr (2 + length h + n)))"

definition wb_store_action :: "action \<Rightarrow> exn + bytes" where
  "wb_store_action a =
     res_bind (vu64_bytes (length (act_key a))) (\<lambda>h.
       if act_type a = Put
       then res_bind (vu64_bytes (length (act_value a))) (\<lambda>h'. Inr ([0] @ h @ act_key a @ h' @ act_value a))
       else Inr ([1] @ h @ act_key a))"

fun wb_store_actions :: "batch \<Rightarrow> exn + bytes" where
  "wb_store_actions [] = Inr []"
| "wb_store_actions (a # as) =
     res_bind (wb_store_action a) (\<lambda>w. res_bind (wb_store_actions as) (\<lambda>ws. Inr (w @ ws)))"

definition wb_unsafe_store_to :: "batch \<Rightarrow> exn + bytes" where
  "wb_unsafe_store_to b =
     res_bind (vu64_bytes (length b)) (\<lambda>h.
       res_bind (wb_store_actions b) (\<lambda>w.
         let body = h @ w in Inr (le_bytes 2 (unat (crc16 body)) @ body)))"

definition wb_store_to :: "batch \<Rightarrow> nat \<Rightarrow> exn + bytes" where
  "wb_store_to b = store_checked (wb_compute_size b) (wb_unsafe_store_to b)"

definition wb_store_to_buffer :: "batch \<Rightarrow> bytes \<Rightarrow> nat \<Rightarrow> exn + bytes" where
  "wb_store_to_buffer b = store_extending (wb_compute_size b) (wb_unsafe_store_to b)"

section \<open>The serialized form of a batch\<close>

definition act_ok :: "action \<Rightarrow> bool" where
  "act_ok a \<longleftrightarrow> length (act_key a) < 2 ^ 31 \<and> length (act_value a) < 2 ^ 31 \<and>
     (act_type a = Delete \<longrightarrow> act_value a = [])"

definition act_head :: "action \<Rightarrow> bytes" where
  "act_head a = (if act_type a = Put
     then [0] @ venc (length (act_key a)) @ act_key a @ venc (length (act_value a))
     else [1] @ venc (length (act_key a)) @ act_key a)"

definition act_enc :: "action \<Rightarrow> bytes" where
  "act_enc a = act_head a @ act_value a"

definition wb_body :: "batch \<Rightarrow> bytes" where
  "wb_body b = venc (length b) @ concat (map act_enc b)"

definition wb_enc :: "batch \<Rightarrow> bytes" where
  "wb_enc b = le_bytes 2 (unat (crc16 (wb_body b))) @ wb_body b"

lemma wb_store_action_enc: "act_ok a \<Longrightarrow> wb_store_action a = Inr (act_enc a)"
  by (cases "act_type a") (simp_all add: wb_store_action_def act_ok_def act_enc_def act_head_def vu64_bytes_venc)

lemma wb_action_size_enc: "act_ok a \<Longrightarrow> wb_action_size a = Inr (length (act_enc a))"
  by (cases "act_type a") (simp_all add: wb_action_size_def act_ok_def act_enc_def act_head_def vu64_bytes_venc)

lemma wb_store_actions_enc: "\<forall>a\<in>set b. act_ok a \<Longrightarrow> wb_store_actions b = Inr (concat (map act_enc b))"
  by (induction b) (simp_all add: wb_store_action_enc)

lemma wb_sum_sizes_enc: "\<forall>a\<in>set b. act_ok a \<Longrightarrow> wb_sum_sizes b = Inr (length (concat (map act_enc b)))"
  by (induction b) (simp_all add: wb_action_size_enc)

lemma wb_store_enc:
  assumes "\<forall>a\<in>set b. act_ok a" and "length b < 2 ^ 31"
  shows "wb_unsafe_store_to b = Inr (wb_enc b)" "wb_compute_size b = Inr (length (wb_enc b))"
  using assms by (simp_all add: wb_unsafe_store_to_def wb_compute_size_def wb_store_actions_enc wb_sum_sizes_enc
      vu64_bytes_venc wb_enc_def wb_body_def Let_def)

lemma read_buffer_at:
  assumes "drop off data = xs @ r" and "length xs < 2 ^ 63" and "off \<le> length data"
  shows "read_buffer data off (length xs) = Inr xs"
proof -
  have "length data - off = length xs + length r" using assms(1) by (metis length_append length_drop)
  then show ?thesis using assms by (simp add: read_buffer_def vec_resize_def mem_read_def)
qed

lemma drop_length_append: "drop off data = xs @ r \<Longrightarrow> drop (off + length xs) data = r"
  by (metis add.commute append_eq_conv_conj drop_drop)

lemma drop_le_length: "drop off data = xs @ r \<Longrightarrow> xs \<noteq> [] \<Longrightarrow> off + length xs \<le> length data"
proof -
  assume d: "drop off data = xs @ r" "xs \<noteq> []"
  then have "length data - off = length xs + length r" by (metis length_append length_drop)
  moreover have "0 < length xs" using d(2) by simp
  ultimately show ?thesis by linarith
qed

text \<open>One stored action is read back; the loop goes on behind its head, that is, at its value.\<close>

lemma wb_load_action_enc:
  assumes "act_ok a" and "drop off data = act_head a @ act_value a @ r" and "length data < 2 ^ 63"
  shows "wb_load_action data off = Inr (a, off + length (act_head a))"
proof -
  let ?t = "if act_type a = Put then 0 else 1 :: byte" and ?kh = "venc (length (act_key a))"
    and ?vh = "venc (length (act_value a))"
  obtain rest where d: "drop off data = [?t] @ ?kh @ act_key a @ rest"
    and rest: "act_type a = Put \<longrightarrow> rest = ?vh @ act_value a @ r"
    using assms(2) by (cases "act_type a") (simp_all add: act_head_def)
  have ok: "length (act_key a) < 2 ^ 31" "length (act_value a) < 2 ^ 31" "act_type a = Delete \<longrightarrow> act_value a = []"
    using assms(1) by (auto simp: act_ok_def)
  let ?o1 = "off + 1" and ?o2 = "off + 1 + length ?kh" and ?o3 = "off + 1 + length ?kh + length (act_key a)"
  have d1: "drop ?o1 data = ?kh @ act_key a @ rest" using drop_length_append [OF d] by simp
  have d2: "drop ?o2 data = act_key a @ rest" using drop_length_append [OF d1] by simp
  have d3: "drop ?o3 data = rest" using drop_length_append [OF d2] by simp
  have len: "?o2 \<le> length data" using drop_le_length [OF d1] by simp
  have "length data - ?o2 = length (act_key a) + length rest" using d2 by (metis length_append length_drop)
  then have len3: "?o3 \<le> length data" using len by linarith
  have t: "mem_read data off 1 = Inr [?t]" using len3 d by (simp add: mem_read_def)
  have k: "vu64_read (drop ?o1 data) = Inr (length (act_key a), length ?kh)"
    unfolding d1 using vu64_read_venc [OF ok(1)] by (simp add: vsize_def)
  have key: "read_buffer data ?o2 (length (act_key a)) = Inr (act_key a)"
    using ok(1) len by (intro read_buffer_at [OF d2]) simp_all
  have add: "add64 ?o2 (length (act_key a)) = ?o3" using len3 assms(3) by (intro add64_small) simp
  show ?thesis
  proof (cases "act_type a")
    case Delete
    then show ?thesis
      using t k key add len len3 ok(3) by (simp add: wb_load_action_def act_head_def Let_def)
  next
    case Put
    then have d4: "drop ?o3 data = ?vh @ act_value a @ r" using d3 rest by simp
    have v: "vu64_read (drop ?o3 data) = Inr (length (act_value a), length ?vh)"
      unfolding d4 using vu64_read_venc [OF ok(2)] by (simp add: vsize_def)
    have len4: "?o3 + length ?vh \<le> length data" using drop_le_length [OF d4] by simp
    have "read_buffer data (?o3 + length ?vh) (length (act_value a)) = Inr (act_value a)"
      using ok(2) len4 by (intro read_buffer_at [OF drop_length_append [OF d4]]) simp_all
    then have "wb_load_value data ?o3 = Inr (act_value a, ?o3 + length ?vh)"
      using v len3 len4 by (simp add: wb_load_value_def)
    then show ?thesis
      using Put t k key add len len3 by (simp add: wb_load_action_def act_head_def Let_def add.assoc)
  qed
qed

text \<open>Whole batches: rounds whose actions have no value stay in step with the stored bytes.\<close>

lemma wb_load_loop_valueless:
  assumes "\<forall>a\<in>set b. act_ok a \<and> act_value a = []" and "drop off data = concat (map act_enc b) @ r"
    and "length data < 2 ^ 63"
  shows "wb_load_loop (length b + n) data off acc =
    wb_load_loop n data (off + length (concat (map act_enc b))) (acc @ b)"
  using assms
proof (induction b arbitrary: off acc)
  case (Cons a b)
  have d: "drop off data = act_head a @ act_value a @ concat (map act_enc b) @ r"
    using Cons.prems(2) by (simp add: act_enc_def [of a])
  have enc: "act_enc a = act_head a" using Cons.prems(1) by (simp add: act_enc_def)
  have a: "wb_load_action data off = Inr (a, off + length (act_head a))"
    using Cons.prems(1,3) by (intro wb_load_action_enc [OF _ d]) simp_all
  have d': "drop (off + length (act_head a)) data = concat (map act_enc b) @ r"
    using drop_length_append [of off data "act_head a"] d Cons.prems(1) by simp
  show ?case
    using a Cons.IH [OF _ d', of "acc @ [a]"] Cons.prems(1,3) enc by (simp add: add.assoc)
qed simp

definition valueless_but_last :: "batch \<Rightarrow> bool" where
  "valueless_but_last b \<longleftrightarrow> (\<forall>a\<in>set (butlast b). act_value a = [])"

lemma wb_load_start:
  assumes "length (wb_enc b) < 2 ^ 63" and "length b < 2 ^ 31"
  shows "wb_load (wb_enc b) acc = wb_load_loop (length b) (wb_enc b) (2 + length (venc (length b))) acc"
    and "drop (2 + length (venc (length b))) (wb_enc b) = concat (map act_enc b)"
proof -
  have num: "vu64_read (wb_body b) = Inr (length b, length (venc (length b)))"
    unfolding wb_body_def using vu64_read_venc [OF assms(2)] by (simp add: vsize_def)
  have "unat (crc16 (wb_body b)) < 256 ^ 2"
    using unsigned_less [of "crc16 (wb_body b)", where 'a = nat] by simp
  then have crc: "le_nat (le_bytes 2 (unat (crc16 (wb_body b)))) = unat (crc16 (wb_body b))"
    by (rule le_nat_le_bytes_small)
  have "0 < length (venc (length b))" by simp
  then have "\<not> length (wb_enc b) < 3" unfolding wb_enc_def wb_body_def length_append length_le_bytes by linarith
  then show "wb_load (wb_enc b) acc = wb_load_loop (length b) (wb_enc b) (2 + length (venc (length b))) acc"
    using num crc by (simp add: wb_load_def wb_enc_def)
  show "drop (2 + length (venc (length b))) (wb_enc b) = concat (map act_enc b)"
    by (simp add: wb_enc_def wb_body_def)
qed

lemma wb_load_enc:
  assumes "\<forall>a\<in>set b. act_ok a" and "valueless_but_last b" and "length b < 2 ^ 31" and "length (wb_enc b) < 2 ^ 63"
  shows "wb_load (wb_enc b) acc = (acc @ b, None)"
proof (cases b rule: rev_cases)
  case Nil
  then show ?thesis using wb_load_start [OF assms(4,3)] by simp
next
  case (snoc as a)
  let ?off = "2 + length (venc (length b))"
  have d: "drop ?off (wb_enc b) = concat (map act_enc as) @ act_enc a"
    using wb_load_start(2) [OF assms(4,3)] snoc by simp
  have as: "\<forall>a\<in>set as. act_ok a \<and> act_value a = []"
    using assms(1,2) snoc by (simp add: valueless_but_last_def)
  have "drop (?off + length (concat (map act_enc as))) (wb_enc b) = act_head a @ act_value a @ []"
    using drop_length_append [OF d] by (simp add: act_enc_def)
  then have "wb_load_action (wb_enc b) (?off + length (concat (map act_enc as))) =
      Inr (a, ?off + length (concat (map act_enc as)) + length (act_head a))"
    using assms(1,4) snoc by (intro wb_load_action_enc) simp_all
  then show ?thesis
    using wb_load_start(1) [OF assms(4,3), of acc] wb_load_loop_valueless [OF as d assms(4), of 1 acc] snoc
    by simp
qed

section \<open>Properties\<close>

text \<open>A batch in which no action but the last has a value round-trips: \<open>ComputeSize\<close> announces the
  bytes stored, and \<open>LoadFrom\<close> accepts them and appends exactly the actions of the batch.\<close>

theorem write_batch_roundtrip:
  assumes "\<forall>a\<in>set b. act_ok a" and "valueless_but_last b" and "length b < 2 ^ 31"
    and "wb_unsafe_store_to b = Inr w" and "length w < 2 ^ 63"
  shows "wb_compute_size b = Inr (length w) \<and> wb_load w b0 = (b0 @ b, None)"
  using wb_store_enc [OF assms(1,3)] wb_load_enc [OF assms(1-3)] assms(4,5) by simp

theorem write_batch_roundtrip_witness:
  "\<exists>w. wb_unsafe_store_to (wb_put [1] [7, 7] (wb_delete [2] [])) = Inr w \<and>
    wb_load w [] = ([delete_action [2], put_action [1] [7, 7]], None)"
proof -
  let ?b = "wb_put [1] [7, 7] (wb_delete [2] [])"
  have ok: "\<forall>a\<in>set ?b. act_ok a" "valueless_but_last ?b" "length ?b < 2 ^ 31"
    by (simp_all add: wb_put_def wb_delete_def act_ok_def valueless_but_last_def)
  have len: "length (wb_enc ?b) < 2 ^ 63"
    by (simp add: wb_put_def wb_delete_def wb_enc_def wb_body_def act_enc_def act_head_def venc_small)
  show ?thesis
    using write_batch_roundtrip [OF ok wb_store_enc(1) [OF ok(1,3)] len, of "[]"] wb_store_enc(1) [OF ok(1,3)]
    by (simp add: wb_put_def wb_delete_def)
qed

text \<open>\<open>LoadFrom\<close> does not advance past a value: what follows a put is read from the bytes of its
  value. When the first of them is no action type, the batch that was stored is refused as corrupted, and
  the actions up to the put are left behind in the object.\<close>

theorem write_batch_value_breaks_load:
  assumes "b = pre @ a # next # rest" and "\<forall>a\<in>set b. act_ok a" and "\<forall>a\<in>set pre. act_value a = []"
    and "act_value a = x # v" and "sint x > 2" and "length b < 2 ^ 31"
    and "wb_unsafe_store_to b = Inr w" and "length w < 2 ^ 63"
  shows "wb_load w b0 = (b0 @ pre @ [a], Some Data_corruption)"
proof -
  have w: "w = wb_enc b" using wb_store_enc(1) [OF assms(2,6)] assms(7) by simp
  let ?off = "2 + length (venc (length b))" and ?r = "concat (map act_enc (next # rest))"
  let ?off2 = "?off + length (concat (map act_enc pre))"
  note start = wb_load_start [OF assms(8) [unfolded w] assms(6)]
  have d: "drop ?off w = concat (map act_enc pre) @ (act_head a @ act_value a @ ?r)"
    using start(2) w assms(1) by (simp add: act_enc_def)
  have pre: "\<forall>a\<in>set pre. act_ok a \<and> act_value a = []" using assms(1-3) by auto
  have d2: "drop ?off2 w = act_head a @ act_value a @ ?r" by (rule drop_length_append [OF d])
  have a: "wb_load_action w ?off2 = Inr (a, ?off2 + length (act_head a))"
    using assms(1,2,8) by (intro wb_load_action_enc [OF _ d2]) simp_all
  have d3: "drop (?off2 + length (act_head a)) w = x # v @ ?r"
    using drop_length_append [OF d2] assms(4) by simp
  then have "?off2 + length (act_head a) < length w" by (metis drop_eq_Nil list.discI not_le)
  then have "wb_load_action w (?off2 + length (act_head a)) = Inl Data_corruption"
    using d3 assms(5) by (simp add: wb_load_action_def mem_read_def)
  moreover have "length b = length pre + Suc (Suc (length rest))" using assms(1) by simp
  ultimately show ?thesis
    using start(1) [of b0] wb_load_loop_valueless [OF pre d assms(8), of "Suc (Suc (length rest))" b0] a w by simp
qed

theorem write_batch_value_breaks_load_witness:
  "\<exists>w. wb_unsafe_store_to [put_action [1] [7], delete_action [2]] = Inr w \<and>
    wb_load w [] = ([put_action [1] [7]], Some Data_corruption)"
proof -
  let ?b = "[put_action [1] [7], delete_action [2]]"
  have ok: "\<forall>a\<in>set ?b. act_ok a" "length ?b < 2 ^ 31" by (simp_all add: act_ok_def)
  have len: "length (wb_enc ?b) < 2 ^ 63"
    by (simp add: wb_enc_def wb_body_def act_enc_def act_head_def venc_small)
  show ?thesis
    using write_batch_value_breaks_load [of ?b "[]" "put_action [1] [7]" "delete_action [2]" "[]" 7 "[]" "wb_enc ?b" "[]"]
      ok len wb_store_enc(1) [OF ok] by simp
qed

end
