(* ===== verification/FileModel.thy ===== *)
theory FileModel
  imports Prelude
begin

text \<open>
  The file behind the storage components (\<open>IFileChannel\<close>) is its contents: a write beyond the end fills
  the gap with zero bytes and a read stops at the end, as \<open>pwrite\<close>, \<open>pread\<close> and \<open>ftruncate\<close> do. A
  write is accepted or refused by the environment; the answers are a list of booleans that is consumed
  write by write, and every write is accepted once the list is used up.
\<close>

definition file_read :: "bytes \<Rightarrow> nat \<Rightarrow> nat \<Rightarrow> bytes" where
  "file_read data offset n = take n (drop offset data)"

definition file_write :: "bytes \<Rightarrow> nat \<Rightarrow> bytes \<Rightarrow> bytes" where
  "file_write data offset w =
     take offset data @ replicate (offset - length data) 0 @ w @ drop (offset + length w) data"

definition file_truncate :: "bytes \<Rightarrow> nat \<Rightarrow> bytes" where
  "file_truncate data n = take n data @ replicate (n - length data) 0"

lemma file_write_end: "offset = length data \<Longrightarrow> file_write data offset w = data @ w"
  by (simp add: file_write_def)

lemma file_truncate_le: "n \<le> length data \<Longrightarrow> file_truncate data n = take n data"
  by (simp add: file_truncate_def)

section \<open>Operations with a channel\<close>

text \<open>
  An operation that works on a file: from the answers to come and the contents it yields a value or an
  exception, and the state of the file either way. \<open>io_cleanup\<close> is a \<open>try\<close> block whose handler cuts
  the file to a size and throws again.
\<close>

type_synonym channel = "bool list \<times> bytes"

type_synonym 'a io = "channel \<Rightarrow> (exn + 'a) \<times> channel"

definition io_return :: "'a \<Rightarrow> 'a io" where
  "io_return x ch = (Inr x, ch)"

definition io_lift :: "exn + 'a \<Rightarrow> 'a io" where
  "io_lift r ch = (r, ch)"

definition io_bind :: "'a io \<Rightarrow> ('a \<Rightarrow> 'b io) \<Rightarrow> 'b io" where
  "io_bind m k ch = (case m ch of (Inl e, ch') \<Rightarrow> (Inl e, ch') | (Inr x, ch') \<Rightarrow> k x ch')"

definition io_write :: "nat \<Rightarrow> bytes \<Rightarrow> nat io" where
  "io_write offset w ch =
     (case ch of
        ([], data) \<Rightarrow> (Inr (length w), [], file_write data offset w)
      | (a # as, data) \<Rightarrow>
          if a then (Inr (length w), as, file_write data offset w) else (Inl System_error, as, data))"

definition io_truncate :: "nat \<Rightarrow> channel \<Rightarrow> channel" where
  "io_truncate n ch = (fst ch, file_truncate (snd ch) n)"

definition io_cleanup :: "'a io \<Rightarrow> nat \<Rightarrow> 'a io" where
  "io_cleanup m n ch = (case m ch of (Inl e, ch') \<Rightarrow> (Inl e, io_truncate n ch') | r \<Rightarrow> r)"

lemma io_bind_simps [simp]:
  "io_bind (io_return x) k ch = k x ch"
  "io_bind (io_lift (Inr x)) k ch = k x ch"
  "io_bind (io_lift (Inl e)) k ch = (Inl e, ch)"
  by (simp_all add: io_bind_def io_return_def io_lift_def)

lemma io_bind_Inr: "m ch = (Inr x, ch') \<Longrightarrow> io_bind m k ch = k x ch'"
  by (simp add: io_bind_def)

lemma io_bind_Inl: "m ch = (Inl e, ch') \<Longrightarrow> io_bind m k ch = (Inl e, ch')"
  by (simp add: io_bind_def)

lemma io_cleanup_Inr: "m ch = (Inr x, ch') \<Longrightarrow> io_cleanup m n ch = (Inr x, ch')"
  by (simp add: io_cleanup_def)

lemma io_cleanup_Inl: "m ch = (Inl e, ch') \<Longrightarrow> io_cleanup m n ch = (Inl e, io_truncate n ch')"
  by (simp add: io_cleanup_def)

lemma io_bind_eq_Inr:
  "io_bind m k ch = (Inr y, ch') \<longleftrightarrow> (\<exists>x ch1. m ch = (Inr x, ch1) \<and> k x ch1 = (Inr y, ch'))"
  by (auto simp: io_bind_def split: sum.split prod.split)

lemma io_lift_eq_Inr: "io_lift r ch = (Inr y, ch') \<longleftrightarrow> r = Inr y \<and> ch' = ch"
  by (auto simp: io_lift_def)

lemma io_return_eq: "io_return x ch = (Inr y, ch') \<longleftrightarrow> y = x \<and> ch' = ch"
  by (auto simp: io_return_def)

lemma io_cleanup_eq_Inr: "io_cleanup m n ch = (Inr y, ch') \<longleftrightarrow> m ch = (Inr y, ch')"
  by (auto simp: io_cleanup_def split: sum.split prod.split)

lemmas io_eqs = io_bind_eq_Inr io_lift_eq_Inr io_return_eq io_cleanup_eq_Inr

lemma io_write_end: "offset = length data \<Longrightarrow> io_write offset w ([], data) = (Inr (length w), [], data @ w)"
  by (simp add: io_write_def file_write_end)

text \<open>\<open>ReadAsync(buf,offset)\<close>: what the file has replaces the beginning of the buffer.\<close>

definition read_into :: "bytes \<Rightarrow> nat \<Rightarrow> bytes \<Rightarrow> bytes" where
  "read_into data offset buf = (let r = file_read data offset (length buf) in r @ drop (length r) buf)"

lemma read_into_append:
  "offset = length pre \<Longrightarrow> length buf = length xs \<Longrightarrow> read_into (pre @ xs @ post) offset buf = xs"
  by (simp add: read_into_def file_read_def)

lemma file_read_append:
  "offset = length pre \<Longrightarrow> n = length xs \<Longrightarrow> file_read (pre @ xs @ post) offset n = xs"
  by (simp add: file_read_def)

text \<open>
  What an operation that only writes from \<open>n\<close> on guarantees: the first \<open>n\<close> bytes stay, a value it returns
  satisfies \<open>P\<close>, and (when \<open>b\<close>) an exception leaves exactly those bytes.
\<close>

definition io_safe :: "nat \<Rightarrow> bool \<Rightarrow> ('a \<Rightarrow> bool) \<Rightarrow> 'a io \<Rightarrow> bool" where
  "io_safe n b P m \<longleftrightarrow> (\<forall>as f. n \<le> length f \<longrightarrow>
     (case m (as, f) of (r, as', f') \<Rightarrow> n \<le> length f' \<and> take n f' = take n f \<and>
       (case r of Inl e \<Rightarrow> b \<longrightarrow> f' = take n f | Inr x \<Rightarrow> P x)))"

lemma file_write_keeps:
  assumes "n \<le> offset" and "n \<le> length data"
  shows "n \<le> length (file_write data offset w) \<and> take n (file_write data offset w) = take n data"
proof -
  have "n \<le> length (take offset data)" using assms by simp
  then show ?thesis using assms by (simp add: file_write_def min_absorb1)
qed

lemma io_safeI:
  assumes "\<And>as f r as' f'. n \<le> length f \<Longrightarrow> m (as, f) = (r, as', f') \<Longrightarrow>
    n \<le> length f' \<and> take n f' = take n f \<and> (case r of Inl e \<Rightarrow> b \<longrightarrow> f' = take n f | Inr x \<Rightarrow> P x)"
  shows "io_safe n b P m"
  unfolding io_safe_def using assms by (auto split: prod.split)

lemma io_safeD:
  assumes "io_safe n b P m" and "n \<le> length f" and "m (as, f) = (r, as', f')"
  shows "n \<le> length f' \<and> take n f' = take n f \<and> (case r of Inl e \<Rightarrow> b \<longrightarrow> f' = take n f | Inr x \<Rightarrow> P x)"
proof -
  note run = assms(1) [unfolded io_safe_def, THEN spec, THEN spec, THEN mp, OF assms(2), of as]
  show ?thesis using run unfolding assms(3) by simp
qed

lemma io_safe_return: "P x \<Longrightarrow> io_safe n b P (io_return x)"
  by (rule io_safeI) (auto simp: io_return_def)

lemma io_safe_write: "n \<le> offset \<Longrightarrow> io_safe n False (\<lambda>_. True) (io_write offset w)"
proof (rule io_safeI)
  fix as f r as' f'
  assume "n \<le> offset" and n: "n \<le> length (f :: bytes)" and run: "io_write offset w (as, f) = (r, as', f')"
  then consider "f' = f" | "f' = file_write f offset w" "r = Inr (length w)"
    by (cases as) (simp_all add: io_write_def split: if_splits)
  then show "n \<le> length f' \<and> take n f' = take n f \<and>
      (case r of Inl e \<Rightarrow> False \<longrightarrow> f' = take n f | Inr x \<Rightarrow> True)"
    using file_write_keeps [OF \<open>n \<le> offset\<close> n, of w] n by cases (simp_all split: sum.split)
qed

lemma io_safe_bind:
  assumes "io_safe n b P m" and "\<And>x. P x \<Longrightarrow> io_safe n b Q (k x)"
  shows "io_safe n b Q (io_bind m k)"
proof (rule io_safeI)
  fix as f r as' f'
  assume f: "n \<le> length (f :: bytes)" and run: "io_bind m k (as, f) = (r, as', f')"
  obtain r1 as1 f1 where m: "m (as, f) = (r1, as1, f1)" by (metis prod_cases3)
  note m' = io_safeD [OF assms(1) f m]
  show "n \<le> length f' \<and> take n f' = take n f \<and> (case r of Inl e \<Rightarrow> b \<longrightarrow> f' = take n f | Inr x \<Rightarrow> Q x)"
  proof (cases r1)
    case (Inl e)
    with run m have "r = Inl e" "f' = f1" by (simp_all add: io_bind_def)
    with m' Inl show ?thesis by simp
  next
    case (Inr x)
    with run m have "k x (as1, f1) = (r, as', f')" by (simp add: io_bind_def)
    from io_safeD [OF assms(2) _ this] m' Inr show ?thesis by (simp split: sum.splits)
  qed
qed

lemma io_safe_cleanup:
  assumes "io_safe n False P m"
  shows "io_safe n b P (io_cleanup m n)"
proof (rule io_safeI)
  fix as f r as' f'
  assume f: "n \<le> length (f :: bytes)" and run: "io_cleanup m n (as, f) = (r, as', f')"
  obtain r1 as1 f1 where m: "m (as, f) = (r1, as1, f1)" by (metis prod_cases3)
  note m' = io_safeD [OF assms f m]
  show "n \<le> length f' \<and> take n f' = take n f \<and> (case r of Inl e \<Rightarrow> b \<longrightarrow> f' = take n f | Inr x \<Rightarrow> P x)"
  proof (cases r1)
    case (Inl e)
    with run m m' have "r = Inl e" "f' = take n f" by (auto simp: io_cleanup_def io_truncate_def file_truncate_le)
    with f show ?thesis by simp
  next
    case (Inr x)
    with run m have "r = Inr x" "f' = f1" by (simp_all add: io_cleanup_def)
    with m' Inr show ?thesis by simp
  qed
qed

section \<open>Pointers into a file\<close>

record file_pointer =
  fp_offset :: nat
  fp_size :: nat

definition fp_zero :: file_pointer where
  "fp_zero = \<lparr>fp_offset = 0, fp_size = 0\<rparr>"

definition fp_bytes :: "file_pointer \<Rightarrow> bytes" where
  "fp_bytes p = le_bytes 8 (fp_offset p) @ le_bytes 8 (fp_size p)"

definition fp_read :: "bytes \<Rightarrow> nat \<Rightarrow> exn + file_pointer" where
  "fp_read data offset =
     res_bind (mem_read data offset 8) (\<lambda>a. res_bind (mem_read data (offset + 8) 8) (\<lambda>b.
       Inr \<lparr>fp_offset = le_nat a, fp_size = le_nat b\<rparr>))"

definition fp_ok :: "file_pointer \<Rightarrow> bool" where
  "fp_ok p \<longleftrightarrow> fp_offset p < 2 ^ 64 \<and> fp_size p < 2 ^ 64"

lemma length_fp_bytes [simp]: "length (fp_bytes p) = 16"
  by (simp add: fp_bytes_def)

lemma fp_read_bytes:
  assumes "fp_ok p" and "n = length pre"
  shows "fp_read (pre @ fp_bytes p @ post) n = Inr p"
proof -
  let ?a = "le_bytes 8 (fp_offset p)" and ?b = "le_bytes 8 (fp_size p)"
  have "mem_read (pre @ ?a @ ?b @ post) n 8 = Inr ?a"
    using assms(2) by (intro mem_read_append) simp_all
  moreover have "mem_read ((pre @ ?a) @ ?b @ post) (n + 8) 8 = Inr ?b"
    using assms(2) by (intro mem_read_append) simp_all
  moreover have "le_nat ?a = fp_offset p" "le_nat ?b = fp_size p"
    using assms(1) by (simp_all add: fp_ok_def le_nat_le_bytes)
  ultimately show ?thesis by (simp add: fp_read_def fp_bytes_def)
qed

end
