(* ===== verification/MemoryTable.thy ===== *)
theory MemoryTable
  imports WriteBatch SstDataBlock FileModel
begin

text \<open>
  The memory table (\<open>include/sharpen/MemoryTable.hpp\<close>) and the log it is restored from
  (\<open>include/sharpen/BinaryLogger.hpp\<close>, \<open>src/BinaryLogger.cpp\<close>). The table is a template over the log;
  the locale \<open>write_ahead_log\<close> is the contract of the template argument, and the binary logger is shown
  to keep it.
\<close>

section \<open>The binary logger\<close>

record binary_logger =
  lg_file :: bytes
  lg_offset :: nat

definition bl_open :: "bytes \<Rightarrow> binary_logger" where
  "bl_open data = \<lparr>lg_file = data, lg_offset = length data\<rparr>"

definition bl_clear :: "binary_logger \<Rightarrow> binary_logger" where
  "bl_clear l = l\<lparr>lg_file := []\<rparr>"

text \<open>
  \<open>Log\<close>; \<open>written\<close> is whether the channel accepts the write. If not, the file is cut back and the
  exception goes on to the caller; the offset has already been advanced. The result tells which.
\<close>

definition bl_log :: "bool \<Rightarrow> batch \<Rightarrow> binary_logger \<Rightarrow> exn + (bool \<times> binary_logger)" where
  "bl_log written b l =
     res_bind (wb_compute_size b) (\<lambda>size.
       res_bind (vec_resize (add64 size 8) []) (\<lambda>buf0.
         res_bind (mem_write buf0 0 (le_bytes 8 size)) (\<lambda>buf1.
           res_bind (wb_unsafe_store_to b) (\<lambda>w.
             res_bind (mem_write buf1 8 w) (\<lambda>buf.
               let offset = lg_offset l in
               Inr (written,
                 \<lparr>lg_file = (if written then file_write (lg_file l) offset buf
                             else file_truncate (lg_file l) offset),
                  lg_offset = offset + length buf\<rparr>))))))"

text \<open>
  The loop of \<open>GetWriteBatchs\<close>. The buffer keeps its contents from round to round; a batch that does
  not load ends the log, and what it had loaded is still returned.
\<close>

definition bl_round :: "bytes \<Rightarrow> nat \<Rightarrow> bytes \<Rightarrow> exn + (nat \<times> bytes \<times> batch \<times> exn option)" where
  "bl_round data offset buf =
     (let r = file_read data offset 8; size = le_nat (r @ replicate (8 - length r) 0) in
        res_bind (vec_resize size buf) (\<lambda>buf1.
          let r' = file_read data (offset + 8) (length buf1);
              buf2 = r' @ drop (length r') buf1;
              (b, e) = wb_load buf2 [] in
            if e = Some Undefined then Inl Undefined else Inr (size, buf2, b, e)))"

lemma wb_load_Nil: "wb_load [] b = (b, Some Invalid_argument)"
  by (simp add: wb_load_def)

lemma le_nat_replicate_zero: "le_nat (replicate n 0) = 0"
  by (induction n) simp_all

lemma bl_round_inside:
  assumes "bl_round data offset buf = Inr (n, buf2, b, None)"
  shows "offset < length data"
proof (rule ccontr)
  assume "\<not> offset < length data"
  then have "file_read data offset 8 = []" by (simp add: file_read_def)
  then show False
    using assms by (simp add: bl_round_def Let_def le_nat_replicate_zero vec_resize_def file_read_def wb_load_Nil)
qed

function bl_read :: "bytes \<Rightarrow> nat \<Rightarrow> nat \<Rightarrow> bytes \<Rightarrow> batch list \<Rightarrow> exn + (batch list \<times> binary_logger)" where
  "bl_read data fin offset buf batches =
     (if offset = fin then Inr (batches, \<lparr>lg_file = data, lg_offset = fin\<rparr>)
      else case bl_round data offset buf of
        Inl e \<Rightarrow> Inl e
      | Inr (n, buf2, b, None) \<Rightarrow> bl_read data fin (offset + n + 8) buf2 (batches @ [b])
      | Inr (n, buf2, b, Some e) \<Rightarrow>
          Inr (batches @ [b], \<lparr>lg_file = file_truncate data offset, lg_offset = offset\<rparr>))"
  by pat_completeness auto
termination
  by (relation "measure (\<lambda>(data, fin, offset, buf, batches). length data - offset)")
    (auto dest: bl_round_inside)

declare bl_read.simps [simp del]

definition bl_get_write_batchs :: "binary_logger \<Rightarrow> exn + (batch list \<times> binary_logger)" where
  "bl_get_write_batchs l = bl_read (lg_file l) (lg_offset l) 0 [] []"

section \<open>What the log holds\<close>

definition loadable :: "batch \<Rightarrow> bool" where
  "loadable b \<longleftrightarrow> (\<forall>a\<in>set b. act_ok a) \<and> valueless_but_last b \<and> length b < 2 ^ 31 \<and>
     length (wb_enc b) < 2 ^ 62"

definition log_record :: "batch \<Rightarrow> bytes" where
  "log_record b = le_bytes 8 (length (wb_enc b)) @ wb_enc b"

definition bl_holds :: "binary_logger \<Rightarrow> batch list \<Rightarrow> bool" where
  "bl_holds l bs \<longleftrightarrow> (\<forall>b\<in>set bs. loadable b) \<and> lg_file l = concat (map log_record bs) \<and>
     lg_offset l = length (lg_file l)"

lemma bl_log_record:
  assumes "loadable b"
  shows "bl_log True b l = Inr (True, \<lparr>lg_file = file_write (lg_file l) (lg_offset l) (log_record b),
    lg_offset = lg_offset l + length (log_record b)\<rparr>)"
proof -
  have b: "\<forall>a\<in>set b. act_ok a" "length b < 2 ^ 31" "length (wb_enc b) < 2 ^ 62"
    using assms by (simp_all add: loadable_def)
  then have "add64 (length (wb_enc b)) 8 = length (wb_enc b) + 8" by (intro add64_small) simp
  moreover have "vec_resize (length (wb_enc b) + 8) [] = Inr (replicate (length (wb_enc b) + 8) 0)"
    using b(3) by (intro vec_resize_Nil) simp
  ultimately show ?thesis
    using wb_store_enc [OF b(1,2)] by (simp add: bl_log_def mem_write_def log_record_def Let_def)
qed

lemma log_record_length: "8 < length (log_record b)"
proof -
  have "0 < length (venc (length b))" by simp
  then have "0 < length (wb_enc b)" unfolding wb_enc_def wb_body_def length_append by linarith
  then show ?thesis by (simp add: log_record_def)
qed

lemma bl_read_records:
  assumes "\<forall>b\<in>set bs. loadable b" and "drop offset data = concat (map log_record bs)" and "offset \<le> length data"
    and "fin = length data"
  shows "bl_read data fin offset buf acc = Inr (acc @ bs, \<lparr>lg_file = data, lg_offset = fin\<rparr>)"
  using assms
proof (induction bs arbitrary: offset buf acc)
  case Nil
  then have "offset = fin" by simp
  then show ?case using bl_read.simps [of data fin fin buf acc] by simp
next
  case (Cons b bs)
  let ?e = "wb_enc b"
  have b: "loadable b" "\<forall>a\<in>set b. act_ok a" "valueless_but_last b" "length b < 2 ^ 31" "length ?e < 2 ^ 62"
    using Cons.prems(1) by (simp_all add: loadable_def)
  have d: "drop offset data = le_bytes 8 (length ?e) @ ?e @ concat (map log_record bs)"
    using Cons.prems(2) by (simp add: log_record_def [of b])
  have d8: "drop (offset + 8) data = ?e @ concat (map log_record bs)"
    using drop_length_append [OF d] by simp
  have d9: "drop (offset + length ?e + 8) data = concat (map log_record bs)"
    using drop_length_append [OF d8] by (simp only: add.assoc add.commute [of 8])
  have "length data - offset = 8 + (length ?e + length (concat (map log_record bs)))"
    using d by (metis length_append length_drop length_le_bytes)
  then have len: "offset + length ?e + 8 \<le> length data" using Cons.prems(3) by linarith
  have r: "file_read data offset 8 = le_bytes 8 (length ?e)" by (simp add: file_read_def d)
  have "length ?e < 256 ^ 8" using b(5) by simp
  then have size: "le_nat (le_bytes 8 (length ?e)) = length ?e" by (rule le_nat_le_bytes_small)
  obtain buf1 where buf1: "vec_resize (length ?e) buf = Inr buf1" "length buf1 = length ?e"
    using b(5) by (simp add: vec_resize_def)
  have r': "file_read data (offset + 8) (length buf1) = ?e" by (simp add: file_read_def d8 buf1(2))
  have load: "wb_load ?e [] = (b, None)" using wb_load_enc [OF b(2-4), of "[]"] b(5) by simp
  have "bl_round data offset buf = Inr (length ?e, ?e, b, None)"
    using r size buf1 r' load by (simp add: bl_round_def Let_def)
  then have "bl_read data fin offset buf acc = bl_read data fin (offset + length ?e + 8) ?e (acc @ [b])"
    using Cons.prems(4) len by (subst bl_read.simps) simp
  also have "\<dots> = Inr ((acc @ [b]) @ bs, \<lparr>lg_file = data, lg_offset = fin\<rparr>)"
    using Cons.prems(1,4) len by (intro Cons.IH d9) simp_all
  finally show ?case by simp
qed

section \<open>The contract of a log\<close>

locale write_ahead_log =
  fixes log :: "batch \<Rightarrow> 'l \<Rightarrow> exn + 'l"
    and get_batches :: "'l \<Rightarrow> exn + (batch list \<times> 'l)"
    and holds :: "'l \<Rightarrow> batch list \<Rightarrow> bool"
    and ok :: "batch \<Rightarrow> bool"
  assumes log_holds: "holds l bs \<Longrightarrow> ok b \<Longrightarrow> \<exists>l'. log b l = Inr l' \<and> holds l' (bs @ [b])"
    and get_holds: "holds l bs \<Longrightarrow> \<exists>l'. get_batches l = Inr (bs, l') \<and> holds l' bs"

section \<open>The memory table\<close>

text \<open>The map from keys to items; the item of a deleted key holds no value.\<close>

type_synonym items = "bytes \<Rightarrow> bytes option option"

record 'l memory_table =
  mt_logger :: 'l
  mt_map :: items
  mt_directly_erase :: bool

definition mt_new :: "bool \<Rightarrow> 'l \<Rightarrow> 'l memory_table" where
  "mt_new directly_erase logger =
     \<lparr>mt_logger = logger, mt_map = Map.empty, mt_directly_erase = directly_erase\<rparr>"

definition mt_internal_put :: "bytes \<Rightarrow> bytes \<Rightarrow> items \<Rightarrow> items" where
  "mt_internal_put key value m = m(key \<mapsto> Some value)"

definition mt_internal_delete :: "bool \<Rightarrow> bytes \<Rightarrow> items \<Rightarrow> items" where
  "mt_internal_delete directly_erase key m =
     (if m key \<noteq> None then (if directly_erase then m(key := None) else m(key \<mapsto> None))
      else if \<not> directly_erase then m(key \<mapsto> None)
      else m)"

fun mt_internal_action :: "bool \<Rightarrow> batch \<Rightarrow> items \<Rightarrow> items" where
  "mt_internal_action e [] m = m"
| "mt_internal_action e (a # as) m =
     mt_internal_action e as
       (if act_type a = Put then mt_internal_put (act_key a) (act_value a) m
        else mt_internal_delete e (act_key a) m)"

text \<open>\<open>Restore\<close> applies the batches of the log to the map, \<open>Action\<close> logs first.\<close>

fun mt_apply_all :: "bool \<Rightarrow> batch list \<Rightarrow> items \<Rightarrow> items" where
  "mt_apply_all e [] m = m"
| "mt_apply_all e (b # bs) m = mt_apply_all e bs (mt_internal_action e b m)"

definition mt_restore ::
  "('l \<Rightarrow> exn + (batch list \<times> 'l)) \<Rightarrow> 'l memory_table \<Rightarrow> exn + 'l memory_table" where
  "mt_restore get_batches t =
     res_bind (get_batches (mt_logger t)) (\<lambda>(bs, l).
       Inr (t\<lparr>mt_logger := l, mt_map := mt_apply_all (mt_directly_erase t) bs (mt_map t)\<rparr>))"

definition mt_action ::
  "(batch \<Rightarrow> 'l \<Rightarrow> exn + 'l) \<Rightarrow> batch \<Rightarrow> 'l memory_table \<Rightarrow> exn + 'l memory_table" where
  "mt_action log b t =
     res_bind (log b (mt_logger t)) (\<lambda>l.
       Inr (t\<lparr>mt_logger := l, mt_map := mt_internal_action (mt_directly_erase t) b (mt_map t)\<rparr>))"

definition mt_put ::
  "(batch \<Rightarrow> 'l \<Rightarrow> exn + 'l) \<Rightarrow> bytes \<Rightarrow> bytes \<Rightarrow> 'l memory_table \<Rightarrow> exn + 'l memory_table" where
  "mt_put log key value t = mt_action log (wb_put key value []) t"

definition mt_delete ::
  "(batch \<Rightarrow> 'l \<Rightarrow> exn + 'l) \<Rightarrow> bytes \<Rightarrow> 'l memory_table \<Rightarrow> exn + 'l memory_table" where
  "mt_delete log key t = mt_action log (wb_delete key []) t"

definition mt_clear_logs :: "('l \<Rightarrow> 'l) \<Rightarrow> 'l memory_table \<Rightarrow> 'l memory_table" where
  "mt_clear_logs clear t = t\<lparr>mt_logger := clear (mt_logger t)\<rparr>"

definition mt_clear :: "'l memory_table \<Rightarrow> 'l memory_table" where
  "mt_clear t = t\<lparr>mt_map := Map.empty\<rparr>"

definition mt_exist :: "'l memory_table \<Rightarrow> bytes \<Rightarrow> exist_status" where
  "mt_exist t key =
     (case mt_map t key of
        None \<Rightarrow> Not_exist
      | Some None \<Rightarrow> Deleted
      | Some (Some _) \<Rightarrow> Exist)"

definition mt_get :: "'l memory_table \<Rightarrow> bytes \<Rightarrow> exn + bytes" where
  "mt_get t key =
     (case mt_map t key of
        None \<Rightarrow> Inl Out_of_range
      | Some None \<Rightarrow> Inl Out_of_range
      | Some (Some v) \<Rightarrow> Inr v)"

fun mt_actions ::
  "(batch \<Rightarrow> 'l \<Rightarrow> exn + 'l) \<Rightarrow> batch list \<Rightarrow> 'l memory_table \<Rightarrow> exn + 'l memory_table" where
  "mt_actions log [] t = Inr t"
| "mt_actions log (b # bs) t = res_bind (mt_action log b t) (mt_actions log bs)"

section \<open>Recovery\<close>

context write_ahead_log
begin

lemma actions_hold:
  assumes "holds (mt_logger t) hs" and "\<forall>b\<in>set bs. ok b"
  shows "\<exists>t'. mt_actions log bs t = Inr t' \<and> holds (mt_logger t') (hs @ bs) \<and>
    mt_map t' = mt_apply_all (mt_directly_erase t) bs (mt_map t) \<and> mt_directly_erase t' = mt_directly_erase t"
  using assms
proof (induction bs arbitrary: t hs)
  case (Cons b bs)
  from log_holds [OF Cons.prems(1), of b] Cons.prems(2) obtain l where
    l: "log b (mt_logger t) = Inr l" "holds l (hs @ [b])" by auto
  let ?t = "t\<lparr>mt_logger := l, mt_map := mt_internal_action (mt_directly_erase t) b (mt_map t)\<rparr>"
  from Cons.IH [of ?t "hs @ [b]"] l(2) Cons.prems(2) show ?case by (simp add: mt_action_def l(1))
qed simp

lemma restored:
  assumes "holds l []" and "\<forall>b\<in>set bs. ok b"
  shows "\<exists>t r. mt_actions log bs (mt_new e l) = Inr t \<and> holds (mt_logger t) bs \<and>
    mt_restore get_batches (mt_new e (mt_logger t)) = Inr r \<and> mt_map r = mt_map t"
proof -
  from actions_hold [of "mt_new e l" "[]" bs] assms obtain t where
    t: "mt_actions log bs (mt_new e l) = Inr t" "holds (mt_logger t) bs" "mt_map t = mt_apply_all e bs Map.empty"
    by (auto simp: mt_new_def)
  from get_holds [OF t(2)] obtain l' where "get_batches (mt_logger t) = Inr (bs, l')" by blast
  then show ?thesis using t by (simp add: mt_restore_def mt_new_def)
qed

end

text \<open>The log of a channel that accepts every write.\<close>

definition bl_log_written :: "batch \<Rightarrow> binary_logger \<Rightarrow> exn + binary_logger" where
  "bl_log_written b l = res_bind (bl_log True b l) (\<lambda>(_, l'). Inr l')"

lemma bl_log_holds:
  assumes "bl_holds l bs" and "loadable b"
  shows "\<exists>l'. bl_log_written b l = Inr l' \<and> bl_holds l' (bs @ [b])"
  using assms by (simp add: bl_log_written_def bl_log_record bl_holds_def file_write_def)

lemma bl_get_holds:
  assumes "bl_holds l bs"
  shows "\<exists>l'. bl_get_write_batchs l = Inr (bs, l') \<and> bl_holds l' bs"
  using bl_read_records [of bs 0 "lg_file l" "lg_offset l" "[]" "[]"] assms
  by (simp add: bl_holds_def bl_get_write_batchs_def)

interpretation wal: write_ahead_log bl_log_written bl_get_write_batchs bl_holds loadable
  using bl_log_holds bl_get_holds by unfold_locales blast+

text \<open>A batch of one action can always be read back.\<close>

lemma loadable_single:
  assumes "act_ok a"
  shows "loadable [a]"
proof -
  have "length (venc n) \<le> 10" if "n < 2 ^ 31" for n
    using venc_length_bound [of n 10] that by simp
  then have "length (venc 1) \<le> 10" "length (venc (length (act_key a))) \<le> 10"
    "length (venc (length (act_value a))) \<le> 10"
    using assms by (simp_all add: act_ok_def)
  moreover have "length (act_key a) < 2147483648" "length (act_value a) < 2147483648"
    using assms by (simp_all add: act_ok_def)
  ultimately have "length (wb_enc [a]) < 4611686018427387904"
    by (cases "act_type a") (simp_all add: wb_enc_def wb_body_def act_enc_def act_head_def)
  then show ?thesis using assms by (simp add: loadable_def valueless_but_last_def)
qed

section \<open>The last action on a key\<close>

lemma find_append: "find p (xs @ ys) = (case find p xs of None \<Rightarrow> find p ys | Some x \<Rightarrow> Some x)"
  by (induction xs) simp_all

lemma mt_internal_action_last:
  "mt_internal_action e as m k = (case find (\<lambda>a. act_key a = k) (rev as) of
      None \<Rightarrow> m k
    | Some a \<Rightarrow> if act_type a = Put then Some (Some (act_value a)) else if e then None else Some None)"
proof (induction as arbitrary: m)
  case (Cons a as)
  show ?case
    by (cases "find (\<lambda>a. act_key a = k) (rev as)")
      (auto simp: Cons find_append mt_internal_put_def mt_internal_delete_def)
qed simp

section \<open>A cleared log\<close>

lemma bl_read_hole:
  assumes "8 \<le> n" and "fin \<noteq> 0"
  shows "bl_read (replicate n 0 @ w) fin 0 [] [] = Inr ([[]], \<lparr>lg_file = [], lg_offset = 0\<rparr>)"
proof -
  have "file_read (replicate n 0 @ w) 0 8 = replicate 8 0" using assms(1) by (simp add: file_read_def)
  then have "bl_round (replicate n 0 @ w) 0 [] = Inr (0, [], [], Some Invalid_argument)"
    by (simp add: bl_round_def le_nat_replicate_zero vec_resize_def file_read_def wb_load_Nil)
  then show ?thesis using assms(2) by (subst bl_read.simps) (simp add: file_truncate_def)
qed

lemma bl_holds_length: "bl_holds l bs \<Longrightarrow> bs \<noteq> [] \<Longrightarrow> 8 < lg_offset l"
proof -
  assume h: "bl_holds l bs" "bs \<noteq> []"
  then obtain b r where "bs = b # r" by (cases bs) auto
  with h(1) log_record_length [of b] show "8 < lg_offset l" by (simp add: bl_holds_def)
qed

section \<open>Properties\<close>

text \<open>C10: After any number of logged batches, a table restored from the file of the log holds the same
  items as the table they were applied to, tombstones included, provided that every batch can be read
  back.\<close>

theorem memory_table_recovers:
  assumes "\<forall>b\<in>set bs. loadable b"
  shows "\<exists>t r. mt_actions bl_log_written bs (mt_new e (bl_open [])) = Inr t \<and>
    mt_restore bl_get_write_batchs (mt_new e (bl_open (lg_file (mt_logger t)))) = Inr r \<and> mt_map r = mt_map t"
proof -
  have "bl_holds (bl_open []) []" by (simp add: bl_holds_def bl_open_def)
  from wal.restored [OF this assms, of e] obtain t r where
    t: "mt_actions bl_log_written bs (mt_new e (bl_open [])) = Inr t" "bl_holds (mt_logger t) bs"
      "mt_restore bl_get_write_batchs (mt_new e (mt_logger t)) = Inr r" "mt_map r = mt_map t"
    by blast
  have "bl_open (lg_file (mt_logger t)) = mt_logger t" using t(2) by (simp add: bl_holds_def bl_open_def)
  with t show ?thesis by auto
qed

theorem memory_table_recovers_witness:
  "\<exists>t r. mt_actions bl_log_written [[put_action [1] [5]], [put_action [2] [6]], [delete_action [1]]]
      (mt_new False (bl_open [])) = Inr t \<and>
    mt_restore bl_get_write_batchs (mt_new False (bl_open (lg_file (mt_logger t)))) = Inr r \<and>
    mt_map r = mt_map t"
  by (rule memory_table_recovers) (simp add: loadable_single act_ok_def)

text \<open>In a batch the last action on a key decides: \<open>Get\<close> returns the value it put or throws if it
  deleted the key, and keys the batch does not name keep their item.\<close>

theorem memory_table_last_action_wins:
  assumes "log b (mt_logger t) = Inr l"
  shows "\<exists>t'. mt_action log b t = Inr t' \<and> mt_logger t' = l \<and>
    mt_get t' k = (case find (\<lambda>a. act_key a = k) (rev b) of
        None \<Rightarrow> mt_get t k
      | Some a \<Rightarrow> if act_type a = Put then Inr (act_value a) else Inl Out_of_range) \<and>
    mt_exist t' k = (case find (\<lambda>a. act_key a = k) (rev b) of
        None \<Rightarrow> mt_exist t k
      | Some a \<Rightarrow> if act_type a = Put then Exist else if mt_directly_erase t then Not_exist else Deleted)"
  using assms
  by (simp add: mt_action_def mt_get_def mt_exist_def mt_internal_action_last split: option.split)

theorem memory_table_last_action_wins_witness:
  "\<exists>t. mt_action bl_log_written [put_action [1] [5], delete_action [2], put_action [2] [6]]
      (mt_new False (bl_open [])) = Inr t \<and> mt_get t [2] = Inr [6] \<and> mt_exist t [3] = Not_exist"
proof -
  let ?b = "[put_action [1] [5], delete_action [2], put_action [2] [6]] :: batch"
  have "\<exists>l. bl_log_written ?b (bl_open []) = Inr l"
    using wb_store_enc [of ?b]
    by (simp add: bl_log_written_def bl_log_def act_ok_def wb_enc_def wb_body_def act_enc_def act_head_def
        venc_small add64_def vec_resize_def mem_write_def Let_def)
  then obtain l where "bl_log_written ?b (mt_logger (mt_new False (bl_open []))) = Inr l"
    by (auto simp: mt_new_def)
  from memory_table_last_action_wins [of bl_log_written ?b _ l "[2]", OF this]
    memory_table_last_action_wins [of bl_log_written ?b _ l "[3]", OF this]
  show ?thesis by (auto simp: mt_new_def mt_exist_def)
qed

text \<open>\<open>Clear\<close> truncates the file of the log but keeps the offset: the next batch is written behind a
  hole of zero bytes, at which the restored log stops, and every batch logged since is lost.\<close>

theorem cleared_log_loses_batches:
  assumes "bl_holds l bs" and "bs \<noteq> []" and "loadable b"
  shows "\<exists>l'. bl_log True b (bl_clear l) = Inr (True, l') \<and>
    bl_get_write_batchs (bl_open (lg_file l')) = Inr ([[]], bl_open [])"
proof -
  have n: "8 < lg_offset l" by (rule bl_holds_length [OF assms(1,2)])
  let ?l = "\<lparr>lg_file = replicate (lg_offset l) 0 @ log_record b, lg_offset = lg_offset l + length (log_record b)\<rparr>"
  have "bl_log True b (bl_clear l) = Inr (True, ?l)"
    using bl_log_record [OF assms(3), of "bl_clear l"] by (simp add: bl_clear_def file_write_def)
  moreover have "bl_get_write_batchs (bl_open (lg_file ?l)) = Inr ([[]], bl_open [])"
    using n by (simp add: bl_get_write_batchs_def bl_open_def bl_read_hole)
  ultimately show ?thesis by blast
qed

theorem cleared_log_loses_batches_witness:
  "\<exists>l l'. bl_log True [put_action [1] [5]] (bl_open []) = Inr (True, l) \<and>
    bl_log True [put_action [2] [6]] (bl_clear l) = Inr (True, l') \<and>
    bl_get_write_batchs (bl_open (lg_file l')) = Inr ([[]], bl_open [])"
proof -
  have ok: "loadable [put_action [1] [5]]" "loadable [put_action [2] [6]]"
    by (simp_all add: loadable_single act_ok_def)
  have "bl_holds (bl_open []) []" by (simp add: bl_holds_def bl_open_def)
  from bl_log_holds [OF this ok(1)] obtain l where
    l: "bl_log True [put_action [1] [5]] (bl_open []) = Inr (True, l)" "bl_holds l [[put_action [1] [5]]]"
    using bl_log_record [OF ok(1), of "bl_open []"] by (auto simp: bl_log_written_def)
  from cleared_log_loses_batches [OF l(2) _ ok(2)] l(1) show ?thesis by auto
qed

end
