(* ===== verification/AsyncLocks.thy ===== *)
theory AsyncLocks
  imports Prelude
begin

text \<open>
  The locks fibers wait for (\<open>AsyncReadWriteLock\<close>, \<open>AsyncMutex\<close>, \<open>AsyncSemaphore\<close> and
  \<open>AsyncBarrier\<close> under \<open>include/sharpen/\<close> and \<open>src/\<close>). Every operation runs under the spin lock of the
  object, so it is one step; an operation that has to wait leaves the future of its fiber in a vector
  of waiters, and an operation that releases returns the futures it completes. Fibers are numbers.
\<close>

section \<open>The read-write lock\<close>

datatype rw_mode = Free | Shared_reading | Uniqued_writing

record rw_lock =
  lk_state :: rw_mode
  lk_read_waiters :: "nat list"
  lk_write_waiters :: "nat list"
  lk_readers :: nat

definition rw_new :: rw_lock where
  "rw_new = \<lparr>lk_state = Free, lk_read_waiters = [], lk_write_waiters = [], lk_readers = 0\<rparr>"

text \<open>\<open>readers_\<close> is a \<open>Uint32\<close>.\<close>

definition inc32 :: "nat \<Rightarrow> nat" where
  "inc32 n = (n + 1) mod 2 ^ 32"

definition dec32 :: "nat \<Rightarrow> nat" where
  "dec32 n = (n + (2 ^ 32 - 1)) mod 2 ^ 32"

text \<open>The second component is the returned status, or \<open>None\<close> when the fiber waits (or the try fails).\<close>

definition rw_lock_read :: "nat \<Rightarrow> rw_lock \<Rightarrow> rw_lock \<times> rw_mode option" where
  "rw_lock_read f l =
     (if lk_state l \<noteq> Uniqued_writing
      then (l\<lparr>lk_readers := inc32 (lk_readers l), lk_state := Shared_reading\<rparr>, Some (lk_state l))
      else (l\<lparr>lk_read_waiters := lk_read_waiters l @ [f]\<rparr>, None))"

definition rw_try_lock_read :: "rw_lock \<Rightarrow> rw_lock \<times> rw_mode option" where
  "rw_try_lock_read l =
     (if lk_state l \<noteq> Uniqued_writing
      then (l\<lparr>lk_readers := inc32 (lk_readers l), lk_state := Shared_reading\<rparr>, Some (lk_state l))
      else (l, None))"

definition rw_lock_write :: "nat \<Rightarrow> rw_lock \<Rightarrow> rw_lock \<times> rw_mode option" where
  "rw_lock_write f l =
     (if lk_state l = Free then (l\<lparr>lk_state := Uniqued_writing\<rparr>, Some Free)
      else (l\<lparr>lk_write_waiters := lk_write_waiters l @ [f]\<rparr>, None))"

text \<open>\<open>spin\<close> is whether the spin lock could be taken at once.\<close>

definition rw_try_lock_write :: "bool \<Rightarrow> rw_lock \<Rightarrow> rw_lock \<times> rw_mode option" where
  "rw_try_lock_write spin l =
     (if \<not> spin then (l, None)
      else if lk_state l = Free then (l\<lparr>lk_state := Uniqued_writing\<rparr>, Some Free)
      else (l, None))"

text \<open>The futures completed, each with the status it is completed with.\<close>

definition rw_write_unlock :: "rw_lock \<Rightarrow> rw_lock \<times> (nat \<times> rw_mode) list" where
  "rw_write_unlock l =
     (if lk_write_waiters l \<noteq> [] then
        (l\<lparr>lk_write_waiters := butlast (lk_write_waiters l), lk_state := Uniqued_writing\<rparr>,
         [(last (lk_write_waiters l), Uniqued_writing)])
      else if lk_read_waiters l \<noteq> [] then
        (l\<lparr>lk_read_waiters := [], lk_readers := length (lk_read_waiters l) mod 2 ^ 32, lk_state := Shared_reading\<rparr>,
         map (\<lambda>f. (f, Uniqued_writing)) (lk_read_waiters l))
      else (l\<lparr>lk_state := Free\<rparr>, []))"

definition rw_read_unlock :: "rw_lock \<Rightarrow> rw_lock \<times> (nat \<times> rw_mode) list" where
  "rw_read_unlock l =
     (let l = l\<lparr>lk_readers := dec32 (lk_readers l)\<rparr> in
        if lk_readers l \<noteq> 0 then (l, [])
        else if lk_write_waiters l \<noteq> [] then
          (l\<lparr>lk_write_waiters := butlast (lk_write_waiters l), lk_state := Uniqued_writing\<rparr>,
           [(last (lk_write_waiters l), Shared_reading)])
        else (l\<lparr>lk_state := Free\<rparr>, []))"

definition rw_unlock :: "rw_lock \<Rightarrow> rw_lock \<times> (nat \<times> rw_mode) list" where
  "rw_unlock l =
     (if lk_state l = Uniqued_writing then rw_write_unlock l
      else if lk_state l = Shared_reading then rw_read_unlock l
      else (l, []))"

definition rw_upgrade :: "nat \<Rightarrow> rw_lock \<Rightarrow> rw_lock \<times> rw_mode option" where
  "rw_upgrade f l =
     (let l = l\<lparr>lk_readers := dec32 (lk_readers l)\<rparr> in
        if lk_readers l = 0 then (l\<lparr>lk_state := Uniqued_writing\<rparr>, Some Shared_reading)
        else (l\<lparr>lk_write_waiters := lk_write_waiters l @ [f]\<rparr>, None))"

definition rw_downgrade :: "rw_lock \<Rightarrow> rw_lock \<times> (nat \<times> rw_mode) list" where
  "rw_downgrade l =
     (l\<lparr>lk_readers := (1 + length (lk_read_waiters l)) mod 2 ^ 32, lk_read_waiters := [],
        lk_state := Shared_reading\<rparr>,
      map (\<lambda>f. (f, Uniqued_writing)) (lk_read_waiters l))"

section \<open>The fibers around the lock\<close>

text \<open>
  The lock together with the fibers that hold it. A fiber that neither holds the lock nor waits for
  it may ask for it, and a fiber that holds it may release, upgrade or downgrade.
\<close>

record rw_system =
  sys_lock :: rw_lock
  sys_reading :: "nat set"
  sys_writing :: "nat set"

definition sys_new :: rw_system where
  "sys_new = \<lparr>sys_lock = rw_new, sys_reading = {}, sys_writing = {}\<rparr>"

definition sys_busy :: "rw_system \<Rightarrow> nat set" where
  "sys_busy s = sys_reading s \<union> sys_writing s \<union> set (lk_read_waiters (sys_lock s)) \<union>
     set (lk_write_waiters (sys_lock s))"

text \<open>The fibers that get the lock, in the mode it is in afterwards.\<close>

definition sys_grant :: "rw_lock \<Rightarrow> nat set \<Rightarrow> rw_system \<Rightarrow> rw_system" where
  "sys_grant l fs s =
     (if lk_state l = Uniqued_writing
      then s\<lparr>sys_lock := l, sys_writing := sys_writing s \<union> fs\<rparr>
      else s\<lparr>sys_lock := l, sys_reading := sys_reading s \<union> fs\<rparr>)"

definition sys_release :: "nat \<Rightarrow> rw_system \<Rightarrow> rw_system" where
  "sys_release f s = s\<lparr>sys_reading := sys_reading s - {f}, sys_writing := sys_writing s - {f}\<rparr>"

definition granted :: "nat \<Rightarrow> rw_mode option \<Rightarrow> nat set" where
  "granted f r = (if r = None then {} else {f})"

inductive rw_step :: "rw_system \<Rightarrow> rw_system \<Rightarrow> bool" where
  lock_read: "f \<notin> sys_busy s \<Longrightarrow> card (sys_busy s) < 2 ^ 32 - 1 \<Longrightarrow> rw_lock_read f (sys_lock s) = (l, r) \<Longrightarrow>
    rw_step s (sys_grant l (granted f r) s)"
| try_lock_read: "f \<notin> sys_busy s \<Longrightarrow> card (sys_busy s) < 2 ^ 32 - 1 \<Longrightarrow> rw_try_lock_read (sys_lock s) = (l, r) \<Longrightarrow>
    rw_step s (sys_grant l (granted f r) s)"
| lock_write: "f \<notin> sys_busy s \<Longrightarrow> card (sys_busy s) < 2 ^ 32 - 1 \<Longrightarrow> rw_lock_write f (sys_lock s) = (l, r) \<Longrightarrow>
    rw_step s (sys_grant l (granted f r) s)"
| try_lock_write: "f \<notin> sys_busy s \<Longrightarrow> card (sys_busy s) < 2 ^ 32 - 1 \<Longrightarrow>
    rw_try_lock_write spin (sys_lock s) = (l, r) \<Longrightarrow> rw_step s (sys_grant l (granted f r) s)"
| unlock: "f \<in> sys_reading s \<union> sys_writing s \<Longrightarrow> rw_unlock (sys_lock s) = (l, woken) \<Longrightarrow>
    rw_step s (sys_grant l (fst ` set woken) (sys_release f s))"
| upgrade: "f \<in> sys_reading s \<Longrightarrow> rw_upgrade f (sys_lock s) = (l, r) \<Longrightarrow>
    rw_step s (sys_grant l (granted f r) (sys_release f s))"
| downgrade: "f \<in> sys_writing s \<Longrightarrow> rw_downgrade (sys_lock s) = (l, woken) \<Longrightarrow>
    rw_step s (sys_grant l (insert f (fst ` set woken)) (sys_release f s))"

inductive rw_reach :: "rw_system \<Rightarrow> bool" where
  start: "rw_reach sys_new"
| step: "rw_reach s \<Longrightarrow> rw_step s s' \<Longrightarrow> rw_reach s'"

section \<open>Invariant\<close>

definition rw_mode_inv :: "rw_system \<Rightarrow> bool" where
  "rw_mode_inv s = (case lk_state (sys_lock s) of
      Free \<Rightarrow> sys_reading s = {} \<and> sys_writing s = {} \<and> lk_read_waiters (sys_lock s) = [] \<and>
        lk_write_waiters (sys_lock s) = [] \<and> lk_readers (sys_lock s) = 0
    | Shared_reading \<Rightarrow> sys_reading s \<noteq> {} \<and> sys_writing s = {} \<and> lk_read_waiters (sys_lock s) = [] \<and>
        lk_readers (sys_lock s) = card (sys_reading s)
    | Uniqued_writing \<Rightarrow> sys_reading s = {} \<and> (\<exists>f. sys_writing s = {f}) \<and> lk_readers (sys_lock s) = 0)"

definition rw_inv :: "rw_system \<Rightarrow> bool" where
  "rw_inv s \<longleftrightarrow> rw_mode_inv s \<and> finite (sys_busy s) \<and> card (sys_busy s) < 2 ^ 32 \<and>
     distinct (lk_read_waiters (sys_lock s) @ lk_write_waiters (sys_lock s)) \<and>
     (sys_reading s \<union> sys_writing s) \<inter> (set (lk_read_waiters (sys_lock s)) \<union> set (lk_write_waiters (sys_lock s))) = {}"

lemma inc32_small: "n < 2 ^ 32 - 1 \<Longrightarrow> inc32 n = n + 1"
  by (simp add: inc32_def)

lemma dec32_pos: "0 < n \<Longrightarrow> n < 2 ^ 32 \<Longrightarrow> dec32 n = n - 1"
  by (cases n) (simp_all add: dec32_def)

lemma card_busy_mono: "rw_inv s \<Longrightarrow> A \<subseteq> sys_busy s \<Longrightarrow> finite A \<and> card A < 2 ^ 32"
  unfolding rw_inv_def using card_mono finite_subset by (metis order_le_less_trans)

lemma rw_inv_reading: "rw_inv s \<Longrightarrow> finite (sys_reading s) \<and> card (sys_reading s) < 2 ^ 32"
  by (intro card_busy_mono) (auto simp: sys_busy_def)

lemma card_insert_new: "finite A \<Longrightarrow> card A < 2 ^ 32 - 1 \<Longrightarrow> card (insert f A) < 2 ^ 32"
  by (simp add: card_insert_if)

text \<open>The invariant of a state given by its components.\<close>

definition rw_ok :: "rw_mode \<Rightarrow> nat list \<Rightarrow> nat list \<Rightarrow> nat \<Rightarrow> nat set \<Rightarrow> nat set \<Rightarrow> bool" where
  "rw_ok m rw ww n R W = rw_inv \<lparr>sys_lock = \<lparr>lk_state = m, lk_read_waiters = rw, lk_write_waiters = ww, lk_readers = n\<rparr>,
     sys_reading = R, sys_writing = W\<rparr>"

lemma rw_ok_iff:
  "rw_ok m rw ww n R W \<longleftrightarrow>
     (case m of Free \<Rightarrow> R = {} \<and> W = {} \<and> rw = [] \<and> ww = [] \<and> n = 0
      | Shared_reading \<Rightarrow> R \<noteq> {} \<and> W = {} \<and> rw = [] \<and> n = card R
      | Uniqued_writing \<Rightarrow> R = {} \<and> (\<exists>f. W = {f}) \<and> n = 0) \<and>
     finite (R \<union> W \<union> set rw \<union> set ww) \<and> card (R \<union> W \<union> set rw \<union> set ww) < 2 ^ 32 \<and>
     distinct (rw @ ww) \<and> (R \<union> W) \<inter> (set rw \<union> set ww) = {}"
  by (simp add: rw_ok_def rw_inv_def rw_mode_inv_def sys_busy_def split: rw_mode.split)

lemma rw_system_split:
  obtains m rw ww n R W where
    "s = \<lparr>sys_lock = \<lparr>lk_state = m, lk_read_waiters = rw, lk_write_waiters = ww, lk_readers = n\<rparr>,
      sys_reading = R, sys_writing = W\<rparr>"
  by (metis rw_lock.surjective rw_system.surjective old.unit.exhaust)

lemma rw_inv_lock_read:
  assumes "rw_ok m rw ww n R W" and "f \<notin> R \<union> W \<union> set rw \<union> set ww"
    and "card (R \<union> W \<union> set rw \<union> set ww) < 2 ^ 32 - 1"
  shows "m \<noteq> Uniqued_writing \<Longrightarrow> rw_ok Shared_reading rw ww (inc32 n) (insert f R) W"
    and "m = Uniqued_writing \<Longrightarrow> rw_ok m (rw @ [f]) ww n R W"
proof -
  have fin: "finite (R \<union> W \<union> set rw \<union> set ww)" using assms(1) by (simp add: rw_ok_iff)
  then have card: "card (insert f (R \<union> W \<union> set rw \<union> set ww)) < 2 ^ 32"
    by (rule card_insert_new [OF _ assms(3)])
  { assume "m \<noteq> Uniqued_writing"
    then have n: "n = card R" "W = {}" "rw = []" using assms(1) by (cases m; simp add: rw_ok_iff)+
    have "card R \<le> card (R \<union> W \<union> set rw \<union> set ww)" using fin by (intro card_mono) auto
    then have "inc32 n = card (insert f R)"
      using n fin assms(2,3) by (simp add: inc32_small card_insert_if)
    then show "rw_ok Shared_reading rw ww (inc32 n) (insert f R) W"
      using assms(1,2) n card fin by (simp add: rw_ok_iff) }
  { assume "m = Uniqued_writing"
    then show "rw_ok m (rw @ [f]) ww n R W"
      using assms(1,2) card fin by (auto simp: rw_ok_iff insert_commute Un_commute Un_left_commute) }
qed

lemma rw_inv_lock_write:
  assumes "rw_ok m rw ww n R W" and "f \<notin> R \<union> W \<union> set rw \<union> set ww"
    and "card (R \<union> W \<union> set rw \<union> set ww) < 2 ^ 32 - 1"
  shows "m = Free \<Longrightarrow> rw_ok Uniqued_writing rw ww n R (insert f W)"
    and "m \<noteq> Free \<Longrightarrow> rw_ok m rw (ww @ [f]) n R W"
proof -
  have fin: "finite (R \<union> W \<union> set rw \<union> set ww)" using assms(1) by (simp add: rw_ok_iff)
  then have card: "card (insert f (R \<union> W \<union> set rw \<union> set ww)) < 2 ^ 32"
    by (rule card_insert_new [OF _ assms(3)])
  show "m = Free \<Longrightarrow> rw_ok Uniqued_writing rw ww n R (insert f W)"
    using assms(1,2) card by (simp add: rw_ok_iff)
  show "m \<noteq> Free \<Longrightarrow> rw_ok m rw (ww @ [f]) n R W"
    using assms(1,2) card fin by (cases m) (auto simp: rw_ok_iff)
qed

text \<open>The last of the waiting writers gets the lock when nobody holds it any more.\<close>

lemma rw_inv_hand_over:
  assumes "finite (set rw \<union> set ww)" and "card (set rw \<union> set ww) < 2 ^ 32" and "distinct (rw @ ww)"
    and "ww \<noteq> []"
  shows "rw_ok Uniqued_writing rw (butlast ww) 0 {} {last ww}"
proof -
  obtain as a where ww: "ww = as @ [a]" using assms(4) by (cases ww rule: rev_cases) auto
  have "insert a (set rw \<union> set as) = set rw \<union> set ww" using ww by auto
  then show ?thesis using assms ww by (auto simp: rw_ok_iff)
qed

lemma rw_ok_less: "rw_ok m rw ww n R W \<Longrightarrow> A \<subseteq> R \<union> W \<union> set rw \<union> set ww \<Longrightarrow> finite A \<and> card A < 2 ^ 32"
  unfolding rw_ok_iff using card_mono finite_subset by (metis order_le_less_trans)

lemma rw_inv_write_unlock:
  assumes "rw_ok Uniqued_writing rw ww n R W"
  shows "ww \<noteq> [] \<Longrightarrow> rw_ok Uniqued_writing rw (butlast ww) n {} {last ww}"
    and "ww = [] \<Longrightarrow> rw \<noteq> [] \<Longrightarrow> rw_ok Shared_reading [] [] (length rw mod 2 ^ 32) (set rw) {}"
    and "ww = [] \<Longrightarrow> rw = [] \<Longrightarrow> rw_ok Free [] [] n {} {}"
proof -
  have d: "distinct (rw @ ww)" "n = 0" using assms by (simp_all add: rw_ok_iff)
  have fin: "finite (set rw \<union> set ww)" "card (set rw \<union> set ww) < 2 ^ 32"
    using rw_ok_less [OF assms, of "set rw \<union> set ww"] by auto
  show "ww \<noteq> [] \<Longrightarrow> rw_ok Uniqued_writing rw (butlast ww) n {} {last ww}"
    using rw_inv_hand_over [OF fin d(1)] d(2) by simp
  show "ww = [] \<Longrightarrow> rw \<noteq> [] \<Longrightarrow> rw_ok Shared_reading [] [] (length rw mod 2 ^ 32) (set rw) {}"
    using fin d(1) by (simp add: rw_ok_iff distinct_card)
  show "ww = [] \<Longrightarrow> rw = [] \<Longrightarrow> rw_ok Free [] [] n {} {}" using d(2) by (simp add: rw_ok_iff)
qed

lemma rw_inv_read_unlock:
  assumes "rw_ok Shared_reading rw ww n R W" and "f \<in> R"
  shows "dec32 n \<noteq> 0 \<Longrightarrow> rw_ok Shared_reading rw ww (dec32 n) (R - {f}) W"
    and "dec32 n = 0 \<Longrightarrow> R = {f}"
    and "dec32 n = 0 \<Longrightarrow> ww \<noteq> [] \<Longrightarrow> rw_ok Uniqued_writing rw (butlast ww) 0 {} {last ww}"
    and "dec32 n = 0 \<Longrightarrow> ww = [] \<Longrightarrow> rw_ok Free rw ww 0 {} {}"
proof -
  have n: "n = card R" "rw = []" "W = {}" using assms(1) by (simp_all add: rw_ok_iff)
  have fin: "finite R" "card R < 2 ^ 32" using rw_ok_less [OF assms(1), of R] by auto
  then have "0 < card R" using assms(2) card_gt_0_iff by blast
  then have dec: "dec32 n = card (R - {f})" using n(1) fin(2) assms(2) fin(1) by (simp add: dec32_pos)
  have busy: "finite (set rw \<union> set ww)" "card (set rw \<union> set ww) < 2 ^ 32" "distinct (rw @ ww)"
    using rw_ok_less [OF assms(1), of "set rw \<union> set ww"] assms(1) by (auto simp: rw_ok_iff)
  have smaller: "finite ((R - {f}) \<union> W \<union> set rw \<union> set ww)" "card ((R - {f}) \<union> W \<union> set rw \<union> set ww) < 2 ^ 32"
    using rw_ok_less [OF assms(1), of "(R - {f}) \<union> W \<union> set rw \<union> set ww"] by auto
  show "rw_ok Shared_reading rw ww (dec32 n) (R - {f}) W" if "dec32 n \<noteq> 0"
  proof -
    have "R - {f} \<noteq> {}" using that dec by (metis card.empty)
    then show ?thesis using dec smaller assms(1) n unfolding rw_ok_iff by auto
  qed
  show "R = {f}" if "dec32 n = 0"
  proof -
    have "R - {f} = {}" using that dec fin(1) by (metis card_0_eq finite_Diff)
    with assms(2) show ?thesis by blast
  qed
  show "dec32 n = 0 \<Longrightarrow> ww \<noteq> [] \<Longrightarrow> rw_ok Uniqued_writing rw (butlast ww) 0 {} {last ww}"
    using rw_inv_hand_over [OF busy] by simp
  show "dec32 n = 0 \<Longrightarrow> ww = [] \<Longrightarrow> rw_ok Free rw ww 0 {} {}"
    using n by (simp add: rw_ok_iff)
qed

lemma rw_inv_upgrade:
  assumes "rw_ok Shared_reading rw ww n R W" and "f \<in> R"
  shows "dec32 n = 0 \<Longrightarrow> rw_ok Uniqued_writing rw ww 0 {} {f}"
    and "dec32 n \<noteq> 0 \<Longrightarrow> rw_ok Shared_reading rw (ww @ [f]) (dec32 n) (R - {f}) W"
proof -
  have busy: "finite (R \<union> W \<union> set rw \<union> set ww)" "card (R \<union> W \<union> set rw \<union> set ww) < 2 ^ 32"
    using rw_ok_less [OF assms(1) order.refl] by blast+
  have same: "(R - {f}) \<union> W \<union> set rw \<union> set (ww @ [f]) = R \<union> W \<union> set rw \<union> set ww" using assms(2) by auto
  have "W = {}" "rw = []" "distinct ww" "R \<inter> set ww = {}" using assms(1) by (auto simp: rw_ok_iff)
  then show "dec32 n = 0 \<Longrightarrow> rw_ok Uniqued_writing rw ww 0 {} {f}"
    using rw_inv_read_unlock(2) [OF assms] busy by (simp add: rw_ok_iff)
  show "dec32 n \<noteq> 0 \<Longrightarrow> rw_ok Shared_reading rw (ww @ [f]) (dec32 n) (R - {f}) W"
    using rw_inv_read_unlock(1) [OF assms] busy assms unfolding rw_ok_iff same by auto
qed

lemma rw_inv_downgrade:
  assumes "rw_ok Uniqued_writing rw ww n R W" and "f \<in> W"
  shows "rw_ok Shared_reading [] ww ((1 + length rw) mod 2 ^ 32) (insert f (set rw)) {}"
proof -
  have d: "distinct (rw @ ww)" "W = {f}" "R = {}" "f \<notin> set rw" "f \<notin> set ww" "card (set rw) = length rw"
    using assms by (auto simp: rw_ok_iff distinct_card)
  have "card (insert f (set rw)) < 2 ^ 32" using rw_ok_less [OF assms(1), of "insert f (set rw)"] d(2) by auto
  moreover have "card (insert f (set rw)) = 1 + length rw" using d(4,6) by simp
  moreover have "insert f (set rw \<union> set ww) = R \<union> W \<union> set rw \<union> set ww" using d(2,3) by auto
  ultimately show ?thesis using assms(1) d by (auto simp: rw_ok_iff)
qed

lemmas rw_defs = sys_grant_def sys_release_def granted_def sys_busy_def rw_ok_def

lemma rw_inv_step:
  assumes "rw_step s s'" and "rw_inv s"
  shows "rw_inv s'"
proof -
  obtain m rw ww n R W where s: "s = \<lparr>sys_lock = \<lparr>lk_state = m, lk_read_waiters = rw, lk_write_waiters = ww,
      lk_readers = n\<rparr>, sys_reading = R, sys_writing = W\<rparr>" by (rule rw_system_split)
  have ok: "rw_ok m rw ww n R W" using assms(2) s by (simp add: rw_ok_def)
  show ?thesis
    using assms(1)
  proof cases
    case (lock_read f l r)
    then show ?thesis
      using rw_inv_lock_read [OF ok, of f] s by (cases m) (auto simp: rw_lock_read_def rw_defs)
  next
    case (try_lock_read f l r)
    then show ?thesis
      using rw_inv_lock_read [OF ok, of f] ok s by (cases m) (auto simp: rw_try_lock_read_def rw_defs)
  next
    case (lock_write f l r)
    then show ?thesis
      using rw_inv_lock_write [OF ok, of f] s by (cases m) (auto simp: rw_lock_write_def rw_defs)
  next
    case (try_lock_write f spin l r)
    then show ?thesis
      using rw_inv_lock_write [OF ok, of f] ok s
      by (cases m; cases spin) (auto simp: rw_try_lock_write_def rw_defs)
  next
    case (unlock f l woken)
    show ?thesis
    proof (cases m)
      case Free
      then show ?thesis using unlock ok s by (simp add: rw_ok_iff)
    next
      case Shared_reading
      have f: "f \<in> R" "W = {}" using unlock(2) ok s Shared_reading by (simp_all add: rw_ok_iff)
      show ?thesis
        using rw_inv_read_unlock [OF ok [unfolded Shared_reading] f(1)] unlock s Shared_reading f
        by (auto simp: rw_unlock_def rw_read_unlock_def rw_defs Let_def split: if_splits)
    next
      case Uniqued_writing
      have f: "W = {f}" "R = {}" using unlock(2) ok s Uniqued_writing by (auto simp: rw_ok_iff)
      show ?thesis
        using rw_inv_write_unlock [OF ok [unfolded Uniqued_writing]] unlock s Uniqued_writing f
        by (auto simp: rw_unlock_def rw_write_unlock_def rw_defs image_image split: if_splits)
    qed
  next
    case (upgrade f l r)
    have f: "f \<in> R" using upgrade(2) s by simp
    then have m: "m = Shared_reading" "W = {}" using ok by (cases m; auto simp: rw_ok_iff)+
    show ?thesis
    proof (cases "dec32 n = 0")
      case True
      then have "R = {f}" using rw_inv_read_unlock(2) [OF ok [unfolded m(1)] f] by simp
      then show ?thesis
        using rw_inv_upgrade(1) [OF ok [unfolded m(1)] f True] upgrade s m True
        by (auto simp: rw_upgrade_def rw_defs Let_def)
    next
      case False
      then show ?thesis
        using rw_inv_upgrade(2) [OF ok [unfolded m(1)] f False] upgrade s m
        by (auto simp: rw_upgrade_def rw_defs Let_def)
    qed
  next
    case (downgrade f l woken)
    have f: "f \<in> W" using downgrade(2) s by simp
    then have m: "m = Uniqued_writing" "W = {f}" "R = {}" using ok by (cases m; auto simp: rw_ok_iff)+
    show ?thesis
      using rw_inv_downgrade [OF ok [unfolded m(1)] f] downgrade s m
      by (auto simp: rw_downgrade_def rw_defs image_image)
  qed
qed

lemma rw_inv_reach: "rw_reach s \<Longrightarrow> rw_inv s"
proof (induction rule: rw_reach.induct)
  case start
  then show ?case by (simp add: rw_inv_def rw_mode_inv_def sys_new_def rw_new_def sys_busy_def)
next
  case (step s s')
  then show ?case using rw_inv_step by blast
qed

section \<open>Releases\<close>

text \<open>Runs in which the holders release the lock and nothing else happens.\<close>

inductive rw_drain :: "rw_system \<Rightarrow> rw_system \<Rightarrow> bool" where
  drained: "rw_drain s s"
| release: "f \<in> sys_reading s \<union> sys_writing s \<Longrightarrow> rw_unlock (sys_lock s) = (l, woken) \<Longrightarrow>
    rw_drain (sys_grant l (fst ` set woken) (sys_release f s)) s' \<Longrightarrow> rw_drain s s'"

text \<open>A release takes its fiber away and no other one.\<close>

lemma rw_unlock_busy:
  assumes "rw_inv s" and "f \<in> sys_reading s \<union> sys_writing s" and "rw_unlock (sys_lock s) = (l, woken)"
  shows "sys_busy (sys_grant l (fst ` set woken) (sys_release f s)) = sys_busy s - {f}"
proof -
  obtain m rw ww n R W where s: "s = \<lparr>sys_lock = \<lparr>lk_state = m, lk_read_waiters = rw, lk_write_waiters = ww,
      lk_readers = n\<rparr>, sys_reading = R, sys_writing = W\<rparr>" by (rule rw_system_split)
  have ok: "rw_ok m rw ww n R W" using assms(1) s by (simp add: rw_ok_def)
  have ww: "insert (last ww) (set (butlast ww)) = set ww" if "ww \<noteq> []"
    using that by (metis append_butlast_last_id list.simps(15) rotate1.simps(2) set_rotate1)
  have "f \<notin> set rw" "f \<notin> set ww" using ok assms(2) s by (auto simp: rw_ok_iff)
  show ?thesis
  proof (cases m)
    case Free
    then show ?thesis using assms(2) ok s by (simp add: rw_ok_iff)
  next
    case Shared_reading
    have f: "f \<in> R" "W = {}" "rw = []" using assms(2) ok s Shared_reading by (simp_all add: rw_ok_iff)
    note last_reader = rw_inv_read_unlock(2) [OF ok [unfolded Shared_reading] f(1)]
    consider (more) "dec32 n \<noteq> 0" | (writer) "dec32 n = 0" "ww \<noteq> []" | (free) "dec32 n = 0" "ww = []" by blast
    then show ?thesis
    proof cases
      case more
      then have "l = \<lparr>lk_state = Shared_reading, lk_read_waiters = rw, lk_write_waiters = ww, lk_readers = dec32 n\<rparr>"
        "woken = []"
        using assms(3) s Shared_reading by (auto simp: rw_unlock_def rw_read_unlock_def Let_def)
      then show ?thesis using s f \<open>f \<notin> set ww\<close> by (auto simp: rw_defs)
    next
      case writer
      then have "l = \<lparr>lk_state = Uniqued_writing, lk_read_waiters = rw, lk_write_waiters = butlast ww, lk_readers = 0\<rparr>"
        "fst ` set woken = {last ww}"
        using assms(3) s Shared_reading by (auto simp: rw_unlock_def rw_read_unlock_def Let_def)
      then have "sys_busy (sys_grant l (fst ` set woken) (sys_release f s)) = insert (last ww) (set (butlast ww))"
        using s f last_reader [OF writer(1)] by (auto simp: rw_defs)
      then show ?thesis using ww [OF writer(2)] s f last_reader [OF writer(1)] \<open>f \<notin> set ww\<close> by (auto simp: sys_busy_def)
    next
      case free
      then have "l = \<lparr>lk_state = Free, lk_read_waiters = rw, lk_write_waiters = ww, lk_readers = 0\<rparr>" "woken = []"
        using assms(3) s Shared_reading by (auto simp: rw_unlock_def rw_read_unlock_def Let_def)
      then show ?thesis using s f free last_reader [OF free(1)] by (auto simp: rw_defs)
    qed
  next
    case Uniqued_writing
    have f: "W = {f}" "R = {}" using assms(2) ok s Uniqued_writing by (auto simp: rw_ok_iff)
    consider (writer) "ww \<noteq> []" | (readers) "ww = []" "rw \<noteq> []" | (free) "ww = []" "rw = []" by blast
    then show ?thesis
    proof cases
      case writer
      then have "l = \<lparr>lk_state = Uniqued_writing, lk_read_waiters = rw, lk_write_waiters = butlast ww, lk_readers = n\<rparr>"
        "fst ` set woken = {last ww}"
        using assms(3) s Uniqued_writing by (auto simp: rw_unlock_def rw_write_unlock_def)
      then have "sys_busy (sys_grant l (fst ` set woken) (sys_release f s)) =
          set rw \<union> insert (last ww) (set (butlast ww))"
        using s f by (auto simp: rw_defs)
      then show ?thesis using ww [OF writer] s f \<open>f \<notin> set rw\<close> \<open>f \<notin> set ww\<close> by (auto simp: sys_busy_def)
    next
      case readers
      then show ?thesis
        using assms(3) s Uniqued_writing f \<open>f \<notin> set rw\<close>
        by (auto simp: rw_unlock_def rw_write_unlock_def rw_defs image_image)
    next
      case free
      then show ?thesis
        using assms(3) s Uniqued_writing f by (auto simp: rw_unlock_def rw_write_unlock_def rw_defs)
    qed
  qed
qed

lemma rw_waiting_held:
  assumes "rw_inv s" and "f \<in> set (lk_read_waiters (sys_lock s)) \<union> set (lk_write_waiters (sys_lock s))"
  shows "sys_reading s \<union> sys_writing s \<noteq> {}"
  using assms by (auto simp: rw_inv_def rw_mode_inv_def split: rw_mode.splits)

lemma rw_drains_to:
  assumes "rw_inv s" and "f \<in> sys_busy s"
  shows "\<exists>s'. rw_drain s s' \<and> f \<in> sys_reading s' \<union> sys_writing s'"
  using assms
proof (induction "card (sys_busy s)" arbitrary: s rule: less_induct)
  case less
  show ?case
  proof (cases "f \<in> sys_reading s \<union> sys_writing s")
    case True
    then show ?thesis using rw_drain.drained by blast
  next
    case False
    then have "f \<in> set (lk_read_waiters (sys_lock s)) \<union> set (lk_write_waiters (sys_lock s))"
      using less.prems(2) by (auto simp: sys_busy_def)
    from rw_waiting_held [OF less.prems(1) this] obtain h where h: "h \<in> sys_reading s \<union> sys_writing s" by blast
    obtain l woken where u: "rw_unlock (sys_lock s) = (l, woken)" by fastforce
    let ?s = "sys_grant l (fst ` set woken) (sys_release h s)"
    have busy: "sys_busy ?s = sys_busy s - {h}" by (rule rw_unlock_busy [OF less.prems(1) h u])
    have "h \<in> sys_busy s" using h by (auto simp: sys_busy_def)
    moreover have "finite (sys_busy s)" using less.prems(1) by (simp add: rw_inv_def)
    ultimately have "card (sys_busy ?s) < card (sys_busy s)" unfolding busy by (metis card_Diff1_less)
    moreover have "rw_inv ?s" using rw_inv_step [OF rw_step.unlock [OF h u] less.prems(1)] .
    moreover have "f \<in> sys_busy ?s" using busy less.prems(2) False h by auto
    ultimately obtain s' where "rw_drain ?s s'" "f \<in> sys_reading s' \<union> sys_writing s'"
      using less.hyps [of ?s] by blast
    then show ?thesis using rw_drain.release [OF h u] by blast
  qed
qed

section \<open>The mutex\<close>

record mutex =
  mx_locked :: bool
  mx_waiters :: "nat list"

definition mx_new :: mutex where
  "mx_new = \<lparr>mx_locked = False, mx_waiters = []\<rparr>"

text \<open>The second component of the lock operations is whether the fiber has the lock.\<close>

definition mx_lock :: "nat \<Rightarrow> mutex \<Rightarrow> mutex \<times> bool" where
  "mx_lock f l =
     (if \<not> mx_locked l then (l\<lparr>mx_locked := True\<rparr>, True)
      else (l\<lparr>mx_waiters := mx_waiters l @ [f]\<rparr>, False))"

definition mx_try_lock :: "bool \<Rightarrow> mutex \<Rightarrow> mutex \<times> bool" where
  "mx_try_lock spin l =
     (if \<not> spin then (l, False) else (l\<lparr>mx_locked := True\<rparr>, \<not> mx_locked l))"

definition mx_unlock :: "mutex \<Rightarrow> mutex \<times> nat list" where
  "mx_unlock l =
     (if mx_waiters l = [] then (l\<lparr>mx_locked := False\<rparr>, [])
      else (l\<lparr>mx_waiters := butlast (mx_waiters l)\<rparr>, [last (mx_waiters l)]))"

section \<open>The semaphore\<close>

record semaphore =
  sem_waiters :: "nat list"
  sem_counter :: nat

definition sem_new :: "nat \<Rightarrow> semaphore" where
  "sem_new count = \<lparr>sem_waiters = [], sem_counter = count mod 2 ^ 32\<rparr>"

definition sem_need_wait :: "semaphore \<Rightarrow> bool" where
  "sem_need_wait s \<longleftrightarrow> sem_counter s = 0"

definition sem_lock :: "nat \<Rightarrow> semaphore \<Rightarrow> semaphore \<times> bool" where
  "sem_lock f s =
     (if \<not> sem_need_wait s then (s\<lparr>sem_counter := sem_counter s - 1\<rparr>, True)
      else (s\<lparr>sem_waiters := sem_waiters s @ [f]\<rparr>, False))"

definition sem_try_lock :: "bool \<Rightarrow> semaphore \<Rightarrow> semaphore \<times> bool" where
  "sem_try_lock spin s =
     (if \<not> spin then (s, False)
      else if \<not> sem_need_wait s then (s\<lparr>sem_counter := sem_counter s - 1\<rparr>, True)
      else (s, False))"

definition sem_unlock :: "semaphore \<Rightarrow> semaphore \<times> nat list" where
  "sem_unlock s =
     (if sem_waiters s = [] then (s\<lparr>sem_counter := inc32 (sem_counter s)\<rparr>, [])
      else (s\<lparr>sem_waiters := butlast (sem_waiters s)\<rparr>, [last (sem_waiters s)]))"

text \<open>
  \<open>Unlock(count)\<close>: with enough permits the waiters are swapped out before their number is subtracted,
  and otherwise copies of the first pointers are completed but stay in the vector.
\<close>

definition sem_unlock_count :: "nat \<Rightarrow> semaphore \<Rightarrow> semaphore \<times> nat list" where
  "sem_unlock_count count s =
     (if sem_waiters s = [] then (s\<lparr>sem_counter := (sem_counter s + count) mod 2 ^ 32\<rparr>, [])
      else if count \<ge> length (sem_waiters s) then
        (let s' = s\<lparr>sem_waiters := []\<rparr> in
           (s'\<lparr>sem_counter := (sem_counter s' + (count - length (sem_waiters s'))) mod 2 ^ 32\<rparr>, sem_waiters s))
      else (s, take count (sem_waiters s)))"

text \<open>The semaphore with the number of permits that are out; a release without a lock adds one.\<close>

inductive sem_reach :: "nat \<Rightarrow> semaphore \<Rightarrow> int \<Rightarrow> bool" for n where
  start: "sem_reach n (sem_new n) 0"
| lock: "sem_reach n s g \<Longrightarrow> sem_lock f s = (s', got) \<Longrightarrow> sem_reach n s' (if got then g + 1 else g)"
| try_lock: "sem_reach n s g \<Longrightarrow> sem_try_lock spin s = (s', got) \<Longrightarrow> sem_reach n s' (if got then g + 1 else g)"
| unlock: "sem_reach n s g \<Longrightarrow> sem_counter s < 2 ^ 32 - 1 \<Longrightarrow> sem_unlock s = (s', woken) \<Longrightarrow>
    sem_reach n s' (g - 1 + int (length woken))"

section \<open>The barrier\<close>

record barrier =
  bar_counter :: nat
  bar_waiters :: "nat list"
  bar_begin :: nat

definition bar_new :: "nat \<Rightarrow> barrier" where
  "bar_new n = \<lparr>bar_counter = n, bar_waiters = [], bar_begin = n\<rparr>"

definition bar_wait :: "nat \<Rightarrow> barrier \<Rightarrow> barrier \<times> bool" where
  "bar_wait f b =
     (if bar_counter b = 0 then (b, True) else (b\<lparr>bar_waiters := bar_waiters b @ [f]\<rparr>, False))"

definition bar_notice :: "barrier \<Rightarrow> barrier \<times> nat list" where
  "bar_notice b =
     (let b = b\<lparr>bar_counter := sub64 (bar_counter b) 1\<rparr> in
        if bar_counter b \<noteq> 0 \<or> bar_waiters b = [] then (b, [])
        else (b\<lparr>bar_waiters := butlast (bar_waiters b)\<rparr>, [last (bar_waiters b)]))"

definition bar_reset :: "barrier \<Rightarrow> barrier" where
  "bar_reset b = b\<lparr>bar_counter := bar_begin b\<rparr>"

definition bar_add_count :: "nat \<Rightarrow> barrier \<Rightarrow> barrier" where
  "bar_add_count count b = b\<lparr>bar_counter := add64 (bar_counter b) count\<rparr>"

text \<open>Notices until the counter is zero.\<close>

fun bar_notices :: "nat \<Rightarrow> barrier \<Rightarrow> barrier \<times> nat list" where
  "bar_notices 0 b = (b, [])"
| "bar_notices (Suc n) b =
     (let (b, woken) = bar_notice b; (b, woken') = bar_notices n b in (b, woken @ woken'))"

lemma bar_notices_complete:
  assumes "bar_counter b = Suc n" and "Suc n < 2 ^ 64" and "bar_waiters b \<noteq> []"
  shows "bar_notices (Suc n) b =
    (b\<lparr>bar_counter := 0, bar_waiters := butlast (bar_waiters b)\<rparr>, [last (bar_waiters b)])"
  using assms
proof (induction n arbitrary: b)
  case 0
  then show ?case by (simp add: bar_notice_def sub64_le Let_def)
next
  case (Suc n)
  let ?b = "b\<lparr>bar_counter := Suc n\<rparr>"
  have "bar_notice b = (?b, [])" using Suc.prems by (simp add: bar_notice_def sub64_le Let_def)
  moreover have "bar_notices (Suc n) ?b =
      (?b\<lparr>bar_counter := 0, bar_waiters := butlast (bar_waiters ?b)\<rparr>, [last (bar_waiters ?b)])"
    using Suc.prems by (intro Suc.IH) simp_all
  ultimately show ?case by (subst bar_notices.simps) simp
qed

section \<open>Properties\<close>

text \<open>C11: In every reachable state of the read-write lock the holders are one writer and no reader, or
  readers only; the lock is free exactly when nobody holds it and nobody waits for it; and while it is
  read, the counter is the number of readers.\<close>

theorem rw_lock_excludes:
  assumes "rw_reach s"
  shows "(sys_writing s = {} \<or> (\<exists>f. sys_writing s = {f}) \<and> sys_reading s = {}) \<and>
    (lk_state (sys_lock s) = Free \<longleftrightarrow> sys_busy s = {}) \<and>
    (lk_state (sys_lock s) = Shared_reading \<longleftrightarrow> sys_reading s \<noteq> {}) \<and>
    lk_readers (sys_lock s) = card (sys_reading s)"
  using rw_inv_reach [OF assms]
  by (auto simp: rw_inv_def rw_mode_inv_def sys_busy_def split: rw_mode.splits)

theorem rw_lock_excludes_witness:
  "\<exists>s. rw_reach s \<and> sys_writing s = {1} \<and> lk_read_waiters (sys_lock s) = [2] \<and> sys_reading s = {}"
proof -
  let ?s1 = "\<lparr>sys_lock = rw_new\<lparr>lk_state := Uniqued_writing\<rparr>, sys_reading = {}, sys_writing = {1}\<rparr>"
  let ?s2 = "\<lparr>sys_lock = rw_new\<lparr>lk_state := Uniqued_writing, lk_read_waiters := [2]\<rparr>, sys_reading = {}, sys_writing = {1}\<rparr>"
  have "rw_step sys_new (sys_grant (rw_new\<lparr>lk_state := Uniqued_writing\<rparr>) (granted 1 (Some Free)) sys_new)"
    by (rule rw_step.lock_write) (simp_all add: sys_new_def rw_new_def sys_busy_def rw_lock_write_def)
  then have "rw_step sys_new ?s1" by (simp add: sys_grant_def granted_def sys_new_def rw_new_def)
  then have r1: "rw_reach ?s1" using rw_reach.start rw_reach.step by blast
  have "rw_step ?s1 (sys_grant (rw_new\<lparr>lk_state := Uniqued_writing, lk_read_waiters := [2]\<rparr>) (granted 2 None) ?s1)"
    by (rule rw_step.lock_read) (simp_all add: rw_new_def sys_busy_def rw_lock_read_def)
  then have "rw_step ?s1 ?s2" by (simp add: sys_grant_def granted_def rw_new_def)
  then have "rw_reach ?s2" using r1 rw_reach.step by blast
  then show ?thesis using rw_lock_excludes [of ?s2] by (intro exI [of _ ?s2]) simp
qed

text \<open>C19: No waiter is forgotten: from every reachable state, each fiber that holds or waits for the
  read-write lock gets it once the holders release it, without any new request.\<close>

theorem rw_lock_serves_waiters:
  assumes "rw_reach s" and "f \<in> sys_busy s"
  shows "\<exists>s'. rw_drain s s' \<and> f \<in> sys_reading s' \<union> sys_writing s'"
  using rw_drains_to [OF rw_inv_reach [OF assms(1)] assms(2)] .

theorem rw_lock_serves_waiters_witness:
  "\<exists>s s'. rw_reach s \<and> lk_write_waiters (sys_lock s) = [2] \<and> rw_drain s s' \<and> 2 \<in> sys_reading s' \<union> sys_writing s'"
proof -
  let ?s1 = "\<lparr>sys_lock = rw_new\<lparr>lk_state := Uniqued_writing\<rparr>, sys_reading = {}, sys_writing = {1}\<rparr>"
  let ?s2 = "\<lparr>sys_lock = rw_new\<lparr>lk_state := Uniqued_writing, lk_write_waiters := [2]\<rparr>, sys_reading = {}, sys_writing = {1}\<rparr>"
  have "rw_step sys_new (sys_grant (rw_new\<lparr>lk_state := Uniqued_writing\<rparr>) (granted 1 (Some Free)) sys_new)"
    by (rule rw_step.lock_write) (simp_all add: sys_new_def rw_new_def sys_busy_def rw_lock_write_def)
  then have "rw_step sys_new ?s1" by (simp add: sys_grant_def granted_def sys_new_def rw_new_def)
  then have r1: "rw_reach ?s1" using rw_reach.start rw_reach.step by blast
  have "rw_step ?s1 (sys_grant (rw_new\<lparr>lk_state := Uniqued_writing, lk_write_waiters := [2]\<rparr>) (granted 2 None) ?s1)"
    by (rule rw_step.lock_write) (simp_all add: rw_new_def sys_busy_def rw_lock_write_def)
  then have "rw_step ?s1 ?s2" by (simp add: sys_grant_def granted_def rw_new_def)
  then have r2: "rw_reach ?s2" using r1 rw_reach.step by blast
  have "2 \<in> sys_busy ?s2" by (simp add: sys_busy_def)
  from rw_lock_serves_waiters [OF r2 this] obtain s' where
    "rw_drain ?s2 s' \<and> 2 \<in> sys_reading s' \<union> sys_writing s'" by blast
  moreover have "lk_write_waiters (sys_lock ?s2) = [2]" by simp
  ultimately show ?thesis using r2 by blast
qed

text \<open>C35: Locking and releasing one permit at a time conserves the permits of a semaphore, and a fiber
  waits only when none is left.\<close>

theorem semaphore_conserves:
  assumes "sem_reach n s g"
  shows "int (sem_counter s) + g = int (n mod 2 ^ 32) \<and> (sem_waiters s = [] \<or> sem_counter s = 0)"
  using assms
proof induction
  case start
  then show ?case by (simp add: sem_new_def)
next
  case (lock s g f s' got)
  then show ?case by (auto simp: sem_lock_def sem_need_wait_def split: if_splits)
next
  case (try_lock s g spin s' got)
  then show ?case by (auto simp: sem_try_lock_def sem_need_wait_def split: if_splits)
next
  case (unlock s g s' woken)
  then show ?case by (auto simp: sem_unlock_def inc32_small split: if_splits)
qed

theorem semaphore_conserves_witness:
  "sem_waiters (fst (sem_lock 2 (fst (sem_lock 1 (sem_new 1))))) = [2] \<and>
   sem_counter (fst (sem_lock 2 (fst (sem_lock 1 (sem_new 1))))) = 0"
proof -
  have a: "sem_lock 1 (sem_new 1) = (fst (sem_lock 1 (sem_new 1)), True)"
    by (simp add: sem_lock_def sem_new_def sem_need_wait_def)
  have b: "sem_lock 2 (fst (sem_lock 1 (sem_new 1))) = (fst (sem_lock 2 (fst (sem_lock 1 (sem_new 1)))), False)"
    by (simp add: sem_lock_def sem_new_def sem_need_wait_def)
  have w: "sem_waiters (fst (sem_lock 2 (fst (sem_lock 1 (sem_new 1))))) = [2]"
    by (simp add: sem_lock_def sem_new_def sem_need_wait_def)
  from semaphore_conserves [OF sem_reach.lock [OF sem_reach.lock [OF sem_reach.start a] b]] w
  show ?thesis by simp
qed

text \<open>\<open>Unlock(count)\<close> does not: when fibers wait and \<open>count\<close> is enough for all of them, every one is
  woken and all \<open>count\<close> permits are added as well; when it is not, the fibers woken stay in the queue, so
  that their futures are completed again.\<close>

theorem semaphore_bulk_unlock_overgrants:
  assumes "sem_waiters s \<noteq> []" and "sem_counter s = 0" and "0 < count" and "count < 2 ^ 32"
    and "sem_unlock_count count s = (s', woken)"
  shows "(if length (sem_waiters s) \<le> count
    then sem_waiters s' = [] \<and> sem_counter s' + length woken = count + length (sem_waiters s)
    else length woken = count \<and> set woken \<subseteq> set (sem_waiters s') \<and>
      fst (sem_unlock_count count s') = s' \<and> snd (sem_unlock_count count s') = woken)"
  using assms by (auto simp: sem_unlock_count_def Let_def dest: in_set_takeD split: if_splits)

theorem semaphore_bulk_unlock_overgrants_witness:
  "sem_unlock_count 1 \<lparr>sem_waiters = [7], sem_counter = 0\<rparr> = (\<lparr>sem_waiters = [], sem_counter = 1\<rparr>, [7]) \<and>
   sem_unlock_count 1 \<lparr>sem_waiters = [7, 8], sem_counter = 0\<rparr> = (\<lparr>sem_waiters = [7, 8], sem_counter = 0\<rparr>, [7]) \<and>
   (let (s, woken) = sem_unlock_count 1 \<lparr>sem_waiters = [7], sem_counter = 0\<rparr> in sem_counter s + length woken) = 2"
proof -
  have a: "sem_unlock_count 1 \<lparr>sem_waiters = [7], sem_counter = 0\<rparr> = (\<lparr>sem_waiters = [], sem_counter = 1\<rparr>, [7])"
    by (simp add: sem_unlock_count_def Let_def)
  have b: "sem_unlock_count 1 \<lparr>sem_waiters = [7, 8], sem_counter = 0\<rparr> =
      (\<lparr>sem_waiters = [7, 8], sem_counter = 0\<rparr>, [7])"
    by (simp add: sem_unlock_count_def)
  show ?thesis
    using semaphore_bulk_unlock_overgrants [OF _ _ _ _ a] semaphore_bulk_unlock_overgrants [OF _ _ _ _ b] a b by simp
qed

text \<open>The last notice of a barrier wakes only the fiber that came last; the others wait on although the
  counter is zero.\<close>

theorem barrier_wakes_one:
  assumes "bar_counter b = n" and "0 < n" and "n < 2 ^ 64" and "bar_waiters b = fs @ [f]"
  shows "\<exists>b'. bar_notices n b = (b', [f]) \<and> bar_counter b' = 0 \<and> bar_waiters b' = fs"
proof -
  obtain m where n: "n = Suc m" using assms(2) by (cases n) auto
  have "bar_notices n b = (b\<lparr>bar_counter := 0, bar_waiters := butlast (bar_waiters b)\<rparr>, [last (bar_waiters b)])"
    unfolding n by (rule bar_notices_complete) (use assms n in simp_all)
  then have "bar_notices n b = (b\<lparr>bar_counter := 0, bar_waiters := fs\<rparr>, [f])" unfolding assms(4) by simp
  then show ?thesis by (intro exI [of _ "b\<lparr>bar_counter := 0, bar_waiters := fs\<rparr>"]) simp
qed

end
