(* ===== verification/BtBlock.thy ===== *)
theory BtBlock
  imports SstDataBlock IntOps FileModel
begin

text \<open>
  The blocks of the balanced table (\<open>BtKeyValuePair\<close> and \<open>BtBlock\<close> under \<open>include/sharpen/\<close> and
  \<open>src/\<close>): the nodes of a B+ tree, each a sorted sequence of pairs with a depth and pointers to its
  neighbours. The size of the stored block is kept up to date by every operation.
\<close>

section \<open>Pairs\<close>

record bt_pair =
  bp_key :: bytes
  bp_value :: bytes

abbreviation bp :: "bytes \<Rightarrow> bytes \<Rightarrow> bt_pair" where
  "bp k v \<equiv> \<lparr>bp_key = k, bp_value = v\<rparr>"

text \<open>\<open>Varuint64{n}.ComputeSize()\<close>.\<close>

definition varuint_size :: "nat \<Rightarrow> nat" where
  "varuint_size n = (case vu64_bytes n of Inr h \<Rightarrow> length h | Inl _ \<Rightarrow> 0)"

definition bp_size :: "bt_pair \<Rightarrow> nat" where
  "bp_size p = varuint_size (length (bp_key p)) + varuint_size (length (bp_value p)) +
     length (bp_key p) + length (bp_value p)"

definition bp_store :: "bt_pair \<Rightarrow> exn + bytes" where
  "bp_store p =
     res_bind (vu64_bytes (length (bp_key p))) (\<lambda>a.
       res_bind (vu64_bytes (length (bp_value p))) (\<lambda>b. Inr (a @ b @ bp_key p @ bp_value p)))"

text \<open>
  Loading into a pair that holds \<open>old\<close>: a size that is the last byte of the data is refused, and an
  empty value leaves the old value in place.
\<close>

definition bp_load :: "bytes \<Rightarrow> bt_pair \<Rightarrow> exn + (nat \<times> bt_pair)" where
  "bp_load data old =
     (if length data < 2 then Inl Invalid_argument
      else res_bind (vu64_read data) (\<lambda>(ksize, k1).
        if k1 = length data then Inl Invalid_argument
        else res_bind (vu64_read (drop k1 data)) (\<lambda>(vsize, k2).
          let offset = k1 + k2 in
          if offset = length data then Inl Invalid_argument
          else res_bind (vec_resize ksize []) (\<lambda>_.
            if length data < add64 offset ksize then Inl Invalid_argument
            else res_bind (mem_read data offset ksize) (\<lambda>key.
              let offset = offset + ksize in
              if vsize \<noteq> 0 then
                res_bind (vec_resize vsize []) (\<lambda>_.
                  if length data < add64 offset vsize then Inl Invalid_argument
                  else res_bind (mem_read data offset vsize) (\<lambda>v. Inr (offset + vsize, bp key v)))
              else Inr (offset, old\<lparr>bp_key := key\<rparr>))))))"

definition bp_store_to :: "bt_pair \<Rightarrow> nat \<Rightarrow> exn + bytes" where
  "bp_store_to p = store_checked (Inr (bp_size p)) (bp_store p)"

text \<open>\<open>StoreTo(buf,offset)\<close> extends the buffer for \<open>offset\<close> and stores at its beginning.\<close>

definition bp_store_to_buffer :: "bt_pair \<Rightarrow> bytes \<Rightarrow> nat \<Rightarrow> exn + bytes" where
  "bp_store_to_buffer p buf offset =
     (let size = sub64 (length buf) offset in
        res_bind (if bp_size p > size then vec_resize (add64 (length buf) (bp_size p - size)) buf else Inr buf)
          (\<lambda>buf'. res_bind (bp_store p) (\<lambda>w. mem_write buf' 0 w)))"

section \<open>Blocks\<close>

record bt_block =
  bt_depth :: nat
  bt_next :: file_pointer
  bt_prev :: file_pointer
  bt_pairs :: "bt_pair list"
  bt_block_size :: nat
  bt_used_size :: nat
  bt_cmp :: comparator

text \<open>One byte for the depth, two pointers and the counter.\<close>

definition bt_new :: "nat \<Rightarrow> bt_block" where
  "bt_new block_size =
     \<lparr>bt_depth = 0, bt_next = fp_zero, bt_prev = fp_zero, bt_pairs = [], bt_block_size = block_size,
      bt_used_size = 1 + 16 + 16 + 2, bt_cmp = None\<rparr>"

text \<open>The move assignment: the new target and what is left of the source.\<close>

definition bt_move_assign :: "bt_block \<Rightarrow> bt_block \<times> bt_block" where
  "bt_move_assign other =
     (other, other\<lparr>bt_pairs := [], bt_used_size := 1 + 16 + 16 + 2, bt_depth := 0, bt_block_size := 0,
        bt_cmp := None\<rparr>)"

text \<open>The loop of \<open>LoadFrom\<close>; \<open>data\<close> is the whole range.\<close>

fun bt_load_pairs :: "nat \<Rightarrow> bytes \<Rightarrow> nat \<Rightarrow> bt_pair list \<Rightarrow> exn + (bt_pair list \<times> nat)" where
  "bt_load_pairs 0 data offset ps = Inr (ps, offset)"
| "bt_load_pairs (Suc n) data offset ps =
     (if offset \<ge> length data then Inl Invalid_argument
      else res_bind (bp_load (drop offset data) (bp [] [])) (\<lambda>(k, p).
        bt_load_pairs n data (offset + k) (ps @ [p])))"

text \<open>The pairs that are already there are kept.\<close>

definition bt_load :: "bytes \<Rightarrow> bt_block \<Rightarrow> exn + (nat \<times> bt_block)" where
  "bt_load data b =
     (if length data < 2 * 16 + 2 + 1 then Inl Invalid_argument
      else res_bind (vu64_read data) (\<lambda>(depth, k).
        if length data < 2 * 16 + 2 + k then Inl Invalid_argument
        else res_bind (fp_read data k) (\<lambda>next.
          res_bind (fp_read data (k + 16)) (\<lambda>prev.
            res_bind (mem_read data (k + 32) 2) (\<lambda>c.
              res_bind (bt_load_pairs (le_nat c) data (k + 34) (bt_pairs b)) (\<lambda>(ps, offset).
                Inr (offset, b\<lparr>bt_depth := depth, bt_next := next, bt_prev := prev, bt_pairs := ps,
                  bt_used_size := offset\<rparr>)))))))"

fun bt_store_pairs :: "bt_pair list \<Rightarrow> exn + bytes" where
  "bt_store_pairs [] = Inr []"
| "bt_store_pairs (p # ps) = res_bind (bp_store p) (\<lambda>a. res_bind (bt_store_pairs ps) (\<lambda>b. Inr (a @ b)))"

text \<open>The number of pairs goes through \<open>IntCast<Uint16>\<close>.\<close>

abbreviation uint16 :: ctype where
  "uint16 \<equiv> \<lparr>ct_bits = 16, ct_signed = False\<rparr>"

abbreviation uint64 :: ctype where
  "uint64 \<equiv> \<lparr>ct_bits = 64, ct_signed = False\<rparr>"

definition bt_store :: "bt_block \<Rightarrow> exn + bytes" where
  "bt_store b =
     res_bind (vu64_bytes (bt_depth b)) (\<lambda>h.
       res_bind (int_cast uint16 uint64 (int (length (bt_pairs b)))) (\<lambda>count.
         res_bind (bt_store_pairs (bt_pairs b)) (\<lambda>w.
           Inr (h @ fp_bytes (bt_next b) @ fp_bytes (bt_prev b) @ le_bytes 2 (nat count) @ w))))"

text \<open>Both checked forms trust \<open>usedSize_\<close>.\<close>

definition bt_store_to :: "bt_block \<Rightarrow> nat \<Rightarrow> exn + bytes" where
  "bt_store_to b capacity =
     (if capacity < bt_used_size b then Inl Invalid_argument
      else res_bind (bt_store b) (\<lambda>w. if length w > capacity then Inl Undefined else Inr w))"

definition bt_store_to_buffer :: "bt_block \<Rightarrow> bytes \<Rightarrow> nat \<Rightarrow> exn + bytes" where
  "bt_store_to_buffer b = store_extending (Inr (bt_used_size b)) (bt_store b)"

definition bt_find :: "bt_block \<Rightarrow> bytes \<Rightarrow> nat" where
  "bt_find b key = lower_bound (\<lambda>p. key_less (bt_cmp b) (bp_key p) key) (bt_pairs b)"

text \<open>\<open>FuzzingFind\<close>: the pair of the child to descend to; on an empty block the end is dereferenced.\<close>

definition bt_fuzzing_find :: "bt_block \<Rightarrow> bytes \<Rightarrow> exn + nat" where
  "bt_fuzzing_find b key =
     (let n = length (bt_pairs b); i = bt_find b key; j = (if i = n \<and> n \<noteq> 0 then i - 1 else i) in
        if j \<ge> n then Inl Undefined
        else Inr (if key_comp (bt_cmp b) (bp_key (bt_pairs b ! j)) key = 1 \<and> j \<noteq> 0 then j - 1 else j))"

text \<open>\<open>Find\<close> descends in inner blocks and searches in leaves.\<close>

definition bt_find_child :: "bt_block \<Rightarrow> bytes \<Rightarrow> exn + nat" where
  "bt_find_child b key = (if bt_depth b \<noteq> 0 then bt_fuzzing_find b key else Inr (bt_find b key))"

definition bt_hit :: "bt_block \<Rightarrow> bytes \<Rightarrow> bool" where
  "bt_hit b key \<longleftrightarrow> bt_find b key < length (bt_pairs b) \<and>
     key_comp (bt_cmp b) (bp_key (bt_pairs b ! bt_find b key)) key = 0"

definition bt_put :: "bytes \<Rightarrow> bytes \<Rightarrow> bt_block \<Rightarrow> bt_block" where
  "bt_put key value b =
     (let i = bt_find b key; ps = bt_pairs b; p = bp key value in
        if bt_hit b key then
          b\<lparr>bt_pairs := ps[i := (ps ! i)\<lparr>bp_value := value\<rparr>],
            bt_used_size := add64 (sub64 (bt_used_size b) (bp_size (ps ! i))) (bp_size p)\<rparr>
        else
          b\<lparr>bt_pairs := insert_at i p ps, bt_used_size := add64 (bt_used_size b) (bp_size p)\<rparr>)"

definition bt_delete :: "bytes \<Rightarrow> bt_block \<Rightarrow> bt_block" where
  "bt_delete key b =
     (let i = bt_find b key; ps = bt_pairs b in
        if bt_hit b key then
          b\<lparr>bt_pairs := erase_at i ps, bt_used_size := sub64 (bt_used_size b) (bp_size (ps ! i))\<rparr>
        else b)"

definition bt_fuzzing_delete :: "bytes \<Rightarrow> bt_block \<Rightarrow> exn + bt_block" where
  "bt_fuzzing_delete key b =
     res_bind (bt_find_child b key) (\<lambda>i.
       if i < length (bt_pairs b) then
         Inr (b\<lparr>bt_pairs := erase_at i (bt_pairs b),
           bt_used_size := sub64 (bt_used_size b) (bp_size (bt_pairs b ! i))\<rparr>)
       else Inr b)"

definition bt_get :: "bt_block \<Rightarrow> bytes \<Rightarrow> exn + bytes" where
  "bt_get b key = (if bt_hit b key then Inr (bp_value (bt_pairs b ! bt_find b key)) else Inl Out_of_range)"

definition bt_exist :: "bt_block \<Rightarrow> bytes \<Rightarrow> exist_status" where
  "bt_exist b key = (if bt_hit b key then Exist else Not_exist)"

datatype put_tage = Tage_normal | Tage_append | Tage_motify_end

definition bt_query_put_tage :: "bt_block \<Rightarrow> bytes \<Rightarrow> put_tage" where
  "bt_query_put_tage b key =
     (let ps = bt_pairs b; i = bt_find b key in
        if ps = [] \<or> key_comp (bt_cmp b) (bp_key (last ps)) key = -1 then Tage_append
        else if i \<noteq> length ps \<and> key_comp (bt_cmp b) (bp_key (ps ! i)) (bp_key (last ps)) = 0 then Tage_motify_end
        else Tage_normal)"

text \<open>\<open>GetAppendPointer\<close> and \<open>ComputeMotifyEndPointer\<close>: where a new last pair, or a new value of the
  last pair, is written in the stored block.\<close>

definition bt_append_pointer :: "bt_block \<Rightarrow> nat" where
  "bt_append_pointer b = bt_used_size b"

definition bt_motify_end_pointer :: "bt_block \<Rightarrow> nat" where
  "bt_motify_end_pointer b = sub64 (bt_used_size b) (bp_size (last (bt_pairs b)))"

definition bt_is_atomic :: "bt_block \<Rightarrow> bool" where
  "bt_is_atomic b \<longleftrightarrow> bt_pairs b = [] \<or> length (bt_pairs b) = 1"

definition bt_is_overflow :: "bt_block \<Rightarrow> bool" where
  "bt_is_overflow b \<longleftrightarrow> bt_used_size b > bt_block_size b"

text \<open>
  The loop of \<open>Split\<close>: the size it adds and subtracts in every round is the one of the first moved pair,
  which has just been moved from and is empty.
\<close>

fun bt_move_pairs :: "bt_pair list \<Rightarrow> bt_block \<Rightarrow> bt_block \<Rightarrow> bt_block \<times> bt_block" where
  "bt_move_pairs [] block b = (block, b)"
| "bt_move_pairs (p # ps) block b =
     (let kv_size = bp_size (bp [] []) in
        bt_move_pairs ps
          (block\<lparr>bt_pairs := bt_pairs block @ [p], bt_used_size := add64 (bt_used_size block) kv_size\<rparr>)
          (b\<lparr>bt_used_size := sub64 (bt_used_size b) kv_size\<rparr>))"

definition bt_split :: "bt_block \<Rightarrow> bt_block \<times> bt_block" where
  "bt_split b =
     (let block = (bt_new 0)\<lparr>bt_depth := bt_depth b, bt_cmp := bt_cmp b\<rparr> in
        if bt_is_atomic b then (block, b)
        else
          let begin = length (bt_pairs b) - length (bt_pairs b) div 2;
              (block', b') = bt_move_pairs (drop begin (bt_pairs b)) block b
          in (block', b'\<lparr>bt_pairs := take begin (bt_pairs b)\<rparr>))"

definition bt_combine :: "bt_block \<Rightarrow> bt_block \<Rightarrow> bt_block" where
  "bt_combine other b = fold (\<lambda>p b. bt_put (bp_key p) (bp_value p) b) (bt_pairs other) b"

definition bt_depth_size :: "bt_block \<Rightarrow> nat" where
  "bt_depth_size b = (if bt_depth b < 128 then 1 else varuint_size (bt_depth b))"

definition bt_counter_pointer :: "bt_block \<Rightarrow> nat" where
  "bt_counter_pointer b = bt_depth_size b + 16 + 16"

definition bt_next_pointer :: "bt_block \<Rightarrow> nat" where
  "bt_next_pointer b = bt_depth_size b"

definition bt_prev_pointer :: "bt_block \<Rightarrow> nat" where
  "bt_prev_pointer b = bt_depth_size b + 16"

section \<open>The stored form\<close>

definition bp_ok :: "bt_pair \<Rightarrow> bool" where
  "bp_ok p \<longleftrightarrow> length (bp_key p) < 2 ^ 31 \<and> length (bp_value p) < 2 ^ 31"

definition bp_enc :: "bt_pair \<Rightarrow> bytes" where
  "bp_enc p = venc (length (bp_key p)) @ venc (length (bp_value p)) @ bp_key p @ bp_value p"

lemma varuint_size_venc: "n < 2 ^ 64 \<Longrightarrow> varuint_size n = length (venc n)"
  by (simp add: varuint_size_def vu64_bytes_venc)

lemma bp_store_enc: "bp_ok p \<Longrightarrow> bp_store p = Inr (bp_enc p)"
  by (simp add: bp_store_def bp_ok_def bp_enc_def vu64_bytes_venc)

lemma bp_size_enc: "bp_ok p \<Longrightarrow> bp_size p = length (bp_enc p)"
  by (simp add: bp_size_def bp_ok_def bp_enc_def varuint_size_venc)

lemma bp_enc_length: "2 \<le> length (bp_enc p)"
proof -
  have "1 \<le> length (venc n)" for n by (cases "venc n") auto
  from this [of "length (bp_key p)"] this [of "length (bp_value p)"]
  show ?thesis unfolding bp_enc_def length_append by linarith
qed

text \<open>One run of \<open>LoadFrom\<close>, with every read it makes.\<close>

lemma bp_load_run:
  assumes "2 \<le> length data" and "vu64_read data = Inr (n, o1)" and "vu64_read (drop o1 data) = Inr (m, k2)"
    and "mem_read data (o1 + k2) n = Inr k" and "mem_read data (o1 + k2 + n) m = Inr v"
    and "o1 \<noteq> length data" and "o1 + k2 \<noteq> length data" and "vec_resize n [] = Inr z"
    and "m < 2 ^ 63" and "length data < 2 ^ 63"
  shows "bp_load data (bp [] []) = Inr (o1 + k2 + n + m, bp k v)"
proof -
  have len: "o1 + k2 + n \<le> length data" "o1 + k2 + n + m \<le> length data" "length v = m"
    using assms(4,5) mem_read_length [OF assms(5)] by (simp_all add: mem_read_def split: if_splits)
  then have adds: "add64 (o1 + k2) n = o1 + k2 + n" "add64 (o1 + k2 + n) m = o1 + k2 + n + m"
    using assms(10) by (simp_all add: add64_small)
  have "vec_resize m [] = Inr (replicate m 0)" using assms(9) by (rule vec_resize_Nil)
  then show ?thesis
    using assms(1-8) len adds by (cases "m = 0") (simp_all add: bp_load_def Let_def)
qed

lemma bp_load_enc:
  assumes "bp_ok p" and "length (bp_enc p @ rest) < 2 ^ 63" and "bp_key p @ bp_value p @ rest \<noteq> []"
  shows "bp_load (bp_enc p @ rest) (bp [] []) = Inr (length (bp_enc p), p)"
proof -
  let ?k = "bp_key p" and ?v = "bp_value p"
  let ?a = "venc (length ?k)" and ?b = "venc (length ?v)"
  let ?data = "?a @ ?b @ ?k @ ?v @ rest"
  have data: "bp_enc p @ rest = ?data" by (simp add: bp_enc_def)
  have small: "length ?k < 2 ^ 31" "length ?v < 2 ^ 31" using assms(1) by (simp_all add: bp_ok_def)
  have r1: "vu64_read ?data = Inr (length ?k, length ?a)"
    using vu64_read_at [OF small(1), of ?data "[]"] by simp
  have r2: "vu64_read (drop (length ?a) ?data) = Inr (length ?v, length ?b)"
    using vu64_read_at [OF small(2), of ?data ?a] by simp
  have m1: "mem_read ?data (length ?a + length ?b) (length ?k) = Inr ?k"
    using mem_read_append [of "length ?a + length ?b" "?a @ ?b" "length ?k" ?k "?v @ rest"] by simp
  have m2: "mem_read ?data (length ?a + length ?b + length ?k) (length ?v) = Inr ?v"
    using mem_read_append [of "length ?a + length ?b + length ?k" "?a @ ?b @ ?k" "length ?v" ?v rest] by simp
  have sz: "vec_resize (length ?k) [] = Inr (replicate (length ?k) 0)"
    using small by (simp_all add: vec_resize_Nil)
  have len: "length ?data < 2 ^ 63" "2 \<le> length ?data"
    using assms(2) bp_enc_length [of p] unfolding data [symmetric] length_append by simp_all
  have ne: "length ?a \<noteq> length ?data" "length ?a + length ?b \<noteq> length ?data"
    using assms(3) by auto
  have "bp_load ?data (bp [] []) = Inr (length ?a + length ?b + length ?k + length ?v, bp ?k ?v)"
    by (rule bp_load_run [OF len(2) r1 r2 m1 m2 ne sz(1)])
      (use len(1) small(2) in simp_all)
  then show ?thesis unfolding data by (simp add: bp_enc_def)
qed

definition pairs_enc :: "bt_pair list \<Rightarrow> bytes" where
  "pairs_enc ps = concat (map bp_enc ps)"

lemma pairs_enc_simps [simp]:
  "pairs_enc [] = []" "pairs_enc (p # ps) = bp_enc p @ pairs_enc ps"
  by (simp_all add: pairs_enc_def)

lemma bt_store_pairs_enc: "\<forall>p\<in>set ps. bp_ok p \<Longrightarrow> bt_store_pairs ps = Inr (pairs_enc ps)"
  by (induction ps) (auto simp: bp_store_enc)

definition bt_sum :: "bt_pair list \<Rightarrow> nat" where
  "bt_sum ps = (\<Sum>p\<leftarrow>ps. bp_size p)"

lemma bt_sum_simps [simp]:
  "bt_sum [] = 0" "bt_sum (p # ps) = bp_size p + bt_sum ps" "bt_sum (ps @ qs) = bt_sum ps + bt_sum qs"
  by (simp_all add: bt_sum_def)

lemma pairs_enc_length: "\<forall>p\<in>set ps. bp_ok p \<Longrightarrow> length (pairs_enc ps) = bt_sum ps"
  by (induction ps) (auto simp: bp_size_enc)

text \<open>A last pair with neither key nor value at the very end of the data is refused.\<close>

definition bt_tail_ok :: "bt_pair list \<Rightarrow> bytes \<Rightarrow> bool" where
  "bt_tail_ok ps rest \<longleftrightarrow> ps = [] \<or> rest \<noteq> [] \<or> bp_key (last ps) \<noteq> [] \<or> bp_value (last ps) \<noteq> []"

lemma bt_load_pairs_enc:
  assumes "\<forall>p\<in>set ps. bp_ok p" and "bt_tail_ok ps rest" and "length (pre @ pairs_enc ps @ rest) < 2 ^ 63"
  shows "bt_load_pairs (length ps) (pre @ pairs_enc ps @ rest) (length pre) qs =
    Inr (qs @ ps, length pre + length (pairs_enc ps))"
  using assms
proof (induction ps arbitrary: pre qs)
  case Nil
  then show ?case by simp
next
  case (Cons p ps)
  let ?rest = "pairs_enc ps @ rest"
  have "bp_key p @ bp_value p @ ?rest \<noteq> []"
    using Cons.prems(2) bp_enc_length [of "hd ps"] by (cases ps) (auto simp: bt_tail_ok_def)
  then have "bp_load (bp_enc p @ ?rest) (bp [] []) = Inr (length (bp_enc p), p)"
    using Cons.prems(1,3) by (intro bp_load_enc) auto
  moreover have "bt_tail_ok ps rest" using Cons.prems(2) by (auto simp: bt_tail_ok_def)
  then have "bt_load_pairs (length ps) ((pre @ bp_enc p) @ ?rest) (length (pre @ bp_enc p)) (qs @ [p]) =
      Inr ((qs @ [p]) @ ps, length (pre @ bp_enc p) + length (pairs_enc ps))"
    using Cons.prems(1,3) by (intro Cons.IH) auto
  moreover have "bp_enc p \<noteq> []" using bp_enc_length [of p] by auto
  ultimately show ?case by (simp add: add.assoc)
qed

definition bt_head :: "bt_block \<Rightarrow> bytes" where
  "bt_head b = venc (bt_depth b) @ fp_bytes (bt_next b) @ fp_bytes (bt_prev b) @
     le_bytes 2 (length (bt_pairs b))"

definition bt_enc :: "bt_block \<Rightarrow> bytes" where
  "bt_enc b = bt_head b @ pairs_enc (bt_pairs b)"

definition bt_storable :: "bt_block \<Rightarrow> bool" where
  "bt_storable b \<longleftrightarrow> bt_depth b < 2 ^ 31 \<and> length (bt_pairs b) < 2 ^ 16 \<and>
     fp_ok (bt_next b) \<and> fp_ok (bt_prev b) \<and> (\<forall>p\<in>set (bt_pairs b). bp_ok p)"

lemma bt_head_length: "length (bt_head b) = vsize (bt_depth b) + 34"
  by (simp add: bt_head_def vsize_def)

lemma bt_store_enc: "bt_storable b \<Longrightarrow> bt_store b = Inr (bt_enc b)"
  by (simp add: bt_store_def bt_storable_def vu64_bytes_venc int_cast_def check_int_cast_def ct_max_def
      ct_min_def bt_store_pairs_enc bt_enc_def bt_head_def)

lemma bt_store_overflow:
  assumes "bt_depth b < 2 ^ 31" and "2 ^ 16 \<le> length (bt_pairs b)"
  shows "bt_store b = Inl Bad_cast"
  using assms by (simp add: bt_store_def vu64_bytes_venc int_cast_def check_int_cast_def ct_max_def ct_min_def)

lemma bt_load_enc:
  assumes "bt_storable b" and "bt_tail_ok (bt_pairs b) rest" and "length (bt_enc b @ rest) < 2 ^ 63"
  shows "bt_load (bt_enc b @ rest) s = Inr (length (bt_enc b),
    s\<lparr>bt_depth := bt_depth b, bt_next := bt_next b, bt_prev := bt_prev b,
      bt_pairs := bt_pairs s @ bt_pairs b, bt_used_size := length (bt_enc b)\<rparr>)"
proof -
  let ?d = "venc (bt_depth b)" and ?n = "fp_bytes (bt_next b)" and ?p = "fp_bytes (bt_prev b)"
    and ?c = "le_bytes 2 (length (bt_pairs b))" and ?ps = "pairs_enc (bt_pairs b)"
  let ?k = "vsize (bt_depth b)" and ?data = "bt_enc b @ rest"
  have data: "?data = ?d @ ?n @ ?p @ ?c @ ?ps @ rest" by (simp add: bt_enc_def bt_head_def)
  have ok: "bt_depth b < 2 ^ 31" "length (bt_pairs b) < 65536" "fp_ok (bt_next b)" "fp_ok (bt_prev b)"
    "\<forall>p\<in>set (bt_pairs b). bp_ok p" using assms(1) by (simp_all add: bt_storable_def)
  have k: "length ?d = ?k" by (simp add: vsize_def)
  have len: "?k + 34 \<le> length ?data" by (simp add: bt_enc_def bt_head_length)
  have r1: "vu64_read ?data = Inr (bt_depth b, ?k)" unfolding data by (rule vu64_read_venc [OF ok(1)])
  have r2: "fp_read ?data ?k = Inr (bt_next b)"
    unfolding data using ok(3) k by (intro fp_read_bytes) simp_all
  have r3: "fp_read ?data (?k + 16) = Inr (bt_prev b)"
    using fp_read_bytes [OF ok(4), of "?k + 16" "?d @ ?n"] k unfolding data by simp
  have r4: "mem_read ?data (?k + 32) 2 = Inr ?c"
    using mem_read_append [of "?k + 32" "?d @ ?n @ ?p" 2 ?c] k unfolding data by simp
  have c: "le_nat ?c = length (bt_pairs b)" using ok(2) by (simp add: le_nat_le_bytes)
  have r5: "bt_load_pairs (length (bt_pairs b)) ?data (?k + 34) (bt_pairs s) =
      Inr (bt_pairs s @ bt_pairs b, length (bt_enc b))"
    using bt_load_pairs_enc [OF ok(5) assms(2), of "bt_head b" "bt_pairs s"] assms(3)
    by (simp add: bt_enc_def bt_head_length)
  have "35 \<le> length ?data" using len vsize_pos [of "bt_depth b"] by linarith
  then show ?thesis using len r1 r2 r3 r4 r5 c by (simp add: bt_load_def)
qed

section \<open>The block as a finite map\<close>

definition bt_sorted :: "bt_block \<Rightarrow> bool" where
  "bt_sorted b \<longleftrightarrow> good_comparator (bt_cmp b) \<and>
     sorted_wrt (\<lambda>x y. key_less (bt_cmp b) (bp_key x) (bp_key y)) (bt_pairs b)"

definition bt_map :: "bt_block \<Rightarrow> bytes \<Rightarrow> bytes option" where
  "bt_map b = assoc bp_key bp_value (bt_pairs b)"

text \<open>\<open>usedSize_\<close> is the size of the stored block, when the depth takes one byte.\<close>

definition bt_accounted :: "bt_block \<Rightarrow> bool" where
  "bt_accounted b \<longleftrightarrow> bt_used_size b = 35 + bt_sum (bt_pairs b) \<and> bt_used_size b < 2 ^ 64"

lemma bt_sortedD:
  "bt_sorted b \<Longrightarrow> key_order (key_less (bt_cmp b))"
  "bt_sorted b \<Longrightarrow> sorted_wrt (\<lambda>x y. key_less (bt_cmp b) (bp_key x) (bp_key y)) (bt_pairs b)"
  "bt_sorted b \<Longrightarrow> key_comp (bt_cmp b) k l = 0 \<longleftrightarrow> k = l"
  "bt_sorted b \<Longrightarrow> key_comp (bt_cmp b) k l = 1 \<longleftrightarrow> key_less (bt_cmp b) l k"
  by (simp_all add: bt_sorted_def good_comparatorD)

lemma bt_find_le: "bt_find b key \<le> length (bt_pairs b)"
  by (simp add: bt_find_def)

lemma bt_hit_iff: "bt_sorted b \<Longrightarrow> bt_hit b key \<longleftrightarrow> bt_map b key \<noteq> None"
  using key_order.find_key_hit [OF bt_sortedD(1,2), of b key]
  by (auto simp: bt_hit_def bt_find_def bt_map_def assoc_None bt_sortedD(3))

lemma bt_hitD:
  assumes "bt_sorted b" and "bt_hit b key"
  shows "bt_find b key < length (bt_pairs b)" "bp_key (bt_pairs b ! bt_find b key) = key"
  using assms(2) by (simp_all add: bt_hit_def bt_sortedD(3) [OF assms(1)])

lemma bt_get_map:
  assumes "bt_sorted b"
  shows "bt_get b key = (case bt_map b key of Some v \<Rightarrow> Inr v | None \<Rightarrow> Inl Out_of_range)"
  using key_order.assoc_find_key [OF bt_sortedD(1,2) [OF assms], of bp_value key]
  by (simp add: bt_get_def bt_hit_def bt_find_def bt_map_def bt_sortedD(3) [OF assms] Let_def)

lemma bt_sum_insert: "bt_sum (insert_at i p ps) = bt_sum ps + bp_size p"
proof -
  have "bt_sum ps = bt_sum (take i ps) + bt_sum (drop i ps)" by (simp flip: bt_sum_simps(3))
  then show ?thesis by (simp add: insert_at_def)
qed

lemma bt_sum_at:
  assumes "i < length ps"
  shows "bt_sum ps = bt_sum (erase_at i ps) + bp_size (ps ! i)"
    and "bt_sum (ps[i := q]) = bt_sum (erase_at i ps) + bp_size q"
proof -
  have "bt_sum (take i ps @ ps ! i # drop (i + 1) ps) = bt_sum ps" using split_at [OF assms] by simp
  then show "bt_sum ps = bt_sum (erase_at i ps) + bp_size (ps ! i)" by (simp add: erase_at_def)
  show "bt_sum (ps[i := q]) = bt_sum (erase_at i ps) + bp_size q"
    using assms by (simp add: upd_conv_take_nth_drop erase_at_def)
qed

lemma bt_put_map:
  assumes "bt_sorted b"
  shows "bt_sorted (bt_put key val b) \<and> bt_map (bt_put key val b) = (bt_map b)(key \<mapsto> val)"
proof (cases "bt_hit b key")
  case True
  let ?x = "(bt_pairs b ! bt_find b key)\<lparr>bp_value := val\<rparr>"
  note hit = bt_hitD [OF assms True]
  have "bt_pairs (bt_put key val b) = (bt_pairs b)[bt_find b key := ?x]" "bt_cmp (bt_put key val b) = bt_cmp b"
    using True by (simp_all add: bt_put_def Let_def)
  then show ?thesis
    using key_order.replace_sorted(1) [OF bt_sortedD(1,2) [OF assms], where x = ?x]
      key_order.replace_sorted(2) [OF bt_sortedD(1,2) [OF assms], where x = ?x and val = bp_value] hit assms
    by (simp add: bt_sorted_def bt_map_def bt_find_def)
next
  case False
  then have "key \<notin> bp_key ` set (bt_pairs b)"
    using bt_hit_iff [OF assms] by (simp add: bt_map_def assoc_None)
  moreover have "bt_pairs (bt_put key val b) = insert_at (bt_find b key) (bp key val) (bt_pairs b)"
    "bt_cmp (bt_put key val b) = bt_cmp b"
    using False by (simp_all add: bt_put_def Let_def)
  ultimately show ?thesis
    using key_order.insert_sorted(1) [OF bt_sortedD(1,2) [OF assms], where x = "bp key val"]
      key_order.insert_sorted(2) [OF bt_sortedD(1,2) [OF assms], where x = "bp key val" and val = bp_value] assms
    by (simp add: bt_sorted_def bt_map_def bt_find_def)
qed

lemma bt_delete_map:
  assumes "bt_sorted b"
  shows "bt_sorted (bt_delete key b) \<and> bt_map (bt_delete key b) = (bt_map b)(key := None)"
proof (cases "bt_hit b key")
  case True
  note hit = bt_hitD [OF assms True]
  show ?thesis
    using key_order.erase_sorted(1) [OF bt_sortedD(1,2) [OF assms], where k = key]
      key_order.erase_sorted(2) [OF bt_sortedD(1,2) [OF assms], where k = key and val = bp_value] hit assms True
    by (simp add: bt_sorted_def bt_map_def bt_find_def bt_delete_def Let_def)
next
  case False
  then have "bt_map b key = None" using bt_hit_iff [OF assms] by blast
  then have "(bt_map b)(key := None) = bt_map b" by (simp add: fun_upd_idem)
  with False assms show ?thesis by (simp add: bt_delete_def Let_def)
qed

lemma bt_put_accounted:
  assumes "bt_sorted b" and "bt_accounted b" and "bt_used_size b + bp_size (bp key val) < 2 ^ 64"
  shows "bt_accounted (bt_put key val b)"
proof (cases "bt_hit b key")
  case True
  let ?i = "bt_find b key" and ?ps = "bt_pairs b"
  note hit = bt_hitD [OF assms(1) True]
  have old: "?ps ! ?i = bp key (bp_value (?ps ! ?i))" using hit(2) by simp
  have "bp_size (?ps ! ?i) \<le> bt_used_size b"
    using bt_sum_at(1) [OF hit(1)] assms(2) by (simp add: bt_accounted_def)
  then have "add64 (sub64 (bt_used_size b) (bp_size (?ps ! ?i))) (bp_size (bp key val)) =
      bt_used_size b - bp_size (?ps ! ?i) + bp_size (bp key val)"
    using assms(2,3) by (simp add: sub64_le add64_small bt_accounted_def)
  moreover have "(?ps ! ?i)\<lparr>bp_value := val\<rparr> = bp key val" using hit(2) by simp
  moreover have "bt_sum ?ps = bt_sum (erase_at ?i ?ps) + bp_size (?ps ! ?i)"
    "bt_sum (?ps[?i := bp key val]) = bt_sum (erase_at ?i ?ps) + bp_size (bp key val)"
    by (rule bt_sum_at [OF hit(1)])+
  ultimately show ?thesis
    using True assms(2,3) by (simp add: bt_put_def bt_accounted_def Let_def)
next
  case False
  then show ?thesis
    using assms(2,3) by (simp add: bt_put_def bt_accounted_def Let_def bt_sum_insert add64_small)
qed

lemma bt_delete_accounted:
  assumes "bt_accounted b"
  shows "bt_accounted (bt_delete key b)"
proof (cases "bt_hit b key")
  case True
  let ?i = "bt_find b key"
  have "?i < length (bt_pairs b)" using True by (simp add: bt_hit_def)
  from bt_sum_at(1) [OF this] show ?thesis
    using True assms by (simp add: bt_delete_def bt_accounted_def Let_def sub64_le)
qed (simp add: bt_delete_def Let_def assms)

section \<open>The child to descend to\<close>

lemma bt_fuzzing_find_spec:
  assumes "bt_sorted b" and "bt_pairs b \<noteq> []"
  shows "\<exists>i. bt_fuzzing_find b key = Inr i \<and> i < length (bt_pairs b) \<and>
    (i = 0 \<or> \<not> key_less (bt_cmp b) key (bp_key (bt_pairs b ! i))) \<and>
    (\<forall>j. i < j \<longrightarrow> j < length (bt_pairs b) \<longrightarrow> key_less (bt_cmp b) key (bp_key (bt_pairs b ! j)))"
proof -
  let ?ps = "bt_pairs b" and ?less = "key_less (bt_cmp b)" and ?l = "bt_find b key"
  let ?k = "\<lambda>i. bp_key (?ps ! i)"
  note ord = bt_sortedD(1,2) [OF assms(1)]
  have mono: "?less (?k i) (?k j)" if "i < j" "j < length ?ps" for i j
    using sorted_wrt_nth_less [OF ord(2) that] .
  have below: "?less (?k i) key" if "i < ?l" for i
  proof (rule key_order.find_key_below [OF ord])
    show "?ps ! i \<in> set (take (lower_bound (\<lambda>x. ?less (bp_key x) key) ?ps) ?ps)"
      using that bt_find_le [of b key] by (auto simp: bt_find_def in_set_conv_nth)
  qed
  have at: "?k ?l = key \<or> ?less key (?k ?l)" if "?l < length ?ps"
  proof (rule key_order.find_key_above [OF ord])
    show "?ps ! ?l \<in> set (drop (lower_bound (\<lambda>x. ?less (bp_key x) key) ?ps) ?ps)"
      using that by (metis Cons_nth_drop_Suc bt_find_def list.set_intros(1))
  qed
  have above: "?less key (?k j)" if "?l < j" "j < length ?ps" for j
    using at mono [OF that] that key_order.trans [OF ord(1)] by (metis order.strict_trans)
  have comp: "key_comp (bt_cmp b) (?k i) key = 1 \<longleftrightarrow> ?less key (?k i)" for i
    by (rule bt_sortedD(4) [OF assms(1)])
  have asym: "\<not> ?less key (?k i)" if "?less (?k i) key" for i
    using key_order.asym [OF ord(1) that] .
  consider (past) "?l = length ?ps" | (miss) "?l < length ?ps" "?less key (?k ?l)" "?l \<noteq> 0"
    | (first) "?l < length ?ps" "?l = 0" | (hit) "?l < length ?ps" "?k ?l = key"
    using at bt_find_le [of b key] by linarith
  then show ?thesis
  proof cases
    case past
    then have lt: "?l - 1 < length ?ps" "?l - 1 < ?l" using assms(2) by (cases ?ps; simp)+
    then have "bt_fuzzing_find b key = Inr (?l - 1)"
      using past assms(2) comp asym [OF below [OF lt(2)]] by (simp add: bt_fuzzing_find_def Let_def not_le)
    with past show ?thesis using assms(2) asym [OF below [of "?l - 1"]] by (intro exI [of _ "?l - 1"]) auto
  next
    case miss
    then have "bt_fuzzing_find b key = Inr (?l - 1)"
      using comp by (simp add: bt_fuzzing_find_def Let_def)
    moreover have "?less key (?k j)" if "?l - 1 < j" "j < length ?ps" for j
      using that above miss(2) by (cases "j = ?l") auto
    ultimately show ?thesis
      using miss asym [OF below [of "?l - 1"]] by (intro exI [of _ "?l - 1"]) auto
  next
    case first
    then have "bt_fuzzing_find b key = Inr 0" by (simp add: bt_fuzzing_find_def Let_def)
    with first show ?thesis using above by (intro exI [of _ 0]) auto
  next
    case hit
    have "\<not> ?less key (?k ?l)" unfolding hit(2) by (rule key_order.irrefl [OF ord(1)])
    then have "bt_fuzzing_find b key = Inr ?l"
      using hit(1) comp by (simp add: bt_fuzzing_find_def Let_def)
    with hit(1) \<open>\<not> ?less key (?k ?l)\<close> show ?thesis using above by (intro exI [of _ ?l]) auto
  qed
qed

section \<open>Splitting and combining\<close>

lemma bp_size_moved: "bp_size (bp [] []) = 2"
  by (simp add: bp_size_def varuint_size_venc venc_small)

lemma bp_size_ge: "bp_ok p \<Longrightarrow> 2 \<le> bp_size p"
  using bp_enc_length [of p] by (simp add: bp_size_enc)

lemma bt_sum_ge: "\<forall>p\<in>set ps. bp_ok p \<Longrightarrow> 2 * length ps \<le> bt_sum ps"
  by (induction ps) (use bp_size_ge in force)+

lemma bt_move_pairs_result:
  assumes "bt_used_size block + 2 * length ps < 2 ^ 64" and "2 * length ps \<le> bt_used_size b"
    and "bt_used_size b < 2 ^ 64"
  shows "bt_move_pairs ps block b =
    (block\<lparr>bt_pairs := bt_pairs block @ ps, bt_used_size := bt_used_size block + 2 * length ps\<rparr>,
     b\<lparr>bt_used_size := bt_used_size b - 2 * length ps\<rparr>)"
  using assms
proof (induction ps arbitrary: block b)
  case (Cons p ps)
  then show ?case by (simp add: bp_size_moved add64_small sub64_le Let_def)
qed simp

lemma bt_move_pairs_pairs:
  "bt_move_pairs ps block b = (block', b') \<Longrightarrow>
    bt_pairs block' = bt_pairs block @ ps \<and> bt_cmp block' = bt_cmp block \<and> bt_cmp b' = bt_cmp b \<and>
    bt_depth block' = bt_depth block \<and> bt_depth b' = bt_depth b"
  by (induction ps arbitrary: block b) (auto simp: Let_def)

lemma bt_split_pairs:
  assumes "bt_split b = (moved, kept)"
  shows "bt_pairs b = bt_pairs kept @ bt_pairs moved \<and> bt_cmp kept = bt_cmp b \<and> bt_cmp moved = bt_cmp b \<and>
    bt_depth kept = bt_depth b \<and> bt_depth moved = bt_depth b"
  using assms by (auto simp: bt_split_def bt_new_def Let_def split: if_splits prod.splits dest!: bt_move_pairs_pairs)

lemma bt_split_length:
  "bt_split b = (moved, kept) \<Longrightarrow>
    length (bt_pairs moved) = (if bt_is_atomic b then 0 else length (bt_pairs b) div 2)"
  by (auto simp: bt_split_def bt_new_def Let_def split: if_splits prod.splits dest!: bt_move_pairs_pairs)

lemma bt_put_cmp [simp]: "bt_cmp (bt_put k v b) = bt_cmp b"
  by (simp add: bt_put_def Let_def)

lemma bt_puts_map:
  assumes "bt_sorted b" and "distinct (map bp_key ps)"
  shows "bt_sorted (fold (\<lambda>p b. bt_put (bp_key p) (bp_value p) b) ps b) \<and>
    bt_map (fold (\<lambda>p b. bt_put (bp_key p) (bp_value p) b) ps b) = bt_map b ++ assoc bp_key bp_value ps"
  using assms
proof (induction ps arbitrary: b)
  case Nil
  then show ?case by simp
next
  case (Cons p ps)
  note put = bt_put_map [OF Cons.prems(1), of "bp_key p" "bp_value p"]
  have "assoc bp_key bp_value ps (bp_key p) = None"
    using Cons.prems(2) by (auto simp: assoc_None)
  then have "(bt_map b)(bp_key p \<mapsto> bp_value p) ++ assoc bp_key bp_value ps =
      bt_map b ++ assoc bp_key bp_value (p # ps)"
    by (intro ext) (auto simp: assoc_Cons map_add_def split: option.split)
  with Cons put show ?case by simp
qed

lemma bt_sorted_distinct: "bt_sorted b \<Longrightarrow> distinct (map bp_key (bt_pairs b))"
  using key_order.sorted_distinct [OF bt_sortedD(1,2)] .

section \<open>Properties\<close>

text \<open>An inner block with three children, as the tree stores them: the values are file pointers.\<close>

definition bt_example :: bt_block where
  "bt_example = (bt_new 4096)\<lparr>bt_depth := 1,
     bt_pairs := [bp [10] (replicate 16 1), bp [20] (replicate 16 2), bp [30] (replicate 16 3)],
     bt_used_size := 35 + 3 * 19\<rparr>"

lemma bt_example_ok: "bt_storable bt_example" "bt_sorted bt_example" "bt_accounted bt_example"
  by (simp_all add: bt_example_def bt_new_def bt_storable_def fp_ok_def fp_zero_def bp_ok_def bt_sorted_def
      key_less_None bt_accounted_def bp_size_def varuint_size_venc venc_small)



text \<open>C12: A sorted block is a finite map: \<open>Get\<close> and \<open>Exist\<close> answer for the map, \<open>Put\<close> updates it,
  \<open>Delete\<close> removes the key and \<open>Combine\<close> adds the pairs of another block; the order is kept, and
  \<open>usedSize_\<close> stays the size of the stored block as long as it fits 64 bits.\<close>

theorem bt_block_refines_map:
  assumes "bt_sorted b" and "bt_sorted other"
  shows "bt_get b key = (case bt_map b key of Some v \<Rightarrow> Inr v | None \<Rightarrow> Inl Out_of_range) \<and>
    (bt_exist b key = Exist \<longleftrightarrow> bt_map b key \<noteq> None) \<and>
    bt_sorted (bt_put key val b) \<and> bt_map (bt_put key val b) = (bt_map b)(key \<mapsto> val) \<and>
    bt_sorted (bt_delete key b) \<and> bt_map (bt_delete key b) = (bt_map b)(key := None) \<and>
    bt_sorted (bt_combine other b) \<and> bt_map (bt_combine other b) = bt_map b ++ bt_map other \<and>
    (bt_accounted b \<longrightarrow> bt_accounted (bt_delete key b) \<and>
      (bt_used_size b + bp_size (bp key val) < 2 ^ 64 \<longrightarrow> bt_accounted (bt_put key val b)))"
  using bt_get_map [OF assms(1)] bt_hit_iff [OF assms(1), of key] bt_put_map [OF assms(1)]
    bt_delete_map [OF assms(1)] bt_puts_map [OF assms(1) bt_sorted_distinct [OF assms(2)]]
    bt_put_accounted [OF assms(1)] bt_delete_accounted
  by (simp add: bt_exist_def bt_combine_def flip: bt_map_def)

theorem bt_block_refines_map_witness:
  "bt_map (bt_put [20] [9] bt_example) = (bt_map bt_example)([20] \<mapsto> [9]) \<and>
   bt_get bt_example [25] = Inl Out_of_range"
proof
  show "bt_map (bt_put [20] [9] bt_example) = (bt_map bt_example)([20] \<mapsto> [9])"
    using bt_block_refines_map [OF bt_example_ok(2,2), of "[20]" "[9]"] by blast
  have "bt_map bt_example [25] = None" by (simp add: bt_map_def assoc_None) (simp add: bt_example_def)
  then show "bt_get bt_example [25] = Inl Out_of_range"
    using bt_block_refines_map [OF bt_example_ok(2,2), of "[25]" "[]"] by simp
qed

text \<open>C25: The descent of the tree: on a sorted block that is not empty, \<open>FuzzingFind\<close> returns the last
  pair whose key is not greater than the key, or the first pair when every key is greater.\<close>

theorem bt_fuzzing_find_child:
  assumes "bt_sorted b" and "bt_pairs b \<noteq> []"
  shows "\<exists>i. bt_fuzzing_find b key = Inr i \<and> i < length (bt_pairs b) \<and>
    (i = 0 \<or> \<not> key_less (bt_cmp b) key (bp_key (bt_pairs b ! i))) \<and>
    (\<forall>j. i < j \<longrightarrow> j < length (bt_pairs b) \<longrightarrow> key_less (bt_cmp b) key (bp_key (bt_pairs b ! j)))"
  by (rule bt_fuzzing_find_spec [OF assms])

theorem bt_fuzzing_find_child_witness: "bt_fuzzing_find bt_example [25] = Inr 1"
proof -
  obtain i where i: "bt_fuzzing_find bt_example [25] = Inr i" "i < 3"
    "i = 0 \<or> \<not> bytes_less [25] (bp_key (bt_pairs bt_example ! i))"
    "\<forall>j. i < j \<longrightarrow> j < 3 \<longrightarrow> bytes_less [25] (bp_key (bt_pairs bt_example ! j))"
    using bt_fuzzing_find_child [OF bt_example_ok(2), of "[25]"]
    by (auto simp: bt_example_def bt_new_def key_less_None)
  have "i \<noteq> 2" using i(3) by (auto simp: bt_example_def)
  moreover have "i \<noteq> 0" using i(4) [rule_format, of 1] by (auto simp: bt_example_def)
  ultimately show ?thesis using i(1,2) by (simp add: less_Suc_eq numeral_3_eq_3)
qed

text \<open>C30: \<open>Split\<close> cuts a sorted block into two sorted halves with every key of the first below every key of
  the second, of the same depth and comparator, and \<open>Combine\<close> of the halves is the map of the block.\<close>

theorem bt_split_combine:
  assumes "bt_sorted b" and "bt_split b = (moved, kept)"
  shows "bt_pairs b = bt_pairs kept @ bt_pairs moved \<and> bt_sorted kept \<and> bt_sorted moved \<and>
    bt_depth moved = bt_depth b \<and> length (bt_pairs moved) = (if bt_is_atomic b then 0 else length (bt_pairs b) div 2) \<and>
    bt_map (bt_combine moved kept) = bt_map b"
proof -
  note parts = bt_split_pairs [OF assms(2)]
  have sorted: "bt_sorted kept" "bt_sorted moved"
    using assms(1) parts by (auto simp: bt_sorted_def sorted_wrt_append)
  have "length (bt_pairs moved) = (if bt_is_atomic b then 0 else length (bt_pairs b) div 2)"
    by (rule bt_split_length [OF assms(2)])
  moreover have "set (map bp_key (bt_pairs kept)) \<inter> set (map bp_key (bt_pairs moved)) = {}"
    using bt_sorted_distinct [OF assms(1)] parts by auto
  then have "bt_map kept ++ bt_map moved = bt_map moved ++ bt_map kept"
    by (intro map_add_comm) (auto simp: bt_map_def)
  then have "bt_map (bt_combine moved kept) = bt_map b"
    using bt_puts_map [OF sorted(1) bt_sorted_distinct [OF sorted(2)]] parts
    by (simp add: bt_combine_def bt_map_def assoc_append)
  ultimately show ?thesis using parts sorted by blast
qed

theorem bt_split_combine_witness:
  "\<exists>moved kept. bt_split bt_example = (moved, kept) \<and> length (bt_pairs moved) = 1 \<and>
    bt_map (bt_combine moved kept) = bt_map bt_example"
proof -
  obtain moved kept where split: "bt_split bt_example = (moved, kept)" by fastforce
  from bt_split_combine [OF bt_example_ok(2) split] split show ?thesis
    by (auto simp: bt_example_def bt_is_atomic_def)
qed

text \<open>\<open>Split\<close> miscounts: every moved pair is charged as two bytes, the size of the pair it has just been
  moved from. The moved block believes to be smaller than it is, so the checked \<open>StoreTo\<close> accepts a range
  that is too small and writes past its end; the block that stays believes to be larger.\<close>

theorem bt_split_miscounts:
  assumes "bt_storable b" and "bt_accounted b" and "\<not> bt_is_atomic b" and "bt_split b = (moved, kept)"
  shows "bt_used_size moved = 35 + 2 * length (bt_pairs moved) \<and>
    bt_used_size kept = 35 + bt_sum (bt_pairs kept) + (bt_sum (bt_pairs moved) - 2 * length (bt_pairs moved)) \<and>
    (bt_sum (bt_pairs moved) > 2 * length (bt_pairs moved) \<longrightarrow>
      bt_store_to moved (bt_used_size moved) = Inl Undefined)"
proof -
  let ?n = "length (bt_pairs b) - length (bt_pairs b) div 2"
  let ?ps = "drop ?n (bt_pairs b)" and ?block = "(bt_new 0)\<lparr>bt_depth := bt_depth b, bt_cmp := bt_cmp b\<rparr>"
  note parts = bt_split_pairs [OF assms(4)]
  have ok: "\<forall>p\<in>set (bt_pairs b). bp_ok p" using assms(1) by (simp add: bt_storable_def)
  have used: "bt_used_size b = 35 + bt_sum (take ?n (bt_pairs b)) + bt_sum ?ps" "bt_used_size b < 2 ^ 64"
    using assms(2) by (simp_all add: bt_accounted_def flip: bt_sum_simps(3))
  have ge: "2 * length ?ps \<le> bt_sum ?ps" using ok by (intro bt_sum_ge) (auto dest: in_set_dropD)
  have "bt_move_pairs ?ps ?block b =
      (?block\<lparr>bt_pairs := bt_pairs ?block @ ?ps, bt_used_size := bt_used_size ?block + 2 * length ?ps\<rparr>,
       b\<lparr>bt_used_size := bt_used_size b - 2 * length ?ps\<rparr>)"
    using ge used by (intro bt_move_pairs_result) (simp_all add: bt_new_def)
  then have res: "moved = ?block\<lparr>bt_pairs := ?ps, bt_used_size := 35 + 2 * length ?ps\<rparr>"
    "kept = b\<lparr>bt_used_size := bt_used_size b - 2 * length ?ps, bt_pairs := take ?n (bt_pairs b)\<rparr>"
    using assms(3,4) by (simp_all add: bt_split_def bt_new_def Let_def)
  have st: "bt_storable moved"
    using assms(1) res(1) by (auto simp: bt_storable_def bt_new_def fp_ok_def fp_zero_def dest: in_set_dropD)
  have "length (bt_enc moved) = vsize (bt_depth moved) + 34 + bt_sum (bt_pairs moved)"
    using st by (simp add: bt_enc_def bt_head_length pairs_enc_length bt_storable_def)
  moreover have "1 \<le> vsize (bt_depth moved)" using vsize_pos [of "bt_depth moved"] by linarith
  ultimately have "bt_store_to moved (bt_used_size moved) = Inl Undefined"
    if "bt_sum (bt_pairs moved) > 2 * length (bt_pairs moved)"
    using that st res(1) by (simp add: bt_store_to_def bt_store_enc)
  then show ?thesis using res ge used(1) by simp
qed

theorem bt_split_miscounts_witness:
  "\<exists>moved kept. bt_split bt_example = (moved, kept) \<and> bt_used_size moved = 37 \<and>
    bt_store_to moved 37 = Inl Undefined"
proof -
  obtain moved kept where split: "bt_split bt_example = (moved, kept)" by fastforce
  have "bt_pairs moved = [bp [30] (replicate 16 3)]"
    using split bt_split_pairs [OF split]
    by (auto simp: bt_split_def bt_is_atomic_def bt_example_def bt_new_def Let_def)
  moreover have "\<not> bt_is_atomic bt_example" by (simp add: bt_example_def bt_is_atomic_def)
  ultimately show ?thesis
    using bt_split_miscounts [OF bt_example_ok(1,3) _ split] split
    by (auto simp: bp_size_def varuint_size_venc venc_small)
qed

end
