(* ===== verification/CircleCache.thy ===== *)
theory CircleCache
  imports BufferOps "HOL-Library.Sublist"
begin

text \<open>
  The caches of the tables (\<open>include/sharpen/CircleCache.hpp\<close>,
  \<open>include/sharpen/SegmentedCircleCache.hpp\<close>): a ring of entries with a second chance each, and an
  array of such rings selected by a hash of the key. A cached object is shared and is not changed by
  the cache, so it is a value here. The locale \<open>object_cache\<close> is what the clients rely on.
\<close>

section \<open>The ring\<close>

record 'a cache_item =
  ci_key :: bytes
  ci_obj :: "'a option"
  ci_chances :: nat

record 'a circle_cache =
  cc_buf :: "'a cache_item list"
  cc_next :: nat

definition cc_new :: "nat \<Rightarrow> 'a circle_cache" where
  "cc_new n = \<lparr>cc_buf = replicate n \<lparr>ci_key = [], ci_obj = None, ci_chances = 0\<rparr>, cc_next = 0\<rparr>"

text \<open>The comparison of \<open>Find\<close>: over the characters of the searched key, and of those only.\<close>

fun cc_match :: "bytes \<Rightarrow> bytes \<Rightarrow> exn + bool" where
  "cc_match [] key = Inr True"
| "cc_match (c # cs) [] = Inl Undefined"
| "cc_match (c # cs) (d # ds) = (if c \<noteq> d then Inr False else cc_match cs ds)"

fun cc_find :: "bytes \<Rightarrow> 'a cache_item list \<Rightarrow> exn + nat" where
  "cc_find key [] = Inr 0"
| "cc_find key (x # xs) =
     (if ci_obj x = None then res_bind (cc_find key xs) (\<lambda>i. Inr (Suc i))
      else res_bind (cc_match key (ci_key x)) (\<lambda>m.
        if m then Inr 0 else res_bind (cc_find key xs) (\<lambda>i. Inr (Suc i))))"

definition cc_get :: "bytes \<Rightarrow> 'a circle_cache \<Rightarrow> exn + ('a option \<times> 'a circle_cache)" where
  "cc_get key c =
     res_bind (cc_find key (cc_buf c)) (\<lambda>i.
       if i < length (cc_buf c)
       then Inr (ci_obj (cc_buf c ! i), c\<lparr>cc_buf := (cc_buf c)[i := (cc_buf c ! i)\<lparr>ci_chances := 1\<rparr>]\<rparr>)
       else Inr (None, c))"

definition cc_delete :: "bytes \<Rightarrow> 'a circle_cache \<Rightarrow> exn + 'a circle_cache" where
  "cc_delete key c =
     res_bind (cc_find key (cc_buf c)) (\<lambda>i.
       if i < length (cc_buf c)
       then Inr (c\<lparr>cc_buf := (cc_buf c)[i := (cc_buf c ! i)\<lparr>ci_chances := 0, ci_obj := None\<rparr>]\<rparr>)
       else Inr c)"

text \<open>The loop that looks for an entry without a chance left, from \<open>next_\<close> on; \<open>next_\<close> has 64 bits.\<close>

lemma sum_list_spend:
  "i < length xs \<Longrightarrow> xs ! i \<noteq> (0 :: nat) \<Longrightarrow> sum_list (xs[i := xs ! i - 1]) < sum_list xs"
proof (induction xs arbitrary: i)
  case (Cons x xs)
  then show ?case by (cases i) auto
qed simp

function cc_evict :: "'a cache_item list \<Rightarrow> nat \<Rightarrow> 'a cache_item list \<times> nat" where
  "cc_evict buf next =
     (let i = next mod length buf in
        if buf \<noteq> [] \<and> ci_chances (buf ! i) \<noteq> 0
        then cc_evict (buf[i := (buf ! i)\<lparr>ci_chances := ci_chances (buf ! i) - 1\<rparr>]) (add64 next 1)
        else (buf, next))"
  by pat_completeness auto
termination
proof (relation "measure (\<lambda>(buf, next). sum_list (map ci_chances buf))", goal_cases)
  case 1
  then show ?case by simp
next
  case (2 buf "next" i)
  then have "i < length buf" by simp
  then have "map ci_chances (buf[i := (buf ! i)\<lparr>ci_chances := ci_chances (buf ! i) - 1\<rparr>]) =
      (map ci_chances buf)[i := map ci_chances buf ! i - 1]"
    by (simp add: map_update)
  moreover have "map ci_chances buf ! i \<noteq> 0" using 2 \<open>i < length buf\<close> by simp
  ultimately show ?case using sum_list_spend [of i "map ci_chances buf"] \<open>i < length buf\<close> by simp
qed

declare cc_evict.simps [simp del]

definition cc_get_or_emplace :: "bytes \<Rightarrow> 'a \<Rightarrow> 'a circle_cache \<Rightarrow> exn + ('a \<times> 'a circle_cache)" where
  "cc_get_or_emplace key obj c =
     res_bind (cc_get key c) (\<lambda>(r, c1).
       case r of
         Some a \<Rightarrow> Inr (a, c1)
       | None \<Rightarrow>
           if cc_buf c1 = [] then Inl Undefined
           else
             let (buf, next) = cc_evict (cc_buf c1) (cc_next c1) in
             Inr (obj, \<lparr>cc_buf = buf[next mod length buf := \<lparr>ci_key = key, ci_obj = Some obj, ci_chances = 1\<rparr>],
               cc_next = next\<rparr>))"

definition cc_clear :: "'a circle_cache \<Rightarrow> 'a circle_cache" where
  "cc_clear c = c\<lparr>cc_buf := []\<rparr>"

section \<open>The segments\<close>

text \<open>A released or moved-from cache has no segments; every access to it is undefined.\<close>

definition sc_new :: "nat \<Rightarrow> 'a circle_cache list" where
  "sc_new cache_size = (let n = cache_size div 8 in replicate (if n = 0 then 1 else n) (cc_new 8))"

definition sc_hash :: "bytes \<Rightarrow> 'a circle_cache list \<Rightarrow> nat" where
  "sc_hash key s = unat (buffer_hash32 key) mod length s"

definition sc_size :: "'a circle_cache list \<Rightarrow> nat" where
  "sc_size s = length s * 8"

definition sc_get :: "bytes \<Rightarrow> 'a circle_cache list \<Rightarrow> exn + ('a option \<times> 'a circle_cache list)" where
  "sc_get key s =
     (if s = [] then Inl Undefined
      else let i = sc_hash key s in res_bind (cc_get key (s ! i)) (\<lambda>(r, c). Inr (r, s[i := c])))"

definition sc_get_or_emplace :: "bytes \<Rightarrow> 'a \<Rightarrow> 'a circle_cache list \<Rightarrow> exn + ('a \<times> 'a circle_cache list)" where
  "sc_get_or_emplace key obj s =
     (if s = [] then Inl Undefined
      else let i = sc_hash key s in
        res_bind (cc_get_or_emplace key obj (s ! i)) (\<lambda>(a, c). Inr (a, s[i := c])))"

definition sc_delete :: "bytes \<Rightarrow> 'a circle_cache list \<Rightarrow> exn + 'a circle_cache list" where
  "sc_delete key s =
     (if s = [] then Inl Undefined
      else let i = sc_hash key s in res_bind (cc_delete key (s ! i)) (\<lambda>c. Inr (s[i := c])))"

definition sc_release :: "'a circle_cache list \<Rightarrow> 'a circle_cache list" where
  "sc_release s = []"

section \<open>The contract of a cache\<close>

text \<open>Two keys that the comparison of \<open>Find\<close> tells apart: equal, or neither a prefix of the other.\<close>

definition key_fits :: "bytes \<Rightarrow> bytes \<Rightarrow> bool" where
  "key_fits k l \<longleftrightarrow> k = l \<or> \<not> prefix k l \<and> \<not> prefix l k"

lemma key_fits_same_length: "length k = length l \<Longrightarrow> key_fits k l"
  by (auto simp: key_fits_def prefix_def)

locale object_cache =
  fixes get :: "bytes \<Rightarrow> 'c \<Rightarrow> exn + ('a option \<times> 'c)"
    and emplace :: "bytes \<Rightarrow> 'a \<Rightarrow> 'c \<Rightarrow> exn + ('a \<times> 'c)"
    and holds :: "'c \<Rightarrow> bytes \<Rightarrow> 'a \<Rightarrow> bool"
    and valid :: "'c \<Rightarrow> bool"
  assumes get_law: "valid c \<Longrightarrow> \<forall>l b. holds c l b \<longrightarrow> key_fits k l \<Longrightarrow>
      \<exists>r d. get k c = Inr (r, d) \<and> valid d \<and> (\<forall>b. r = Some b \<longrightarrow> holds c k b) \<and>
        (\<forall>l b. holds d l b \<longrightarrow> holds c l b)"
    and emplace_law: "valid c \<Longrightarrow> \<forall>l b. holds c l b \<longrightarrow> key_fits k l \<Longrightarrow>
      \<exists>r d. emplace k a c = Inr (r, d) \<and> valid d \<and> (r = a \<or> holds c k r) \<and>
        (\<forall>l b. holds d l b \<longrightarrow> holds c l b \<or> l = k \<and> b = a)"
begin

text \<open>
  A cache is coherent with a loader when every object it holds is the one the loader returns. Then
  looking a key up and loading it on a miss is the loader, and keeps the cache coherent.
\<close>

definition coherent :: "(bytes \<Rightarrow> exn + 'a) \<Rightarrow> bytes set \<Rightarrow> 'c \<Rightarrow> bool" where
  "coherent load ks c \<longleftrightarrow> valid c \<and> (\<forall>l b. holds c l b \<longrightarrow> l \<in> ks \<and> load l = Inr b)"

lemma cached_load:
  assumes "coherent load ks c" and "\<forall>l\<in>ks. key_fits k l" and "k \<in> ks"
  shows "case load k of
      Inl e \<Rightarrow> res_bind (get k c) (\<lambda>(r, c1). case r of Some b \<Rightarrow> Inr (b, c1)
        | None \<Rightarrow> res_bind (load k) (\<lambda>b. emplace k b c1)) = Inl e
    | Inr a \<Rightarrow> (\<exists>d. res_bind (get k c) (\<lambda>(r, c1). case r of Some b \<Rightarrow> Inr (b, c1)
        | None \<Rightarrow> res_bind (load k) (\<lambda>b. emplace k b c1)) = Inr (a, d) \<and> coherent load ks d)"
proof -
  have fits: "\<forall>l b. holds c l b \<longrightarrow> key_fits k l" and v: "valid c"
    using assms(1,2) by (auto simp: coherent_def)
  from get_law [OF v fits] obtain r c1 where g: "get k c = Inr (r, c1)" "valid c1"
    "\<forall>b. r = Some b \<longrightarrow> holds c k b" "\<forall>l b. holds c1 l b \<longrightarrow> holds c l b" by blast
  have c1: "coherent load ks c1" using assms(1) g(2,4) by (auto simp: coherent_def)
  show ?thesis
  proof (cases r)
    case None
    show ?thesis
    proof (cases "load k")
      case (Inl e)
      with None g(1) show ?thesis by simp
    next
      case (Inr a)
      have "\<forall>l b. holds c1 l b \<longrightarrow> key_fits k l" using fits g(4) by blast
      from emplace_law [OF g(2) this, of a] obtain b d where e: "emplace k a c1 = Inr (b, d)" "valid d"
        "b = a \<or> holds c1 k b" "\<forall>l b. holds d l b \<longrightarrow> holds c1 l b \<or> l = k \<and> b = a"
        by (elim exE conjE)
      have "b = a" using e(3) c1 Inr by (auto simp: coherent_def)
      moreover have "coherent load ks d" using e(2,4) c1 Inr assms(3) by (auto simp: coherent_def)
      ultimately show ?thesis using None g(1) e(1) Inr by simp
    qed
  next
    case (Some b)
    then have "load k = Inr b" using g(3) assms(1) by (auto simp: coherent_def)
    then show ?thesis using Some g(1) c1 by simp
  qed
qed

end

section \<open>The ring keeps the contract\<close>

definition cc_holds :: "'a circle_cache \<Rightarrow> bytes \<Rightarrow> 'a \<Rightarrow> bool" where
  "cc_holds c k a \<longleftrightarrow> (\<exists>x\<in>set (cc_buf c). ci_key x = k \<and> ci_obj x = Some a)"

definition cc_valid :: "'a circle_cache \<Rightarrow> bool" where
  "cc_valid c \<longleftrightarrow> cc_buf c \<noteq> []"

lemma cc_match_fits: "key_fits k l \<Longrightarrow> cc_match k l = Inr (k = l)"
proof (induction k l rule: cc_match.induct)
  case (3 c cs d ds)
  then have "c = d \<Longrightarrow> key_fits cs ds" by (auto simp: key_fits_def)
  with 3 show ?case by auto
qed (simp_all add: key_fits_def)

lemma cc_match_prefix: "prefix k l \<Longrightarrow> cc_match k l = Inr True"
  by (induction k l rule: cc_match.induct) auto

lemma cc_match_longer: "strict_prefix l k \<Longrightarrow> cc_match k l = Inl Undefined"
  by (induction k l rule: cc_match.induct) auto

lemma cc_find_le: "cc_find key xs = Inr i \<Longrightarrow> i \<le> length xs"
proof (induction xs arbitrary: i)
  case (Cons x xs)
  then show ?case by (auto simp: res_bind_eq_Inr split: if_splits)
qed simp

lemma cc_find_hit:
  "cc_find key xs = Inr i \<Longrightarrow> i < length xs \<Longrightarrow> ci_obj (xs ! i) \<noteq> None \<and> cc_match key (ci_key (xs ! i)) = Inr True"
proof (induction xs arbitrary: i)
  case (Cons x xs)
  then show ?case by (auto simp: res_bind_eq_Inr split: if_splits)
qed simp

lemma cc_find_before:
  "cc_find key xs = Inr i \<Longrightarrow> j < i \<Longrightarrow> ci_obj (xs ! j) = None \<or> cc_match key (ci_key (xs ! j)) = Inr False"
proof (induction xs arbitrary: i j)
  case (Cons x xs)
  then show ?case by (cases j) (auto simp: res_bind_eq_Inr split: if_splits)
qed simp

lemma cc_find_total:
  "\<forall>x\<in>set xs. ci_obj x \<noteq> None \<longrightarrow> key_fits key (ci_key x) \<Longrightarrow> \<exists>i. cc_find key xs = Inr i"
  by (induction xs) (auto simp: cc_match_fits)

text \<open>The first entry that matches, when nothing before it does.\<close>

lemma cc_find_first:
  assumes "i < length xs" and "ci_obj (xs ! i) \<noteq> None" and "cc_match key (ci_key (xs ! i)) = Inr True"
    and "\<forall>j<i. ci_obj (xs ! j) = None \<or> cc_match key (ci_key (xs ! j)) = Inr False"
  shows "cc_find key xs = Inr i"
  using assms
proof (induction xs arbitrary: i)
  case (Cons x xs)
  show ?case
  proof (cases i)
    case 0
    with Cons.prems show ?thesis by auto
  next
    case (Suc j)
    have "cc_find key xs = Inr j" using Cons.prems Suc by (intro Cons.IH) (auto dest: spec [of _ "Suc _"])
    moreover have "ci_obj x = None \<or> cc_match key (ci_key x) = Inr False"
      using Cons.prems(4) Suc by (auto dest: spec [of _ 0])
    ultimately show ?thesis using Suc by auto
  qed
qed simp

text \<open>The eviction only spends chances, and ends at an entry without one.\<close>

abbreviation ci_entry :: "'a cache_item \<Rightarrow> bytes \<times> 'a option" where
  "ci_entry x \<equiv> (ci_key x, ci_obj x)"

lemma cc_evict_step:
  "buf \<noteq> [] \<Longrightarrow> ci_chances (buf ! (n mod length buf)) \<noteq> 0 \<Longrightarrow>
   cc_evict buf n = cc_evict (buf[n mod length buf :=
     (buf ! (n mod length buf))\<lparr>ci_chances := ci_chances (buf ! (n mod length buf)) - 1\<rparr>]) (add64 n 1)"
  by (simp add: cc_evict.simps [of buf n] Let_def)

lemma cc_evict_stop: "buf = [] \<or> ci_chances (buf ! (n mod length buf)) = 0 \<Longrightarrow> cc_evict buf n = (buf, n)"
  by (auto simp: cc_evict.simps [of buf n] Let_def)

lemma map_entry_spend:
  "map ci_entry (buf[i := (buf ! i)\<lparr>ci_chances := m\<rparr>]) = map ci_entry buf"
  by (cases "i < length buf") (simp_all add: map_update list_update_same_conv list_update_beyond not_less)

lemma cc_evict_entries: "cc_evict buf n = (buf', n') \<Longrightarrow> map ci_entry buf' = map ci_entry buf"
proof (induction buf n arbitrary: buf' n' rule: cc_evict.induct)
  case (1 buf n)
  show ?case
  proof (cases "buf \<noteq> [] \<and> ci_chances (buf ! (n mod length buf)) \<noteq> 0")
    case True
    with 1 show ?thesis by (simp add: cc_evict_step map_entry_spend)
  next
    case False
    then have "buf = [] \<or> ci_chances (buf ! (n mod length buf)) = 0" by blast
    then show ?thesis using 1(2) cc_evict_stop [of buf n] by simp
  qed
qed

lemma cc_evict_length: "cc_evict buf n = (buf', n') \<Longrightarrow> length buf' = length buf"
  using cc_evict_entries [THEN arg_cong [of _ _ length]] by simp

lemma cc_evict_spent:
  "cc_evict buf n = (buf', n') \<Longrightarrow> buf \<noteq> [] \<Longrightarrow> ci_chances (buf' ! (n' mod length buf')) = 0"
proof (induction buf n arbitrary: buf' n' rule: cc_evict.induct)
  case (1 buf n)
  show ?case
  proof (cases "ci_chances (buf ! (n mod length buf)) \<noteq> 0")
    case True
    with 1(1) [OF refl, of buf' n'] 1(2,3) show ?thesis by (simp add: cc_evict_step)
  next
    case False
    then show ?thesis using 1(2) cc_evict_stop [of buf n] by auto
  qed
qed

lemma map_entry_nth:
  assumes "map ci_entry ys = map ci_entry xs" and "i < length xs"
  shows "ci_entry (ys ! i) = ci_entry (xs ! i)"
proof -
  have "length ys = length xs" using assms(1) by (rule map_eq_imp_length_eq)
  then have "map ci_entry ys ! i = ci_entry (ys ! i)" using assms(2) by (intro nth_map) simp
  moreover have "map ci_entry xs ! i = ci_entry (xs ! i)" using assms(2) by (rule nth_map)
  ultimately show ?thesis using assms(1) by simp
qed

lemma cc_holds_entries: "cc_holds c k a \<longleftrightarrow> (k, Some a) \<in> set (map ci_entry (cc_buf c))"
  by (auto simp: cc_holds_def)

lemma cc_get_Inr:
  assumes "cc_get k c = Inr (r, d)"
  shows "map ci_entry (cc_buf d) = map ci_entry (cc_buf c) \<and> cc_next d = cc_next c \<and>
    (\<exists>i. cc_find k (cc_buf c) = Inr i \<and> i \<le> length (cc_buf c) \<and>
      (case r of None \<Rightarrow> i = length (cc_buf c) \<and> d = c
       | Some a \<Rightarrow> i < length (cc_buf c) \<and> ci_obj (cc_buf c ! i) = Some a))"
proof -
  from assms obtain i where i: "cc_find k (cc_buf c) = Inr i" by (auto simp: cc_get_def res_bind_eq_Inr)
  show ?thesis
  proof (cases "i < length (cc_buf c)")
    case True
    then obtain a where a: "ci_obj (cc_buf c ! i) = Some a" using cc_find_hit [OF i] by auto
    then have "r = Some a" "d = c\<lparr>cc_buf := (cc_buf c)[i := (cc_buf c ! i)\<lparr>ci_chances := 1\<rparr>]\<rparr>"
      using assms i True by (simp_all add: cc_get_def)
    then show ?thesis using i True a by (simp add: map_entry_spend del: One_nat_def)
  next
    case False
    then show ?thesis using assms i cc_find_le [OF i] by (auto simp: cc_get_def)
  qed
qed

lemma cc_get_total:
  assumes "\<forall>l b. cc_holds c l b \<longrightarrow> key_fits k l"
  obtains r d where "cc_get k c = Inr (r, d)"
proof -
  have "\<exists>i. cc_find k (cc_buf c) = Inr i"
    using assms by (intro cc_find_total) (auto simp: cc_holds_def)
  then have "\<exists>r d. cc_get k c = Inr (r, d)" by (auto simp: cc_get_def)
  then show thesis using that by blast
qed

lemma cc_get_law:
  assumes "cc_valid c" and "\<forall>l b. cc_holds c l b \<longrightarrow> key_fits k l"
  shows "\<exists>r d. cc_get k c = Inr (r, d) \<and> cc_valid d \<and> (\<forall>b. r = Some b \<longrightarrow> cc_holds c k b) \<and>
    (\<forall>l b. cc_holds d l b \<longrightarrow> cc_holds c l b)"
proof -
  obtain r d where g: "cc_get k c = Inr (r, d)" using cc_get_total [OF assms(2)] .
  from cc_get_Inr [OF g] obtain i where i: "map ci_entry (cc_buf d) = map ci_entry (cc_buf c)"
    "cc_find k (cc_buf c) = Inr i"
    "\<forall>a. r = Some a \<longrightarrow> i < length (cc_buf c) \<and> ci_obj (cc_buf c ! i) = Some a" by (auto split: option.splits)
  have "cc_holds c k b" if "r = Some b" for b
  proof -
    have x: "i < length (cc_buf c)" "ci_obj (cc_buf c ! i) = Some b" using i(3) that by auto
    then have "cc_holds c (ci_key (cc_buf c ! i)) b" by (auto simp: cc_holds_def)
    then have "k = ci_key (cc_buf c ! i)"
      using assms(2) cc_find_hit [OF i(2) x(1)] cc_match_fits by fastforce
    with x show ?thesis by (auto simp: cc_holds_def)
  qed
  moreover have "cc_buf d \<noteq> []" using i(1) assms(1) by (metis cc_valid_def map_is_Nil_conv)
  moreover have "\<forall>l b. cc_holds d l b \<longrightarrow> cc_holds c l b" unfolding cc_holds_entries i(1) by blast
  ultimately show ?thesis using g by (auto simp: cc_valid_def)
qed

text \<open>An insertion keeps every entry but one and adds the new one.\<close>

lemma cc_emplace_Inr:
  assumes "cc_get_or_emplace k a c = Inr (r, d)"
  shows "\<exists>q c1. cc_get k c = Inr (q, c1) \<and>
    (case q of Some b \<Rightarrow> r = b \<and> d = c1
     | None \<Rightarrow> r = a \<and> cc_buf c \<noteq> [] \<and> (\<exists>buf n. cc_evict (cc_buf c) (cc_next c) = (buf, n) \<and> cc_next d = n \<and>
         length buf = length (cc_buf c) \<and>
         cc_buf d = buf[n mod length buf := \<lparr>ci_key = k, ci_obj = Some a, ci_chances = 1\<rparr>] \<and>
         map ci_entry buf = map ci_entry (cc_buf c)))"
proof -
  from assms obtain q c1 where q: "cc_get k c = Inr (q, c1)" by (auto simp: cc_get_or_emplace_def res_bind_eq_Inr)
  show ?thesis
  proof (cases q)
    case None
    then have "c1 = c" using cc_get_Inr [OF q] by auto
    obtain buf n where e: "cc_evict (cc_buf c) (cc_next c) = (buf, n)" by fastforce
    show ?thesis
      using assms q None \<open>c1 = c\<close> e cc_evict_entries [OF e] cc_evict_length [OF e]
      by (auto simp: cc_get_or_emplace_def Let_def split: if_splits)
  next
    case (Some b)
    then show ?thesis using assms q by (auto simp: cc_get_or_emplace_def)
  qed
qed

lemma cc_emplace_total:
  assumes "cc_valid c" and "\<forall>l b. cc_holds c l b \<longrightarrow> key_fits k l"
  obtains r d where "cc_get_or_emplace k a c = Inr (r, d)"
proof -
  from cc_get_law [OF assms] obtain q c1 where q: "cc_get k c = Inr (q, c1)" "cc_buf c1 \<noteq> []"
    by (auto simp: cc_valid_def)
  then have "\<exists>r d. cc_get_or_emplace k a c = Inr (r, d)"
    by (auto simp: cc_get_or_emplace_def split: option.split prod.split)
  then show thesis using that by blast
qed

lemma cc_emplace_law:
  assumes "cc_valid c" and "\<forall>l b. cc_holds c l b \<longrightarrow> key_fits k l"
  shows "\<exists>r d. cc_get_or_emplace k a c = Inr (r, d) \<and> cc_valid d \<and> (r = a \<or> cc_holds c k r) \<and>
    (\<forall>l b. cc_holds d l b \<longrightarrow> cc_holds c l b \<or> l = k \<and> b = a)"
proof -
  obtain r d where e: "cc_get_or_emplace k a c = Inr (r, d)" using cc_emplace_total [OF assms] .
  from cc_emplace_Inr [OF e] obtain q c1 where q: "cc_get k c = Inr (q, c1)"
    "case q of Some b \<Rightarrow> r = b \<and> d = c1
     | None \<Rightarrow> r = a \<and> cc_buf c \<noteq> [] \<and> (\<exists>buf n. cc_evict (cc_buf c) (cc_next c) = (buf, n) \<and> cc_next d = n \<and>
         length buf = length (cc_buf c) \<and>
         cc_buf d = buf[n mod length buf := \<lparr>ci_key = k, ci_obj = Some a, ci_chances = 1\<rparr>] \<and>
         map ci_entry buf = map ci_entry (cc_buf c))" by blast
  show ?thesis
  proof (cases q)
    case (Some b)
    with q cc_get_law [OF assms] e show ?thesis by auto
  next
    case None
    with q(2) obtain buf n where b: "r = a" "cc_buf c \<noteq> []" "length buf = length (cc_buf c)"
      "cc_buf d = buf[n mod length buf := \<lparr>ci_key = k, ci_obj = Some a, ci_chances = 1\<rparr>]"
      "map ci_entry buf = map ci_entry (cc_buf c)" by auto
    have "map ci_entry (cc_buf d) = (map ci_entry (cc_buf c))[n mod length buf := (k, Some a)]"
      using b(4,5) by (simp add: map_update)
    then have "cc_holds c l x \<or> l = k \<and> x = a" if "cc_holds d l x" for l x
      using that set_update_subset_insert [of "map ci_entry (cc_buf c)" "n mod length buf" "(k, Some a)"]
      unfolding cc_holds_entries by auto
    moreover have "cc_valid d" using b by (auto simp: cc_valid_def)
    ultimately show ?thesis using e b(1) by blast
  qed
qed

interpretation ring: object_cache cc_get cc_get_or_emplace cc_holds cc_valid
  by unfold_locales (rule cc_get_law cc_emplace_law; assumption)+

section \<open>The segments keep the contract\<close>

definition sc_holds :: "'a circle_cache list \<Rightarrow> bytes \<Rightarrow> 'a \<Rightarrow> bool" where
  "sc_holds s k a \<longleftrightarrow> (\<exists>c\<in>set s. cc_holds c k a)"

definition sc_valid :: "'a circle_cache list \<Rightarrow> bool" where
  "sc_valid s \<longleftrightarrow> s \<noteq> [] \<and> (\<forall>c\<in>set s. cc_valid c)"

lemma sc_hash_less: "s \<noteq> [] \<Longrightarrow> sc_hash k s < length s"
  by (simp add: sc_hash_def)

lemma sc_get_law:
  assumes "sc_valid s" and "\<forall>l b. sc_holds s l b \<longrightarrow> key_fits k l"
  shows "\<exists>r t. sc_get k s = Inr (r, t) \<and> sc_valid t \<and> (\<forall>b. r = Some b \<longrightarrow> sc_holds s k b) \<and>
    (\<forall>l b. sc_holds t l b \<longrightarrow> sc_holds s l b)"
proof -
  have i: "s ! sc_hash k s \<in> set s" using assms(1) sc_hash_less [of s k] by (auto simp: sc_valid_def)
  then have v: "cc_valid (s ! sc_hash k s)" "\<forall>l b. cc_holds (s ! sc_hash k s) l b \<longrightarrow> key_fits k l"
    using assms by (auto simp: sc_valid_def sc_holds_def)
  from cc_get_law [OF v] obtain r d where d: "cc_get k (s ! sc_hash k s) = Inr (r, d)" "cc_valid d"
    "\<forall>b. r = Some b \<longrightarrow> cc_holds (s ! sc_hash k s) k b" "\<forall>l b. cc_holds d l b \<longrightarrow> cc_holds (s ! sc_hash k s) l b"
    by (elim exE conjE)
  then show ?thesis
    using assms(1) i set_update_subset_insert [of s "sc_hash k s" d]
    by (fastforce simp: sc_get_def sc_valid_def sc_holds_def Let_def)
qed

lemma sc_emplace_law:
  assumes "sc_valid s" and "\<forall>l b. sc_holds s l b \<longrightarrow> key_fits k l"
  shows "\<exists>r t. sc_get_or_emplace k a s = Inr (r, t) \<and> sc_valid t \<and> (r = a \<or> sc_holds s k r) \<and>
    (\<forall>l b. sc_holds t l b \<longrightarrow> sc_holds s l b \<or> l = k \<and> b = a)"
proof -
  have i: "s ! sc_hash k s \<in> set s" using assms(1) sc_hash_less [of s k] by (auto simp: sc_valid_def)
  then have v: "cc_valid (s ! sc_hash k s)" "\<forall>l b. cc_holds (s ! sc_hash k s) l b \<longrightarrow> key_fits k l"
    using assms by (auto simp: sc_valid_def sc_holds_def)
  from cc_emplace_law [OF v, of a] obtain r d where d: "cc_get_or_emplace k a (s ! sc_hash k s) = Inr (r, d)"
    "cc_valid d" "r = a \<or> cc_holds (s ! sc_hash k s) k r"
    "\<forall>l b. cc_holds d l b \<longrightarrow> cc_holds (s ! sc_hash k s) l b \<or> l = k \<and> b = a" by (elim exE conjE)
  then show ?thesis
    using assms(1) i set_update_subset_insert [of s "sc_hash k s" d]
    by (fastforce simp: sc_get_or_emplace_def sc_valid_def sc_holds_def Let_def)
qed

interpretation segments: object_cache sc_get sc_get_or_emplace sc_holds sc_valid
  by unfold_locales (rule sc_get_law sc_emplace_law; assumption)+

lemma sc_new_valid [simp]: "sc_valid (sc_new n)"
  by (auto simp: sc_valid_def sc_new_def cc_valid_def cc_new_def Let_def)

lemma sc_new_empty [simp]: "\<not> sc_holds (sc_new n) k a"
  by (auto simp: sc_holds_def sc_new_def cc_holds_def cc_new_def Let_def split: if_splits)

section \<open>The second chance\<close>

text \<open>
  While \<open>next_\<close> does not wrap, the eviction goes once around the ring: it stops at the first entry that
  had no chance left when it started.
\<close>

lemma ring_mod_less:
  assumes "i < m" and "m \<le> i + n" and "(i :: nat) mod n = j" and "j = m mod n"
  shows "m = i + n"
proof -
  have "n dvd m - i" using assms by (metis less_imp_le mod_eq_dvd_iff_nat)
  then have "n \<le> m - i" using assms(1) by (intro dvd_imp_le) simp_all
  then show ?thesis using assms(1,2) by simp
qed

lemma cc_evict_first_spent:
  assumes "m < n + length buf" and "n \<le> m" and "ci_chances (buf ! (m mod length buf)) = 0"
    and "\<forall>l. n \<le> l \<longrightarrow> l < m \<longrightarrow> ci_chances (buf ! (l mod length buf)) \<noteq> 0" and "m < 2 ^ 64"
  shows "\<exists>buf'. cc_evict buf n = (buf', m)"
  using assms
proof (induction buf n rule: cc_evict.induct)
  case (1 buf n)
  show ?case
  proof (cases "n = m")
    case True
    then show ?thesis using 1(4) cc_evict_stop [of buf n] by auto
  next
    case False
    let ?i = "n mod length buf"
    let ?buf = "buf[?i := (buf ! ?i)\<lparr>ci_chances := ci_chances (buf ! ?i) - 1\<rparr>]"
    have lt: "n < m" using False 1(3) by simp
    then have ne: "buf \<noteq> []" "ci_chances (buf ! ?i) \<noteq> 0" using 1(2,5) by auto
    have add: "add64 n 1 = n + 1" using lt 1(6) by (simp add: add64_small)
    have other: "?buf ! (l mod length buf) = buf ! (l mod length buf)" if "n < l" "l \<le> m" for l
    proof -
      have "l mod length buf \<noteq> ?i" using that 1(2) ring_mod_less [of n l "length buf"] by auto
      then show ?thesis by simp
    qed
    have "\<exists>buf'. cc_evict ?buf (n + 1) = (buf', m)"
    proof (rule 1(1) [OF refl, unfolded add])
      show "buf \<noteq> [] \<and> ci_chances (buf ! ?i) \<noteq> 0" using ne by blast
      show "ci_chances (?buf ! (m mod length ?buf)) = 0" using other [of m] lt 1(4) by simp
      show "\<forall>l. n + 1 \<le> l \<longrightarrow> l < m \<longrightarrow> ci_chances (?buf ! (l mod length ?buf)) \<noteq> 0"
        using other 1(5) lt by simp
    qed (use lt 1(2,6) in simp_all)
    then show ?thesis using cc_evict_step [OF ne] add by simp
  qed
qed

lemma cc_evict_spares:
  assumes "j < length buf" and "ci_chances (buf ! j) = 0" and "n + length buf < 2 ^ 64"
    and "cc_evict buf n = (buf', n')"
  shows "ci_chances (buf ! (n' mod length buf)) = 0 \<and> length buf' = length buf"
proof -
  let ?P = "\<lambda>m. n \<le> m \<and> ci_chances (buf ! (m mod length buf)) = 0"
  have "\<exists>m. ?P m \<and> m < n + length buf"
  proof (cases "n mod length buf \<le> j")
    case True
    let ?m = "n + (j - n mod length buf)"
    have "?m mod length buf = (n mod length buf + (j - n mod length buf)) mod length buf"
      by (simp only: mod_add_left_eq)
    then have "?m mod length buf = j" using True assms(1) by simp
    then show ?thesis using assms(1,2) by (intro exI [of _ ?m]) auto
  next
    case False
    let ?m = "n + (length buf + j - n mod length buf)"
    have lt: "n mod length buf < length buf" using assms(1) by (intro mod_less_divisor) linarith
    have "?m mod length buf = (n mod length buf + (length buf + j - n mod length buf)) mod length buf"
      by (simp only: mod_add_left_eq)
    also have "n mod length buf + (length buf + j - n mod length buf) = length buf + j" using lt by simp
    finally have "?m mod length buf = j" using assms(1) by simp
    then show ?thesis using False assms(2) lt by (intro exI [of _ ?m]) auto
  qed
  then obtain m0 where m0: "?P m0" "m0 < n + length buf" by blast
  define m where "m = (LEAST m. ?P m)"
  have m: "?P m" unfolding m_def by (rule LeastI [of ?P, OF m0(1)])
  have "m \<le> m0" unfolding m_def by (rule Least_le [of ?P, OF m0(1)])
  moreover have "ci_chances (buf ! (l mod length buf)) \<noteq> 0" if "n \<le> l" "l < m" for l
    using not_less_Least [of l ?P] that by (auto simp: m_def)
  ultimately obtain b where "cc_evict buf n = (b, m)"
    using cc_evict_first_spent [of m n buf] m m0(2) assms(3) by auto
  then have "n' = m" using assms(4) by simp
  with m show ?thesis using cc_evict_length [OF assms(4)] by simp
qed

text \<open>A ring of two entries with one object in it.\<close>

definition cc_example :: "nat circle_cache" where
  "cc_example = \<lparr>cc_buf = [\<lparr>ci_key = [1, 2], ci_obj = Some 10, ci_chances = 1\<rparr>,
     \<lparr>ci_key = [], ci_obj = None, ci_chances = 0\<rparr>], cc_next = 0\<rparr>"

lemma cc_example_emplace:
  "cc_get_or_emplace [3] 20 cc_example = Inr (20, \<lparr>cc_buf = [\<lparr>ci_key = [1, 2], ci_obj = Some 10, ci_chances = 0\<rparr>,
     \<lparr>ci_key = [3], ci_obj = Some 20, ci_chances = 1\<rparr>], cc_next = 1\<rparr>)"
  by (simp add: cc_get_or_emplace_def cc_get_def cc_example_def cc_evict.simps add64_def Let_def)

section \<open>Properties\<close>

text \<open>C24: What the cache gives out is what was put in: \<open>GetOrEmplace\<close> answers with the object it was given or
  with one it held for a key that matches, \<open>Get\<close> of the same key then answers the same, and every other
  entry afterwards was there before; an entry that still has a chance is not evicted while another entry
  has none.\<close>

theorem circle_cache_second_chance:
  assumes "cc_get_or_emplace k a c = Inr (r, d)"
  shows "(\<exists>e. cc_get k d = Inr (Some r, e)) \<and>
    (\<forall>l b. cc_holds d l b \<longrightarrow> cc_holds c l b \<or> l = k \<and> b = a) \<and>
    (\<forall>i j. i < length (cc_buf c) \<longrightarrow> ci_chances (cc_buf c ! i) \<noteq> 0 \<longrightarrow>
      j < length (cc_buf c) \<longrightarrow> ci_chances (cc_buf c ! j) = 0 \<longrightarrow> cc_next c + length (cc_buf c) < 2 ^ 64 \<longrightarrow>
      ci_entry (cc_buf d ! i) = ci_entry (cc_buf c ! i))"
proof -
  from cc_emplace_Inr [OF assms] obtain q c1 where q: "cc_get k c = Inr (q, c1)"
    "case q of Some b \<Rightarrow> r = b \<and> d = c1
     | None \<Rightarrow> r = a \<and> cc_buf c \<noteq> [] \<and> (\<exists>buf n. cc_evict (cc_buf c) (cc_next c) = (buf, n) \<and> cc_next d = n \<and>
         length buf = length (cc_buf c) \<and>
         cc_buf d = buf[n mod length buf := \<lparr>ci_key = k, ci_obj = Some a, ci_chances = 1\<rparr>] \<and>
         map ci_entry buf = map ci_entry (cc_buf c))" by blast
  from cc_get_Inr [OF q(1)] obtain i0 where i0: "map ci_entry (cc_buf c1) = map ci_entry (cc_buf c)"
    "cc_find k (cc_buf c) = Inr i0" "i0 \<le> length (cc_buf c)"
    "case q of None \<Rightarrow> i0 = length (cc_buf c) \<and> c1 = c
     | Some b \<Rightarrow> i0 < length (cc_buf c) \<and> ci_obj (cc_buf c ! i0) = Some b" by blast
  note entries = map_entry_nth
  show ?thesis
  proof (cases q)
    case (Some b)
    then have d: "r = b" "d = c1" and b: "i0 < length (cc_buf c)" "ci_obj (cc_buf c ! i0) = Some b"
      using q(2) i0(4) by simp_all
    have len: "length (cc_buf d) = length (cc_buf c)" using i0(1) d(2) map_eq_imp_length_eq by blast
    have same: "ci_entry (cc_buf d ! j) = ci_entry (cc_buf c ! j)" if "j < length (cc_buf c)" for j
      using entries [OF i0(1) that] d(2) by simp
    have "cc_find k (cc_buf d) = Inr i0"
    proof (rule cc_find_first)
      show "ci_obj (cc_buf d ! i0) \<noteq> None" using same [OF b(1)] b(2) by simp
      show "cc_match k (ci_key (cc_buf d ! i0)) = Inr True"
        using same [OF b(1)] cc_find_hit [OF i0(2) b(1)] by simp
      show "\<forall>j<i0. ci_obj (cc_buf d ! j) = None \<or> cc_match k (ci_key (cc_buf d ! j)) = Inr False"
      proof (intro allI impI)
        fix j assume j: "j < i0"
        then have "j < length (cc_buf c)" using b(1) by simp
        from same [OF this] cc_find_before [OF i0(2) j]
        show "ci_obj (cc_buf d ! j) = None \<or> cc_match k (ci_key (cc_buf d ! j)) = Inr False" by simp
      qed
    qed (use len b(1) in simp)
    then have "\<exists>e. cc_get k d = Inr (Some r, e)"
      using len b same [OF b(1)] d(1) by (simp add: cc_get_def)
    moreover have "\<forall>l b. cc_holds d l b \<longrightarrow> cc_holds c l b" unfolding d(2) cc_holds_entries i0(1) by blast
    ultimately show ?thesis using same by simp
  next
    case None
    then obtain buf n where e: "r = a" "cc_buf c \<noteq> []" "cc_evict (cc_buf c) (cc_next c) = (buf, n)"
      "length buf = length (cc_buf c)"
      "cc_buf d = buf[n mod length buf := \<lparr>ci_key = k, ci_obj = Some a, ci_chances = 1\<rparr>]"
      "map ci_entry buf = map ci_entry (cc_buf c)" using q(2) by auto
    let ?i = "n mod length buf"
    have i: "?i < length buf" using e(2,4) by (intro mod_less_divisor) simp
    have miss: "i0 = length (cc_buf c)" using None i0(4) by simp
    have new: "cc_buf d ! ?i = \<lparr>ci_key = k, ci_obj = Some a, ci_chances = 1\<rparr>" using i e(5) by simp
    have old: "ci_entry (cc_buf d ! j) = ci_entry (cc_buf c ! j)" if "j < length (cc_buf c)" "j \<noteq> ?i" for j
      using entries [OF e(6) that(1)] that(2) e(5) by simp
    have "cc_find k (cc_buf d) = Inr ?i"
    proof (rule cc_find_first)
      show "cc_match k (ci_key (cc_buf d ! ?i)) = Inr True" using new by (simp add: cc_match_prefix)
      show "\<forall>j<?i. ci_obj (cc_buf d ! j) = None \<or> cc_match k (ci_key (cc_buf d ! j)) = Inr False"
      proof (intro allI impI)
        fix j assume "j < ?i"
        then have j: "j < length (cc_buf c)" "j \<noteq> ?i" using i e(4) by auto
        show "ci_obj (cc_buf d ! j) = None \<or> cc_match k (ci_key (cc_buf d ! j)) = Inr False"
          using old [OF j] cc_find_before [OF i0(2), of j] j(1) miss by simp
      qed
    qed (use new i e(5) in simp_all)
    then have "\<exists>e. cc_get k d = Inr (Some r, e)" using new i e(1,5) by (simp add: cc_get_def)
    moreover have "cc_holds c l b \<or> l = k \<and> b = a" if "cc_holds d l b" for l b
    proof -
      have "map ci_entry (cc_buf d) = (map ci_entry (cc_buf c))[?i := (k, Some a)]"
        using e(5,6) by (simp add: map_update)
      then show ?thesis
        using that set_update_subset_insert [of "map ci_entry (cc_buf c)" ?i "(k, Some a)"]
        unfolding cc_holds_entries by auto
    qed
    moreover have "i \<noteq> ?i" if "ci_chances (cc_buf c ! i) \<noteq> 0" "j < length (cc_buf c)"
      "ci_chances (cc_buf c ! j) = 0" "cc_next c + length (cc_buf c) < 2 ^ 64" for i j
      using cc_evict_spares [OF that(2-4) e(3)] that(1) e(4) by auto
    ultimately show ?thesis using old by (intro conjI allI impI) simp_all
  qed
qed

theorem circle_cache_second_chance_witness:
  "\<exists>d. cc_get_or_emplace [3] 20 cc_example = Inr (20, d) \<and> (\<exists>e. cc_get [3] d = Inr (Some 20, e)) \<and>
    ci_entry (cc_buf d ! 0) = ([1, 2], Some 10)"
  using circle_cache_second_chance [OF cc_example_emplace] cc_example_emplace by (simp add: cc_example_def)

text \<open>The comparison looks at the searched key only: a key that is a prefix of the first cached one is
  answered with that one's object, and a key that extends it is compared beyond its end.\<close>

theorem circle_cache_prefix_hit:
  assumes "cc_buf c = x # xs" and "ci_obj x = Some a"
  shows "(prefix k (ci_key x) \<longrightarrow> (\<exists>d. cc_get k c = Inr (Some a, d))) \<and>
    (strict_prefix (ci_key x) k \<longrightarrow> cc_get k c = Inl Undefined)"
  using assms by (simp add: cc_get_def cc_match_prefix cc_match_longer)

theorem circle_cache_prefix_hit_witness:
  "(\<exists>d. cc_get [1] cc_example = Inr (Some 10, d)) \<and> cc_get [1, 2, 3] cc_example = Inl Undefined"
  using circle_cache_prefix_hit [of cc_example _ _ 10 "[1]"] circle_cache_prefix_hit [of cc_example _ _ 10 "[1, 2, 3]"]
  by (simp add: cc_example_def strict_prefix_def)

end
