(* ===== verification/SstIndex.thy ===== *)
theory SstIndex
  imports SstDataBlock FileModel
begin

text \<open>
  The index of a sorted string table: block handles and index blocks
  (\<open>include/sharpen/SstBlockHandle.hpp\<close>, \<open>SstIndexBlock\<close>), the footer (\<open>SstFooter\<close>) and the root
  (\<open>SstRoot\<close>) that is read from and written to the end of the file of the table.
\<close>

section \<open>Index blocks\<close>

record block_handle =
  bh_key :: bytes
  bh_block :: file_pointer

abbreviation bh :: "bytes \<Rightarrow> file_pointer \<Rightarrow> block_handle" where
  "bh k p \<equiv> \<lparr>bh_key = k, bh_block = p\<rparr>"

record index_block =
  ib_blocks :: "block_handle list"
  ib_cmp :: comparator

definition ib_new :: index_block where
  "ib_new = \<lparr>ib_blocks = [], ib_cmp = None\<rparr>"

text \<open>The loop of \<open>LoadFrom\<close>; the size of a key is not checked before the key is copied.\<close>

function ib_load_loop :: "bytes \<Rightarrow> block_handle list \<Rightarrow> exn + block_handle list" where
  "ib_load_loop data acc =
     (if data = [] then Inr acc
      else if length data < 16 + 8 then Inl Invalid_argument
      else
        let key_size = le_nat (take 8 data) in
        case mem_read data 8 key_size of
          Inl e \<Rightarrow> Inl e
        | Inr key \<Rightarrow>
            (if length data - (8 + key_size) < 16 then Inl Invalid_argument
             else case fp_read data (8 + key_size) of
               Inl e \<Rightarrow> Inl e
             | Inr p \<Rightarrow> ib_load_loop (drop (8 + key_size + 16) data) (acc @ [bh key p])))"
  by pat_completeness auto
termination
  by (relation "measure (\<lambda>(data, acc). length data)") auto

declare ib_load_loop.simps [simp del]

definition ib_load :: "bytes \<Rightarrow> index_block \<Rightarrow> exn + index_block" where
  "ib_load data ib = res_bind (ib_load_loop data []) (\<lambda>bs. Inr (ib\<lparr>ib_blocks := bs\<rparr>))"

definition ib_compute_size :: "index_block \<Rightarrow> nat" where
  "ib_compute_size ib = length (ib_blocks ib) * (16 + 8) + (\<Sum>b\<leftarrow>ib_blocks ib. length (bh_key b))"

definition ib_store :: "index_block \<Rightarrow> bytes" where
  "ib_store ib =
     concat (map (\<lambda>b. le_bytes 8 (length (bh_key b)) @ bh_key b @ fp_bytes (bh_block b)) (ib_blocks ib))"

definition ib_store_to :: "index_block \<Rightarrow> nat \<Rightarrow> exn + bytes" where
  "ib_store_to ib = store_checked (Inr (ib_compute_size ib)) (Inr (ib_store ib))"

definition ib_store_to_buffer :: "index_block \<Rightarrow> bytes \<Rightarrow> nat \<Rightarrow> exn + bytes" where
  "ib_store_to_buffer ib = store_extending (Inr (ib_compute_size ib)) (Inr (ib_store ib))"

definition ib_find :: "index_block \<Rightarrow> bytes \<Rightarrow> nat" where
  "ib_find ib key = lower_bound (\<lambda>b. key_less (ib_cmp ib) (bh_key b) key) (ib_blocks ib)"

definition ib_hit :: "index_block \<Rightarrow> bytes \<Rightarrow> bool" where
  "ib_hit ib key \<longleftrightarrow> ib_find ib key < length (ib_blocks ib) \<and>
     key_comp (ib_cmp ib) (bh_key (ib_blocks ib ! ib_find ib key)) key = 0"

definition ib_put :: "bytes \<Rightarrow> file_pointer \<Rightarrow> index_block \<Rightarrow> index_block" where
  "ib_put key p ib =
     (let i = ib_find ib key; bs = ib_blocks ib in
        if ib_hit ib key then ib\<lparr>ib_blocks := bs[i := (bs ! i)\<lparr>bh_block := p\<rparr>]\<rparr>
        else ib\<lparr>ib_blocks := insert_at i (bh key p) bs\<rparr>)"

definition ib_delete :: "bytes \<Rightarrow> index_block \<Rightarrow> index_block" where
  "ib_delete key ib =
     (if ib_hit ib key then ib\<lparr>ib_blocks := erase_at (ib_find ib key) (ib_blocks ib)\<rparr> else ib)"

definition ib_clear :: "index_block \<Rightarrow> index_block" where
  "ib_clear ib = ib\<lparr>ib_blocks := []\<rparr>"

section \<open>Footer and root\<close>

record footer =
  ft_index :: file_pointer
  ft_meta :: file_pointer

definition ft_load :: "bytes \<Rightarrow> exn + footer" where
  "ft_load data =
     (if length data < 32 then Inl Invalid_argument
      else res_bind (fp_read data 0) (\<lambda>i. res_bind (fp_read data 16) (\<lambda>m.
        Inr \<lparr>ft_index = i, ft_meta = m\<rparr>)))"

definition ft_bytes :: "footer \<Rightarrow> bytes" where
  "ft_bytes ft = fp_bytes (ft_index ft) @ fp_bytes (ft_meta ft)"

definition ft_store_to :: "footer \<Rightarrow> nat \<Rightarrow> exn + bytes" where
  "ft_store_to ft = store_checked (Inr 32) (Inr (ft_bytes ft))"

definition ft_store_to_buffer :: "footer \<Rightarrow> bytes \<Rightarrow> nat \<Rightarrow> exn + bytes" where
  "ft_store_to_buffer ft = store_extending (Inr 32) (Inr (ft_bytes ft))"

record sst_root =
  rt_footer :: footer
  rt_index :: index_block
  rt_meta :: index_block

text \<open>
  One of the two index blocks: the buffer is resized and filled, its CRC compared with the two bytes
  behind it. A block of size 0 is not read, and leaves what the root already has.
\<close>

definition rt_load_block :: "bytes \<Rightarrow> file_pointer \<Rightarrow> bytes \<Rightarrow> index_block \<Rightarrow> exn + (bytes \<times> index_block)" where
  "rt_load_block data p buf ib =
     (if fp_size p = 0 then Inr (buf, ib)
      else res_bind (vec_resize (fp_size p) buf) (\<lambda>buf1.
        let buf2 = read_into data (fp_offset p) buf1;
            chksum = read_into data (add64 (fp_offset p) (fp_size p)) [0, 0] in
        if le_nat chksum \<noteq> unat (crc16 buf2) then Inl Data_corruption
        else res_bind (ib_load buf2 ib) (\<lambda>ib'. Inr (buf2, ib'))))"

definition rt_load :: "bytes \<Rightarrow> sst_root \<Rightarrow> exn + sst_root" where
  "rt_load data r =
     (if length data < 32 then Inl Invalid_argument
      else
        let buf = read_into data (length data - 32) (replicate 32 0) in
        res_bind (ft_load buf) (\<lambda>ft.
          res_bind (rt_load_block data (ft_index ft) buf (rt_index r)) (\<lambda>(buf1, index).
            res_bind (rt_load_block data (ft_meta ft) buf1 (rt_meta r)) (\<lambda>(_, meta).
              Inr \<lparr>rt_footer = ft, rt_index = index, rt_meta = meta\<rparr>))))"

text \<open>
  An index block and its CRC, both inside the \<open>try\<close> block that cuts the file back to \<open>begin\<close>; the
  result is the offset behind them. The buffer of \<open>StoreTo\<close> only holds the bytes until they are written.
\<close>

definition rt_store_block :: "nat \<Rightarrow> index_block \<Rightarrow> nat \<Rightarrow> nat io" where
  "rt_store_block begin ib offset =
     (let w = ib_store ib in
        if w = [] then io_return offset
        else io_cleanup
          (io_bind (io_write offset w) (\<lambda>n.
            io_bind (io_write (offset + n) (le_bytes 2 (unat (crc16 w)))) (\<lambda>m. io_return (offset + n + m))))
          begin)"

definition rt_store :: "sst_root \<Rightarrow> nat \<Rightarrow> sst_root io" where
  "rt_store r offset =
     io_bind (rt_store_block offset (rt_meta r) offset) (\<lambda>index_offset.
       io_bind (rt_store_block offset (rt_index r) index_offset) (\<lambda>footer_offset.
         let ft = \<lparr>ft_index = \<lparr>fp_offset = index_offset, fp_size = length (ib_store (rt_index r))\<rparr>,
                   ft_meta = \<lparr>fp_offset = offset, fp_size = length (ib_store (rt_meta r))\<rparr>\<rparr> in
           io_cleanup
             (io_bind (io_write footer_offset (ft_bytes ft)) (\<lambda>_. io_return (r\<lparr>rt_footer := ft\<rparr>)))
             offset))"

section \<open>The serialized form\<close>

definition bh_ok :: "block_handle \<Rightarrow> bool" where
  "bh_ok b \<longleftrightarrow> length (bh_key b) < 2 ^ 63 \<and> fp_ok (bh_block b)"

definition bh_enc :: "block_handle \<Rightarrow> bytes" where
  "bh_enc b = le_bytes 8 (length (bh_key b)) @ bh_key b @ fp_bytes (bh_block b)"

lemma ib_store_enc: "ib_store ib = concat (map bh_enc (ib_blocks ib))"
  by (simp add: ib_store_def bh_enc_def [abs_def])

lemma bh_enc_length: "length (bh_enc b) = 24 + length (bh_key b)"
  by (simp add: bh_enc_def)

lemma ib_compute_size_enc: "ib_compute_size ib = length (ib_store ib)"
proof -
  have "length bs * 24 + (\<Sum>b\<leftarrow>bs. length (bh_key b)) = length (concat (map bh_enc bs))" for bs
    by (induction bs) (simp_all add: bh_enc_length)
  then show ?thesis by (simp add: ib_compute_size_def ib_store_enc)
qed

lemma ib_store_Nil: "ib_store ib = [] \<longleftrightarrow> ib_blocks ib = []"
  using bh_enc_length by (cases "ib_blocks ib") (auto simp: ib_store_enc dest: arg_cong [of _ _ length])

lemma ib_load_loop_step:
  assumes "24 \<le> length data" and "le_nat (take 8 data) = n" and "mem_read data 8 n = Inr k"
    and "16 \<le> length data - (8 + n)" and "fp_read data (8 + n) = Inr p"
  shows "ib_load_loop data acc = ib_load_loop (drop (8 + n + 16) data) (acc @ [bh k p])"
proof -
  have "data \<noteq> []" using assms(1) by auto
  with assms show ?thesis by (simp add: ib_load_loop.simps [of data acc] Let_def)
qed

lemma ib_load_loop_enc:
  "\<forall>b\<in>set bs. bh_ok b \<Longrightarrow> ib_load_loop (concat (map bh_enc bs)) acc = Inr (acc @ bs)"
proof (induction bs arbitrary: acc)
  case Nil
  then show ?case by (simp add: ib_load_loop.simps)
next
  case (Cons b bs)
  let ?rest = "concat (map bh_enc bs)" and ?k = "bh_key b"
  let ?data = "le_bytes 8 (length ?k) @ ?k @ fp_bytes (bh_block b) @ ?rest"
  have b: "fp_ok (bh_block b)" "length ?k < 2 ^ 63" using Cons.prems by (simp_all add: bh_ok_def)
  have data: "concat (map bh_enc (b # bs)) = ?data" by (simp add: bh_enc_def)
  have n: "le_nat (take 8 ?data) = length ?k" using b(2) by (simp add: le_nat_le_bytes)
  have m: "mem_read ?data 8 (length ?k) = Inr ?k" by (intro mem_read_append) simp_all
  have p: "fp_read ?data (8 + length ?k) = Inr (bh_block b)"
    using fp_read_bytes [OF b(1), of "8 + length ?k" "le_bytes 8 (length ?k) @ ?k"] by simp
  have "ib_load_loop ?data acc = ib_load_loop (drop (8 + length ?k + 16) ?data) (acc @ [bh ?k (bh_block b)])"
    by (rule ib_load_loop_step [OF _ n m _ p]) simp_all
  also have "drop (8 + length ?k + 16) ?data = ?rest" by simp
  also have "bh ?k (bh_block b) = b" by simp
  finally have "ib_load_loop ?data acc = ib_load_loop ?rest (acc @ [b])" .
  then show ?case unfolding data using Cons by simp
qed

lemma ib_load_enc: "\<forall>b\<in>set (ib_blocks ib). bh_ok b \<Longrightarrow> ib_load (ib_store ib) ib' = Inr (ib'\<lparr>ib_blocks := ib_blocks ib\<rparr>)"
  by (simp add: ib_load_def ib_store_enc ib_load_loop_enc)

section \<open>The root in its file\<close>

definition ib_section :: "index_block \<Rightarrow> bytes" where
  "ib_section ib = (let w = ib_store ib in if w = [] then [] else w @ le_bytes 2 (unat (crc16 w)))"

lemma rt_store_block_ok:
  "offset = length f \<Longrightarrow>
   rt_store_block beg ib offset ([], f) = (Inr (offset + length (ib_section ib)), [], f @ ib_section ib)"
  by (simp add: rt_store_block_def ib_section_def Let_def io_return_def io_cleanup_def io_bind_def io_write_end)

text \<open>The footer that \<open>StoreTo\<close> writes.\<close>

definition rt_new_footer :: "sst_root \<Rightarrow> nat \<Rightarrow> footer" where
  "rt_new_footer r offset =
     \<lparr>ft_index = \<lparr>fp_offset = offset + length (ib_section (rt_meta r)), fp_size = length (ib_store (rt_index r))\<rparr>,
      ft_meta = \<lparr>fp_offset = offset, fp_size = length (ib_store (rt_meta r))\<rparr>\<rparr>"

definition rt_sections :: "sst_root \<Rightarrow> nat \<Rightarrow> bytes" where
  "rt_sections r offset = ib_section (rt_meta r) @ ib_section (rt_index r) @ ft_bytes (rt_new_footer r offset)"

lemma rt_store_ok:
  "offset = length f \<Longrightarrow>
   rt_store r offset ([], f) = (Inr (r\<lparr>rt_footer := rt_new_footer r offset\<rparr>), [], f @ rt_sections r offset)"
  by (simp add: rt_store_def rt_store_block_ok io_bind_def rt_new_footer_def rt_sections_def io_cleanup_def
      io_write_end io_return_def Let_def)

lemma rt_load_block_section:
  assumes "p = \<lparr>fp_offset = length pre, fp_size = length (ib_store ib)\<rparr>"
    and "data = pre @ ib_section ib @ post" and "\<forall>b\<in>set (ib_blocks ib). bh_ok b" and "length data < 2 ^ 63"
    and "ib_blocks ib' = []"
  shows "\<exists>buf'. rt_load_block data p buf ib' = Inr (buf', ib'\<lparr>ib_blocks := ib_blocks ib\<rparr>)"
proof (cases "ib_store ib = []")
  case True
  then have "ib'\<lparr>ib_blocks := ib_blocks ib\<rparr> = ib'" using assms(5) by (simp add: ib_store_Nil)
  with True assms(1) show ?thesis by (simp add: rt_load_block_def)
next
  case False
  let ?w = "ib_store ib" and ?c = "le_bytes 2 (unat (crc16 (ib_store ib)))"
  let ?z = "take (length ?w) buf @ replicate (length ?w - length buf) 0"
  have data: "data = pre @ ?w @ ?c @ post" using assms(2) False by (simp add: ib_section_def Let_def)
  then have len: "length pre + length ?w + 2 \<le> length data" by simp
  have "vec_resize (length ?w) buf = Inr ?z" using len assms(4) by (simp add: vec_resize_def)
  moreover have "read_into data (length pre) ?z = ?w" unfolding data by (rule read_into_append) simp_all
  moreover have "add64 (length pre) (length ?w) = length pre + length ?w"
    using len assms(4) by (simp add: add64_small)
  moreover have "read_into ((pre @ ?w) @ ?c @ post) (length pre + length ?w) [0, 0] = ?c"
    by (rule read_into_append) simp_all
  then have "read_into data (length pre + length ?w) [0, 0] = ?c" unfolding data by simp
  ultimately show ?thesis
    using False by (simp add: rt_load_block_def assms(1) ib_load_enc [OF assms(3)] crc16_bytes Let_def)
qed

lemma rt_load_sections:
  assumes "data = f @ rt_sections r (length f)" and "length data < 2 ^ 63"
    and "\<forall>b\<in>set (ib_blocks (rt_index r)). bh_ok b" and "\<forall>b\<in>set (ib_blocks (rt_meta r)). bh_ok b"
    and "ib_blocks (rt_index r') = []" and "ib_blocks (rt_meta r') = []"
    and "ib_cmp (rt_index r') = ib_cmp (rt_index r)" and "ib_cmp (rt_meta r') = ib_cmp (rt_meta r)"
  shows "rt_load data r' = Inr (r\<lparr>rt_footer := rt_new_footer r (length f)\<rparr>)"
proof -
  let ?ft = "rt_new_footer r (length f)" and ?m = "ib_section (rt_meta r)" and ?i = "ib_section (rt_index r)"
  have data: "data = (f @ ?m @ ?i) @ ft_bytes ?ft" "data = f @ ?m @ ?i @ ft_bytes ?ft"
    "data = (f @ ?m) @ ?i @ ft_bytes ?ft"
    by (simp_all add: assms(1) rt_sections_def)
  have sec: "length (ib_store ib) \<le> length (ib_section ib)" for ib by (simp add: ib_section_def Let_def)
  have ft: "length (ft_bytes ?ft) = 32" by (simp add: ft_bytes_def)
  then have len: "length data = length f + length ?m + length ?i + 32" by (simp add: data(1))
  have ok: "fp_ok (ft_index ?ft)" "fp_ok (ft_meta ?ft)"
    using len assms(2) sec [of "rt_index r"] sec [of "rt_meta r"] by (simp_all add: rt_new_footer_def fp_ok_def)
  have buf: "read_into data (length data - 32) (replicate 32 0) = ft_bytes ?ft"
    using read_into_append [of "length data - 32" "f @ ?m @ ?i" "replicate 32 0" "ft_bytes ?ft" "[]"] ft len
    by (simp add: data(1))
  have "ft_load (ft_bytes ?ft) = Inr ?ft"
    using fp_read_bytes [OF ok(1), of 0 "[]"] fp_read_bytes [OF ok(2), of 16 "fp_bytes (ft_index ?ft)" "[]"]
    by (simp add: ft_load_def ft_bytes_def)
  moreover obtain buf1 where "rt_load_block data (ft_index ?ft) (ft_bytes ?ft) (rt_index r') =
      Inr (buf1, (rt_index r')\<lparr>ib_blocks := ib_blocks (rt_index r)\<rparr>)"
    using rt_load_block_section [OF _ data(3) assms(3,2,5), of "ft_index ?ft" "ft_bytes ?ft"]
    by (auto simp: rt_new_footer_def)
  moreover obtain buf2 where "rt_load_block data (ft_meta ?ft) buf1 (rt_meta r') =
      Inr (buf2, (rt_meta r')\<lparr>ib_blocks := ib_blocks (rt_meta r)\<rparr>)"
    using rt_load_block_section [OF _ data(2) assms(4,2,6), of "ft_meta ?ft" buf1]
    by (auto simp: rt_new_footer_def)
  moreover have "(rt_index r')\<lparr>ib_blocks := ib_blocks (rt_index r)\<rparr> = rt_index r"
    "(rt_meta r')\<lparr>ib_blocks := ib_blocks (rt_meta r)\<rparr> = rt_meta r" using assms(7,8) by simp_all
  ultimately show ?thesis using len buf by (simp add: rt_load_def Let_def)
qed

section \<open>The index as a finite map\<close>

definition ib_wf :: "index_block \<Rightarrow> bool" where
  "ib_wf ib \<longleftrightarrow> good_comparator (ib_cmp ib) \<and>
     sorted_wrt (\<lambda>x y. key_less (ib_cmp ib) (bh_key x) (bh_key y)) (ib_blocks ib)"

definition ib_map :: "index_block \<Rightarrow> bytes \<Rightarrow> file_pointer option" where
  "ib_map ib = assoc bh_key bh_block (ib_blocks ib)"

lemma ib_wfD:
  "ib_wf ib \<Longrightarrow> key_order (key_less (ib_cmp ib))"
  "ib_wf ib \<Longrightarrow> sorted_wrt (\<lambda>x y. key_less (ib_cmp ib) (bh_key x) (bh_key y)) (ib_blocks ib)"
  "ib_wf ib \<Longrightarrow> key_comp (ib_cmp ib) k l = 0 \<longleftrightarrow> k = l"
  by (simp_all add: ib_wf_def good_comparatorD)

lemma ib_hit_iff: "ib_wf ib \<Longrightarrow> ib_hit ib key \<longleftrightarrow> ib_map ib key \<noteq> None"
  using key_order.find_key_hit [OF ib_wfD(1,2), of ib key]
  by (auto simp: ib_hit_def ib_find_def ib_map_def assoc_None ib_wfD(3))

lemma ib_hitD:
  assumes "ib_wf ib" and "ib_hit ib key"
  shows "ib_find ib key < length (ib_blocks ib)" "bh_key (ib_blocks ib ! ib_find ib key) = key"
  using assms(2) by (simp_all add: ib_hit_def ib_wfD(3) [OF assms(1)])

lemma ib_put_map:
  assumes "ib_wf ib"
  shows "ib_wf (ib_put key p ib) \<and> ib_map (ib_put key p ib) = (ib_map ib)(key \<mapsto> p)"
proof (cases "ib_hit ib key")
  case True
  let ?x = "(ib_blocks ib ! ib_find ib key)\<lparr>bh_block := p\<rparr>"
  note hit = ib_hitD [OF assms True]
  have "ib_put key p ib = ib\<lparr>ib_blocks := (ib_blocks ib)[ib_find ib key := ?x]\<rparr>"
    using True by (simp add: ib_put_def Let_def)
  then show ?thesis
    using key_order.replace_sorted(1) [OF ib_wfD(1,2) [OF assms], where x = ?x]
      key_order.replace_sorted(2) [OF ib_wfD(1,2) [OF assms], where x = ?x and val = bh_block] hit assms
    by (simp add: ib_wf_def ib_map_def ib_find_def)
next
  case False
  then have "key \<notin> bh_key ` set (ib_blocks ib)"
    using ib_hit_iff [OF assms] by (simp add: ib_map_def assoc_None)
  moreover have "ib_put key p ib = ib\<lparr>ib_blocks := insert_at (ib_find ib key) (bh key p) (ib_blocks ib)\<rparr>"
    using False by (simp add: ib_put_def Let_def)
  ultimately show ?thesis
    using key_order.insert_sorted(1) [OF ib_wfD(1,2) [OF assms], where x = "bh key p"]
      key_order.insert_sorted(2) [OF ib_wfD(1,2) [OF assms], where x = "bh key p" and val = bh_block] assms
    by (simp add: ib_wf_def ib_map_def ib_find_def)
qed

lemma ib_delete_map:
  assumes "ib_wf ib"
  shows "ib_wf (ib_delete key ib) \<and> ib_map (ib_delete key ib) = (ib_map ib)(key := None)"
proof (cases "ib_hit ib key")
  case True
  note hit = ib_hitD [OF assms True]
  show ?thesis
    using key_order.erase_sorted(1) [OF ib_wfD(1,2) [OF assms], where k = key]
      key_order.erase_sorted(2) [OF ib_wfD(1,2) [OF assms], where k = key and val = bh_block] hit assms True
    by (simp add: ib_wf_def ib_map_def ib_find_def ib_delete_def)
next
  case False
  then have "ib_map ib key = None" using ib_hit_iff [OF assms] by blast
  then have "(ib_map ib)(key := None) = ib_map ib" by (simp add: fun_upd_idem)
  with False assms show ?thesis by (simp add: ib_delete_def)
qed

text \<open>A key greater than all others is appended.\<close>

lemma ib_put_end:
  assumes "good_comparator (ib_cmp ib)" and "\<forall>b\<in>set (ib_blocks ib). key_less (ib_cmp ib) (bh_key b) key"
  shows "ib_put key p ib = ib\<lparr>ib_blocks := ib_blocks ib @ [bh key p]\<rparr>"
proof -
  have "ib_find ib key = length (ib_blocks ib)"
    using lower_bound_split [of "ib_blocks ib" "\<lambda>b. key_less (ib_cmp ib) (bh_key b) key" "[]"] assms(2)
    by (simp add: ib_find_def)
  then show ?thesis by (simp add: ib_put_def ib_hit_def Let_def insert_at_def)
qed

text \<open>A root that cannot be written completely leaves the file as it was.\<close>

lemmas io_safe_steps = io_safe_return io_safe_cleanup io_safe_write io_safe_bind [where P = "\<lambda>_. True"]

lemma rt_store_block_safe: "n \<le> offset \<Longrightarrow> io_safe n True (\<lambda>k. n \<le> k) (rt_store_block n ib offset)"
  unfolding rt_store_block_def Let_def
  by (cases "ib_store ib = []") (simp_all add: io_safe_steps)

lemma rt_store_safe: "io_safe n True (\<lambda>_. True) (rt_store r n)"
  unfolding rt_store_def Let_def
  by (intro io_safe_bind [OF rt_store_block_safe] io_safe_cleanup)
    (auto intro!: io_safe_bind [OF io_safe_write] io_safe_return)

section \<open>Properties\<close>

text \<open>The root of a table with one data block and no filter.\<close>

definition rt_new :: sst_root where
  "rt_new = \<lparr>rt_footer = \<lparr>ft_index = fp_zero, ft_meta = fp_zero\<rparr>, rt_index = ib_new, rt_meta = ib_new\<rparr>"

definition rt_example :: sst_root where
  "rt_example = rt_new\<lparr>rt_index := ib_new\<lparr>ib_blocks := [bh [7] \<lparr>fp_offset = 0, fp_size = 3\<rparr>]\<rparr>\<rparr>"

text \<open>C23: The root of a table round-trips through the file: \<open>StoreTo\<close> appends both index blocks with their
  checksums and the footer behind the blocks of the table, which stay as they are, and \<open>LoadFrom\<close> of the
  whole file rebuilds the root with the footer that \<open>StoreTo\<close> recorded.\<close>

theorem sst_root_roundtrip:
  assumes "\<forall>b\<in>set (ib_blocks (rt_index r)) \<union> set (ib_blocks (rt_meta r)). bh_ok b"
    and "rt_store r (length f) ([], f) = (res, as, f')" and "length f' < 2 ^ 63"
    and "ib_blocks (rt_index r') = []" and "ib_blocks (rt_meta r') = []"
    and "ib_cmp (rt_index r') = ib_cmp (rt_index r)" and "ib_cmp (rt_meta r') = ib_cmp (rt_meta r)"
  shows "\<exists>ft. res = Inr (r\<lparr>rt_footer := ft\<rparr>) \<and> rt_load f' r' = Inr (r\<lparr>rt_footer := ft\<rparr>) \<and> take (length f) f' = f"
proof -
  have w: "res = Inr (r\<lparr>rt_footer := rt_new_footer r (length f)\<rparr>)" "f' = f @ rt_sections r (length f)"
    using rt_store_ok [OF refl, of r f] assms(2) by simp_all
  then show ?thesis using rt_load_sections [OF w(2) assms(3) _ _ assms(4-7)] assms(1)
    by (intro exI [of _ "rt_new_footer r (length f)"]) simp
qed

theorem sst_root_roundtrip_witness:
  "\<exists>r f. rt_store rt_example 1 ([], [9]) = (Inr r, [], f) \<and> rt_load f rt_new = Inr r"
proof -
  let ?f = "[9] @ rt_sections rt_example 1"
  have w: "rt_store rt_example (length [9 :: byte]) ([], [9]) =
      (Inr (rt_example\<lparr>rt_footer := rt_new_footer rt_example 1\<rparr>), [], ?f)"
    using rt_store_ok [of 1 "[9]" rt_example] by simp
  have "length ?f < 2 ^ 63"
    by (simp add: rt_sections_def ib_section_def ib_store_def rt_example_def rt_new_def ib_new_def ft_bytes_def Let_def)
  moreover have "\<forall>b\<in>set (ib_blocks (rt_index rt_example)) \<union> set (ib_blocks (rt_meta rt_example)). bh_ok b"
    by (simp add: rt_example_def rt_new_def ib_new_def bh_ok_def fp_ok_def)
  ultimately have "rt_load ?f rt_new = Inr (rt_example\<lparr>rt_footer := rt_new_footer rt_example 1\<rparr>)"
    using sst_root_roundtrip [OF _ w, of rt_new] by (auto simp: rt_example_def rt_new_def ib_new_def)
  then show ?thesis using w by auto
qed

text \<open>C29: Writing the root is all or nothing: whatever writes the file refuses, a \<open>StoreTo\<close> that throws leaves
  exactly the blocks that were in the file.\<close>

theorem sst_root_store_atomic:
  assumes "rt_store r (length f) (as, f) = (Inl e, as', f')"
  shows "f' = f"
  using io_safeD [OF rt_store_safe order_refl assms] by simp

theorem sst_root_store_atomic_witness:
  "snd (snd (rt_store rt_example 1 ([True, False], [9]))) = [9]"
proof -
  have "rt_store rt_example (length [9 :: byte]) ([True, False], [9]) = (Inl System_error, [], [9])"
    by (simp add: rt_store_def rt_store_block_def rt_example_def rt_new_def ib_new_def ib_store_def Let_def
        io_bind_def io_return_def io_cleanup_def io_write_def io_truncate_def file_truncate_def file_write_def)
  from sst_root_store_atomic [OF this] this show ?thesis by simp
qed

text \<open>A sorted index block is a finite map from the last keys of the blocks to their places.\<close>

theorem sst_index_refines_map:
  assumes "ib_wf ib"
  shows "ib_wf (ib_put key p ib) \<and> ib_map (ib_put key p ib) = (ib_map ib)(key \<mapsto> p) \<and>
    ib_wf (ib_delete key ib) \<and> ib_map (ib_delete key ib) = (ib_map ib)(key := None) \<and>
    (ib_hit ib key \<longleftrightarrow> ib_map ib key \<noteq> None)"
  using ib_put_map [OF assms] ib_delete_map [OF assms] ib_hit_iff [OF assms] by simp

end
