(* ===== verification/SstTable.thy ===== *)
theory SstTable
  imports SstIndex CircleCache BloomFilter
begin

text \<open>
  Building and reading a sorted string table (\<open>include/sharpen/SortedStringTableBuilder.hpp\<close>,
  \<open>include/sharpen/SortedStringTable.hpp\<close> and their sources): the blocks, the Bloom filters and the root
  are written to one file, and lookups go through the index, a filter and a block, both kept in caches.
\<close>

section \<open>Writing blocks and filters\<close>

record table_build =
  tb_root :: sst_root
  tb_filters :: "bloom list"
  tb_offset :: nat

definition tb_new :: "comparator \<Rightarrow> table_build" where
  "tb_new cmp =
     \<lparr>tb_root = \<lparr>rt_footer = \<lparr>ft_index = fp_zero, ft_meta = fp_zero\<rparr>, rt_index = ib_new\<lparr>ib_cmp := cmp\<rparr>,
        rt_meta = ib_new\<lparr>ib_cmp := cmp\<rparr>\<rparr>, tb_filters = [], tb_offset = 0\<rparr>"

definition build_filter :: "data_block \<Rightarrow> nat \<Rightarrow> exn + bloom" where
  "build_filter b bits =
     res_bind (db_compute_size b) (\<lambda>n.
       Inr (fold (bf_add buffer_hash) (map kv_key (db_pairs b)) (bf_new ((n * bits) mod 2 ^ 64) bits)))"

text \<open>
  \<open>WriteBlock\<close>. The last key of a block without pairs does not exist. Storing and writing happen in a
  \<open>try\<close> block that empties the file; the buffer of \<open>StoreTo\<close> only holds the bytes until they are written.
\<close>

definition write_block :: "data_block \<Rightarrow> nat \<Rightarrow> table_build \<Rightarrow> table_build io" where
  "write_block b bits t =
     (if db_groups b = [] \<or> sg_pairs (last (db_groups b)) = [] then io_lift (Inl Undefined)
      else
        let key = db_last_key b; r = tb_root t in
        io_bind (io_lift (if bits \<noteq> 0 then res_bind (build_filter b bits) (\<lambda>f. Inr (tb_filters t @ [f]))
                          else Inr (tb_filters t))) (\<lambda>filters.
          let meta = (if bits \<noteq> 0 then ib_put key fp_zero (rt_meta r) else rt_meta r) in
          io_cleanup
            (io_bind (io_lift (db_store b)) (\<lambda>w.
              io_bind (io_write (tb_offset t) w) (\<lambda>_.
                io_return
                  (t\<lparr>tb_root := r\<lparr>rt_meta := meta,
                       rt_index := ib_put key \<lparr>fp_offset = tb_offset t, fp_size = length w\<rparr> (rt_index r)\<rparr>,
                     tb_filters := filters, tb_offset := tb_offset t + length w\<rparr>))))
            0))"

text \<open>The loop of \<open>WriteFilters\<close>, from filter \<open>i\<close> on; the entry of the meta index is read with \<open>at\<close>.\<close>

fun write_filters_from :: "nat \<Rightarrow> bloom list \<Rightarrow> table_build \<Rightarrow> table_build io" where
  "write_filters_from i [] t = io_return t"
| "write_filters_from i (f # fs) t =
     io_bind (io_lift (bf_copy_to (bf_size f) f)) (\<lambda>w.
       io_bind (io_cleanup (io_write (tb_offset t) w) 0) (\<lambda>_.
         let meta = rt_meta (tb_root t) in
           if i \<ge> length (ib_blocks meta) then io_lift (Inl Out_of_range)
           else write_filters_from (i + 1) fs
             (t\<lparr>tb_root := (tb_root t)\<lparr>rt_meta := meta\<lparr>ib_blocks := (ib_blocks meta)[i := (ib_blocks meta ! i)
                  \<lparr>bh_block := \<lparr>fp_offset = tb_offset t, fp_size = bf_size f\<rparr>\<rparr>]\<rparr>\<rparr>,
                tb_offset := tb_offset t + bf_size f\<rparr>)))"

definition write_filters :: "table_build \<Rightarrow> table_build io" where
  "write_filters t = write_filters_from 0 (tb_filters t) t"

definition load_data_block :: "bytes \<Rightarrow> file_pointer \<Rightarrow> comparator \<Rightarrow> exn + data_block" where
  "load_data_block data p cmp =
     res_bind (vec_resize (fp_size p) []) (\<lambda>buf.
       db_load (read_into data (fp_offset p) buf) (db_new\<lparr>db_cmp := cmp\<rparr>))"

definition load_filter :: "bytes \<Rightarrow> file_pointer \<Rightarrow> nat \<Rightarrow> exn + bloom" where
  "load_filter data p bits =
     res_bind (vec_resize (fp_size p) []) (\<lambda>buf. Inr (bf_from (read_into data (fp_offset p) buf) bits))"

section \<open>Dumping a memory table\<close>

text \<open>An entry of the memory table: no value means deleted.\<close>

type_synonym wal_item = "bytes \<times> bytes option"

definition put_wal_kv :: "data_block \<Rightarrow> wal_item \<Rightarrow> exn + data_block" where
  "put_wal_kv b kv = (case snd kv of Some v \<Rightarrow> db_put (fst kv) v b | None \<Rightarrow> db_delete (fst kv) b)"

definition wal_size :: "wal_item \<Rightarrow> nat" where
  "wal_size kv = length (fst kv) + (case snd kv of Some v \<Rightarrow> length v | None \<Rightarrow> 0)"

definition flush_block :: "data_block \<Rightarrow> bool \<Rightarrow> nat \<Rightarrow> table_build \<Rightarrow> table_build io" where
  "flush_block b erase bits t = write_block (if erase then db_erase_deleted b else b) bits t"

text \<open>The loop of \<open>DumpWalToTable\<close>: \<open>used\<close> is the size of the block so far.\<close>

fun dump_loop :: "nat \<Rightarrow> bool \<Rightarrow> nat \<Rightarrow> wal_item list \<Rightarrow> data_block \<Rightarrow> nat \<Rightarrow> table_build \<Rightarrow> table_build io" where
  "dump_loop block_bytes erase bits [] b used t =
     (if db_groups b \<noteq> [] then flush_block b erase bits t else io_return t)"
| "dump_loop block_bytes erase bits (kv # kvs) b used t =
     io_bind (io_lift (put_wal_kv b kv)) (\<lambda>b'.
       let used' = used + wal_size kv in
         if used' \<ge> block_bytes then
           io_bind (flush_block b' erase bits t) (\<lambda>t'.
             dump_loop block_bytes erase bits kvs (b'\<lparr>db_groups := []\<rparr>) 0 t')
         else dump_loop block_bytes erase bits kvs b' used' t)"

definition dump_wal :: "nat \<Rightarrow> wal_item list \<Rightarrow> nat \<Rightarrow> bool \<Rightarrow> comparator \<Rightarrow> sst_root io" where
  "dump_wal block_bytes kvs bits erase cmp =
     io_bind (dump_loop block_bytes erase bits kvs (db_new\<lparr>db_cmp := cmp\<rparr>) 0 (tb_new cmp)) (\<lambda>t.
       io_bind (if bits \<noteq> 0 then write_filters t else io_return t) (\<lambda>t'.
         rt_store (tb_root t') (tb_offset t')))"

section \<open>The table\<close>

record sst_table =
  st_file :: bytes
  st_root :: sst_root
  st_bits :: nat
  st_data :: "data_block circle_cache list"
  st_filters :: "bloom circle_cache list"
  st_cmp :: comparator

record sst_option =
  so_cmp :: comparator
  so_bits :: nat
  so_data_cache :: nat
  so_filter_cache :: nat

definition st_open :: "bytes \<Rightarrow> sst_option \<Rightarrow> exn + sst_table" where
  "st_open data opt =
     (let r = tb_root (tb_new (so_cmp opt)) in
        res_bind (if length data \<noteq> 0 then rt_load data r else Inr r) (\<lambda>r'.
          Inr \<lparr>st_file = data, st_root = r', st_bits = so_bits opt, st_data = sc_new (so_data_cache opt),
            st_filters = sc_new (so_filter_cache opt), st_cmp = so_cmp opt\<rparr>))"

definition st_empty :: "sst_table \<Rightarrow> bool" where
  "st_empty t \<longleftrightarrow> ib_blocks (rt_index (st_root t)) = []"

definition st_load_block :: "sst_table \<Rightarrow> file_pointer \<Rightarrow> exn + data_block" where
  "st_load_block t p = load_data_block (st_file t) p (st_cmp t)"

definition st_load_block_of :: "sst_table \<Rightarrow> bytes \<Rightarrow> exn + data_block" where
  "st_load_block_of t key =
     (let ib = rt_index (st_root t); i = ib_find ib key in
        if i = length (ib_blocks ib) then Inl Out_of_range
        else st_load_block t (bh_block (ib_blocks ib ! i)))"

definition st_load_filter_of :: "sst_table \<Rightarrow> bytes \<Rightarrow> exn + bloom" where
  "st_load_filter_of t key =
     (let ib = rt_meta (st_root t); i = ib_find ib key in
        if i = length (ib_blocks ib) then Inl Out_of_range
        else load_filter (st_file t) (bh_block (ib_blocks ib ! i)) (st_bits t))"

text \<open>The cached loads; the filters of the cache always have ten probes.\<close>

definition st_load_block_cache :: "sst_table \<Rightarrow> block_handle \<Rightarrow> exn + (data_block \<times> sst_table)" where
  "st_load_block_cache t h =
     res_bind (sc_get (bh_key h) (st_data t)) (\<lambda>(r, c).
       res_bind (case r of Some b \<Rightarrow> Inr (b, c)
         | None \<Rightarrow> res_bind (st_load_block t (bh_block h)) (\<lambda>b. sc_get_or_emplace (bh_key h) b c))
       (\<lambda>(b, c'). Inr (b, t\<lparr>st_data := c'\<rparr>)))"

definition st_load_filter_cache :: "sst_table \<Rightarrow> block_handle \<Rightarrow> exn + (bloom \<times> sst_table)" where
  "st_load_filter_cache t h =
     res_bind (sc_get (bh_key h) (st_filters t)) (\<lambda>(r, c).
       res_bind (case r of Some f \<Rightarrow> Inr (f, c)
         | None \<Rightarrow> res_bind (load_filter (st_file t) (bh_block h) 10) (\<lambda>f. sc_get_or_emplace (bh_key h) f c))
       (\<lambda>(f, c'). Inr (f, t\<lparr>st_filters := c'\<rparr>)))"

text \<open>Without caching the block is still looked for in the cache.\<close>

definition st_peek_block_cache :: "sst_table \<Rightarrow> block_handle \<Rightarrow> exn + (data_block \<times> sst_table)" where
  "st_peek_block_cache t h =
     res_bind (sc_get (bh_key h) (st_data t)) (\<lambda>(r, c).
       res_bind (case r of Some b \<Rightarrow> Inr b | None \<Rightarrow> st_load_block t (bh_block h))
       (\<lambda>b. Inr (b, t\<lparr>st_data := c\<rparr>)))"

text \<open>
  \<open>FindBlock\<close>: no block when the key is beyond the index or its filter does not know it. The state is
  returned with an exception too, for the caches keep what was loaded before it.
\<close>

definition st_find_block :: "bool \<Rightarrow> bytes \<Rightarrow> sst_table \<Rightarrow> (exn + data_block option) \<times> sst_table" where
  "st_find_block do_cache key t =
     (let meta = rt_meta (st_root t); i = ib_find meta key in
        if i = length (ib_blocks meta) then (Inr None, t)
        else case st_load_filter_cache t (ib_blocks meta ! i) of
          Inl e \<Rightarrow> (Inl e, t)
        | Inr (f, t1) \<Rightarrow>
            (if \<not> bf_contain buffer_hash key f then (Inr None, t1)
             else
               let index = rt_index (st_root t1); j = ib_find index key in
               if j = length (ib_blocks index) then (Inr None, t1)
               else case (if do_cache then st_load_block_cache else st_peek_block_cache) t1 (ib_blocks index ! j) of
                 Inl e \<Rightarrow> (Inl e, t1)
               | Inr (b, t2) \<Rightarrow> (Inr (Some b), t2)))"

definition st_find_block_from_cache :: "bytes \<Rightarrow> sst_table \<Rightarrow> exn + (data_block option \<times> sst_table)" where
  "st_find_block_from_cache key t =
     (if ib_find (rt_index (st_root t)) key = length (ib_blocks (rt_index (st_root t))) then Inr (None, t)
      else res_bind (sc_get key (st_data t)) (\<lambda>(r, c). Inr (r, t\<lparr>st_data := c\<rparr>)))"

definition st_get :: "bytes \<Rightarrow> sst_table \<Rightarrow> (exn + bytes) \<times> sst_table" where
  "st_get key t =
     (case st_find_block True key t of
        (Inl e, t') \<Rightarrow> (Inl e, t')
      | (Inr None, t') \<Rightarrow> (Inl Out_of_range, t')
      | (Inr (Some b), t') \<Rightarrow> (db_get b key, t'))"

definition st_try_get :: "bytes \<Rightarrow> sst_table \<Rightarrow> (exn + bytes option) \<times> sst_table" where
  "st_try_get key t =
     (case st_find_block True key t of
        (Inl e, t') \<Rightarrow> (Inl e, t')
      | (Inr None, t') \<Rightarrow> (Inr None, t')
      | (Inr (Some b), t') \<Rightarrow>
          (if db_exist b key = Not_exist then (Inr None, t')
           else (res_bind (db_get b key) (\<lambda>v. Inr (Some v)), t')))"

text \<open>\<open>Exist\<close> is \<open>FindBlock\<close> with caching, followed by the block's answer.\<close>

definition st_exist :: "bytes \<Rightarrow> sst_table \<Rightarrow> (exn + exist_status) \<times> sst_table" where
  "st_exist key t =
     (case st_find_block True key t of
        (Inl e, t') \<Rightarrow> (Inl e, t')
      | (Inr None, t') \<Rightarrow> (Inr Not_exist, t')
      | (Inr (Some b), t') \<Rightarrow> (Inr (db_exist b key), t'))"

definition st_scan_all :: "sst_table \<Rightarrow> file_pointer list" where
  "st_scan_all t = map bh_block (ib_blocks (rt_index (st_root t)))"

definition st_scan :: "bytes \<Rightarrow> bytes \<Rightarrow> sst_table \<Rightarrow> file_pointer list" where
  "st_scan begin_key end_key t =
     (let ib = rt_index (st_root t); i = ib_find ib begin_key; j = ib_find ib end_key in
        if i = length (ib_blocks ib) then []
        else map bh_block (take (j + 1 - i) (drop i (ib_blocks ib))))"

text \<open>\<open>Build\<close>: the file is emptied, and the number of probes becomes the one of the options.\<close>

definition st_build :: "nat \<Rightarrow> wal_item list \<Rightarrow> nat \<Rightarrow> bool \<Rightarrow> bool list \<Rightarrow> sst_table \<Rightarrow> (exn + unit) \<times> sst_table" where
  "st_build block_bytes kvs bits erase accept t =
     (case dump_wal block_bytes kvs bits erase (st_cmp t) (accept, []) of
        (Inl e, _, data) \<Rightarrow> (Inl e, t\<lparr>st_file := data\<rparr>)
      | (Inr r, _, data) \<Rightarrow> (Inr (), t\<lparr>st_file := data, st_root := r, st_bits := bits\<rparr>))"

section \<open>The blocks in the file\<close>

definition db_enc :: "data_block \<Rightarrow> bytes" where
  "db_enc b = le_bytes 2 (unat (crc16 (db_body (db_groups b)))) @ db_body (db_groups b)"

definition bs_enc :: "data_block list \<Rightarrow> bytes" where
  "bs_enc bs = concat (map db_enc bs)"

lemma bs_enc_simps [simp]:
  "bs_enc [] = []" "bs_enc (b # bs) = db_enc b @ bs_enc bs" "bs_enc (bs @ cs) = bs_enc bs @ bs_enc cs"
  by (simp_all add: bs_enc_def)

text \<open>The handles of blocks that stand one behind the other from \<open>offset\<close> on.\<close>

fun bs_handles :: "nat \<Rightarrow> data_block list \<Rightarrow> block_handle list" where
  "bs_handles offset [] = []"
| "bs_handles offset (b # bs) =
     bh (db_last_key b) \<lparr>fp_offset = offset, fp_size = length (db_enc b)\<rparr> # bs_handles (offset + length (db_enc b)) bs"

lemma bs_handles_snoc:
  "bs_handles offset (bs @ [b]) =
   bs_handles offset bs @ [bh (db_last_key b) \<lparr>fp_offset = offset + length (bs_enc bs), fp_size = length (db_enc b)\<rparr>]"
  by (induction bs arbitrary: offset) (simp_all add: add.assoc)

lemma bs_handles_keys: "map bh_key (bs_handles offset bs) = map db_last_key bs"
  by (induction bs arbitrary: offset) simp_all

lemma bs_handles_length [simp]: "length (bs_handles offset bs) = length bs"
  by (induction bs arbitrary: offset) simp_all

definition filter_of :: "nat \<Rightarrow> data_block \<Rightarrow> bloom" where
  "filter_of bits b =
     fold (bf_add buffer_hash) (map kv_key (db_pairs b)) (bf_new ((length (db_enc b) * bits) mod 2 ^ 64) bits)"

text \<open>The state of the builder when it has written \<open>bs\<close>.\<close>

definition bs_state :: "nat \<Rightarrow> data_block list \<Rightarrow> table_build" where
  "bs_state bits bs =
     \<lparr>tb_root = \<lparr>rt_footer = \<lparr>ft_index = fp_zero, ft_meta = fp_zero\<rparr>,
        rt_index = \<lparr>ib_blocks = bs_handles 0 bs, ib_cmp = None\<rparr>,
        rt_meta = \<lparr>ib_blocks = (if bits = 0 then [] else map (\<lambda>b. bh (db_last_key b) fp_zero) bs), ib_cmp = None\<rparr>\<rparr>,
      tb_filters = (if bits = 0 then [] else map (filter_of bits) bs), tb_offset = length (bs_enc bs)\<rparr>"

text \<open>A block that can be written.\<close>

definition db_full :: "data_block \<Rightarrow> bool" where
  "db_full b \<longleftrightarrow> db_built b \<and> db_groups b \<noteq> [] \<and> length (db_groups b) < 2 ^ 31"

lemma db_fullD:
  assumes "db_full b"
  shows "db_wf b" "db_cmp b = None" "db_groups b \<noteq> []" "sg_pairs (last (db_groups b)) \<noteq> []"
    "db_store b = Inr (db_enc b)" "db_compute_size b = Inr (length (db_enc b))" "db_pairs b \<noteq> []"
    "db_last_key b = kv_key (last (db_pairs b))"
proof -
  show wf: "db_wf b" "db_cmp b = None" and ne: "db_groups b \<noteq> []"
    using assms by (simp_all add: db_full_def db_built_def)
  then have shape: "\<forall>g\<in>set (db_groups b). sg_shape (sg_pairs g)" using db_wfD(4) [OF wf(1)] by blast
  then show "db_store b = Inr (db_enc b)" "db_compute_size b = Inr (length (db_enc b))"
    using assms db_store_enc db_compute_size_enc by (simp_all add: db_full_def db_enc_def)
  show last: "sg_pairs (last (db_groups b)) \<noteq> []" using db_wfD(3) [OF wf(1)] ne by simp
  obtain gs g where "db_groups b = gs @ [g]" using ne by (cases "db_groups b" rule: rev_cases) auto
  then have "db_pairs b = concat (map sg_pairs gs) @ sg_pairs (last (db_groups b))" by (simp add: db_pairs_def)
  with last show "db_pairs b \<noteq> []" "db_last_key b = kv_key (last (db_pairs b))" by simp_all
qed

lemma write_block_step:
  assumes "db_full b" and "\<forall>c\<in>set bs. bytes_less (db_last_key c) (db_last_key b)"
  shows "write_block b bits (bs_state bits bs) ([], bs_enc bs) = (Inr (bs_state bits (bs @ [b])), [], bs_enc (bs @ [b]))"
proof -
  note full = db_fullD [OF assms(1)]
  let ?t = "bs_state bits bs" and ?k = "db_last_key b"
  have less: "\<forall>h\<in>set (bs_handles 0 bs). bytes_less (bh_key h) ?k"
    using assms(2) bs_handles_keys [of 0 bs] by (metis (no_types, lifting) image_iff list.set_map)
  have index: "ib_put ?k p (rt_index (tb_root ?t)) =
      (rt_index (tb_root ?t))\<lparr>ib_blocks := bs_handles 0 bs @ [bh ?k p]\<rparr>" for p
    using ib_put_end [of "rt_index (tb_root ?t)" ?k p] less by (simp add: bs_state_def key_less_None)
  have meta: "ib_put ?k fp_zero (rt_meta (tb_root ?t)) =
      (rt_meta (tb_root ?t))\<lparr>ib_blocks := map (\<lambda>b. bh (db_last_key b) fp_zero) (bs @ [b])\<rparr>" if "bits \<noteq> 0"
    using ib_put_end [of "rt_meta (tb_root ?t)" ?k fp_zero] assms(2) that by (simp add: bs_state_def key_less_None)
  have filt: "build_filter b bits = Inr (filter_of bits b)"
    using full(6) by (simp add: build_filter_def filter_of_def)
  have written: "io_write (length (bs_enc bs)) (db_enc b) ([], bs_enc bs) =
      (Inr (length (db_enc b)), [], bs_enc bs @ db_enc b)" by (rule io_write_end) simp
  have off: "tb_offset ?t = length (bs_enc bs)" by (simp add: bs_state_def)
  show ?thesis
    using full(3,4) full(5) written index meta filt
    by (cases "bits = 0")
      (simp_all add: write_block_def Let_def off io_bind_def io_cleanup_def io_return_def io_lift_def bs_state_def
        bs_handles_snoc)
qed

section \<open>Dumping ascending entries\<close>

definition wal_kv :: "wal_item \<Rightarrow> bytes \<times> bytes" where
  "wal_kv kv = (fst kv, case snd kv of Some v \<Rightarrow> v | None \<Rightarrow> [])"

abbreviation bs_items :: "data_block list \<Rightarrow> (bytes \<times> bytes) list" where
  "bs_items bs \<equiv> concat (map db_items bs)"

abbreviation keys_ascend :: "(bytes \<times> 'a) list \<Rightarrow> bool" where
  "keys_ascend \<equiv> sorted_wrt (\<lambda>p q. bytes_less (fst p) (fst q))"

lemma put_wal_kv_put: "put_wal_kv b kv = db_put (fst (wal_kv kv)) (snd (wal_kv kv)) b"
  by (simp add: put_wal_kv_def wal_kv_def db_delete_def split: option.split)

lemma length_concat_nonempty: "\<forall>g\<in>set gs. f g \<noteq> [] \<Longrightarrow> length gs \<le> length (concat (map f gs))"
proof (induction gs)
  case (Cons g gs)
  then have "1 \<le> length (f g)" by (cases "f g") simp_all
  with Cons show ?case by simp
qed simp

lemma db_built_full:
  assumes "db_built b" and "db_pairs b \<noteq> []" and "length (db_pairs b) < 2 ^ 31"
  shows "db_full b"
proof -
  have "\<forall>g\<in>set (db_groups b). sg_pairs g \<noteq> []" using assms(1) db_wfD(3) [of b] by (simp add: db_built_def)
  then have "length (db_groups b) \<le> length (db_pairs b)" unfolding db_pairs_def by (rule length_concat_nonempty)
  with assms show ?thesis by (auto simp: db_full_def db_pairs_def)
qed

lemma db_built_empty [simp]: "db_built b \<Longrightarrow> db_built (b\<lparr>db_groups := []\<rparr>)"
  by (simp add: db_built_def db_wf_def db_pairs_def)

lemma last_key_item: "db_full b \<Longrightarrow> (db_last_key b, kv_value (last (db_pairs b))) \<in> set (db_items b)"
  using db_fullD(7,8) [of b] last_in_set [of "db_pairs b"] by simp

text \<open>Flushing a block whose keys follow all others.\<close>

lemma flush_block_step:
  assumes "db_full b" and "\<forall>c\<in>set bs. db_full c" and "keys_ascend (bs_items bs @ db_items b)"
  shows "flush_block b False bits (bs_state bits bs) ([], bs_enc bs) =
    (Inr (bs_state bits (bs @ [b])), [], bs_enc (bs @ [b]))"
proof -
  have "bytes_less (db_last_key c) (db_last_key b)" if "c \<in> set bs" for c
  proof -
    have "(db_last_key c, kv_value (last (db_pairs c))) \<in> set (bs_items bs)"
      using last_key_item [of c] assms(2) that by auto
    moreover note last_key_item [OF assms(1)]
    moreover have "\<forall>p\<in>set (bs_items bs). \<forall>q\<in>set (db_items b). bytes_less (fst p) (fst q)"
      using assms(3) unfolding sorted_wrt_append by blast
    ultimately show ?thesis by fastforce
  qed
  then show ?thesis using write_block_step [OF assms(1)] by (simp add: flush_block_def)
qed

lemma dump_loop_blocks:
  assumes "db_built b" and "\<forall>c\<in>set bs. db_full c" and "keys_ascend (bs_items bs @ db_items b @ map wal_kv kvs)"
    and "\<forall>kv\<in>set kvs. length (fst (wal_kv kv)) < 2 ^ 31 \<and> length (snd (wal_kv kv)) < 2 ^ 31"
    and "length (db_pairs b) + length kvs < 2 ^ 31"
  shows "\<exists>bs'. dump_loop bytes False bits kvs b used (bs_state bits bs) ([], bs_enc bs) =
      (Inr (bs_state bits bs'), [], bs_enc bs') \<and> (\<forall>c\<in>set bs'. db_full c) \<and>
    bs_items bs' = bs_items bs @ db_items b @ map wal_kv kvs"
  using assms
proof (induction kvs arbitrary: b bs used)
  case Nil
  show ?case
  proof (cases "db_groups b = []")
    case True
    then show ?thesis using Nil.prems(2) by (intro exI [of _ bs]) (simp add: io_return_def db_pairs_def)
  next
    case False
    then have "db_pairs b \<noteq> []"
      using Nil.prems(1) db_wfD(3) by (cases "db_groups b") (auto simp: db_built_def db_pairs_def)
    then have full: "db_full b" using Nil.prems by (intro db_built_full) simp_all
    show ?thesis
      using flush_block_step [OF full Nil.prems(2)] Nil.prems(2,3) full False
      by (intro exI [of _ "bs @ [b]"]) simp
  qed
next
  case (Cons kv kvs)
  let ?k = "fst (wal_kv kv)" and ?v = "snd (wal_kv kv)"
  have less: "\<forall>p\<in>set (db_pairs b). bytes_less (kv_key p) ?k"
    using Cons.prems(3) by (fastforce simp: sorted_wrt_append)
  have small: "length ?k < 2 ^ 31" "length ?v < 2 ^ 31" using Cons.prems(4) by simp_all
  obtain b' sh u where b': "put_wal_kv b kv = Inr b'" "db_built b'"
    "db_pairs b' = db_pairs b @ [kv_new sh u ?k ?v]"
    using db_put_ascending [OF Cons.prems(1) less small] by (auto simp: put_wal_kv_put)
  then have items: "db_items b' = db_items b @ [wal_kv kv]" by (simp add: kv_new_def)
  have len: "length (db_pairs b') + length kvs < 2 ^ 31" using b'(3) Cons.prems(5) by simp
  have asc: "keys_ascend (bs_items bs @ db_items b' @ map wal_kv kvs)"
    using Cons.prems(3) by (simp add: items)
  show ?case
  proof (cases "used + wal_size kv \<ge> bytes")
    case True
    have full: "db_full b'" using b'(2,3) len by (intro db_built_full) simp_all
    have "keys_ascend ((bs_items bs @ db_items b') @ map wal_kv kvs)" using asc by simp
    then have "keys_ascend (bs_items bs @ db_items b')" unfolding sorted_wrt_append by blast
    note flush = flush_block_step [OF full Cons.prems(2) this, of bits]
    have "\<exists>bs'. dump_loop bytes False bits kvs (b'\<lparr>db_groups := []\<rparr>) 0 (bs_state bits (bs @ [b'])) ([], bs_enc (bs @ [b'])) =
        (Inr (bs_state bits bs'), [], bs_enc bs') \<and> (\<forall>c\<in>set bs'. db_full c) \<and>
      bs_items bs' = bs_items (bs @ [b']) @ db_items (b'\<lparr>db_groups := []\<rparr>) @ map wal_kv kvs"
      using Cons.prems(2,4) b'(2) full asc len by (intro Cons.IH) (simp_all add: db_pairs_def)
    then obtain bs' where bs': "dump_loop bytes False bits kvs (b'\<lparr>db_groups := []\<rparr>) 0 (bs_state bits (bs @ [b']))
        ([], bs_enc (bs @ [b'])) = (Inr (bs_state bits bs'), [], bs_enc bs')" "\<forall>c\<in>set bs'. db_full c"
      "bs_items bs' = bs_items (bs @ [b']) @ db_items (b'\<lparr>db_groups := []\<rparr>) @ map wal_kv kvs" by blast
    have "dump_loop bytes False bits (kv # kvs) b used (bs_state bits bs) ([], bs_enc bs) =
        (Inr (bs_state bits bs'), [], bs_enc bs')"
      using b'(1) True bs'(1) io_bind_Inr [where m = "flush_block b' False bits (bs_state bits bs)"
          and k = "dump_loop bytes False bits kvs (b'\<lparr>db_groups := []\<rparr>) 0", OF flush] by (simp del: bs_enc_simps)
    then show ?thesis using bs'(2,3) items by (intro exI [of _ bs']) (simp add: db_pairs_def)
  next
    case False
    have "\<exists>bs'. dump_loop bytes False bits kvs b' (used + wal_size kv) (bs_state bits bs) ([], bs_enc bs) =
        (Inr (bs_state bits bs'), [], bs_enc bs') \<and> (\<forall>c\<in>set bs'. db_full c) \<and>
      bs_items bs' = bs_items bs @ db_items b' @ map wal_kv kvs"
      using Cons.prems(2,4) b'(2) asc len by (intro Cons.IH) simp_all
    then show ?thesis using b'(1) False items by simp
  qed
qed

section \<open>Writing the filters\<close>

fun place_filters :: "nat \<Rightarrow> block_handle list \<Rightarrow> bloom list \<Rightarrow> block_handle list" where
  "place_filters offset (h # hs) (f # fs) =
     h\<lparr>bh_block := \<lparr>fp_offset = offset, fp_size = bf_size f\<rparr>\<rparr> # place_filters (offset + bf_size f) hs fs"
| "place_filters offset hs fs = []"

lemma write_filters_from_place:
  assumes "length (ib_blocks (rt_meta (tb_root t))) = i + length fs" and "tb_offset t = length data"
  shows "write_filters_from i fs t ([], data) =
    (Inr (t\<lparr>tb_root := (tb_root t)\<lparr>rt_meta := (rt_meta (tb_root t))\<lparr>ib_blocks :=
        take i (ib_blocks (rt_meta (tb_root t))) @ place_filters (tb_offset t) (drop i (ib_blocks (rt_meta (tb_root t)))) fs\<rparr>\<rparr>,
      tb_offset := tb_offset t + length (concat (map bf_space fs))\<rparr>), [], data @ concat (map bf_space fs))"
  using assms
proof (induction fs arbitrary: i t data)
  case Nil
  then show ?case by (simp add: io_return_def)
next
  case (Cons f fs)
  let ?hs = "ib_blocks (rt_meta (tb_root t))"
  let ?h = "(?hs ! i)\<lparr>bh_block := \<lparr>fp_offset = tb_offset t, fp_size = bf_size f\<rparr>\<rparr>"
  let ?t = "t\<lparr>tb_root := (tb_root t)\<lparr>rt_meta := (rt_meta (tb_root t))\<lparr>ib_blocks := ?hs[i := ?h]\<rparr>\<rparr>,
    tb_offset := tb_offset t + bf_size f\<rparr>"
  have i: "i < length ?hs" using Cons.prems(1) by simp
  have "write_filters_from i (f # fs) t ([], data) = write_filters_from (i + 1) fs ?t ([], data @ bf_space f)"
    using i Cons.prems(2)
    by (simp add: bf_copy_to_def io_bind_def io_cleanup_def io_write_end io_lift_def Let_def)
  moreover have "write_filters_from (i + 1) fs ?t ([], data @ bf_space f) =
    (Inr (?t\<lparr>tb_root := (tb_root ?t)\<lparr>rt_meta := (rt_meta (tb_root ?t))\<lparr>ib_blocks :=
        take (i + 1) (ib_blocks (rt_meta (tb_root ?t))) @
        place_filters (tb_offset ?t) (drop (i + 1) (ib_blocks (rt_meta (tb_root ?t)))) fs\<rparr>\<rparr>,
      tb_offset := tb_offset ?t + length (concat (map bf_space fs))\<rparr>), [], (data @ bf_space f) @ concat (map bf_space fs))"
    using Cons.prems by (intro Cons.IH) (simp_all add: bf_size_def)
  moreover have "take (i + 1) (?hs[i := ?h]) = take i ?hs @ [?h]" using i by (simp add: take_Suc_conv_app_nth)
  moreover have "drop i ?hs = ?hs ! i # drop (i + 1) ?hs" using i by (simp add: Cons_nth_drop_Suc)
  ultimately show ?case using i by (simp add: bf_size_def add.assoc)
qed

section \<open>Looking up in a table\<close>

definition handle_of :: "block_handle list \<Rightarrow> bytes \<Rightarrow> block_handle option" where
  "handle_of hs k = find (\<lambda>h. bh_key h = k) hs"

definition block_loader :: "sst_table \<Rightarrow> bytes \<Rightarrow> exn + data_block" where
  "block_loader t k = (case handle_of (ib_blocks (rt_index (st_root t))) k of
     Some h \<Rightarrow> st_load_block t (bh_block h) | None \<Rightarrow> Inl Out_of_range)"

definition filter_loader :: "sst_table \<Rightarrow> bytes \<Rightarrow> exn + bloom" where
  "filter_loader t k = (case handle_of (ib_blocks (rt_meta (st_root t))) k of
     Some h \<Rightarrow> load_filter (st_file t) (bh_block h) 10 | None \<Rightarrow> Inl Out_of_range)"

lemma handle_of_nth:
  assumes "distinct (map bh_key hs)" and "i < length hs"
  shows "handle_of hs (bh_key (hs ! i)) = Some (hs ! i)"
proof -
  have "bh_key (hs ! j) \<noteq> bh_key (hs ! i)" if "j < i" for j
    using assms that by (auto simp: distinct_conv_nth)
  then show ?thesis using assms(2) by (auto simp: handle_of_def find_Some_iff intro!: exI [of _ i])
qed

text \<open>A table whose file holds the blocks \<open>bs\<close>, whatever its caches hold of them.\<close>

definition bs_wf :: "data_block list \<Rightarrow> bool" where
  "bs_wf bs \<longleftrightarrow> (\<forall>b\<in>set bs. db_full b) \<and> keys_ascend (bs_items bs)"

definition st_shows :: "data_block list \<Rightarrow> sst_table \<Rightarrow> bool" where
  "st_shows bs t \<longleftrightarrow>
     (let index = rt_index (st_root t); meta = rt_meta (st_root t) in
        ib_cmp index = None \<and> ib_cmp meta = None \<and>
        map bh_key (ib_blocks index) = map db_last_key bs \<and> map bh_key (ib_blocks meta) = map db_last_key bs \<and>
        (\<forall>i<length bs. st_load_block t (bh_block (ib_blocks index ! i)) = Inr (bs ! i)) \<and>
        (\<forall>i<length bs. \<exists>f. load_filter (st_file t) (bh_block (ib_blocks meta ! i)) 10 = Inr f \<and>
          (\<forall>p\<in>set (db_pairs (bs ! i)). bf_contain buffer_hash (kv_key p) f)))"

definition st_coherent :: "data_block list \<Rightarrow> sst_table \<Rightarrow> bool" where
  "st_coherent bs t \<longleftrightarrow>
     (\<forall>k\<in>db_last_key ` set bs. \<forall>l\<in>db_last_key ` set bs. key_fits k l) \<and>
     segments.coherent (block_loader t) (db_last_key ` set bs) (st_data t) \<and>
     segments.coherent (filter_loader t) (db_last_key ` set bs) (st_filters t)"

definition st_ok :: "data_block list \<Rightarrow> sst_table \<Rightarrow> bool" where
  "st_ok bs t \<longleftrightarrow> bs_wf bs \<and> st_shows bs t \<and> st_coherent bs t"

lemma bs_wf_sorted:
  assumes "bs_wf bs"
  shows "sorted_wrt (\<lambda>p q. bytes_less (kv_key p) (kv_key q)) (concat (map db_pairs bs))"
    and "\<forall>b\<in>set bs. db_pairs b \<noteq> []"
    and "assoc kv_key kv_value (concat (map db_pairs bs)) = map_of (bs_items bs)"
proof -
  have items: "bs_items bs = map (\<lambda>p. (kv_key p, kv_value p)) (concat (map db_pairs bs))" for bs
    by (induction bs) simp_all
  then show "sorted_wrt (\<lambda>p q. bytes_less (kv_key p) (kv_key q)) (concat (map db_pairs bs))"
    using assms by (simp add: bs_wf_def sorted_wrt_map)
  show "\<forall>b\<in>set bs. db_pairs b \<noteq> []" using assms db_fullD(7) by (auto simp: bs_wf_def)
  show "assoc kv_key kv_value (concat (map db_pairs bs)) = map_of (bs_items bs)" by (simp add: assoc_def items)
qed

lemma bs_wf_last_key: "bs_wf bs \<Longrightarrow> b \<in> set bs \<Longrightarrow> db_last_key b = kv_key (last (db_pairs b))"
  using db_fullD(8) by (auto simp: bs_wf_def)

lemma bs_wf_distinct: "bs_wf bs \<Longrightarrow> distinct (map db_last_key bs)"
proof -
  assume bs: "bs_wf bs"
  note last = bytes.last_part_sorted [OF bs_wf_sorted(1,2) [OF bs]]
  have "distinct (map (\<lambda>b. kv_key (last (db_pairs b))) bs)" by (rule bytes.sorted_distinct [OF last])
  then show ?thesis using bs_wf_last_key [OF bs] by (metis (no_types, lifting) map_cong)
qed

text \<open>The place of a key in an index with the last keys of the blocks.\<close>

abbreviation bs_find :: "data_block list \<Rightarrow> bytes \<Rightarrow> nat" where
  "bs_find bs key \<equiv> lower_bound (\<lambda>b. bytes_less (kv_key (last (db_pairs b))) key) bs"

lemma ib_find_blocks:
  assumes "bs_wf bs" and "map bh_key (ib_blocks ib) = map db_last_key bs" and "ib_cmp ib = None"
  shows "ib_find ib key = bs_find bs key" "length (ib_blocks ib) = length bs"
proof -
  show len: "length (ib_blocks ib) = length bs" using assms(2) by (rule map_eq_imp_length_eq)
  have "bh_key (ib_blocks ib ! i) = kv_key (last (db_pairs (bs ! i)))" if "i < length bs" for i
  proof -
    have "bh_key (ib_blocks ib ! i) = db_last_key (bs ! i)" using assms(2) that len by (metis nth_map)
    then show ?thesis using bs_wf_last_key [OF assms(1)] that by simp
  qed
  then show "ib_find ib key = bs_find bs key"
    unfolding ib_find_def using len assms(3) by (intro lower_bound_cong) (simp_all add: key_less_None)
qed

lemma bs_map_find:
  assumes "bs_wf bs"
  shows "map_of (bs_items bs) key =
    (let i = bs_find bs key in if i < length bs then db_map (bs ! i) key else None)"
  using bytes.assoc_find_part [OF bs_wf_sorted(1,2) [OF assms], where val = kv_value, of key] bs_wf_sorted(3) [OF assms]
  by (simp add: db_map_def Let_def)

lemma res_bind_assoc: "res_bind (res_bind m g) h = res_bind m (\<lambda>x. res_bind (g x) h)"
  by (cases m) simp_all

lemma loader_update [simp]:
  "block_loader (t\<lparr>st_filters := c\<rparr>) = block_loader t" "filter_loader (t\<lparr>st_filters := c\<rparr>) = filter_loader t"
  "block_loader (t\<lparr>st_data := d\<rparr>) = block_loader t" "filter_loader (t\<lparr>st_data := d\<rparr>) = filter_loader t"
  by (simp_all add: block_loader_def [abs_def] filter_loader_def [abs_def] st_load_block_def cong: option.case_cong)

lemma st_shows_update [simp]:
  "st_shows bs (t\<lparr>st_filters := c\<rparr>) = st_shows bs t" "st_shows bs (t\<lparr>st_data := d\<rparr>) = st_shows bs t"
  by (simp_all add: st_shows_def st_load_block_def)

lemma st_okD:
  assumes "st_ok bs t"
  shows "bs_wf bs" "st_shows bs t" "st_coherent bs t"
    "ib_find (rt_index (st_root t)) key = bs_find bs key" "ib_find (rt_meta (st_root t)) key = bs_find bs key"
    "length (ib_blocks (rt_index (st_root t))) = length bs" "length (ib_blocks (rt_meta (st_root t))) = length bs"
  using assms ib_find_blocks [of bs] by (auto simp: st_ok_def st_shows_def Let_def)

lemma key_at:
  assumes "bs_wf bs" and "map bh_key hs = map db_last_key bs" and "i < length bs"
  shows "bh_key (hs ! i) = db_last_key (bs ! i)" "handle_of hs (bh_key (hs ! i)) = Some (hs ! i)"
proof -
  have len: "length hs = length bs" using assms(2) by (rule map_eq_imp_length_eq)
  then show "bh_key (hs ! i) = db_last_key (bs ! i)" using assms(2,3) by (metis nth_map)
  have "distinct (map bh_key hs)" unfolding assms(2) by (rule bs_wf_distinct [OF assms(1)])
  then show "handle_of hs (bh_key (hs ! i)) = Some (hs ! i)" using handle_of_nth assms(3) len by simp
qed

lemma st_load_filter_cache_ok:
  assumes "st_ok bs t" and "i < length bs"
  shows "\<exists>f c. st_load_filter_cache t (ib_blocks (rt_meta (st_root t)) ! i) = Inr (f, t\<lparr>st_filters := c\<rparr>) \<and>
    st_ok bs (t\<lparr>st_filters := c\<rparr>) \<and> (\<forall>p\<in>set (db_pairs (bs ! i)). bf_contain buffer_hash (kv_key p) f)"
proof -
  note ok = st_okD [OF assms(1)]
  let ?h = "ib_blocks (rt_meta (st_root t)) ! i" and ?ks = "db_last_key ` set bs"
  have keys: "map bh_key (ib_blocks (rt_meta (st_root t))) = map db_last_key bs"
    using ok(2) by (simp add: st_shows_def Let_def)
  note at = key_at [OF ok(1) keys assms(2)]
  obtain f where f: "load_filter (st_file t) (bh_block ?h) 10 = Inr f"
    "\<forall>p\<in>set (db_pairs (bs ! i)). bf_contain buffer_hash (kv_key p) f"
    using ok(2) assms(2) by (auto simp: st_shows_def Let_def)
  have load: "filter_loader t (bh_key ?h) = load_filter (st_file t) (bh_block ?h) 10"
    using at(2) by (simp add: filter_loader_def)
  have k: "bh_key ?h \<in> ?ks" using at(1) assms(2) by simp
  then have fits: "\<forall>l\<in>?ks. key_fits (bh_key ?h) l" using ok(3) unfolding st_coherent_def by blast
  have "segments.coherent (filter_loader t) ?ks (st_filters t)" using ok(3) by (simp add: st_coherent_def)
  from segments.cached_load [OF this fits k] obtain c where c:
    "res_bind (sc_get (bh_key ?h) (st_filters t)) (\<lambda>(r, c1). case r of Some b \<Rightarrow> Inr (b, c1)
      | None \<Rightarrow> res_bind (filter_loader t (bh_key ?h)) (\<lambda>b. sc_get_or_emplace (bh_key ?h) b c1)) = Inr (f, c)"
    "segments.coherent (filter_loader t) ?ks c"
    unfolding load f(1) sum.case by blast
  have "st_load_filter_cache t ?h = res_bind (Inr (f, c)) (\<lambda>(f, c'). Inr (f, t\<lparr>st_filters := c'\<rparr>))"
    unfolding st_load_filter_cache_def c(1) [symmetric] load res_bind_assoc
    by (rule arg_cong [of _ _ "res_bind (sc_get (bh_key ?h) (st_filters t))"]) (simp add: fun_eq_iff)
  moreover have "st_ok bs (t\<lparr>st_filters := c\<rparr>)" using ok(1-3) c(2) by (simp add: st_ok_def st_coherent_def)
  ultimately show ?thesis using f(2) by auto
qed

lemma st_load_block_cache_ok:
  assumes "st_ok bs t" and "i < length bs"
  shows "\<exists>c. st_load_block_cache t (ib_blocks (rt_index (st_root t)) ! i) = Inr (bs ! i, t\<lparr>st_data := c\<rparr>) \<and>
    st_ok bs (t\<lparr>st_data := c\<rparr>)"
proof -
  note ok = st_okD [OF assms(1)]
  let ?h = "ib_blocks (rt_index (st_root t)) ! i" and ?ks = "db_last_key ` set bs"
  have keys: "map bh_key (ib_blocks (rt_index (st_root t))) = map db_last_key bs"
    using ok(2) by (simp add: st_shows_def Let_def)
  note at = key_at [OF ok(1) keys assms(2)]
  have f: "st_load_block t (bh_block ?h) = Inr (bs ! i)"
    using ok(2) assms(2) by (simp add: st_shows_def Let_def)
  have load: "block_loader t (bh_key ?h) = st_load_block t (bh_block ?h)"
    using at(2) by (simp add: block_loader_def)
  have k: "bh_key ?h \<in> ?ks" using at(1) assms(2) by simp
  then have fits: "\<forall>l\<in>?ks. key_fits (bh_key ?h) l" using ok(3) unfolding st_coherent_def by blast
  have "segments.coherent (block_loader t) ?ks (st_data t)" using ok(3) by (simp add: st_coherent_def)
  from segments.cached_load [OF this fits k] obtain c where c:
    "res_bind (sc_get (bh_key ?h) (st_data t)) (\<lambda>(r, c1). case r of Some b \<Rightarrow> Inr (b, c1)
      | None \<Rightarrow> res_bind (block_loader t (bh_key ?h)) (\<lambda>b. sc_get_or_emplace (bh_key ?h) b c1)) = Inr (bs ! i, c)"
    "segments.coherent (block_loader t) ?ks c"
    unfolding load f sum.case by blast
  have "st_load_block_cache t ?h = res_bind (Inr (bs ! i, c)) (\<lambda>(b, c'). Inr (b, t\<lparr>st_data := c'\<rparr>))"
    unfolding st_load_block_cache_def c(1) [symmetric] load res_bind_assoc
    by (rule arg_cong [of _ _ "res_bind (sc_get (bh_key ?h) (st_data t))"]) (simp add: fun_eq_iff)
  moreover have "st_ok bs (t\<lparr>st_data := c\<rparr>)" using ok(1-3) c(2) by (simp add: st_ok_def st_coherent_def)
  ultimately show ?thesis by auto
qed

text \<open>The block that is found is the only one that can hold the key.\<close>

lemma st_find_block_ok:
  assumes "st_ok bs t"
  shows "\<exists>r t'. st_find_block True key t = (Inr r, t') \<and> st_ok bs t' \<and>
    (case r of None \<Rightarrow> map_of (bs_items bs) key = None
     | Some b \<Rightarrow> db_wf b \<and> db_map b key = map_of (bs_items bs) key)"
proof -
  note ok = st_okD(1-3,6,7) [OF assms] and place = st_okD(4,5) [OF assms, of key]
  let ?i = "bs_find bs key"
  have map: "map_of (bs_items bs) key = (if ?i < length bs then db_map (bs ! ?i) key else None)"
    using bs_map_find [OF ok(1), of key] by (simp add: Let_def)
  show ?thesis
  proof (cases "?i < length bs")
    case False
    then have "?i = length bs" using lower_bound_le [of _ bs] by (simp add: le_antisym not_less)
    with ok place map show ?thesis using assms by (simp add: st_find_block_def Let_def)
  next
    case True
    obtain f c where f: "st_load_filter_cache t (ib_blocks (rt_meta (st_root t)) ! ?i) = Inr (f, t\<lparr>st_filters := c\<rparr>)"
      "st_ok bs (t\<lparr>st_filters := c\<rparr>)" "\<forall>p\<in>set (db_pairs (bs ! ?i)). bf_contain buffer_hash (kv_key p) f"
      using st_load_filter_cache_ok [OF assms True] by blast
    let ?t = "t\<lparr>st_filters := c\<rparr>"
    show ?thesis
    proof (cases "bf_contain buffer_hash key f")
      case False
      then have "db_map (bs ! ?i) key = None" using f(3) by (auto simp: db_map_def assoc_None)
      with True f(1,2) False ok(5) place map show ?thesis by (simp add: st_find_block_def Let_def)
    next
      case contained: True
      note ok' = st_okD(4) [OF f(2), of key] st_okD(6) [OF f(2)]
      obtain d where d: "st_load_block_cache ?t (ib_blocks (rt_index (st_root ?t)) ! ?i) = Inr (bs ! ?i, ?t\<lparr>st_data := d\<rparr>)"
        "st_ok bs (?t\<lparr>st_data := d\<rparr>)"
        using st_load_block_cache_ok [OF f(2) True] by blast
      have "db_wf (bs ! ?i)" using ok(1) True db_fullD(1) by (simp add: bs_wf_def)
      moreover have "st_find_block True key t = (Inr (Some (bs ! ?i)), ?t\<lparr>st_data := d\<rparr>)"
        using True f(1) contained d(1) ok(5) place(2) ok' by (simp add: st_find_block_def Let_def)
      ultimately show ?thesis using d(2) map True by simp
    qed
  qed
qed

lemma st_get_ok:
  assumes "st_ok bs t"
  shows "\<exists>t'. st_get key t = (case map_of (bs_items bs) key of Some v \<Rightarrow> Inr v | None \<Rightarrow> Inl Out_of_range, t') \<and> st_ok bs t'"
proof -
  from st_find_block_ok [OF assms, of key] obtain r t' where r: "st_find_block True key t = (Inr r, t')" "st_ok bs t'"
    "case r of None \<Rightarrow> map_of (bs_items bs) key = None
     | Some b \<Rightarrow> db_wf b \<and> db_map b key = map_of (bs_items bs) key" by blast
  then show ?thesis using db_get_map by (cases r) (simp_all add: st_get_def)
qed

lemma st_exist_ok:
  assumes "st_ok bs t"
  shows "\<exists>t'. st_exist key t = (Inr (case map_of (bs_items bs) key of None \<Rightarrow> Not_exist
    | Some v \<Rightarrow> if v = [] then Deleted else Exist), t') \<and> st_ok bs t'"
proof -
  from st_find_block_ok [OF assms, of key] obtain r t' where r: "st_find_block True key t = (Inr r, t')" "st_ok bs t'"
    "case r of None \<Rightarrow> map_of (bs_items bs) key = None
     | Some b \<Rightarrow> db_wf b \<and> db_map b key = map_of (bs_items bs) key" by blast
  then show ?thesis using db_exist_map by (cases r) (simp_all add: st_exist_def)
qed

section \<open>Opening what was dumped\<close>

lemma bs_handles_nth:
  "i < length bs \<Longrightarrow> bs_handles offset bs ! i =
   bh (db_last_key (bs ! i)) \<lparr>fp_offset = offset + length (bs_enc (take i bs)), fp_size = length (db_enc (bs ! i))\<rparr>"
proof (induction bs arbitrary: offset i)
  case (Cons b bs)
  then show ?case by (cases i) (simp_all add: add.assoc)
qed simp

lemma place_filters_nth:
  "i < length hs \<Longrightarrow> length fs = length hs \<Longrightarrow> place_filters offset hs fs ! i =
   (hs ! i)\<lparr>bh_block := \<lparr>fp_offset = offset + length (concat (map bf_space (take i fs))), fp_size = bf_size (fs ! i)\<rparr>\<rparr>"
proof (induction offset hs fs arbitrary: i rule: place_filters.induct)
  case (1 offset h hs f fs)
  then show ?case by (cases i) (simp_all add: bf_size_def add.assoc)
qed auto

lemma place_filters_keys:
  "length fs = length hs \<Longrightarrow> map bh_key (place_filters offset hs fs) = map bh_key hs"
  by (induction offset hs fs rule: place_filters.induct) auto

text \<open>The parts of a concatenation, one of them singled out.\<close>

lemma concat_split:
  "i < length xs \<Longrightarrow> concat (map f xs) = concat (map f (take i xs)) @ f (xs ! i) @ concat (map f (drop (i + 1) xs))"
  using arg_cong [OF split_at [of i xs], of "\<lambda>ys. concat (map f ys)"] by simp

lemma load_data_block_at:
  assumes "data = pre @ db_enc b @ post" and "db_full b" and "length data < 2 ^ 63"
  shows "load_data_block data \<lparr>fp_offset = length pre, fp_size = length (db_enc b)\<rparr> None = Inr b"
proof -
  note full = db_fullD [OF assms(2)]
  have len: "length (db_enc b) < 2 ^ 63" using assms(1,3) by simp
  have "read_into data (length pre) (replicate (length (db_enc b)) 0) = db_enc b"
    unfolding assms(1) by (rule read_into_append) simp_all
  moreover have "db_load (db_enc b) (db_new\<lparr>db_cmp := None\<rparr>) =
      Inr ((db_new\<lparr>db_cmp := None\<rparr>)\<lparr>db_groups := map (\<lambda>g. g\<lparr>sg_cmp := db_cmp (db_new\<lparr>db_cmp := None\<rparr>)\<rparr>) (db_groups b)\<rparr>)"
    using assms(2) full(3) len db_wfD(4) [OF full(1)]
    by (intro db_load_enc) (auto simp: db_full_def db_enc_def)
  moreover have "map (\<lambda>g. g\<lparr>sg_cmp := None\<rparr>) (db_groups b) = db_groups b"
    using db_wfD(4) [OF full(1)] full(2) by (intro map_idI) auto
  ultimately show ?thesis
    using len full(2) by (simp add: load_data_block_def vec_resize_Nil db_new_def)
qed

lemma load_filter_at:
  assumes "data = pre @ bf_space f @ post" and "length data < 2 ^ 63"
  shows "load_filter data \<lparr>fp_offset = length pre, fp_size = bf_size f\<rparr> n = Inr (bf_from (bf_space f) n)"
proof -
  have "read_into data (length pre) (replicate (bf_size f) 0) = bf_space f"
    unfolding assms(1) by (rule read_into_append) (simp_all add: bf_size_def)
  moreover have "bf_size f < 2 ^ 63" using assms by (simp add: bf_size_def)
  ultimately show ?thesis by (simp add: load_filter_def vec_resize_Nil)
qed

lemma filter_of_knows:
  assumes "p \<in> set (db_pairs b)" and "10 \<le> bits" and "length (db_enc b) * bits < 2 ^ 64" and "db_full b"
  shows "bf_contain buffer_hash (kv_key p) (bf_from (bf_space (filter_of bits b)) 10)"
proof -
  let ?new = "bf_new (length (db_enc b) * bits mod 2 ^ 64) bits"
  have "0 < length (db_enc b) * bits" using assms(2) by (simp add: db_enc_def flip: length_greater_0_conv)
  then have new: "0 < bf_size ?new" using assms(3) by (intro bf_new_size) simp
  then have "bf_contain buffer_hash (kv_key p) (filter_of bits b)"
    unfolding filter_of_def using assms(1) by (intro bf_contain_fold) simp_all
  moreover have "0 < bf_size (filter_of bits b)" using new by (simp add: filter_of_def)
  moreover have "bf_hash_count (filter_of bits b) = bits"
    by (simp add: filter_of_def bf_count_fold bf_new_def Let_def)
  ultimately show ?thesis using assms(2) by (intro bf_contain_fewer) simp_all
qed

lemma last_key_small: "db_full b \<Longrightarrow> length (db_last_key b) < 2 ^ 31"
proof -
  assume b: "db_full b"
  note full = db_fullD [OF b]
  have g: "sg_shape (sg_pairs (last (db_groups b)))" using db_wfD(4) [OF full(1)] full(3) by simp
  have "last (sg_pairs (last (db_groups b))) \<in> set (sg_pairs (last (db_groups b)))" using full(4) by simp
  from sg_shape_ok [OF g this] show ?thesis by (simp add: kv_ok_def)
qed

text \<open>The root that the dump of blocks \<open>bs\<close> ends with, before its footer is filled in.\<close>

definition bs_root :: "nat \<Rightarrow> data_block list \<Rightarrow> sst_root" where
  "bs_root bits bs = (let r = tb_root (bs_state bits bs) in
     r\<lparr>rt_meta := (rt_meta r)\<lparr>ib_blocks :=
       place_filters (length (bs_enc bs)) (ib_blocks (rt_meta r)) (map (filter_of bits) bs)\<rparr>\<rparr>)"

definition bs_data :: "nat \<Rightarrow> data_block list \<Rightarrow> bytes" where
  "bs_data bits bs = bs_enc bs @ concat (map (\<lambda>b. bf_space (filter_of bits b)) bs)"

lemma dump_wal_finish:
  assumes "dump_loop bytes False bits kvs (db_new\<lparr>db_cmp := None\<rparr>) 0 (tb_new None) ([], []) =
      (Inr (bs_state bits bs), [], bs_enc bs)" and "bits \<noteq> 0"
  shows "dump_wal bytes kvs bits False None ([], []) =
    (Inr ((bs_root bits bs)\<lparr>rt_footer := rt_new_footer (bs_root bits bs) (length (bs_data bits bs))\<rparr>), [],
     bs_data bits bs @ rt_sections (bs_root bits bs) (length (bs_data bits bs)))"
proof -
  let ?t = "bs_state bits bs"
  have "write_filters ?t ([], bs_enc bs) =
    (Inr (?t\<lparr>tb_root := (tb_root ?t)\<lparr>rt_meta := (rt_meta (tb_root ?t))\<lparr>ib_blocks :=
        take 0 (ib_blocks (rt_meta (tb_root ?t))) @ place_filters (tb_offset ?t) (drop 0 (ib_blocks (rt_meta (tb_root ?t)))) (tb_filters ?t)\<rparr>\<rparr>,
      tb_offset := tb_offset ?t + length (concat (map bf_space (tb_filters ?t)))\<rparr>), [],
      bs_enc bs @ concat (map bf_space (tb_filters ?t)))"
    unfolding write_filters_def using assms(2) by (intro write_filters_from_place) (simp_all add: bs_state_def)
  then have "write_filters ?t ([], bs_enc bs) = (Inr (?t\<lparr>tb_root := bs_root bits bs,
      tb_offset := length (bs_data bits bs)\<rparr>), [], bs_data bits bs)"
    using assms(2) by (simp add: bs_root_def bs_data_def bs_state_def Let_def comp_def)
  then have "dump_wal bytes kvs bits False None ([], []) =
      rt_store (bs_root bits bs) (length (bs_data bits bs)) ([], bs_data bits bs)"
    using assms by (simp add: dump_wal_def io_bind_def)
  then show ?thesis using rt_store_ok [OF refl, of "bs_root bits bs" "bs_data bits bs"] by simp
qed

lemma tb_new_state: "tb_new None = bs_state bits []"
  by (simp add: tb_new_def bs_state_def ib_new_def)

lemma dump_wal_result:
  assumes "keys_ascend (map wal_kv kvs)" and "length kvs < 2 ^ 31" and "bits \<noteq> 0"
    and "\<forall>kv\<in>set kvs. length (fst (wal_kv kv)) < 2 ^ 31 \<and> length (snd (wal_kv kv)) < 2 ^ 31"
  shows "\<exists>bs. bs_wf bs \<and> bs_items bs = map wal_kv kvs \<and>
    dump_wal bytes kvs bits False None ([], []) =
      (Inr ((bs_root bits bs)\<lparr>rt_footer := rt_new_footer (bs_root bits bs) (length (bs_data bits bs))\<rparr>), [],
       bs_data bits bs @ rt_sections (bs_root bits bs) (length (bs_data bits bs)))"
proof -
  have built: "db_built (db_new\<lparr>db_cmp := None\<rparr>)" "db_pairs (db_new\<lparr>db_cmp := None\<rparr>) = []"
    by (simp_all add: db_built_def db_wf_def db_new_def db_pairs_def)
  obtain bs where bs: "dump_loop bytes False bits kvs (db_new\<lparr>db_cmp := None\<rparr>) 0 (tb_new None) ([], []) =
      (Inr (bs_state bits bs), [], bs_enc bs)" "\<forall>c\<in>set bs. db_full c" "bs_items bs = map wal_kv kvs"
    using dump_loop_blocks [of "db_new\<lparr>db_cmp := None\<rparr>" "[]" kvs bytes bits 0] assms built
    by (auto simp flip: tb_new_state)
  then have "bs_wf bs" using assms(1) by (simp add: bs_wf_def)
  with dump_wal_finish [OF bs(1) assms(3)] bs(3) show ?thesis by blast
qed

lemma bs_enc_split: "i < length bs \<Longrightarrow> bs_enc bs = bs_enc (take i bs) @ db_enc (bs ! i) @ bs_enc (drop (i + 1) bs)"
  unfolding bs_enc_def by (rule concat_split)

lemma bs_root_handles:
  assumes "10 \<le> bits" and "i < length bs"
  shows "ib_blocks (rt_index (bs_root bits bs)) ! i =
      bh (db_last_key (bs ! i)) \<lparr>fp_offset = length (bs_enc (take i bs)), fp_size = length (db_enc (bs ! i))\<rparr>"
    and "ib_blocks (rt_meta (bs_root bits bs)) ! i =
      bh (db_last_key (bs ! i)) \<lparr>fp_offset = length (bs_data bits bs) - length (concat (map (\<lambda>b. bf_space (filter_of bits b)) (drop i bs))),
        fp_size = bf_size (filter_of bits (bs ! i))\<rparr>"
proof -
  show "ib_blocks (rt_index (bs_root bits bs)) ! i =
      bh (db_last_key (bs ! i)) \<lparr>fp_offset = length (bs_enc (take i bs)), fp_size = length (db_enc (bs ! i))\<rparr>"
    using bs_handles_nth [OF assms(2), of 0] by (simp add: bs_root_def bs_state_def Let_def)
  let ?sp = "\<lambda>b. bf_space (filter_of bits b)"
  have "concat (map ?sp bs) = concat (map ?sp (take i bs)) @ concat (map ?sp (drop i bs))"
    by (simp flip: concat_append map_append)
  then have "length (bs_data bits bs) - length (concat (map ?sp (drop i bs))) =
      length (bs_enc bs) + length (concat (map ?sp (take i bs)))" by (simp add: bs_data_def)
  then show "ib_blocks (rt_meta (bs_root bits bs)) ! i =
      bh (db_last_key (bs ! i)) \<lparr>fp_offset = length (bs_data bits bs) - length (concat (map (\<lambda>b. bf_space (filter_of bits b)) (drop i bs))),
        fp_size = bf_size (filter_of bits (bs ! i))\<rparr>"
    using assms by (simp add: bs_root_def bs_state_def Let_def place_filters_nth take_map comp_def)
qed

lemma bs_root_keys:
  assumes "10 \<le> bits"
  shows "map bh_key (ib_blocks (rt_index (bs_root bits bs))) = map db_last_key bs"
    "map bh_key (ib_blocks (rt_meta (bs_root bits bs))) = map db_last_key bs"
    "ib_cmp (rt_index (bs_root bits bs)) = None" "ib_cmp (rt_meta (bs_root bits bs)) = None"
  using assms by (simp_all add: bs_root_def bs_state_def Let_def bs_handles_keys place_filters_keys comp_def)

lemma bs_data_splits:
  assumes "i < length bs"
  shows "\<exists>post. bs_data bits bs = bs_enc (take i bs) @ db_enc (bs ! i) @ post"
    and "\<exists>pre post. bs_data bits bs = pre @ bf_space (filter_of bits (bs ! i)) @ post \<and>
      length pre = length (bs_data bits bs) - length (concat (map (\<lambda>b. bf_space (filter_of bits b)) (drop i bs)))"
proof -
  let ?sp = "\<lambda>b. bf_space (filter_of bits b)"
  show "\<exists>post. bs_data bits bs = bs_enc (take i bs) @ db_enc (bs ! i) @ post"
    using bs_enc_split [OF assms] by (simp add: bs_data_def)
  have "concat (map ?sp (drop i bs)) = ?sp (bs ! i) @ concat (map ?sp (drop (i + 1) bs))"
    using assms by (simp add: Cons_nth_drop_Suc [symmetric])
  moreover have "concat (map ?sp bs) = concat (map ?sp (take i bs)) @ concat (map ?sp (drop i bs))"
    by (simp flip: concat_append map_append)
  ultimately show "\<exists>pre post. bs_data bits bs = pre @ ?sp (bs ! i) @ post \<and>
      length pre = length (bs_data bits bs) - length (concat (map ?sp (drop i bs)))"
    by (intro exI [of _ "bs_enc bs @ concat (map ?sp (take i bs))"] exI [of _ "concat (map ?sp (drop (i + 1) bs))"])
      (simp add: bs_data_def)
qed

lemma dumped_table_ok:
  assumes "bs_wf bs" and "10 \<le> bits"
    and "data = bs_data bits bs @ rt_sections (bs_root bits bs) (length (bs_data bits bs))"
    and "length data * bits < 2 ^ 64" and "length data < 2 ^ 63" and "so_cmp opt = None"
    and "\<forall>k\<in>db_last_key ` set bs. \<forall>l\<in>db_last_key ` set bs. key_fits k l"
  shows "\<exists>t. st_open data opt = Inr t \<and>
    st_root t = (bs_root bits bs)\<lparr>rt_footer := rt_new_footer (bs_root bits bs) (length (bs_data bits bs))\<rparr> \<and> st_ok bs t"
proof -
  let ?r = "bs_root bits bs" and ?init = "tb_root (tb_new None)"
  let ?root = "?r\<lparr>rt_footer := rt_new_footer ?r (length (bs_data bits bs))\<rparr>"
  note keys = bs_root_keys [OF assms(2), of bs]
  have len: "length (ib_blocks (rt_index ?r)) = length bs" "length (ib_blocks (rt_meta ?r)) = length bs"
    by (rule map_eq_imp_length_eq [OF keys(1)], rule map_eq_imp_length_eq [OF keys(2)])
  have full: "db_full (bs ! i)" if "i < length bs" for i using assms(1) that by (simp add: bs_wf_def)
  have index: "\<exists>pre post. data = pre @ db_enc (bs ! i) @ post \<and>
      bh_block (ib_blocks (rt_index ?r) ! i) = \<lparr>fp_offset = length pre, fp_size = length (db_enc (bs ! i))\<rparr>"
    if i: "i < length bs" for i
  proof -
    obtain post where "bs_data bits bs = bs_enc (take i bs) @ db_enc (bs ! i) @ post"
      using bs_data_splits(1) [OF i] by blast
    then show ?thesis using bs_root_handles(1) [OF assms(2) i] assms(3)
      by (intro exI [of _ "bs_enc (take i bs)"] exI [of _ "post @ rt_sections ?r (length (bs_data bits bs))"]) simp
  qed
  have meta: "\<exists>pre post. data = pre @ bf_space (filter_of bits (bs ! i)) @ post \<and>
      bh_block (ib_blocks (rt_meta ?r) ! i) = \<lparr>fp_offset = length pre, fp_size = bf_size (filter_of bits (bs ! i))\<rparr>"
    if i: "i < length bs" for i
  proof -
    obtain pre post where p: "bs_data bits bs = pre @ bf_space (filter_of bits (bs ! i)) @ post"
      "length pre = length (bs_data bits bs) - length (concat (map (\<lambda>b. bf_space (filter_of bits b)) (drop i bs)))"
      using bs_data_splits(2) [OF i] by blast
    have "data = pre @ bf_space (filter_of bits (bs ! i)) @ post @ rt_sections ?r (length (bs_data bits bs))"
      using p(1) assms(3) by simp
    then show ?thesis using bs_root_handles(2) [OF assms(2) i] p(2)
      by (intro exI [of _ pre] exI [of _ "post @ rt_sections ?r (length (bs_data bits bs))"]) simp
  qed
  have small: "length (db_last_key (bs ! i)) < 2 ^ 63" if "i < length bs" for i
    using last_key_small [OF full [OF that]] by simp
  have bh_index: "\<forall>h\<in>set (ib_blocks (rt_index ?r)). bh_ok h"
  proof
    fix h assume "h \<in> set (ib_blocks (rt_index ?r))"
    then obtain i where i: "i < length bs" "h = ib_blocks (rt_index ?r) ! i" using len by (metis in_set_conv_nth)
    obtain pre post where d: "data = pre @ db_enc (bs ! i) @ post"
      "bh_block h = \<lparr>fp_offset = length pre, fp_size = length (db_enc (bs ! i))\<rparr>" using index [OF i(1)] i(2) by blast
    have "length pre + length (db_enc (bs ! i)) \<le> length data" by (simp add: d(1))
    then show "bh_ok h" using small [OF i(1)] bs_root_handles(1) [OF assms(2) i(1)] i(2) d(2) assms(5)
      by (simp add: bh_ok_def fp_ok_def)
  qed
  have bh_meta: "\<forall>h\<in>set (ib_blocks (rt_meta ?r)). bh_ok h"
  proof
    fix h assume "h \<in> set (ib_blocks (rt_meta ?r))"
    then obtain i where i: "i < length bs" "h = ib_blocks (rt_meta ?r) ! i" using len by (metis in_set_conv_nth)
    obtain pre post where d: "data = pre @ bf_space (filter_of bits (bs ! i)) @ post"
      "bh_block h = \<lparr>fp_offset = length pre, fp_size = bf_size (filter_of bits (bs ! i))\<rparr>" using meta [OF i(1)] i(2) by blast
    have "length pre + bf_size (filter_of bits (bs ! i)) \<le> length data" by (simp add: d(1) bf_size_def)
    then show "bh_ok h" using small [OF i(1)] bs_root_handles(2) [OF assms(2) i(1)] i(2) d(2) assms(5)
      by (simp add: bh_ok_def fp_ok_def)
  qed
  have load: "rt_load data ?init = Inr ?root"
    using keys(3,4) by (intro rt_load_sections [OF assms(3,5) bh_index bh_meta]) (simp_all add: tb_new_def ib_new_def)
  have "length data \<noteq> 0" using assms(3) by (simp add: rt_sections_def ft_bytes_def flip: length_greater_0_conv)
  then obtain t where t: "st_open data opt = Inr t" "st_root t = ?root" "st_file t = data" "st_cmp t = None"
    "st_data t = sc_new (so_data_cache opt)" "st_filters t = sc_new (so_filter_cache opt)"
    using load assms(6) by (simp add: st_open_def Let_def)
  have "st_load_block t (bh_block (ib_blocks (rt_index ?r) ! i)) = Inr (bs ! i)" if i: "i < length bs" for i
  proof -
    obtain pre post where d: "data = pre @ db_enc (bs ! i) @ post"
      "bh_block (ib_blocks (rt_index ?r) ! i) = \<lparr>fp_offset = length pre, fp_size = length (db_enc (bs ! i))\<rparr>"
      using index [OF i] by blast
    show ?thesis unfolding st_load_block_def t(3,4) d(2) by (rule load_data_block_at [OF d(1) full [OF i] assms(5)])
  qed
  moreover have "\<exists>f. load_filter (st_file t) (bh_block (ib_blocks (rt_meta ?r) ! i)) 10 = Inr f \<and>
      (\<forall>p\<in>set (db_pairs (bs ! i)). bf_contain buffer_hash (kv_key p) f)" if i: "i < length bs" for i
  proof -
    obtain pre post where d: "data = pre @ bf_space (filter_of bits (bs ! i)) @ post"
      "bh_block (ib_blocks (rt_meta ?r) ! i) = \<lparr>fp_offset = length pre, fp_size = bf_size (filter_of bits (bs ! i))\<rparr>"
      using meta [OF i] by blast
    obtain pre' post' where "data = pre' @ db_enc (bs ! i) @ post'" using index [OF i] by blast
    then have "length (db_enc (bs ! i)) \<le> length data" by simp
    then have "length (db_enc (bs ! i)) * bits < 2 ^ 64" using assms(4) by (meson le_less_trans mult_le_mono1)
    then have "\<forall>p\<in>set (db_pairs (bs ! i)). bf_contain buffer_hash (kv_key p) (bf_from (bf_space (filter_of bits (bs ! i))) 10)"
      using filter_of_knows assms(2) full [OF i] by blast
    then show ?thesis unfolding t(3) d(2) load_filter_at [OF d(1) assms(5)] by blast
  qed
  ultimately have "st_shows bs t" using keys t(2) by (simp add: st_shows_def Let_def)
  moreover have "st_coherent bs t"
    using assms(7) by (simp add: st_coherent_def segments.coherent_def t(5,6))
  ultimately show ?thesis using t(1,2) assms(1) by (auto simp: st_ok_def)
qed

fun st_gets :: "bytes list \<Rightarrow> sst_table \<Rightarrow> (exn + bytes) list \<times> sst_table" where
  "st_gets [] t = ([], t)"
| "st_gets (k # ks) t = (let (r, t1) = st_get k t; (rs, t2) = st_gets ks t1 in (r # rs, t2))"

lemma st_gets_ok: "st_ok bs t \<Longrightarrow> st_ok bs (snd (st_gets ks t))"
proof (induction ks arbitrary: t)
  case (Cons k ks)
  obtain r t1 where t1: "st_get k t = (r, t1)" "st_ok bs t1" using st_get_ok [OF Cons.prems, of k] by auto
  obtain rs t2 where "st_gets ks t1 = (rs, t2)" by fastforce
  then show ?case using Cons.IH [OF t1(2)] t1(1) by simp
qed simp

section \<open>Dumps without filters, and of deleted entries only\<close>

lemma write_block_no_filter:
  "write_block b 0 t ch = (Inr t', ch') \<Longrightarrow> rt_meta (tb_root t') = rt_meta (tb_root t)"
  by (auto simp: write_block_def Let_def io_eqs io_lift_def split: if_splits)

lemma dump_loop_no_filter:
  "dump_loop bytes erase 0 kvs b used t ch = (Inr t', ch') \<Longrightarrow> rt_meta (tb_root t') = rt_meta (tb_root t)"
proof (induction kvs arbitrary: b used t ch)
  case Nil
  then show ?case by (auto simp: flush_block_def io_eqs split: if_splits dest: write_block_no_filter)
next
  case (Cons kv kvs)
  from Cons.prems obtain b' where b': "put_wal_kv b kv = Inr b'" by (auto simp: io_eqs)
  show ?case
  proof (cases "used + wal_size kv \<ge> bytes")
    case True
    with Cons.prems b' obtain t1 ch1 where "flush_block b' erase 0 t ch = (Inr t1, ch1)"
      "dump_loop bytes erase 0 kvs (b'\<lparr>db_groups := []\<rparr>) 0 t1 ch1 = (Inr t', ch')" by (auto simp: io_eqs)
    then show ?thesis using Cons.IH write_block_no_filter by (metis flush_block_def)
  next
    case False
    with Cons.prems b' show ?thesis using Cons.IH by simp
  qed
qed

lemma dump_wal_no_filter:
  assumes "dump_wal bytes kvs 0 erase cmp ch = (Inr r, ch')"
  shows "ib_blocks (rt_meta r) = []"
proof -
  from assms obtain t c where t: "dump_loop bytes erase 0 kvs (db_new\<lparr>db_cmp := cmp\<rparr>) 0 (tb_new cmp) ch = (Inr t, c)"
    "rt_store (tb_root t) (tb_offset t) c = (Inr r, ch')"
    by (auto simp: dump_wal_def io_eqs)
  have "rt_meta r = rt_meta (tb_root t)"
    using t(2) by (auto simp: rt_store_def io_eqs Let_def)
  then show ?thesis using dump_loop_no_filter [OF t(1)] by (simp add: tb_new_def ib_new_def)
qed

lemma erase_deleted_none:
  assumes "\<forall>p\<in>set (db_pairs b). kv_value p = []"
  shows "db_groups (db_erase_deleted b) = []"
proof -
  have "filter (\<lambda>p. kv_value p \<noteq> []) (db_pairs b) = []" using assms by (simp add: filter_empty_conv)
  then have "concat (map sg_pairs (erase_deleted_groups (db_groups b))) = []"
    using erase_deleted_pairs [of "db_groups b"] by (simp add: db_pairs_def)
  moreover have "\<forall>g\<in>set (erase_deleted_groups (db_groups b)). sg_pairs g \<noteq> []" using erase_deleted_pairs by blast
  ultimately show ?thesis by (cases "erase_deleted_groups (db_groups b)") (auto simp: db_erase_deleted_def)
qed

lemma flush_erased: "\<forall>p\<in>set (db_pairs b). kv_value p = [] \<Longrightarrow> flush_block b True bits t ch = (Inl Undefined, ch)"
  by (simp add: flush_block_def write_block_def erase_deleted_none io_lift_def)

lemma dump_loop_erased:
  assumes "db_built b" and "\<forall>p\<in>set (db_pairs b). kv_value p = []" and "db_pairs b \<noteq> [] \<or> kvs \<noteq> []"
    and "keys_ascend (db_items b @ map wal_kv kvs)" and "\<forall>kv\<in>set kvs. snd kv = None \<and> length (fst kv) < 2 ^ 31"
  shows "fst (dump_loop bytes True bits kvs b used t ch) = Inl Undefined"
  using assms
proof (induction kvs arbitrary: b used)
  case Nil
  then have "db_groups b \<noteq> []" by (auto simp: db_pairs_def)
  then show ?case using Nil flush_erased by simp
next
  case (Cons kv kvs)
  have kv: "wal_kv kv = (fst kv, [])" "length (fst kv) < 2 ^ 31" using Cons.prems(5) by (simp_all add: wal_kv_def)
  have less: "\<forall>p\<in>set (db_pairs b). bytes_less (kv_key p) (fst kv)"
    using Cons.prems(4) kv(1) by (fastforce simp: sorted_wrt_append)
  obtain b' sh u where b': "put_wal_kv b kv = Inr b'" "db_built b'" "db_pairs b' = db_pairs b @ [kv_new sh u (fst kv) []]"
    using db_put_ascending [OF Cons.prems(1) less kv(2), of "[]"] kv(1) by (auto simp: put_wal_kv_put)
  have none: "\<forall>p\<in>set (db_pairs b'). kv_value p = []" using b'(3) Cons.prems(2) by (auto simp: kv_new_def)
  show ?case
  proof (cases "used + wal_size kv \<ge> bytes")
    case True
    then show ?thesis using b'(1) by (simp add: io_bind_Inl [OF flush_erased [OF none]])
  next
    case False
    have "fst (dump_loop bytes True bits kvs b' (used + wal_size kv) t ch) = Inl Undefined"
      using Cons.prems(4,5) b'(2,3) none kv(1) by (intro Cons.IH) (simp_all add: kv_new_def)
    then show ?thesis using b'(1) False by simp
  qed
qed

lemma dump_wal_table:
  assumes "keys_ascend (map wal_kv kvs)" and "length kvs < 2 ^ 31"
    and "\<forall>kv\<in>set kvs. length (fst (wal_kv kv)) < 2 ^ 31 \<and> length (snd (wal_kv kv)) < 2 ^ 31"
    and "\<forall>p\<in>set kvs. \<forall>q\<in>set kvs. key_fits (fst p) (fst q)"
    and "10 \<le> bits" and "so_cmp opt = None"
    and "dump_wal bytes kvs bits False None ([], []) = (res, as, data)" and "length data * bits < 2 ^ 63"
  shows "\<exists>bs t. bs_items bs = map wal_kv kvs \<and> st_open data opt = Inr t \<and> res = Inr (st_root t) \<and> st_ok bs t"
proof -
  obtain bs where bs: "bs_wf bs" "bs_items bs = map wal_kv kvs"
    "res = Inr ((bs_root bits bs)\<lparr>rt_footer := rt_new_footer (bs_root bits bs) (length (bs_data bits bs))\<rparr>)"
    "data = bs_data bits bs @ rt_sections (bs_root bits bs) (length (bs_data bits bs))"
    using dump_wal_result [OF assms(1,2) _ assms(3), of bits bytes] assms(5,7) by auto
  have mem: "\<exists>p\<in>set kvs. db_last_key b = fst p" if "b \<in> set bs" for b
  proof -
    have "(db_last_key b, kv_value (last (db_pairs b))) \<in> set (bs_items bs)"
      using last_key_item [of b] bs(1) that by (auto simp: bs_wf_def)
    then show ?thesis unfolding bs(2) by (auto simp: wal_kv_def)
  qed
  have fits: "\<forall>k\<in>db_last_key ` set bs. \<forall>l\<in>db_last_key ` set bs. key_fits k l"
  proof (intro ballI; elim imageE)
    fix k l b c
    assume "k = db_last_key b" "b \<in> set bs" "l = db_last_key c" "c \<in> set bs"
    moreover from this obtain p q where "p \<in> set kvs" "db_last_key b = fst p" "q \<in> set kvs" "db_last_key c = fst q"
      using mem by blast
    ultimately show "key_fits k l" using assms(4) by simp
  qed
  have "length data * 10 \<le> length data * bits" using assms(5) by simp
  from le_less_trans [OF this assms(8)] have small: "length data < 2 ^ 63" by simp
  have "length data * bits < 2 ^ 64" using assms(8) by simp
  from dumped_table_ok [OF bs(1) assms(5) bs(4) this small assms(6) fits] obtain t where
    t: "st_open data opt = Inr t" "res = Inr (st_root t)" "st_ok bs t" using bs(3) by auto
  with bs(2) show ?thesis by blast
qed

lemma st_ok_serves:
  assumes "st_ok bs t"
  shows "let t' = snd (st_gets ks t); m = map_of (bs_items bs) key in
    fst (st_get key t') = (case m of Some v \<Rightarrow> Inr v | None \<Rightarrow> Inl Out_of_range) \<and>
    fst (st_exist key t') = Inr (case m of None \<Rightarrow> Not_exist | Some v \<Rightarrow> if v = [] then Deleted else Exist)"
proof -
  have ok: "st_ok bs (snd (st_gets ks t))" by (rule st_gets_ok [OF assms])
  from st_get_ok [OF ok, of key] st_exist_ok [OF ok, of key] show ?thesis
    unfolding Let_def by (elim exE conjE) (simp only: fst_conv simp_thms)
qed

section \<open>Properties\<close>

text \<open>C6: A table serves what was dumped into it. Dumping ascending entries (a deleted one has no value) with
  filters of at least ten bits, and opening the file with any cache sizes, yields the root that the dump
  returned; and after any sequence of lookups, whatever they left in the caches, \<open>Get\<close> returns the value
  of every entry and throws \<open>out_of_range\<close> for every other key, and \<open>Exist\<close> tells present, deleted and
  absent keys apart. The keys must not be prefixes of each other, or the caches mix them up.\<close>

theorem sst_table_serves_dump:
  assumes "keys_ascend (map wal_kv kvs)" and "length kvs < 2 ^ 31"
    and "\<forall>kv\<in>set kvs. length (fst (wal_kv kv)) < 2 ^ 31 \<and> length (snd (wal_kv kv)) < 2 ^ 31"
    and "\<forall>p\<in>set kvs. \<forall>q\<in>set kvs. key_fits (fst p) (fst q)"
    and "10 \<le> bits" and "so_cmp opt = None"
    and "dump_wal bytes kvs bits False None ([], []) = (res, as, data)" and "length data * bits < 2 ^ 63"
  shows "\<exists>t. st_open data opt = Inr t \<and> res = Inr (st_root t) \<and>
    (\<forall>ks key. let t' = snd (st_gets ks t); m = map_of (map wal_kv kvs) key in
       fst (st_get key t') = (case m of Some v \<Rightarrow> Inr v | None \<Rightarrow> Inl Out_of_range) \<and>
       fst (st_exist key t') = Inr (case m of None \<Rightarrow> Not_exist | Some v \<Rightarrow> if v = [] then Deleted else Exist))"
proof -
  obtain bs t where t: "bs_items bs = map wal_kv kvs" "st_open data opt = Inr t" "res = Inr (st_root t)" "st_ok bs t"
    using dump_wal_table [OF assms] by blast
  from st_ok_serves [OF t(4), unfolded t(1)] t(2,3) show ?thesis by blast
qed

text \<open>A table of one entry.\<close>

definition db_one :: "8 word \<Rightarrow> data_block" where
  "db_one v = \<lparr>db_groups = [\<lparr>sg_pairs = [kv_new 0 1 [1] [v]], sg_cmp = None\<rparr>], db_cmp = None\<rparr>"

lemma db_one_full: "db_full (db_one v)"
  by (simp add: db_full_def db_built_def db_wf_def db_one_def db_pairs_def sg_wf_def sg_sorted_def sg_shape_def
      kv_shares_def kv_ok_def kv_new_def sg_size_def max_key_per_groups_def)

lemma db_one_put: "put_wal_kv (db_new\<lparr>db_cmp := None\<rparr>) ([1], Some [v]) = Inr (db_one v)"
  by (simp add: put_wal_kv_def db_put_def db_new_def db_find_insert_group_def db_find_group_def lower_bound_def
      lower_bound_from.simps sg_try_put_empty sg_new_def db_one_def Let_def)

lemma db_one_size: "length (db_enc (db_one v)) = 16"
  by (simp add: db_enc_def db_body_def db_one_def sg_enc_def kv_enc_def kv_new_def venc_small Let_def)

lemma db_one_loop:
  "dump_loop bytes False bits [([1], Some [v])] (db_new\<lparr>db_cmp := None\<rparr>) 0 (tb_new None) ([], []) =
    (Inr (bs_state bits [db_one v]), [], bs_enc [db_one v])"
proof -
  have "flush_block (db_one v) False bits (tb_new None) ([], []) = (Inr (bs_state bits [db_one v]), [], bs_enc [db_one v])"
    using write_block_step [OF db_one_full [of v], of "[]" bits] by (simp add: flush_block_def flip: tb_new_state)
  then show ?thesis
    using db_fullD(3) [OF db_one_full [of v]]
    by (simp add: db_one_put wal_size_def io_bind_def io_return_def io_lift_def)
qed

lemma db_one_dump:
  "dump_wal bytes [([1], Some [v])] 10 False None ([], []) =
    (Inr ((bs_root 10 [db_one v])\<lparr>rt_footer := rt_new_footer (bs_root 10 [db_one v]) 36\<rparr>), [],
     bs_data 10 [db_one v] @ rt_sections (bs_root 10 [db_one v]) 36)"
  "length (bs_data 10 [db_one v] @ rt_sections (bs_root 10 [db_one v]) 36) = 122"
proof -
  note loop = db_one_loop [of bytes 10 v]
  have space: "length (bf_space (filter_of 10 (db_one v))) = 20"
    using bf_size_fold [of buffer_hash "map kv_key (db_pairs (db_one v))" "bf_new 160 10"]
    by (simp add: filter_of_def db_one_size bf_size_def bf_new_def)
  then have data: "length (bs_data 10 [db_one v]) = 36" by (simp add: bs_data_def db_one_size)
  with dump_wal_finish [OF loop] show "dump_wal bytes [([1], Some [v])] 10 False None ([], []) =
    (Inr ((bs_root 10 [db_one v])\<lparr>rt_footer := rt_new_footer (bs_root 10 [db_one v]) 36\<rparr>), [],
     bs_data 10 [db_one v] @ rt_sections (bs_root 10 [db_one v]) 36)" by simp
  have "length (ib_section (rt_index (bs_root 10 [db_one v]))) = 27" "length (ib_section (rt_meta (bs_root 10 [db_one v]))) = 27"
    by (simp_all add: ib_section_def ib_store_def bs_root_def bs_state_def db_one_def kv_new_def Let_def)
  then show "length (bs_data 10 [db_one v] @ rt_sections (bs_root 10 [db_one v]) 36) = 122"
    using data by (simp add: rt_sections_def ft_bytes_def)
qed

definition so_default :: sst_option where
  "so_default = \<lparr>so_cmp = None, so_bits = 10, so_data_cache = 512, so_filter_cache = 512\<rparr>"

theorem sst_table_serves_dump_witness:
  "\<exists>data t. snd (snd (dump_wal 1 [([1], Some [2])] 10 False None ([], []))) = data \<and> st_open data so_default = Inr t \<and>
    fst (st_get [1] t) = Inr [2] \<and> fst (st_get [1] (snd (st_gets [[1], [9]] t))) = Inr [2] \<and>
    fst (st_get [9] (snd (st_gets [[1]] t))) = Inl Out_of_range"
proof -
  let ?data = "bs_data 10 [db_one 2] @ rt_sections (bs_root 10 [db_one 2]) 36"
  have "length ?data * 10 < 2 ^ 63" unfolding db_one_dump(2) by simp
  then obtain t where t: "st_open ?data so_default = Inr t"
    "\<forall>ks key. let t' = snd (st_gets ks t); m = map_of (map wal_kv [([1], Some [2])]) key in
       fst (st_get key t') = (case m of Some v \<Rightarrow> Inr v | None \<Rightarrow> Inl Out_of_range) \<and>
       fst (st_exist key t') = Inr (case m of None \<Rightarrow> Not_exist | Some v \<Rightarrow> if v = [] then Deleted else Exist)"
    using sst_table_serves_dump [OF _ _ _ _ _ _ db_one_dump(1) [of 1 2], of so_default]
    by (auto simp: wal_kv_def key_fits_def so_default_def)
  have "fst (st_get [1] (snd (st_gets [] t))) = Inr [2]" "fst (st_get [1] (snd (st_gets [[1], [9]] t))) = Inr [2]"
    "fst (st_get [9] (snd (st_gets [[1]] t))) = Inl Out_of_range"
    using t(2) [rule_format, of "[]" "[1]"] t(2) [rule_format, of "[[1], [9]]" "[1]"] t(2) [rule_format, of "[[1]]" "[9]"]
    by (simp_all add: wal_kv_def Let_def del: st_gets.simps)
  moreover have "st_gets [] t = ([], t)" by (rule st_gets.simps(1))
  ultimately show ?thesis using t(1) unfolding db_one_dump(1) snd_conv
    by (intro exI [of _ ?data] exI [of _ t]) (simp del: st_gets.simps(2))
qed

text \<open>A table built without filters serves nothing: lookups go through the meta index, which such a dump
  leaves empty, so every key is reported as missing, whatever was dumped.\<close>

theorem sst_table_without_filters:
  assumes "dump_wal bytes kvs 0 erase cmp (accept, []) = (Inr r, ch)" and "st_root t = r"
  shows "st_get key t = (Inl Out_of_range, t) \<and> st_exist key t = (Inr Not_exist, t)"
proof -
  have "ib_blocks (rt_meta (st_root t)) = []" using dump_wal_no_filter [OF assms(1)] assms(2) by simp
  then have "st_find_block True key t = (Inr None, t)"
    by (simp add: st_find_block_def ib_find_def lower_bound_def lower_bound_from.simps Let_def)
  then show ?thesis by (simp add: st_get_def st_exist_def)
qed

theorem sst_table_without_filters_witness:
  "\<exists>t. fst (dump_wal 1 [([1], Some [2])] 0 False None ([], [])) = Inr (st_root t) \<and> fst (st_get [1] t) = Inl Out_of_range"
proof -
  have "dump_wal 1 [([1], Some [2])] 0 False None ([], []) =
      rt_store (tb_root (bs_state 0 [db_one 2])) (length (bs_enc [db_one 2])) ([], bs_enc [db_one 2])"
    unfolding dump_wal_def io_bind_def db_one_loop by (simp add: io_return_def bs_state_def)
  also have "\<dots> = (Inr ((tb_root (bs_state 0 [db_one 2]))\<lparr>rt_footer :=
      rt_new_footer (tb_root (bs_state 0 [db_one 2])) (length (bs_enc [db_one 2]))\<rparr>), [],
      bs_enc [db_one 2] @ rt_sections (tb_root (bs_state 0 [db_one 2])) (length (bs_enc [db_one 2])))"
    by (rule rt_store_ok [OF refl])
  finally have dump: "dump_wal 1 [([1], Some [2])] 0 False None ([], []) = \<dots>" .
  obtain t :: sst_table where "st_root t = (tb_root (bs_state 0 [db_one 2]))\<lparr>rt_footer :=
      rt_new_footer (tb_root (bs_state 0 [db_one 2])) (length (bs_enc [db_one 2]))\<rparr>"
    by (meson sst_table.select_convs(2))
  with sst_table_without_filters [OF dump this, of "[1]"] dump show ?thesis by (intro exI [of _ t]) simp
qed

text \<open>Erasing deleted entries can leave nothing to write: a dump whose entries are all deleted asks an empty
  block for its last key.\<close>

theorem sst_table_erases_everything:
  assumes "kvs \<noteq> []" and "keys_ascend (map wal_kv kvs)" and "\<forall>kv\<in>set kvs. snd kv = None \<and> length (fst kv) < 2 ^ 31"
  shows "fst (dump_wal bytes kvs bits True None ch) = Inl Undefined"
proof -
  have built: "db_built (db_new\<lparr>db_cmp := None\<rparr>)" "db_pairs (db_new\<lparr>db_cmp := None\<rparr>) = []"
    by (simp_all add: db_built_def db_wf_def db_new_def db_pairs_def)
  have "fst (dump_loop bytes True bits kvs (db_new\<lparr>db_cmp := None\<rparr>) 0 (tb_new None) ch) = Inl Undefined"
    using assms built by (intro dump_loop_erased) simp_all
  then obtain ch' where "dump_loop bytes True bits kvs (db_new\<lparr>db_cmp := None\<rparr>) 0 (tb_new None) ch = (Inl Undefined, ch')"
    by (metis prod.collapse)
  note stop = io_bind_Inl [where m = "dump_loop bytes True bits kvs (db_new\<lparr>db_cmp := None\<rparr>) 0 (tb_new None)", OF this]
  show ?thesis unfolding dump_wal_def stop by (rule fst_conv)
qed

theorem sst_table_erases_everything_witness:
  "fst (dump_wal 4096 [([1], None), ([2], None)] 10 True None ([], [])) = Inl Undefined"
  by (rule sst_table_erases_everything) (simp_all add: wal_kv_def)

end
