(* ===== verification/SstMerge.thy ===== *)
theory SstMerge
  imports SstTable
begin

text \<open>
  Merging tables (\<open>MergeTables\<close> and \<open>CombineTables\<close> of \<open>include/sharpen/SortedStringTableBuilder.hpp\<close>,
  \<open>Merge\<close> of \<open>include/sharpen/SortedStringTable.hpp\<close>). The tables are read block by block, the smallest key
  of all goes to the block that is being built, and of equal keys the one of the last table is kept.
\<close>

section \<open>Reading the tables\<close>

text \<open>The place of the merge in one table: the entries of \<open>blocks\<close>, \<open>states\<close>, \<open>keys\<close> and \<open>values\<close>.\<close>

record merge_source =
  ms_index :: "block_handle list"
  ms_file :: bytes
  ms_block :: data_block
  ms_next :: nat
  ms_group :: nat
  ms_pos :: nat
  ms_key :: bytes
  ms_value :: bytes

definition ms_new :: "sst_root \<times> bytes \<Rightarrow> merge_source" where
  "ms_new rf = \<lparr>ms_index = ib_blocks (rt_index (fst rf)), ms_file = snd rf, ms_block = db_new, ms_next = 0, ms_group = 0,
     ms_pos = 0, ms_key = [], ms_value = []\<rparr>"

text \<open>
  \<open>GetKv\<close>: the pair at a position, and the position behind it. The pairs are moved out of the block, which is
  not looked at again before them. Neither index goes beyond its end.
\<close>

function get_kv :: "group list \<Rightarrow> nat \<Rightarrow> nat \<Rightarrow> kv option \<times> nat \<times> nat" where
  "get_kv gs i j =
     (if i \<ge> length gs then (None, i, j)
      else if j < sg_size (gs ! i) then (Some (sg_pairs (gs ! i) ! j), i, j + 1)
      else get_kv gs (i + 1) 0)"
  by pat_completeness auto
termination by (relation "measure (\<lambda>(gs, i, j). length gs - i)") auto

declare get_kv.simps [simp del]

definition load_next :: "comparator \<Rightarrow> merge_source \<Rightarrow> exn + merge_source" where
  "load_next cmp s =
     (if db_groups (ms_block s) = [] \<and> ms_next s < length (ms_index s) then
        res_bind (load_data_block (ms_file s) (bh_block (ms_index s ! ms_next s)) cmp) (\<lambda>b.
          Inr (s\<lparr>ms_block := b, ms_group := 0, ms_pos := 0, ms_next := ms_next s + 1\<rparr>))
      else Inr s)"

text \<open>One turn of the loop that fills \<open>keys[i]\<close>, repeated when a block is used up.\<close>

function load_source :: "comparator \<Rightarrow> merge_source \<Rightarrow> exn + merge_source" where
  "load_source cmp s =
     (if ms_key s \<noteq> [] then Inr s
      else case load_next cmp s of
        Inl e \<Rightarrow> Inl e
      | Inr s1 \<Rightarrow>
          (if db_groups (ms_block s1) = [] then Inr s1
           else case get_kv (db_groups (ms_block s1)) (ms_group s1) (ms_pos s1) of
             (Some p, i, j) \<Rightarrow> Inr (s1\<lparr>ms_group := i, ms_pos := j, ms_key := kv_key p, ms_value := kv_value p\<rparr>)
           | (None, i, j) \<Rightarrow>
               load_source cmp (s1\<lparr>ms_group := i, ms_pos := j, ms_block := (ms_block s1)\<lparr>db_groups := []\<rparr>\<rparr>)))"
  by pat_completeness auto
termination
  by (relation "measure (\<lambda>(cmp, s). 2 * (length (ms_index s) - ms_next s) + (if db_groups (ms_block s) = [] then 0 else 1))")
    (auto simp: load_next_def res_bind_eq_Inr split: if_splits sum.splits)

declare load_source.simps [simp del]

fun load_sources :: "comparator \<Rightarrow> merge_source list \<Rightarrow> exn + merge_source list" where
  "load_sources cmp [] = Inr []"
| "load_sources cmp (s # ss) =
     res_bind (load_source cmp s) (\<lambda>s'. res_bind (load_sources cmp ss) (\<lambda>ss'. Inr (s' # ss')))"

section \<open>Choosing the next key\<close>

text \<open>
  The loop over the keys: a key that is not greater than the selected one takes its place, and an equal one
  clears it, so that its table goes on to its next key.
\<close>

definition select_step :: "comparator \<Rightarrow> nat \<Rightarrow> merge_source list \<times> nat option \<Rightarrow> merge_source list \<times> nat option" where
  "select_step cmp i = (\<lambda>(ss, sel).
     let k = ms_key (ss ! i) in
       case sel of
         None \<Rightarrow> if k \<noteq> [] then (ss, Some i) else (ss, None)
       | Some j \<Rightarrow>
           if k \<noteq> [] \<and> \<not> key_less cmp (ms_key (ss ! j)) k then
             (if k = ms_key (ss ! j) then ss[j := (ss ! j)\<lparr>ms_key := []\<rparr>] else ss, Some i)
           else (ss, Some j))"

definition select_key :: "comparator \<Rightarrow> merge_source list \<Rightarrow> merge_source list \<times> nat option" where
  "select_key cmp ss = fold (select_step cmp) [0..<length ss] (ss, None)"

section \<open>The loop\<close>

text \<open>
  \<open>mg_roots\<close> is what the inserter received, \<open>mg_files\<close> the files that are finished, \<open>mg_made\<close> the number of
  files made after the first one.
\<close>

record merge_state =
  mg_sources :: "merge_source list"
  mg_block :: data_block
  mg_used :: nat
  mg_build :: table_build
  mg_blocks :: nat
  mg_roots :: "sst_root list"
  mg_files :: "bytes list"
  mg_made :: nat
  mg_flag :: bool

record merge_option =
  mo_cmp :: comparator
  mo_bytes :: nat
  mo_table_blocks :: nat
  mo_bits :: nat
  mo_erase :: bool

definition finish_table :: "nat \<Rightarrow> table_build \<Rightarrow> (table_build \<times> sst_root) io" where
  "finish_table bits t =
     io_bind (if bits \<noteq> 0 then write_filters t else io_return t) (\<lambda>t'.
       io_bind (rt_store (tb_root t') (tb_offset t')) (\<lambda>r. io_return (t', r)))"

text \<open>The next file of \<open>channelMaker\<close> takes the place of the one written.\<close>

definition change_file :: "bytes \<Rightarrow> bytes io" where
  "change_file data ch = (Inr (snd ch), (fst ch, data))"

definition merge_flush :: "merge_option \<Rightarrow> (nat \<Rightarrow> bytes) \<Rightarrow> merge_state \<Rightarrow> merge_state io" where
  "merge_flush opt maker m =
     io_bind
       (if mg_used m \<ge> mo_bytes opt \<or> \<not> mg_flag m then
          io_bind (flush_block (mg_block m) (mo_erase opt) (mo_bits opt) (mg_build m)) (\<lambda>t.
            io_return (m\<lparr>mg_build := t, mg_used := 0, mg_block := (mg_block m)\<lparr>db_groups := []\<rparr>,
              mg_blocks := mg_blocks m + 1\<rparr>))
        else io_return m) (\<lambda>m1.
       if mo_table_blocks opt \<noteq> 0 \<and> (mg_blocks m1 = mo_table_blocks opt \<or> \<not> mg_flag m1) then
         io_bind (finish_table (mo_bits opt) (mg_build m1)) (\<lambda>(t, r).
           io_bind (change_file (maker (mg_made m1))) (\<lambda>data.
             io_return (m1\<lparr>mg_build := t\<lparr>tb_root := r\<lparr>rt_index := (rt_index r)\<lparr>ib_blocks := []\<rparr>,
                   rt_meta := (rt_meta r)\<lparr>ib_blocks := []\<rparr>\<rparr>, tb_offset := 0\<rparr>,
                 mg_blocks := 0, mg_roots := mg_roots m1 @ [r], mg_files := mg_files m1 @ [data],
                 mg_made := mg_made m1 + 1\<rparr>)))
       else io_return m1)"

definition merge_step :: "merge_option \<Rightarrow> (nat \<Rightarrow> bytes) \<Rightarrow> merge_state \<Rightarrow> merge_state io" where
  "merge_step opt maker m =
     io_bind (io_lift (load_sources (mo_cmp opt) (mg_sources m))) (\<lambda>ss.
       case select_key (mo_cmp opt) ss of
         (ss1, None) \<Rightarrow> merge_flush opt maker (m\<lparr>mg_sources := ss1, mg_flag := False\<rparr>)
       | (ss1, Some j) \<Rightarrow>
           let key = ms_key (ss1 ! j); val = ms_value (ss1 ! j); rest = (ss1 ! j)\<lparr>ms_key := []\<rparr> in
             if db_exist (mg_block m) key \<noteq> Not_exist then io_return (m\<lparr>mg_sources := ss1[j := rest]\<rparr>)
             else io_bind (io_lift (db_put key val (mg_block m))) (\<lambda>b.
               merge_flush opt maker
                 (m\<lparr>mg_sources := ss1[j := rest\<lparr>ms_value := []\<rparr>], mg_block := b,
                    mg_used := mg_used m + length key + length val\<rparr>)))"

partial_function (option) merge_loop ::
  "merge_option \<Rightarrow> (nat \<Rightarrow> bytes) \<Rightarrow> merge_state \<Rightarrow> channel \<Rightarrow> ((exn + merge_state) \<times> channel) option" where
  "merge_loop opt maker m ch =
     (if \<not> mg_flag m then Some (Inr m, ch)
      else case merge_step opt maker m ch of
        (Inl e, ch') \<Rightarrow> Some (Inl e, ch')
      | (Inr m', ch') \<Rightarrow> merge_loop opt maker m' ch')"

definition mg_new :: "comparator \<Rightarrow> (sst_root \<times> bytes) list \<Rightarrow> merge_state" where
  "mg_new cmp tables = \<lparr>mg_sources = map ms_new tables, mg_block = db_new\<lparr>db_cmp := cmp\<rparr>, mg_used = 0,
     mg_build = tb_new cmp, mg_blocks = 0, mg_roots = [], mg_files = [], mg_made = 0, mg_flag = True\<rparr>"

text \<open>
  \<open>MergeTables\<close> into as many files as it takes: the roots, and the files behind the last one, which is the
  contents of the channel.
\<close>

definition merge_tables :: "merge_option \<Rightarrow> (nat \<Rightarrow> bytes) \<Rightarrow> (sst_root \<times> bytes) list \<Rightarrow> channel \<Rightarrow>
    ((exn + sst_root list \<times> bytes list) \<times> channel) option" where
  "merge_tables opt maker tables ch =
     (if tables = [] then Some (Inr ([], []), ch)
      else case merge_loop opt maker (mg_new (mo_cmp opt) tables) ch of
        None \<Rightarrow> None
      | Some (Inl e, ch') \<Rightarrow> Some (Inl e, ch')
      | Some (Inr m, ch') \<Rightarrow>
          Some ((if mo_table_blocks opt = 0 then
              io_bind (finish_table (mo_bits opt) (mg_build m)) (\<lambda>(t, r). io_return (mg_roots m @ [r], mg_files m))
            else io_return (mg_roots m, mg_files m)) ch'))"

text \<open>\<open>MergeTables\<close> into one file, whose root is written through the inserter.\<close>

definition merge_into_one :: "merge_option \<Rightarrow> (sst_root \<times> bytes) list \<Rightarrow> channel \<Rightarrow> ((exn + sst_root) \<times> channel) option" where
  "merge_into_one opt tables ch =
     (case merge_tables (opt\<lparr>mo_table_blocks := 0\<rparr>) (\<lambda>_. []) tables ch of
        None \<Rightarrow> None
      | Some (Inl e, ch') \<Rightarrow> Some (Inl e, ch')
      | Some (Inr (rs, _), ch') \<Rightarrow> Some (Inr (if rs = [] then tb_root (tb_new None) else last rs), ch'))"

section \<open>Combining ordered tables\<close>

fun combine_blocks :: "merge_option \<Rightarrow> bytes \<Rightarrow> block_handle list \<Rightarrow> table_build \<Rightarrow> table_build io" where
  "combine_blocks opt data [] t = io_return t"
| "combine_blocks opt data (h # hs) t =
     io_bind (io_lift (load_data_block data (bh_block h) (mo_cmp opt))) (\<lambda>b.
       io_bind (flush_block b (mo_erase opt) (mo_bits opt) t) (combine_blocks opt data hs))"

text \<open>The loop of \<open>CombineTables\<close>, as it is written: \<open>begin\<close> is not advanced.\<close>

partial_function (option) combine_loop ::
  "merge_option \<Rightarrow> (sst_root \<times> bytes) list \<Rightarrow> table_build \<Rightarrow> channel \<Rightarrow> ((exn + table_build) \<times> channel) option" where
  "combine_loop opt tables t ch =
     (case tables of
        [] \<Rightarrow> Some (Inr t, ch)
      | (r, data) # _ \<Rightarrow>
          (case combine_blocks opt data (ib_blocks (rt_index r)) t ch of
             (Inl e, ch') \<Rightarrow> Some (Inl e, ch')
           | (Inr t', ch') \<Rightarrow> combine_loop opt tables t' ch'))"

definition combine_tables :: "merge_option \<Rightarrow> (sst_root \<times> bytes) list \<Rightarrow> channel \<Rightarrow> ((exn + sst_root) \<times> channel) option" where
  "combine_tables opt tables ch =
     (case combine_loop opt tables (tb_new (mo_cmp opt)) ch of
        None \<Rightarrow> None
      | Some (Inl e, ch') \<Rightarrow> Some (Inl e, ch')
      | Some (Inr t, ch') \<Rightarrow> Some (io_bind (finish_table (mo_bits opt) t) (\<lambda>(t', r). io_return r) ch'))"

text \<open>\<open>Merge\<close> of a table: the file is emptied; the number of probes is set before a merge and after a combination.\<close>

definition st_merge :: "merge_option \<Rightarrow> sst_table list \<Rightarrow> bool \<Rightarrow> bool list \<Rightarrow> sst_table \<Rightarrow>
    ((exn + unit) \<times> sst_table) option" where
  "st_merge opt ts ordered accept t =
     (let tables = map (\<lambda>u. (st_root u, st_file u)) ts; opt' = opt\<lparr>mo_cmp := st_cmp t\<rparr> in
        case (if ordered then combine_tables else merge_into_one) opt' tables (accept, []) of
          None \<Rightarrow> None
        | Some (Inl e, _, data) \<Rightarrow> Some (Inl e, t\<lparr>st_file := data, st_bits := if ordered then st_bits t else mo_bits opt\<rparr>)
        | Some (Inr r, _, data) \<Rightarrow> Some (Inr (), t\<lparr>st_file := data, st_root := r, st_bits := mo_bits opt\<rparr>))"

section \<open>What is left of a table\<close>

definition pairs_from :: "group list \<Rightarrow> nat \<Rightarrow> nat \<Rightarrow> kv list" where
  "pairs_from gs i j = (if i < length gs then drop j (sg_pairs (gs ! i)) @ concat (map sg_pairs (drop (i + 1) gs)) else [])"

lemma pairs_from_start: "pairs_from gs 0 0 = concat (map sg_pairs gs)"
  by (cases gs) (simp_all add: pairs_from_def)

lemma get_kv_pairs:
  "case pairs_from gs i j of [] \<Rightarrow> fst (get_kv gs i j) = None
   | p # ps \<Rightarrow> \<exists>i' j'. get_kv gs i j = (Some p, i', j') \<and> pairs_from gs i' j' = ps"
proof (induction gs i j rule: get_kv.induct)
  case (1 gs i j)
  consider "i \<ge> length gs" | "i < length gs" "j < sg_size (gs ! i)" | "i < length gs" "j \<ge> sg_size (gs ! i)" by linarith
  then show ?case
  proof cases
    case 1
    then show ?thesis by (simp add: pairs_from_def get_kv.simps [of gs i j])
  next
    case 2
    then have "drop j (sg_pairs (gs ! i)) = sg_pairs (gs ! i) ! j # drop (j + 1) (sg_pairs (gs ! i))"
      by (simp add: sg_size_def Cons_nth_drop_Suc)
    with 2 show ?thesis by (simp add: pairs_from_def get_kv.simps [of gs i j])
  next
    case 3
    then have pairs: "pairs_from gs i j = pairs_from gs (i + 1) 0"
      by (cases "i + 1 < length gs") (simp_all add: pairs_from_def sg_size_def Cons_nth_drop_Suc [symmetric])
    have get: "get_kv gs i j = get_kv gs (i + 1) 0" using 3 by (simp add: get_kv.simps [of gs i j])
    show ?thesis unfolding pairs get using 3 by (intro "1.IH") simp_all
  qed
qed

text \<open>
  A place in a table whose blocks \<open>cs\<close> are still to be loaded, and the entries behind it.
\<close>

definition source_at :: "data_block list \<Rightarrow> merge_source \<Rightarrow> bool" where
  "source_at cs s \<longleftrightarrow>
     length (ms_index s) = ms_next s + length cs \<and> (\<forall>c\<in>set cs. db_groups c \<noteq> []) \<and>
     (\<forall>i<length cs. load_data_block (ms_file s) (bh_block (ms_index s ! (ms_next s + i))) None = Inr (cs ! i))"

definition source_items :: "data_block list \<Rightarrow> merge_source \<Rightarrow> (bytes \<times> bytes) list" where
  "source_items cs s =
     (if ms_key s = [] then [] else [(ms_key s, ms_value s)]) @
     map (\<lambda>p. (kv_key p, kv_value p)) (pairs_from (db_groups (ms_block s)) (ms_group s) (ms_pos s)) @ bs_items cs"

definition source_left :: "(bytes \<times> bytes) list \<Rightarrow> merge_source \<Rightarrow> bool" where
  "source_left L s \<longleftrightarrow> (\<exists>cs. source_at cs s \<and> source_items cs s = L) \<and> keys_ascend L \<and> [] \<notin> fst ` set L"

text \<open>The key in hand is the first of what is left.\<close>

definition key_in_hand :: "(bytes \<times> bytes) list \<Rightarrow> merge_source \<Rightarrow> bool" where
  "key_in_hand L s \<longleftrightarrow> (if L = [] then ms_key s = [] else hd L = (ms_key s, ms_value s))"

lemma load_next_left:
  assumes "source_at cs s" and "ms_key s = []"
  shows "\<exists>cs' s'. load_next None s = Inr s' \<and> source_at cs' s' \<and> source_items cs' s' = source_items cs s \<and> ms_key s' = [] \<and>
    (db_groups (ms_block s') = [] \<longrightarrow> cs' = []) \<and> ms_index s' = ms_index s"
proof (cases "db_groups (ms_block s) = [] \<and> ms_next s < length (ms_index s)")
  case True
  then obtain c cs1 where cs: "cs = c # cs1" using assms(1) by (cases cs) (simp_all add: source_at_def)
  let ?s = "s\<lparr>ms_block := c, ms_group := 0, ms_pos := 0, ms_next := ms_next s + 1\<rparr>"
  have "load_data_block (ms_file s) (bh_block (ms_index s ! ms_next s)) None = Inr c"
    using assms(1) cs unfolding source_at_def by (metis add_0_right length_greater_0_conv list.distinct(1) nth_Cons_0)
  then have "load_next None s = Inr ?s" using True by (simp add: load_next_def)
  moreover have "load_data_block (ms_file s) (bh_block (ms_index s ! (ms_next s + 1 + i))) None = Inr (cs1 ! i)"
    if "i < length cs1" for i
    using assms(1) cs that unfolding source_at_def by (metis Suc_less_eq add.assoc length_Cons nth_Cons_Suc plus_1_eq_Suc)
  then have "source_at cs1 ?s" using assms(1) cs by (simp add: source_at_def)
  moreover have "source_items cs1 ?s = source_items cs s"
    using True assms(2) cs by (simp add: source_items_def pairs_from_start db_pairs_def) (simp add: pairs_from_def)
  moreover have "db_groups c \<noteq> []" using assms(1) cs by (simp add: source_at_def)
  ultimately show ?thesis using assms(2) by (intro exI [of _ cs1] exI [of _ ?s]) simp
next
  case False
  have "cs = []" if "db_groups (ms_block s) = []" using False that assms(1) by (simp add: source_at_def)
  moreover have "load_next None s = Inr s" unfolding load_next_def if_not_P [OF False] ..
  ultimately show ?thesis using assms by blast
qed

lemma load_source_left:
  assumes "source_left L s"
  shows "\<exists>s'. load_source None s = Inr s' \<and> source_left L s' \<and> key_in_hand L s'"
  using assms
proof (induction "None :: comparator" s rule: load_source.induct)
  case (1 s)
  from "1.prems" obtain cs where cs: "source_at cs s" "source_items cs s = L" and L: "keys_ascend L" "[] \<notin> fst ` set L"
    by (auto simp: source_left_def)
  show ?case
  proof (cases "ms_key s = []")
    case False
    then have "key_in_hand L s" using cs(2) by (auto simp: key_in_hand_def source_items_def)
    with False "1.prems" show ?thesis by (simp add: load_source.simps [of None s])
  next
    case True
    obtain cs' s' where s': "load_next None s = Inr s'" "source_at cs' s'" "source_items cs' s' = L" "ms_key s' = []"
      "db_groups (ms_block s') = [] \<longrightarrow> cs' = []"
      using load_next_left [OF cs(1) True] cs(2) by blast
    show ?thesis
    proof (cases "db_groups (ms_block s') = []")
      case none: True
      then have "L = []" using s'(3-5) by (auto simp: source_items_def pairs_from_def)
      with none True s' show ?thesis by (auto simp: load_source.simps [of None s] source_left_def key_in_hand_def)
    next
      case some: False
      let ?pf = "pairs_from (db_groups (ms_block s')) (ms_group s') (ms_pos s')"
      note kv = get_kv_pairs [of "db_groups (ms_block s')" "ms_group s'" "ms_pos s'"]
      show ?thesis
      proof (cases ?pf)
        case Nil
        with kv obtain i j where get: "get_kv (db_groups (ms_block s')) (ms_group s') (ms_pos s') = (None, i, j)"
          by (cases "get_kv (db_groups (ms_block s')) (ms_group s') (ms_pos s')") auto
        let ?s = "s'\<lparr>ms_group := i, ms_pos := j, ms_block := (ms_block s')\<lparr>db_groups := []\<rparr>\<rparr>"
        have "source_items cs' ?s = L" using s'(3,4) unfolding source_items_def Nil by (simp add: pairs_from_def)
        then have "source_left L ?s" using s'(2) L by (auto simp: source_left_def source_at_def)
        then have "\<exists>t. load_source None ?s = Inr t \<and> source_left L t \<and> key_in_hand L t"
          using "1.hyps" [OF _ s'(1) some get [symmetric] refl refl] True by simp
        then show ?thesis using True s'(1) some get by (simp add: load_source.simps [of None s])
      next
        case (Cons p ps)
        with kv obtain i j where get: "get_kv (db_groups (ms_block s')) (ms_group s') (ms_pos s') = (Some p, i, j)"
          "pairs_from (db_groups (ms_block s')) i j = ps" by auto
        let ?s = "s'\<lparr>ms_group := i, ms_pos := j, ms_key := kv_key p, ms_value := kv_value p\<rparr>"
        have L_eq: "L = (kv_key p, kv_value p) # map (\<lambda>p. (kv_key p, kv_value p)) ps @ bs_items cs'"
          using s'(3,4) Cons by (simp add: source_items_def)
        then have "kv_key p \<noteq> []" using L(2) by auto
        then have "source_items cs' ?s = L" using L_eq get(2) by (simp add: source_items_def)
        then have "source_left L ?s" using s'(2) L by (auto simp: source_left_def source_at_def)
        moreover have "key_in_hand L ?s" using L_eq by (simp add: key_in_hand_def)
        ultimately show ?thesis using True s'(1) some get by (simp add: load_source.simps [of None s])
      qed
    qed
  qed
qed

lemma load_sources_left:
  assumes "list_all2 source_left Ls ss"
  shows "\<exists>ss'. load_sources None ss = Inr ss' \<and> list_all2 (\<lambda>L s. source_left L s \<and> key_in_hand L s) Ls ss'"
  using assms
proof (induction Ls ss rule: list_all2_induct)
  case (Cons L Ls s ss)
  obtain s' where "load_source None s = Inr s'" "source_left L s'" "key_in_hand L s'"
    using load_source_left [OF Cons.hyps(1)] by blast
  moreover obtain ss' where "load_sources None ss = Inr ss'"
    "list_all2 (\<lambda>L s. source_left L s \<and> key_in_hand L s) Ls ss'" using Cons.IH by blast
  ultimately show ?case by simp
qed simp

text \<open>Clearing the key in hand drops the first entry.\<close>

lemma source_left_tl:
  assumes "source_left L s" and "ms_key s \<noteq> []"
  shows "source_left (tl L) (s\<lparr>ms_key := []\<rparr>)" "source_left (tl L) (s\<lparr>ms_key := [], ms_value := v\<rparr>)"
    "L = (ms_key s, ms_value s) # tl L"
proof -
  obtain cs where cs: "source_at cs s" "source_items cs s = L" using assms(1) by (auto simp: source_left_def)
  then show L: "L = (ms_key s, ms_value s) # tl L" using assms(2) by (auto simp: source_items_def)
  have "keys_ascend ((ms_key s, ms_value s) # tl L) \<and> [] \<notin> fst ` set ((ms_key s, ms_value s) # tl L)"
    unfolding L [symmetric] using assms(1) by (simp add: source_left_def)
  then have "keys_ascend (tl L)" "[] \<notin> fst ` set (tl L)" by simp_all
  moreover have "source_items cs (s\<lparr>ms_key := []\<rparr>) = tl L" "source_items cs (s\<lparr>ms_key := [], ms_value := v\<rparr>) = tl L"
    using cs(2) assms(2) by (auto simp: source_items_def)
  ultimately show "source_left (tl L) (s\<lparr>ms_key := []\<rparr>)" "source_left (tl L) (s\<lparr>ms_key := [], ms_value := v\<rparr>)"
    using cs(1) by (auto simp: source_left_def source_at_def)
qed

section \<open>The merged map\<close>

text \<open>Of several tables, a later one overrides the earlier ones.\<close>

definition merged :: "('a \<times> 'b) list list \<Rightarrow> 'a \<Rightarrow> 'b option" where
  "merged Ls = foldr (\<lambda>L m. map_of L ++ m) Ls Map.empty"

lemma merged_Nil [simp]: "merged [] k = None"
  by (simp add: merged_def)

lemma merged_Cons [simp]: "merged (L # Ls) k = (case merged Ls k of None \<Rightarrow> map_of L k | Some v \<Rightarrow> Some v)"
  by (simp add: merged_def map_add_def)

lemma merged_None: "merged Ls k = None \<longleftrightarrow> (\<forall>L\<in>set Ls. map_of L k = None)"
  by (induction Ls) (auto split: option.splits)

lemma merged_update:
  assumes "j < length Ls" and "map_of X k = map_of (Ls ! j) k \<or> (\<exists>n>j. n < length Ls \<and> map_of (Ls ! n) k \<noteq> None)"
  shows "merged (Ls[j := X]) k = merged Ls k"
  using assms
proof (induction Ls arbitrary: j)
  case (Cons L Ls)
  show ?case
  proof (cases j)
    case 0
    have "merged Ls k \<noteq> None" if "n > 0" "n < length (L # Ls)" "map_of ((L # Ls) ! n) k \<noteq> None" for n
    proof -
      from that have "Ls ! (n - 1) \<in> set Ls" "map_of (Ls ! (n - 1)) k \<noteq> None" by (cases n; simp)+
      then show ?thesis unfolding merged_None by (intro notI) (drule (1) bspec, simp)
    qed
    note later = this
    from Cons.prems(2) show ?thesis
    proof (elim disjE exE conjE)
      fix n
      assume "j < n" "n < length (L # Ls)" "map_of ((L # Ls) ! n) k \<noteq> None"
      then have "merged Ls k \<noteq> None" using 0 by (intro later [of n]) simp_all
      then show ?thesis using 0 by auto
    qed (simp add: 0 split: option.split)
  next
    case (Suc i)
    have "map_of X k = map_of (Ls ! i) k \<or> (\<exists>n>i. n < length Ls \<and> map_of (Ls ! n) k \<noteq> None)"
    proof -
      have "\<exists>n>i. n < length Ls \<and> map_of (Ls ! n) k \<noteq> None"
        if "n > j" "n < length (L # Ls)" "map_of ((L # Ls) ! n) k \<noteq> None" for n
        using that Suc by (cases n) auto
      then show ?thesis using Cons.prems(2) Suc by auto
    qed
    then have "merged (Ls[i := X]) k = merged Ls k" using Cons.prems(1) Suc by (intro Cons.IH) simp_all
    then show ?thesis using Suc by simp
  qed
qed simp

lemma merged_only:
  "j < length Ls \<Longrightarrow> \<forall>i<length Ls. i \<noteq> j \<longrightarrow> map_of (Ls ! i) k = None \<Longrightarrow> merged Ls k = map_of (Ls ! j) k"
proof (induction Ls arbitrary: j)
  case (Cons L Ls)
  show ?case
  proof (cases j)
    case 0
    have "map_of M k = None" if "M \<in> set Ls" for M
      using Cons.prems(2) 0 that by (auto simp: in_set_conv_nth)
    then have "merged Ls k = None" unfolding merged_None by blast
    then show ?thesis using 0 by simp
  next
    case (Suc i)
    have "map_of L k = None" using Cons.prems(2) Suc by auto
    moreover have "\<forall>n<length Ls. n \<noteq> i \<longrightarrow> map_of (Ls ! n) k = None"
      using Cons.prems(2) Suc by (metis Suc_less_eq length_Cons nat.inject nth_Cons_Suc)
    then have "merged Ls k = map_of (Ls ! i) k" using Cons.prems(1) Suc by (intro Cons.IH) simp_all
    ultimately show ?thesis using Suc by (simp split: option.split)
  qed
qed simp

lemma map_of_tl: "L = (m, v) # L' \<Longrightarrow> k \<noteq> m \<Longrightarrow> map_of (tl L) k = map_of L k"
  by simp

section \<open>The selection\<close>

definition chosen :: "nat \<Rightarrow> (bytes \<times> bytes) list list \<Rightarrow> merge_source list \<Rightarrow> nat option \<Rightarrow> bool" where
  "chosen n Ls ss sel \<longleftrightarrow> (case sel of
     None \<Rightarrow> \<forall>i<n. Ls ! i = []
   | Some j \<Rightarrow> j < n \<and> Ls ! j \<noteq> [] \<and> ms_key (ss ! j) \<noteq> [] \<and>
       (\<forall>i<n. i \<noteq> j \<longrightarrow> (\<forall>p\<in>set (Ls ! i). bytes_less (ms_key (ss ! j)) (fst p))))"

lemma keys_from_head: "keys_ascend L \<Longrightarrow> L = (m, v) # L' \<Longrightarrow> p \<in> set L \<Longrightarrow> fst p = m \<or> bytes_less m (fst p)"
  by auto

lemma select_step_chosen:
  assumes "list_all2 source_left Ls ss" and "chosen n Ls ss sel" and "n < length ss"
    and "key_in_hand (Ls ! n) (ss ! n)" and "select_step None n (ss, sel) = (ss', sel')"
  shows "\<exists>Ls'. list_all2 source_left Ls' ss' \<and> merged Ls' = merged Ls \<and> chosen (n + 1) Ls' ss' sel' \<and>
    (\<forall>i>n. ss' ! i = ss ! i \<and> Ls' ! i = Ls ! i)"
proof -
  let ?k = "ms_key (ss ! n)"
  have len: "length Ls = length ss" using assms(1) by (rule list_all2_lengthD)
  have left: "source_left (Ls ! i) (ss ! i)" if "i < length ss" for i using assms(1) that by (simp add: list_all2_nthD2)
  have asc: "keys_ascend (Ls ! i)" if "i < length ss" for i using left [OF that] by (simp add: source_left_def)
  have empty: "Ls ! n = []" if "?k = []"
  proof (rule ccontr)
    assume ne: "Ls ! n \<noteq> []"
    with assms(4) that have "fst (hd (Ls ! n)) = []" by (simp add: key_in_hand_def)
    with ne have "[] \<in> fst ` set (Ls ! n)" by (metis image_eqI list.set_sel(1))
    with left [OF assms(3)] show False by (simp add: source_left_def)
  qed
  have head: "Ls ! n = (?k, ms_value (ss ! n)) # tl (Ls ! n)" if "?k \<noteq> []"
    using source_left_tl(3) [OF left [OF assms(3)] that] .
  have above: "fst p = ?k \<or> bytes_less ?k (fst p)" if "?k \<noteq> []" "p \<in> set (Ls ! n)" for p
    using keys_from_head [OF asc [OF assms(3)] head [OF that(1)] that(2)] .
  consider (stay) "?k = []" | (first) "?k \<noteq> []" "sel = None"
    | (less) j where "?k \<noteq> []" "sel = Some j" "bytes_less (ms_key (ss ! j)) ?k"
    | (eq) j where "?k \<noteq> []" "sel = Some j" "?k = ms_key (ss ! j)"
    | (greater) j where "?k \<noteq> []" "sel = Some j" "bytes_less ?k (ms_key (ss ! j))"
    using bytes.linear by (cases sel) blast+
  then show ?thesis
  proof cases
    case stay
    then have "ss' = ss" "sel' = sel" using assms(5) by (auto simp: select_step_def split: option.splits)
    moreover have "chosen (n + 1) Ls ss sel"
      using assms(2) empty [OF stay] by (auto simp: chosen_def less_Suc_eq split: option.splits)
    ultimately show ?thesis using assms(1) by blast
  next
    case first
    then have "ss' = ss" "sel' = Some n" using assms(5) by (auto simp: select_step_def)
    moreover have "chosen (n + 1) Ls ss (Some n)"
      using assms(2) first head by (auto simp: chosen_def less_Suc_eq)
    ultimately show ?thesis using assms(1) by blast
  next
    case (less j)
    then have "ss' = ss" "sel' = sel" using assms(5) by (auto simp: select_step_def key_less_None)
    moreover have "bytes_less (ms_key (ss ! j)) (fst p)" if "p \<in> set (Ls ! n)" for p
      using above [OF less(1) that] less(3) bytes.trans by metis
    then have "chosen (n + 1) Ls ss sel" using assms(2) less(2) by (auto simp: chosen_def less_Suc_eq)
    ultimately show ?thesis using assms(1) by blast
  next
    case (greater j)
    then have "?k \<noteq> ms_key (ss ! j)" "\<not> bytes_less (ms_key (ss ! j)) ?k" using bytes.asym by auto
    with greater have eqs: "ss' = ss" "sel' = Some n" using assms(5) by (auto simp: select_step_def key_less_None)
    have j: "j < n" "ms_key (ss ! j) \<noteq> []" using assms(2) greater(2) by (auto simp: chosen_def)
    have "bytes_less ?k (fst p)" if "i < n" "p \<in> set (Ls ! i)" for i p
    proof (cases "i = j")
      case True
      have "Ls ! j = (ms_key (ss ! j), ms_value (ss ! j)) # tl (Ls ! j)"
        using j assms(3) by (intro source_left_tl(3) left) simp_all
      from keys_from_head [OF asc this, of p] that(2) True j(1) assms(3) greater(3) bytes.trans show ?thesis
        by (metis order_less_trans)
    next
      case False
      then have "bytes_less (ms_key (ss ! j)) (fst p)" using assms(2) greater(2) that by (auto simp: chosen_def)
      with greater(3) show ?thesis by (rule bytes.trans)
    qed
    then have "chosen (n + 1) Ls ss (Some n)" using greater(1) head by (auto simp: chosen_def less_Suc_eq)
    with eqs show ?thesis using assms(1) by blast
  next
    case (eq j)
    have j: "j < n" "ms_key (ss ! j) \<noteq> []" using assms(2) eq(2) by (auto simp: chosen_def)
    then have j_len: "j < length ss" using assms(3) by simp
    let ?ss = "ss[j := (ss ! j)\<lparr>ms_key := []\<rparr>]" and ?Ls = "Ls[j := tl (Ls ! j)]"
    have eqs: "ss' = ?ss" "sel' = Some n" using assms(5) eq by (auto simp: select_step_def key_less_None)
    note tail = source_left_tl [OF left [OF j_len] j(2)]
    have "list_all2 source_left ?Ls ?ss" using assms(1) tail(1) by (simp add: list_all2_update_cong)
    moreover have "merged ?Ls = merged Ls"
    proof (rule ext)
      fix k
      have "map_of (Ls ! n) ?k \<noteq> None" using head [OF eq(1)] by (metis map_of_Cons_code(2) option.distinct(1))
      then have "map_of (tl (Ls ! j)) k = map_of (Ls ! j) k \<or> (\<exists>n>j. n < length Ls \<and> map_of (Ls ! n) k \<noteq> None)"
        using map_of_tl [OF tail(3), of k] eq(3) j(1) assms(3) len by (cases "k = ?k") auto
      then show "merged ?Ls k = merged Ls k" using j_len len by (intro merged_update) simp_all
    qed
    moreover have "bytes_less ?k (fst p)" if "i < n" "p \<in> set (?Ls ! i)" for i p
    proof (cases "i = j")
      case True
      have "keys_ascend ((ms_key (ss ! j), ms_value (ss ! j)) # tl (Ls ! j))"
        using asc [OF j_len] tail(3) by simp
      then show ?thesis using that(2) True j_len len eq(3) by simp
    next
      case False
      then show ?thesis using assms(2) eq(2,3) that by (auto simp: chosen_def)
    qed
    then have "chosen (n + 1) ?Ls ?ss (Some n)" using eq(1) j(1) head by (auto simp: chosen_def less_Suc_eq)
    moreover have "?ss ! i = ss ! i \<and> ?Ls ! i = Ls ! i" if "i > n" for i using that j(1) by simp
    ultimately show ?thesis using eqs by blast
  qed
qed

lemma select_fold:
  assumes "list_all2 (\<lambda>L s. source_left L s \<and> key_in_hand L s) Ls ss" and "n \<le> length ss"
  shows "\<exists>Ls' ss' sel. fold (select_step None) [0..<n] (ss, None) = (ss', sel) \<and> list_all2 source_left Ls' ss' \<and>
    length ss' = length ss \<and> merged Ls' = merged Ls \<and> chosen n Ls' ss' sel \<and> (\<forall>i\<ge>n. ss' ! i = ss ! i \<and> Ls' ! i = Ls ! i)"
  using assms(2)
proof (induction n)
  case 0
  have "list_all2 source_left Ls ss" using assms(1) by (rule list_all2_mono) simp
  then show ?case by (intro exI [of _ Ls] exI [of _ ss] exI [of _ None]) (simp add: chosen_def)
next
  case (Suc n)
  then obtain Ls1 ss1 sel where IH: "fold (select_step None) [0..<n] (ss, None) = (ss1, sel)" "list_all2 source_left Ls1 ss1"
    "length ss1 = length ss" "merged Ls1 = merged Ls" "chosen n Ls1 ss1 sel" "\<forall>i\<ge>n. ss1 ! i = ss ! i \<and> Ls1 ! i = Ls ! i"
    by auto
  have "key_in_hand (Ls1 ! n) (ss1 ! n)"
    using list_all2_nthD2 [OF assms(1), of n] Suc.prems IH(6) by simp
  moreover obtain ss2 sel2 where step: "select_step None n (ss1, sel) = (ss2, sel2)" by fastforce
  ultimately obtain Ls2 where Ls2: "list_all2 source_left Ls2 ss2" "merged Ls2 = merged Ls1" "chosen (n + 1) Ls2 ss2 sel2"
    "\<forall>i>n. ss2 ! i = ss1 ! i \<and> Ls2 ! i = Ls1 ! i"
    using select_step_chosen [OF IH(2,5)] Suc.prems IH(3) by (metis Suc_le_lessD)
  have "length ss2 = length ss1" using step by (auto simp: select_step_def Let_def split: option.splits if_splits)
  with Ls2 IH step show ?case by (intro exI [of _ Ls2] exI [of _ ss2] exI [of _ sel2]) simp
qed

text \<open>
  One round of the loop, on the entries \<open>R\<close> of the merged tables that are still to be written: the first of
  them is selected.
\<close>

lemma select_key_first:
  assumes "list_all2 (\<lambda>L s. source_left L s \<and> key_in_hand L s) Ls ss" and "keys_ascend R" and "merged Ls = map_of R"
  obtains ss' where "select_key None ss = (ss', None)" "R = []"
  | ss' j Ls' k v R' where "select_key None ss = (ss', Some j)" "R = (k, v) # R'" "ms_key (ss' ! j) = k" "ms_value (ss' ! j) = v"
    "k \<noteq> []" "list_all2 source_left Ls' (ss'[j := (ss' ! j)\<lparr>ms_key := [], ms_value := []\<rparr>])" "merged Ls' = map_of R'"
proof -
  obtain Ls1 ss1 sel where f: "select_key None ss = (ss1, sel)" "list_all2 source_left Ls1 ss1"
    "length ss1 = length ss" "merged Ls1 = map_of R" "chosen (length ss) Ls1 ss1 sel"
    using select_fold [OF assms(1) le_refl] assms(3) by (auto simp: select_key_def)
  have len: "length Ls1 = length ss1" using f(2) by (rule list_all2_lengthD)
  have asc: "keys_ascend (Ls1 ! i)" if "i < length ss" for i
    using list_all2_nthD2 [OF f(2), of i] that f(3) by (simp add: source_left_def)
  show thesis
  proof (cases sel)
    case None
    then have "L = []" if "L \<in> set Ls1" for L
      using f(5) that len f(3) by (auto simp: chosen_def in_set_conv_nth)
    then have "map_of R k = None" for k unfolding f(4) [symmetric] merged_None by (metis map_of.simps(1))
    then have "map_of R = Map.empty" by (rule ext)
    then have "R = []" by simp
    with f(1) None show thesis by (auto intro: that(1))
  next
    case (Some j)
    let ?k = "ms_key (ss1 ! j)" and ?v = "ms_value (ss1 ! j)"
    have j: "j < length ss" "?k \<noteq> []" and others: "\<And>i p. i < length ss \<Longrightarrow> i \<noteq> j \<Longrightarrow> p \<in> set (Ls1 ! i) \<Longrightarrow> bytes_less ?k (fst p)"
      using f(5) Some by (auto simp: chosen_def)
    note tail = source_left_tl [OF list_all2_nthD2 [OF f(2)] j(2)]
    have Lj: "Ls1 ! j = (?k, ?v) # tl (Ls1 ! j)" using tail(3) j(1) f(3) by simp
    have "keys_ascend ((?k, ?v) # tl (Ls1 ! j))" unfolding Lj [symmetric] by (rule asc [OF j(1)])
    then have tl_above: "\<forall>p\<in>set (tl (Ls1 ! j)). bytes_less ?k (fst p)" by simp
    have none: "map_of (Ls1 ! i) ?k = None" if i: "i < length ss" "i \<noteq> j" for i
    proof (rule ccontr)
      assume "map_of (Ls1 ! i) ?k \<noteq> None"
      then obtain v where "map_of (Ls1 ! i) ?k = Some v" by blast
      then have "(?k, v) \<in> set (Ls1 ! i)" by (rule map_of_SomeD)
      from others [OF i this] show False by simp
    qed
    have "merged Ls1 ?k = map_of (Ls1 ! j) ?k" using none j(1) len f(3) by (intro merged_only) auto
    also have "\<dots> = Some ?v" by (subst Lj) simp
    finally have Rk: "map_of R ?k = Some ?v" using f(4) by simp
    have above: "p = (?k, ?v) \<or> bytes_less ?k (fst p)" if "p \<in> set R" for p
    proof (cases "fst p = ?k")
      case True
      have "distinct (map fst R)" using bytes.sorted_distinct [OF assms(2)] .
      then have "map_of R (fst p) = Some (snd p)" using that by (simp add: map_of_eq_Some_iff)
      with Rk True show ?thesis by (metis option.inject prod.collapse)
    next
      case False
      have "map_of R (fst p) \<noteq> None" using that by (auto simp: map_of_eq_None_iff)
      then obtain L where "L \<in> set Ls1" "map_of L (fst p) \<noteq> None" unfolding f(4) [symmetric] merged_None by blast
      then obtain v where "map_of L (fst p) = Some v" by blast
      then have q: "(fst p, v) \<in> set L" by (rule map_of_SomeD)
      obtain i where "i < length Ls1" "L = Ls1 ! i" using \<open>L \<in> set Ls1\<close> by (metis in_set_conv_nth)
      with q len f(3) have i: "i < length ss" "(fst p, v) \<in> set (Ls1 ! i)" "fst (fst p, v) = fst p" by simp_all
      show ?thesis
      proof (cases "i = j")
        case True
        have "(fst p, v) \<in> set ((?k, ?v) # tl (Ls1 ! j))" unfolding Lj [symmetric] using i(2) True by simp
        with False have "(fst p, v) \<in> set (tl (Ls1 ! j))" by auto
        with tl_above show ?thesis by auto
      next
        case False
        with others [OF i(1) _ i(2)] i(3) show ?thesis by auto
      qed
    qed
    have "R \<noteq> []" using Rk by auto
    then obtain p R' where R: "R = p # R'" by (cases R) auto
    have "(?k, ?v) \<in> set R" using Rk by (rule map_of_SomeD)
    have "p = (?k, ?v)"
    proof (rule ccontr)
      assume ne: "p \<noteq> (?k, ?v)"
      with \<open>(?k, ?v) \<in> set R\<close> R have "(?k, ?v) \<in> set R'" by simp
      with assms(2) R have "bytes_less (fst p) ?k" by auto
      with above [of p] ne R bytes.asym show False by simp
    qed
    then have R': "R = (?k, ?v) # R'" using R by simp
    have "merged (Ls1[j := tl (Ls1 ! j)]) k = map_of R' k" for k
    proof (cases "k = ?k")
      case False
      have "merged (Ls1[j := tl (Ls1 ! j)]) k = merged Ls1 k"
        using j(1) len f(3) map_of_tl [OF Lj False] by (intro merged_update) simp_all
      with False R' f(4) show ?thesis by simp
    next
      case True
      have tl_none: "map_of (tl (Ls1 ! j)) ?k = None" using tl_above by (auto simp: map_of_eq_None_iff)
      have "map_of (Ls1[j := tl (Ls1 ! j)] ! i) ?k = None" if "i < length ss" for i
        using none [OF that] tl_none that len f(3) by (cases "i = j") simp_all
      then have "merged (Ls1[j := tl (Ls1 ! j)]) ?k = None"
        unfolding merged_None using len f(3) by (auto simp: in_set_conv_nth)
      moreover have "map_of R' ?k = None" using assms(2) R' by (auto simp: map_of_eq_None_iff)
      ultimately show ?thesis using True by simp
    qed
    then have "merged (Ls1[j := tl (Ls1 ! j)]) = map_of R'" by (rule ext)
    moreover have "list_all2 source_left (Ls1[j := tl (Ls1 ! j)]) (ss1[j := (ss1 ! j)\<lparr>ms_key := [], ms_value := []\<rparr>])"
      using f(2) tail(2) [where v = "[]"] j(1) f(3) by (intro list_all2_update_cong) simp_all
    ultimately show thesis using that(2) [OF _ R' refl refl j(2)] f(1) Some by simp
  qed
qed

section \<open>A merge is a dump of the merged entries\<close>

definition wal_of :: "bytes \<times> bytes \<Rightarrow> wal_item" where
  "wal_of kv = (fst kv, Some (snd kv))"

lemma wal_of_simps [simp]:
  "fst (wal_of kv) = fst kv" "wal_kv (wal_of kv) = kv" "wal_size (wal_of (k, v)) = length k + length v"
  "put_wal_kv b (wal_of (k, v)) = db_put k v b"
  by (simp_all add: wal_of_def wal_kv_def wal_size_def put_wal_kv_def)

text \<open>Whether the last block of a dump still has entries when the last entry has been put.\<close>

fun ends_open :: "nat \<Rightarrow> nat \<Rightarrow> bool \<Rightarrow> (bytes \<times> bytes) list \<Rightarrow> bool" where
  "ends_open bytes used filled [] = filled"
| "ends_open bytes used filled (kv # kvs) =
     (let used' = used + length (fst kv) + length (snd kv) in
        if used' \<ge> bytes then ends_open bytes 0 False kvs else ends_open bytes used' True kvs)"

lemma db_new_key:
  assumes "db_built b" and "\<forall>p\<in>set (db_pairs b). bytes_less (kv_key p) key"
  shows "db_exist b key = Not_exist"
proof -
  have "db_map b key = None" using assms(2) by (auto simp: db_map_def assoc_None)
  then show ?thesis using db_exist_map [of b key] assms(1) by (simp add: db_built_def)
qed

text \<open>One turn of the loop, when entries are left and when none are.\<close>

lemma merge_step_some:
  assumes "list_all2 source_left Ls (mg_sources m)" and "keys_ascend ((k, v) # R)" and "merged Ls = map_of ((k, v) # R)"
    and "db_built (mg_block m)" and "\<forall>p\<in>set (db_pairs (mg_block m)). bytes_less (kv_key p) k"
    and "mo_cmp opt = None" and "mo_table_blocks opt = 0" and "mg_flag m" and "db_put k v (mg_block m) = Inr b"
  shows "\<exists>Ls' ss. list_all2 source_left Ls' ss \<and> merged Ls' = map_of R \<and>
    merge_step opt maker m ch =
      (let used = mg_used m + length k + length v in
         if used \<ge> mo_bytes opt then
           io_bind (flush_block b (mo_erase opt) (mo_bits opt) (mg_build m)) (\<lambda>t.
             io_return (m\<lparr>mg_sources := ss, mg_build := t, mg_used := 0, mg_block := b\<lparr>db_groups := []\<rparr>,
               mg_blocks := mg_blocks m + 1\<rparr>)) ch
         else (Inr (m\<lparr>mg_sources := ss, mg_block := b, mg_used := used\<rparr>), ch))"
proof -
  obtain ss where ss: "load_sources None (mg_sources m) = Inr ss"
    "list_all2 (\<lambda>L s. source_left L s \<and> key_in_hand L s) Ls ss"
    using load_sources_left [OF assms(1)] by blast
  obtain ss' j Ls' where sel: "select_key None ss = (ss', Some j)" "ms_key (ss' ! j) = k" "ms_value (ss' ! j) = v"
    "list_all2 source_left Ls' (ss'[j := (ss' ! j)\<lparr>ms_key := [], ms_value := []\<rparr>])" "merged Ls' = map_of R"
    by (rule select_key_first [OF ss(2) assms(2,3)]) auto
  note eqs = assms(6-9) ss(1) sel(1-3) db_new_key [OF assms(4,5)]
  have "merge_step opt maker m ch = merge_flush opt maker
      (m\<lparr>mg_sources := ss'[j := (ss' ! j)\<lparr>ms_key := [], ms_value := []\<rparr>], mg_block := b,
         mg_used := mg_used m + length k + length v\<rparr>) ch"
    by (simp add: merge_step_def eqs Let_def)
  then show ?thesis using sel(4,5) assms(7,8)
    by (intro exI [of _ Ls'] exI [of _ "ss'[j := (ss' ! j)\<lparr>ms_key := [], ms_value := []\<rparr>]"])
      (auto simp: merge_flush_def Let_def io_bind_def io_return_def split: sum.split prod.split)
qed

lemma merge_step_none:
  assumes "list_all2 source_left Ls (mg_sources m)" and "merged Ls = map_of []"
    and "mo_cmp opt = None" and "mo_table_blocks opt = 0"
  shows "\<exists>ss. merge_step opt maker m ch =
    io_bind (flush_block (mg_block m) (mo_erase opt) (mo_bits opt) (mg_build m)) (\<lambda>t.
      io_return (m\<lparr>mg_sources := ss, mg_flag := False, mg_build := t, mg_used := 0,
        mg_block := (mg_block m)\<lparr>db_groups := []\<rparr>, mg_blocks := mg_blocks m + 1\<rparr>)) ch"
proof -
  obtain ss where ss: "load_sources None (mg_sources m) = Inr ss"
    "list_all2 (\<lambda>L s. source_left L s \<and> key_in_hand L s) Ls ss"
    using load_sources_left [OF assms(1)] by blast
  obtain ss' where "select_key None ss = (ss', None)"
    by (rule select_key_first [OF ss(2) _ assms(2)]) auto
  then have "merge_step opt maker m ch = merge_flush opt maker (m\<lparr>mg_sources := ss', mg_flag := False\<rparr>) ch"
    by (simp add: merge_step_def assms(3) ss(1))
  then show ?thesis using assms(4)
    by (intro exI [of _ ss']) (auto simp: merge_flush_def io_bind_def io_return_def split: sum.split prod.split)
qed

text \<open>
  The result of the loop, read as the result of the loop of a dump: when the last block has just been written,
  the merge goes on to write an empty one.
\<close>

definition loop_result :: "bool \<Rightarrow> merge_state \<Rightarrow> (exn + table_build) \<times> channel \<Rightarrow> (exn + merge_state) \<times> channel \<Rightarrow> bool" where
  "loop_result filled m d r \<longleftrightarrow> snd r = snd d \<and>
     (case fst d of Inl e \<Rightarrow> fst r = Inl e
      | Inr t \<Rightarrow> if \<not> filled then fst r = Inl Undefined else \<exists>m'. fst r = Inr m' \<and> mg_build m' = t \<and> mg_roots m' = mg_roots m \<and> mg_files m' = mg_files m)"

lemma loop_result_cong: "mg_roots m' = mg_roots m \<Longrightarrow> mg_files m' = mg_files m \<Longrightarrow> loop_result f m' = loop_result f m"
  by (intro ext) (simp add: loop_result_def cong: sum.case_cong)

lemma merge_loop_dump:
  assumes "list_all2 source_left Ls (mg_sources m)" and "keys_ascend R" and "merged Ls = map_of R"
    and "db_built (mg_block m)" and "\<forall>p\<in>set (db_pairs (mg_block m)). \<forall>q\<in>set R. bytes_less (kv_key p) (fst q)"
    and "\<forall>q\<in>set R. length (fst q) < 2 ^ 31 \<and> length (snd q) < 2 ^ 31"
    and "mo_cmp opt = None" and "mo_table_blocks opt = 0" and "mg_flag m"
  shows "\<exists>r. merge_loop opt maker m ch = Some r \<and>
    loop_result (ends_open (mo_bytes opt) (mg_used m) (db_groups (mg_block m) \<noteq> []) R) m
      (dump_loop (mo_bytes opt) (mo_erase opt) (mo_bits opt) (map wal_of R) (mg_block m) (mg_used m) (mg_build m) ch) r"
  using assms
proof (induction R arbitrary: Ls m ch)
  case Nil
  obtain ss where step: "merge_step opt maker m ch =
    io_bind (flush_block (mg_block m) (mo_erase opt) (mo_bits opt) (mg_build m)) (\<lambda>t.
      io_return (m\<lparr>mg_sources := ss, mg_flag := False, mg_build := t, mg_used := 0,
        mg_block := (mg_block m)\<lparr>db_groups := []\<rparr>, mg_blocks := mg_blocks m + 1\<rparr>)) ch"
    using merge_step_none [OF Nil.prems(1,3,7,8)] by blast
  obtain d ch' where d: "flush_block (mg_block m) (mo_erase opt) (mo_bits opt) (mg_build m) ch = (d, ch')" by (meson surj_pair)
  have "d = Inl Undefined \<and> ch' = ch" if "db_groups (mg_block m) = []"
    using d that by (auto simp: flush_block_def write_block_def db_erase_deleted_def io_lift_def)
  then show ?case
    using Nil.prems(9) step d
    by (cases d; cases "db_groups (mg_block m) = []") (simp_all add: merge_loop.simps [of opt maker m ch] merge_loop.simps [where ch = ch']
        io_bind_def io_return_def loop_result_def)
next
  case (Cons q R)
  obtain k v where q: "q = (k, v)" by fastforce
  have less: "\<forall>p\<in>set (db_pairs (mg_block m)). bytes_less (kv_key p) k" using Cons.prems(5) q by simp
  have small: "length k < 2 ^ 31" "length v < 2 ^ 31" using Cons.prems(6) q by simp_all
  obtain b sh u where b: "db_put k v (mg_block m) = Inr b" "db_built b" "db_pairs b = db_pairs (mg_block m) @ [kv_new sh u k v]"
    using db_put_ascending [OF Cons.prems(4) less small] by blast
  then have groups: "db_groups b \<noteq> []" by (auto simp: db_pairs_def)
  obtain Ls' ss where step: "list_all2 source_left Ls' ss" "merged Ls' = map_of R" "merge_step opt maker m ch =
      (let used = mg_used m + length k + length v in
         if used \<ge> mo_bytes opt then
           io_bind (flush_block b (mo_erase opt) (mo_bits opt) (mg_build m)) (\<lambda>t.
             io_return (m\<lparr>mg_sources := ss, mg_build := t, mg_used := 0, mg_block := b\<lparr>db_groups := []\<rparr>,
               mg_blocks := mg_blocks m + 1\<rparr>)) ch
         else (Inr (m\<lparr>mg_sources := ss, mg_block := b, mg_used := used\<rparr>), ch))"
    using merge_step_some [OF Cons.prems(1) _ _ Cons.prems(4) less Cons.prems(7-9) b(1)] Cons.prems(2,3) q by blast
  let ?used = "mg_used m + length k + length v"
  have asc: "keys_ascend R" "\<forall>p\<in>set (db_pairs b). \<forall>q\<in>set R. bytes_less (kv_key p) (fst q)"
    using Cons.prems(2,5) q b(3) by (auto simp: kv_new_def)
  show ?case
  proof (cases "?used \<ge> mo_bytes opt")
    case False
    let ?m = "m\<lparr>mg_sources := ss, mg_block := b, mg_used := ?used\<rparr>"
    have "merge_loop opt maker m ch = merge_loop opt maker ?m ch"
      using Cons.prems(9) step(3) False by (simp add: merge_loop.simps [of opt maker m ch])
    moreover have "\<exists>r. merge_loop opt maker ?m ch = Some r \<and> loop_result (ends_open (mo_bytes opt) (mg_used ?m) (db_groups (mg_block ?m) \<noteq> []) R) ?m
        (dump_loop (mo_bytes opt) (mo_erase opt) (mo_bits opt) (map wal_of R) (mg_block ?m) (mg_used ?m) (mg_build ?m) ch) r"
      using step(1,2) asc b(2) Cons.prems(6-9) False q groups by (intro Cons.IH [of Ls']) simp_all
    moreover have "loop_result f ?m = loop_result f m" for f by (rule loop_result_cong) simp_all
    ultimately show ?thesis using q b(1) False groups by (simp add: add.assoc)
  next
    case True
    obtain d ch' where d: "flush_block b (mo_erase opt) (mo_bits opt) (mg_build m) ch = (d, ch')" by (meson surj_pair)
    show ?thesis
    proof (cases d)
      case (Inl e)
      then show ?thesis
        using True d Cons.prems(9) step(3) q b(1)
        by (simp add: merge_loop.simps [of opt maker m ch] io_bind_def io_lift_def loop_result_def add.assoc)
    next
      case (Inr t)
      let ?m = "m\<lparr>mg_sources := ss, mg_build := t, mg_used := 0, mg_block := b\<lparr>db_groups := []\<rparr>, mg_blocks := mg_blocks m + 1\<rparr>"
      have "merge_loop opt maker m ch = merge_loop opt maker ?m ch'"
        using Cons.prems(9) step(3) True d Inr
        by (simp add: merge_loop.simps [of opt maker m ch] io_bind_def io_return_def)
      moreover have "\<exists>r. merge_loop opt maker ?m ch' = Some r \<and> loop_result (ends_open (mo_bytes opt) (mg_used ?m) (db_groups (mg_block ?m) \<noteq> []) R) ?m
          (dump_loop (mo_bytes opt) (mo_erase opt) (mo_bits opt) (map wal_of R) (mg_block ?m) (mg_used ?m) (mg_build ?m) ch') r"
        using step(1,2) asc(1) b(2) Cons.prems(6-9) True q by (intro Cons.IH [of Ls']) (simp_all add: db_pairs_def)
      moreover have "loop_result f ?m = loop_result f m" for f by (rule loop_result_cong) simp_all
      ultimately show ?thesis using q b(1) True d Inr by (simp add: add.assoc io_bind_def io_lift_def)
    qed
  qed
qed

text \<open>A file that holds the blocks \<open>bs\<close>, with the root read from it.\<close>

definition table_holds :: "data_block list \<Rightarrow> sst_root \<times> bytes \<Rightarrow> bool" where
  "table_holds bs rf \<longleftrightarrow> bs_wf bs \<and> [] \<notin> fst ` set (bs_items bs) \<and>
     (let hs = ib_blocks (rt_index (fst rf)) in length hs = length bs \<and>
       (\<forall>i<length bs. load_data_block (snd rf) (bh_block (hs ! i)) None = Inr (bs ! i)))"

lemma table_holds_source: "table_holds bs rf \<Longrightarrow> source_left (bs_items bs) (ms_new rf)"
proof -
  assume t: "table_holds bs rf"
  then have "\<forall>c\<in>set bs. db_groups c \<noteq> []" using db_fullD(3) by (auto simp: table_holds_def bs_wf_def)
  with t have "source_at bs (ms_new rf)" "source_items bs (ms_new rf) = bs_items bs"
    by (simp_all add: table_holds_def Let_def source_at_def source_items_def ms_new_def db_new_def pairs_from_def)
  then show ?thesis using t by (auto simp: source_left_def table_holds_def bs_wf_def)
qed

lemma merge_dump:
  assumes "tables \<noteq> []" and "list_all2 table_holds bss tables"
    and "keys_ascend R" and "map_of R = merged (map bs_items bss)"
    and "\<forall>q\<in>set R. length (fst q) < 2 ^ 31 \<and> length (snd q) < 2 ^ 31"
    and "mo_cmp opt = None"
  shows "ends_open (mo_bytes opt) 0 False R \<Longrightarrow> merge_into_one opt tables ch =
      Some (dump_wal (mo_bytes opt) (map wal_of R) (mo_bits opt) (mo_erase opt) None ch)"
    and "\<not> ends_open (mo_bytes opt) 0 False R \<Longrightarrow> \<exists>e ch'. merge_into_one opt tables ch = Some (Inl e, ch')"
proof -
  let ?opt = "opt\<lparr>mo_table_blocks := 0\<rparr>" and ?m = "mg_new None tables" and ?maker = "\<lambda>_ :: nat. [] :: bytes"
  let ?d = "dump_loop (mo_bytes opt) (mo_erase opt) (mo_bits opt) (map wal_of R) (db_new\<lparr>db_cmp := None\<rparr>) 0 (tb_new None) ch"
  have "list_all2 source_left (map bs_items bss) (map ms_new tables)"
    using assms(2) table_holds_source by (auto simp: list_all2_map1 list_all2_map2 elim: list_all2_mono)
  moreover have "db_built (db_new\<lparr>db_cmp := None\<rparr>)"
    by (simp add: db_built_def db_wf_def db_new_def db_pairs_def)
  ultimately have "\<exists>r. merge_loop ?opt ?maker ?m ch = Some r \<and>
      loop_result (ends_open (mo_bytes ?opt) (mg_used ?m) (db_groups (mg_block ?m) \<noteq> []) R) ?m (dump_loop (mo_bytes ?opt) (mo_erase ?opt) (mo_bits ?opt) (map wal_of R) (mg_block ?m) (mg_used ?m) (mg_build ?m) ch) r"
    using assms(3-6) by (intro merge_loop_dump) (simp_all add: mg_new_def db_new_def db_pairs_def)
  then obtain r c where r: "merge_loop ?opt ?maker ?m ch = Some (r, c)" "loop_result (ends_open (mo_bytes opt) 0 False R) ?m ?d (r, c)"
    by (auto simp: mg_new_def db_new_def)
  obtain d c' where Pair: "?d = (d, c')" by (meson surj_pair)
  from Pair have c: "c' = c" using r(2) by (simp add: loop_result_def)
  show "\<exists>e ch'. merge_into_one opt tables ch = Some (Inl e, ch')" if "\<not> ends_open (mo_bytes opt) 0 False R"
    using r Pair that assms(1,6)
    by (cases d) (simp_all add: merge_into_one_def merge_tables_def loop_result_def)
  show "merge_into_one opt tables ch =
      Some (dump_wal (mo_bytes opt) (map wal_of R) (mo_bits opt) (mo_erase opt) None ch)"
    if filled: "ends_open (mo_bytes opt) 0 False R"
  proof (cases d)
    case (Inl e)
    then show ?thesis using r Pair c assms(1,6)
      by (simp add: merge_into_one_def merge_tables_def dump_wal_def io_bind_def loop_result_def)
  next
    case (Inr t)
    then obtain m' where "r = Inr m'" "mg_build m' = t" "mg_roots m' = []"
      using r(2) Pair filled by (auto simp: loop_result_def mg_new_def)
    then show ?thesis using r(1) Pair c Inr assms(1,6)
      by (auto simp: merge_into_one_def merge_tables_def dump_wal_def finish_table_def io_bind_def io_return_def
          split: sum.splits prod.splits)
  qed
qed

text \<open>The file of a dump.\<close>

lemma dump_table_holds:
  assumes "keys_ascend (map wal_kv kvs)" and "length kvs < 2 ^ 31"
    and "\<forall>kv\<in>set kvs. length (fst (wal_kv kv)) < 2 ^ 31 \<and> length (snd (wal_kv kv)) < 2 ^ 31"
    and "\<forall>p\<in>set kvs. \<forall>q\<in>set kvs. key_fits (fst p) (fst q)" and "\<forall>p\<in>set kvs. fst p \<noteq> []"
    and "10 \<le> bits" and "dump_wal bytes kvs bits False None ([], []) = (Inr r, as, data)" and "length data * bits < 2 ^ 63"
  shows "\<exists>bs. table_holds bs (r, data) \<and> bs_items bs = map wal_kv kvs"
proof -
  obtain bs t where t: "bs_items bs = map wal_kv kvs" "st_open data so_default = Inr t" "r = st_root t" "st_ok bs t"
    using dump_wal_table [OF assms(1-4,6) _ assms(7,8), of so_default] by (auto simp: so_default_def)
  have "st_file t = data" "st_cmp t = None"
    using t(2) by (auto simp: st_open_def Let_def res_bind_eq_Inr so_default_def)
  moreover have "st_shows bs t" "bs_wf bs" using t(4) by (simp_all add: st_ok_def)
  moreover have "length (ib_blocks (rt_index (st_root t))) = length bs"
    using \<open>st_shows bs t\<close> unfolding st_shows_def Let_def by (metis length_map)
  moreover have "[] \<notin> fst ` set (map wal_kv kvs)" using assms(5) by (auto simp: wal_kv_def)
  ultimately have "table_holds bs (r, data)"
    using t(1,3) by (simp add: table_holds_def st_shows_def st_load_block_def Let_def)
  with t(1) show ?thesis by blast
qed

lemma fst_wal_kv [simp]: "fst (wal_kv kv) = fst kv"
  by (simp add: wal_kv_def)

lemma merged_sources:
  assumes "list_all2 P kvss tables" and "\<And>kvs rf. kvs \<in> set kvss \<Longrightarrow> P kvs rf \<Longrightarrow> \<exists>bs. Q bs rf \<and> items bs = f kvs"
  shows "\<exists>bss. list_all2 Q bss tables \<and> map items bss = map f kvss"
  using assms
proof (induction kvss tables rule: list_all2_induct)
  case (Cons kvs kvss rf rfs)
  obtain bs where "Q bs rf" "items bs = f kvs" using Cons.prems [of kvs rf] Cons.hyps(1) by auto
  moreover obtain bss where "list_all2 Q bss rfs" "map items bss = map f kvss" using Cons.IH Cons.prems by auto
  ultimately show ?case by (intro exI [of _ "bs # bss"]) simp
qed simp

lemma merged_mem: "merged Ls k = Some v \<Longrightarrow> \<exists>L\<in>set Ls. (k, v) \<in> set L"
proof (induction Ls)
  case (Cons L Ls)
  then show ?case by (cases "merged Ls k") (auto dest: map_of_SomeD)
qed simp

section \<open>Combining never ends\<close>

lemma combine_loop_stuck:
  assumes "combine_loop opt tables t ch = Some r" and "tables \<noteq> []"
  shows "\<exists>e. fst r = Inl e"
proof -
  have "tables \<noteq> [] \<longrightarrow> (\<exists>e. fst r = Inl e)"
    by (rule combine_loop.raw_induct [where P = "\<lambda>opt tables t ch r. tables \<noteq> [] \<longrightarrow> (\<exists>e. fst r = Inl e)", OF _ assms(1)])
      (auto split: list.splits sum.splits prod.splits)
  with assms(2) show ?thesis by simp
qed

section \<open>Properties\<close>

text \<open>C8: Merging tables writes what dumping their merged entries would write: the same blocks, filters and root
  through the same writes, with the same failures. Of entries with equal keys the one of the last table counts.
  The keys must not be empty, and the last block must not have just been written when the entries end.\<close>

theorem sst_merge_is_dump:
  assumes "tables \<noteq> []" and "list_all2 table_holds bss tables"
    and "keys_ascend R" and "map_of R = merged (map bs_items bss)"
    and "\<forall>q\<in>set R. length (fst q) < 2 ^ 31 \<and> length (snd q) < 2 ^ 31"
    and "mo_cmp opt = None" and "ends_open (mo_bytes opt) 0 False R"
  shows "merge_into_one opt tables ch =
    Some (dump_wal (mo_bytes opt) (map wal_of R) (mo_bits opt) (mo_erase opt) None ch)"
  using assms by (rule merge_dump(1))

text \<open>The files of two dumps with one entry each.\<close>

definition one_table :: "8 word \<Rightarrow> sst_root \<times> bytes" where
  "one_table v = ((bs_root 10 [db_one v])\<lparr>rt_footer := rt_new_footer (bs_root 10 [db_one v]) 36\<rparr>,
     bs_data 10 [db_one v] @ rt_sections (bs_root 10 [db_one v]) 36)"

lemma one_table_dump:
  "dump_wal bytes [([1], Some [v])] 10 False None ([], []) = (Inr (fst (one_table v)), [], snd (one_table v))"
  "length (snd (one_table v)) = 122"
  using db_one_dump(1) [of bytes v] db_one_dump(2) [of v] by (simp_all add: one_table_def)

lemma one_table_holds: "\<exists>bs. table_holds bs (one_table v) \<and> bs_items bs = [([1], [v])]"
proof -
  have "\<exists>bs. table_holds bs (fst (one_table v), snd (one_table v)) \<and> bs_items bs = map wal_kv [([1], Some [v])]"
    by (rule dump_table_holds [OF _ _ _ _ _ _ one_table_dump(1)])
      (simp_all add: one_table_dump(2) wal_kv_def key_fits_def)
  then show ?thesis by (simp add: wal_kv_def)
qed

definition merge_example :: merge_option where
  "merge_example = \<lparr>mo_cmp = None, mo_bytes = 4096, mo_table_blocks = 0, mo_bits = 10, mo_erase = False\<rparr>"

lemma merge_example_items: "map_of [([1], [3])] = merged [[([1 :: 8 word], [2 :: 8 word])], [([1], [3])]]"
  by (rule ext) simp

theorem sst_merge_is_dump_witness:
  "merge_into_one merge_example [one_table 2, one_table 3] ([], []) = Some (dump_wal 4096 [([1], Some [3])] 10 False None ([], []))"
proof -
  obtain b2 b3 where "table_holds b2 (one_table 2)" "bs_items b2 = [([1], [2])]"
    "table_holds b3 (one_table 3)" "bs_items b3 = [([1], [3])]" using one_table_holds by meson
  then show ?thesis
    using sst_merge_is_dump [where tables = "[one_table 2, one_table 3]" and bss = "[b2, b3]" and R = "[([1], [3])]" and
        opt = merge_example and ch = "([], [])"] merge_example_items
    by (simp add: merge_example_def wal_of_def)
qed

text \<open>When the last entry fills its block exactly, the merge goes on to write an empty block and fails on its
  last key: no table is built.\<close>

theorem sst_merge_full_last_block:
  assumes "tables \<noteq> []" and "list_all2 table_holds bss tables"
    and "keys_ascend R" and "map_of R = merged (map bs_items bss)"
    and "\<forall>q\<in>set R. length (fst q) < 2 ^ 31 \<and> length (snd q) < 2 ^ 31"
    and "mo_cmp opt = None" and "\<not> ends_open (mo_bytes opt) 0 False R"
  shows "\<exists>e ch'. merge_into_one opt tables ch = Some (Inl e, ch')"
  using assms by (rule merge_dump(2))

theorem sst_merge_full_last_block_witness:
  "\<exists>e ch. merge_into_one (merge_example\<lparr>mo_bytes := 2\<rparr>) [one_table 2, one_table 3] ([], []) = Some (Inl e, ch)"
proof -
  obtain b2 b3 where "table_holds b2 (one_table 2)" "bs_items b2 = [([1], [2])]"
    "table_holds b3 (one_table 3)" "bs_items b3 = [([1], [3])]" using one_table_holds by meson
  then show ?thesis
    using merge_example_items
    by (intro sst_merge_full_last_block [where bss = "[b2, b3]" and R = "[([1], [3])]"]) (simp_all add: merge_example_def)
qed



text \<open>C31: Merging tables that are said to be ordered never succeeds: the loop over the tables goes on with the first
  one for ever, or until an exception ends it.\<close>

theorem sst_combine_never_returns:
  "st_merge opt (u # us) True accept t \<noteq> Some (Inr (), t')"
proof
  assume "st_merge opt (u # us) True accept t = Some (Inr (), t')"
  then obtain b ch where "combine_loop (opt\<lparr>mo_cmp := st_cmp t\<rparr>) ((st_root u, st_file u) # map (\<lambda>u. (st_root u, st_file u)) us)
      (tb_new (st_cmp t)) (accept, []) = Some (Inr b, ch)"
    by (auto simp: st_merge_def combine_tables_def Let_def split: option.splits sum.splits prod.splits)
  from combine_loop_stuck [OF this] show False by simp
qed

end
