(* ===== verification/LevelView.thy ===== *)
theory LevelView
  imports SstKeyValue
begin

text \<open>
  The metadata of the level table (\<open>include/sharpen/LevelViewItem.hpp\<close>, \<open>LevelView.hpp\<close>, \<open>LevelComponent.hpp\<close> and
  their sources): a view is a sorted sequence of tables with disjoint key ranges, a component a sequence of views.
\<close>

section \<open>Items\<close>

record level_item =
  li_begin :: bytes
  li_end :: bytes
  li_id :: nat

text \<open>A key with its size in front of it; an empty one is refused. The result is the key and where it ends.\<close>

definition li_load_key :: "bytes \<Rightarrow> nat \<Rightarrow> exn + (bytes \<times> nat)" where
  "li_load_key data offset =
     res_bind (vu64_read (drop offset data)) (\<lambda>(n, k).
       if n = 0 then Inl Data_corruption
       else if length data < add64 (offset + k) n then Inl Data_corruption
       else res_bind (vec_resize n []) (\<lambda>_.
         res_bind (mem_read data (offset + k) n) (\<lambda>key. Inr (key, offset + k + n))))"

definition li_load :: "bytes \<Rightarrow> exn + (nat \<times> level_item)" where
  "li_load data =
     (if length data < 5 then Inl Invalid_argument
      else res_bind (li_load_key data 0) (\<lambda>(b, o1).
        res_bind (li_load_key data o1) (\<lambda>(e, o2).
          if length data \<le> o2 then Inl Data_corruption
          else res_bind (vu64_read (drop o2 data)) (\<lambda>(i, k).
            Inr (o2 + k, \<lparr>li_begin = b, li_end = e, li_id = i\<rparr>)))))"

definition li_store :: "level_item \<Rightarrow> exn + bytes" where
  "li_store it =
     res_bind (vu64_bytes (length (li_begin it))) (\<lambda>a.
       res_bind (vu64_bytes (length (li_end it))) (\<lambda>b.
         res_bind (vu64_bytes (li_id it)) (\<lambda>c.
           Inr (a @ li_begin it @ b @ li_end it @ c))))"

definition li_compute_size :: "level_item \<Rightarrow> exn + nat" where
  "li_compute_size it =
     res_bind (vu64_bytes (length (li_begin it))) (\<lambda>a.
       res_bind (vu64_bytes (length (li_end it))) (\<lambda>b.
         res_bind (vu64_bytes (li_id it)) (\<lambda>c.
           Inr (length a + length (li_begin it) + length b + length (li_end it) + length c))))"

definition li_store_to :: "level_item \<Rightarrow> nat \<Rightarrow> exn + bytes" where
  "li_store_to it = store_checked (li_compute_size it) (li_store it)"

definition li_store_to_buffer :: "level_item \<Rightarrow> bytes \<Rightarrow> nat \<Rightarrow> exn + bytes" where
  "li_store_to_buffer it = store_extending (li_compute_size it) (li_store it)"

section \<open>Views\<close>

record level_view =
  lv_id :: nat
  lv_items :: "level_item list"
  lv_cmp :: comparator

definition lv_new :: "nat \<Rightarrow> level_view" where
  "lv_new i = \<lparr>lv_id = i, lv_items = [], lv_cmp = None\<rparr>"

text \<open>The loop of \<open>LoadFrom\<close> over \<open>left\<close> items; the loaded items are added to those the view has.\<close>

fun lv_load_items :: "bytes \<Rightarrow> nat \<Rightarrow> nat \<Rightarrow> level_item list \<Rightarrow> exn + (nat \<times> level_item list)" where
  "lv_load_items data offset 0 acc = Inr (offset, acc)"
| "lv_load_items data offset (Suc left) acc =
     res_bind (li_load (drop offset data)) (\<lambda>(n, it). lv_load_items data (offset + n) left (acc @ [it]))"

text \<open>
  \<open>reserve\<close> throws beyond the \<open>max_size\<close> of a vector of items of 72 bytes. When an item fails to load, its exception
  is the result; the view, whose items are cleared then, is not kept.
\<close>

definition lv_load :: "bytes \<Rightarrow> level_view \<Rightarrow> exn + (nat \<times> level_view)" where
  "lv_load data v =
     (if length data < 1 then Inl Invalid_argument
      else res_bind (vu64_read data) (\<lambda>(n, k).
        if n > (2 ^ 63 - 1) div 72 then Inl Length_error
        else res_bind (lv_load_items data k n (lv_items v)) (\<lambda>(offset, its). Inr (offset, v\<lparr>lv_items := its\<rparr>))))"

fun li_store_all :: "level_item list \<Rightarrow> exn + bytes" where
  "li_store_all [] = Inr []"
| "li_store_all (it # its) = res_bind (li_store it) (\<lambda>w. res_bind (li_store_all its) (\<lambda>ws. Inr (w @ ws)))"

fun li_sum_sizes :: "level_item list \<Rightarrow> exn + nat" where
  "li_sum_sizes [] = Inr 0"
| "li_sum_sizes (it # its) = res_bind (li_compute_size it) (\<lambda>n. res_bind (li_sum_sizes its) (\<lambda>m. Inr (n + m)))"

definition lv_store :: "level_view \<Rightarrow> exn + bytes" where
  "lv_store v = res_bind (vu64_bytes (length (lv_items v))) (\<lambda>h. res_bind (li_store_all (lv_items v)) (\<lambda>w. Inr (h @ w)))"

definition lv_compute_size :: "level_view \<Rightarrow> exn + nat" where
  "lv_compute_size v =
     res_bind (vu64_bytes (length (lv_items v))) (\<lambda>h. res_bind (li_sum_sizes (lv_items v)) (\<lambda>n. Inr (length h + n)))"

definition lv_store_to :: "level_view \<Rightarrow> nat \<Rightarrow> exn + bytes" where
  "lv_store_to v = store_checked (lv_compute_size v) (lv_store v)"

definition lv_store_to_buffer :: "level_view \<Rightarrow> bytes \<Rightarrow> nat \<Rightarrow> exn + bytes" where
  "lv_store_to_buffer v = store_extending (lv_compute_size v) (lv_store v)"

definition lv_find :: "level_view \<Rightarrow> bytes \<Rightarrow> nat" where
  "lv_find v key = lower_bound (\<lambda>it. key_less (lv_cmp v) (li_end it) key) (lv_items v)"

definition lv_find_id :: "level_view \<Rightarrow> bytes \<Rightarrow> nat option" where
  "lv_find_id v key =
     (let i = lv_find v key in
        if i \<noteq> length (lv_items v) \<and> key_comp (lv_cmp v) (li_begin (lv_items v ! i)) key \<noteq> 1
        then Some (li_id (lv_items v ! i)) else None)"

text \<open>The item behind both keys, or none that is; \<open>it\<close> is not the end when it equals \<open>ite\<close>.\<close>

definition lv_is_not_overlapped :: "level_view \<Rightarrow> bytes \<Rightarrow> bytes \<Rightarrow> bool" where
  "lv_is_not_overlapped v b e =
     (let i = lv_find v b; begin_of = li_begin (lv_items v ! i) in
        if i = length (lv_items v) then True
        else if key_comp (lv_cmp v) begin_of b \<noteq> 1 then False
        else if lv_find v e \<noteq> i then False
        else key_comp (lv_cmp v) begin_of e = 1)"

definition lv_try_put :: "bytes \<Rightarrow> bytes \<Rightarrow> nat \<Rightarrow> level_view \<Rightarrow> bool \<times> level_view" where
  "lv_try_put b e i v =
     (let pos = lv_find v b; it = \<lparr>li_begin = b, li_end = e, li_id = i\<rparr> in
        if pos = length (lv_items v) then (True, v\<lparr>lv_items := lv_items v @ [it]\<rparr>)
        else if key_comp (lv_cmp v) (li_begin (lv_items v ! pos)) b \<noteq> 1 then (False, v)
        else if lv_find v e \<noteq> pos then (False, v)
        else if key_comp (lv_cmp v) (li_begin (lv_items v ! pos)) e \<noteq> 1 then (False, v)
        else (True, v\<lparr>lv_items := insert_at pos it (lv_items v)\<rparr>))"

definition lv_put :: "bytes \<Rightarrow> bytes \<Rightarrow> nat \<Rightarrow> level_view \<Rightarrow> exn + level_view" where
  "lv_put b e i v = (case lv_try_put b e i v of (r, v') \<Rightarrow> if r then Inr v' else Inl Invalid_argument)"

fun li_erase_id :: "nat \<Rightarrow> level_item list \<Rightarrow> level_item list" where
  "li_erase_id i [] = []"
| "li_erase_id i (it # its) = (if li_id it = i then its else it # li_erase_id i its)"

definition lv_delete :: "nat \<Rightarrow> level_view \<Rightarrow> level_view" where
  "lv_delete i v = v\<lparr>lv_items := li_erase_id i (lv_items v)\<rparr>"

definition lv_clear :: "level_view \<Rightarrow> level_view" where
  "lv_clear v = v\<lparr>lv_items := []\<rparr>"

section \<open>Components\<close>

text \<open>A component is the sequence of the numbers of its views; the loaded ones are added to those it has.\<close>

fun lc_load_ids :: "bytes \<Rightarrow> nat \<Rightarrow> nat \<Rightarrow> nat list \<Rightarrow> exn + (nat \<times> nat list)" where
  "lc_load_ids data offset 0 acc = Inr (offset, acc)"
| "lc_load_ids data offset (Suc left) acc =
     res_bind (vu64_read (drop offset data)) (\<lambda>(i, k). lc_load_ids data (offset + k) left (acc @ [i]))"

definition lc_load :: "bytes \<Rightarrow> nat list \<Rightarrow> exn + (nat \<times> nat list)" where
  "lc_load data c =
     (if length data < 1 then Inl Invalid_argument
      else res_bind (vu64_read data) (\<lambda>(n, k).
        if n \<ge> 2 ^ 60 then Inl Length_error else lc_load_ids data k n c))"

fun lc_store_ids :: "nat list \<Rightarrow> exn + bytes" where
  "lc_store_ids [] = Inr []"
| "lc_store_ids (i # is) = res_bind (vu64_bytes i) (\<lambda>w. res_bind (lc_store_ids is) (\<lambda>ws. Inr (w @ ws)))"

definition lc_store :: "nat list \<Rightarrow> exn + bytes" where
  "lc_store c = res_bind (vu64_bytes (length c)) (\<lambda>h. res_bind (lc_store_ids c) (\<lambda>w. Inr (h @ w)))"

definition lc_compute_size :: "nat list \<Rightarrow> exn + nat" where
  "lc_compute_size c = res_bind (lc_store c) (\<lambda>w. Inr (length w))"

definition lc_store_to :: "nat list \<Rightarrow> nat \<Rightarrow> exn + bytes" where
  "lc_store_to c = store_checked (lc_compute_size c) (lc_store c)"

definition lc_store_to_buffer :: "nat list \<Rightarrow> bytes \<Rightarrow> nat \<Rightarrow> exn + bytes" where
  "lc_store_to_buffer c = store_extending (lc_compute_size c) (lc_store c)"

definition lc_put :: "nat \<Rightarrow> nat list \<Rightarrow> nat list" where
  "lc_put i c = c @ [i]"

definition lc_delete :: "nat \<Rightarrow> nat list \<Rightarrow> nat list" where
  "lc_delete i c = remove1 i c"

section \<open>Serialized items, views and components\<close>

definition li_ok :: "level_item \<Rightarrow> bool" where
  "li_ok it \<longleftrightarrow> li_begin it \<noteq> [] \<and> li_end it \<noteq> [] \<and> length (li_begin it) < 2 ^ 31 \<and> length (li_end it) < 2 ^ 31 \<and> li_id it < 2 ^ 31"

definition li_enc :: "level_item \<Rightarrow> bytes" where
  "li_enc it = venc (length (li_begin it)) @ li_begin it @ venc (length (li_end it)) @ li_end it @ venc (li_id it)"

lemma li_store_enc: "li_ok it \<Longrightarrow> li_store it = Inr (li_enc it)"
  by (simp add: li_store_def li_ok_def li_enc_def vu64_bytes_venc)

lemma li_compute_size_enc: "li_ok it \<Longrightarrow> li_compute_size it = Inr (length (li_enc it))"
  by (simp add: li_compute_size_def li_ok_def li_enc_def vu64_bytes_venc)

lemma li_load_key_at:
  assumes "data = pre @ venc (length key) @ key @ post" and "offset = length pre" and "key \<noteq> []" and "length key < 2 ^ 31"
    and "length data < 2 ^ 63"
  shows "li_load_key data offset = Inr (key, offset + length (venc (length key)) + length key)"
proof -
  have "vu64_read (drop offset data) = Inr (length key, length (venc (length key)))"
    using vu64_read_at [OF assms(4), of data pre "key @ post"] assms(1,2) by simp
  moreover have "add64 (offset + length (venc (length key))) (length key) = offset + length (venc (length key)) + length key"
    using assms(1,2,5) by (intro add64_small) simp
  moreover have "mem_read data (offset + length (venc (length key))) (length key) = Inr key"
    using mem_read_append [of "offset + length (venc (length key))" "pre @ venc (length key)" "length key" key post] assms(1,2)
    by simp
  ultimately show ?thesis using assms by (simp add: li_load_key_def vec_resize_def)
qed

lemma venc_length: "1 \<le> length (venc n)"
  by (cases "venc n") auto

lemma li_load_enc:
  assumes "li_ok it" and "length (li_enc it @ post) < 2 ^ 63"
  shows "li_load (li_enc it @ post) = Inr (length (li_enc it), it)"
proof -
  let ?b = "li_begin it" and ?e = "li_end it" and ?data = "li_enc it @ post"
  have k: "?b \<noteq> []" "?e \<noteq> []" "length ?b < 2 ^ 31" "length ?e < 2 ^ 31" "li_id it < 2 ^ 31"
    using assms(1) by (simp_all add: li_ok_def)
  have "1 \<le> length ?b" "1 \<le> length ?e" using k(1,2) by (simp_all add: Suc_le_eq)
  then have five: "5 \<le> length ?data"
    using venc_length [of "length ?b"] venc_length [of "length ?e"] venc_length [of "li_id it"]
    unfolding li_enc_def length_append by linarith
  let ?o1 = "length (venc (length ?b)) + length ?b"
  let ?o2 = "?o1 + length (venc (length ?e)) + length ?e"
  have "li_load_key ?data 0 = Inr (?b, 0 + length (venc (length ?b)) + length ?b)"
    using k assms(2) by (intro li_load_key_at [where pre = "[]"]) (simp_all add: li_enc_def)
  moreover have "li_load_key ?data ?o1 = Inr (?e, ?o2)"
    using k assms(2) by (intro li_load_key_at [where pre = "venc (length ?b) @ ?b"]) (simp_all add: li_enc_def)
  moreover have "vu64_read (drop ?o2 ?data) = Inr (li_id it, length (venc (li_id it)))"
    using vu64_read_at [OF k(5), of ?data "venc (length ?b) @ ?b @ venc (length ?e) @ ?e" post]
    by (simp add: li_enc_def add.assoc)
  moreover have "?o2 < length ?data" using venc_length [of "li_id it"] by (simp add: li_enc_def)
  ultimately show ?thesis using five by (simp add: li_load_def not_less li_enc_def)
qed

lemma lv_load_items_enc:
  assumes "\<forall>it\<in>set its. li_ok it" and "data = pre @ concat (map li_enc its) @ post" and "length data < 2 ^ 63"
  shows "lv_load_items data (length pre) (length its) acc =
    Inr (length pre + length (concat (map li_enc its)), acc @ its)"
  using assms
proof (induction its arbitrary: pre acc)
  case (Cons it its)
  have "li_load (drop (length pre) data) = Inr (length (li_enc it), it)"
    using li_load_enc [of it "concat (map li_enc its) @ post"] Cons.prems by simp
  then show ?case
    using Cons.IH [of "pre @ li_enc it" "acc @ [it]"] Cons.prems by (simp add: add.assoc)
qed simp

definition lv_enc :: "level_view \<Rightarrow> bytes" where
  "lv_enc v = venc (length (lv_items v)) @ concat (map li_enc (lv_items v))"

lemma li_store_all_enc:
  assumes "\<forall>it\<in>set its. li_ok it"
  shows "li_store_all its = Inr (concat (map li_enc its))" "li_sum_sizes its = Inr (length (concat (map li_enc its)))"
  using assms by (induction its) (simp_all add: li_store_enc li_compute_size_enc)

lemma lv_store_enc:
  assumes "\<forall>it\<in>set (lv_items v). li_ok it" and "length (lv_items v) < 2 ^ 31"
  shows "lv_store v = Inr (lv_enc v)" "lv_compute_size v = Inr (length (lv_enc v))"
  using assms li_store_all_enc by (simp_all add: lv_store_def lv_compute_size_def lv_enc_def vu64_bytes_venc)

lemma lv_load_enc:
  assumes "\<forall>it\<in>set (lv_items v). li_ok it" and "length (lv_items v) < 2 ^ 31" and "length (lv_enc v @ post) < 2 ^ 63"
  shows "lv_load (lv_enc v @ post) w = Inr (length (lv_enc v), w\<lparr>lv_items := lv_items w @ lv_items v\<rparr>)"
proof -
  have "vu64_read (lv_enc v @ post) = Inr (length (lv_items v), length (venc (length (lv_items v))))"
    using vu64_read_venc [OF assms(2), of "concat (map li_enc (lv_items v)) @ post"] by (simp add: lv_enc_def vsize_def)
  moreover have "lv_load_items (lv_enc v @ post) (length (venc (length (lv_items v)))) (length (lv_items v)) (lv_items w) =
      Inr (length (lv_enc v), lv_items w @ lv_items v)"
    using lv_load_items_enc [OF assms(1), of _ "venc (length (lv_items v))" post] assms(3) by (simp add: lv_enc_def)
  moreover have "0 < length (lv_enc v)" using venc_length [of "length (lv_items v)"] by (simp add: lv_enc_def)
  ultimately show ?thesis using assms(2) by (simp add: lv_load_def)
qed

definition lc_enc :: "nat list \<Rightarrow> bytes" where
  "lc_enc c = venc (length c) @ concat (map venc c)"

lemma lc_store_enc:
  assumes "\<forall>i\<in>set c. i < 2 ^ 31" and "length c < 2 ^ 31"
  shows "lc_store c = Inr (lc_enc c)"
proof -
  have "lc_store_ids c = Inr (concat (map venc c))"
    using assms(1) by (induction c) (simp_all add: vu64_bytes_venc)
  then show ?thesis using assms(2) by (simp add: lc_store_def lc_enc_def vu64_bytes_venc)
qed

lemma lc_load_ids_enc:
  assumes "\<forall>i\<in>set c. i < 2 ^ 31" and "data = pre @ concat (map venc c) @ post"
  shows "lc_load_ids data (length pre) (length c) acc = Inr (length pre + length (concat (map venc c)), acc @ c)"
  using assms
proof (induction c arbitrary: pre acc)
  case (Cons i c)
  have "vu64_read (drop (length pre) data) = Inr (i, length (venc i))"
    using vu64_read_at [of i data pre "concat (map venc c) @ post"] Cons.prems by simp
  then show ?case using Cons.IH [of "pre @ venc i" "acc @ [i]"] Cons.prems by (simp add: add.assoc)
qed simp

lemma lc_load_enc:
  assumes "\<forall>i\<in>set c. i < 2 ^ 31" and "length c < 2 ^ 31"
  shows "lc_load (lc_enc c @ post) d = Inr (length (lc_enc c), d @ c)"
proof -
  have "vu64_read (lc_enc c @ post) = Inr (length c, length (venc (length c)))"
    using vu64_read_venc [OF assms(2), of "concat (map venc c) @ post"] by (simp add: lc_enc_def vsize_def)
  moreover have "lc_load_ids (lc_enc c @ post) (length (venc (length c))) (length c) d = Inr (length (lc_enc c), d @ c)"
    using lc_load_ids_enc [OF assms(1), of "lc_enc c @ post" "venc (length c)" post] by (simp add: lc_enc_def)
  moreover have "0 < length (lc_enc c)" using venc_length [of "length c"] by (simp add: lc_enc_def)
  ultimately show ?thesis using assms(2) by (simp add: lc_load_def)
qed

section \<open>Disjoint key ranges\<close>

context key_order
begin

definition ranges :: "('a \<Rightarrow> 'k) \<Rightarrow> ('a \<Rightarrow> 'k) \<Rightarrow> 'a list \<Rightarrow> bool" where
  "ranges lo hi xs \<longleftrightarrow> sorted_wrt (\<lambda>a b. less (hi a) (lo b)) xs \<and> (\<forall>x\<in>set xs. \<not> less (hi x) (lo x))"

definition in_range :: "'k \<Rightarrow> 'k \<Rightarrow> 'k \<Rightarrow> bool" where
  "in_range lo hi k \<longleftrightarrow> \<not> less k lo \<and> \<not> less hi k"

lemma less_le_trans: "less a b \<Longrightarrow> \<not> less c b \<Longrightarrow> less a c"
  using not_less trans by metis

lemma le_less_trans: "\<not> less b a \<Longrightarrow> less b c \<Longrightarrow> less a c"
  using not_less trans by metis

lemma ranges_sorted: "ranges lo hi xs \<Longrightarrow> sorted_by hi xs"
  unfolding ranges_def
proof (induction xs)
  case (Cons x xs)
  have "less (hi x) (hi y)" if "y \<in> set xs" for y
    using Cons.prems that less_le_trans [of "hi x" "lo y" "hi y"] by auto
  with Cons show ?case by auto
qed simp

lemma ranges_above:
  assumes "ranges lo hi xs" and "find_key hi k xs < length xs"
  shows "\<not> less (hi (xs ! find_key hi k xs)) k"
    and "\<forall>y\<in>set (take (find_key hi k xs) xs). less (hi y) k"
    and "\<forall>y\<in>set (drop (find_key hi k xs + 1) xs). less (hi (xs ! find_key hi k xs)) (lo y)"
proof -
  let ?i = "find_key hi k xs"
  have "xs ! ?i \<in> set (drop ?i xs)" using assms(2) by (metis Cons_nth_drop_Suc list.set_intros(1))
  from find_key_above [OF ranges_sorted [OF assms(1)] this] show "\<not> less (hi (xs ! ?i)) k"
    using irrefl asym by auto
  show "\<forall>y\<in>set (take ?i xs). less (hi y) k" using find_key_below [OF ranges_sorted [OF assms(1)]] by blast
  have "sorted_wrt (\<lambda>a b. less (hi a) (lo b)) (take ?i xs @ xs ! ?i # drop (?i + 1) xs)"
    using assms(1) split_at [OF assms(2)] by (simp add: ranges_def)
  then show "\<forall>y\<in>set (drop (?i + 1) xs). less (hi (xs ! ?i)) (lo y)" unfolding sorted_wrt_mid by blast
qed

lemma split_elem:
  assumes "i < length xs" and "x \<in> set xs"
  obtains "x \<in> set (take i xs)" | "x = xs ! i" | "x \<in> set (drop (i + 1) xs)"
proof -
  have "set (take i xs @ xs ! i # drop (i + 1) xs) = set xs" using split_at [OF assms(1)] by simp
  then have "x \<in> set (take i xs) \<union> {xs ! i} \<union> set (drop (i + 1) xs)" using assms(2) by auto
  then show thesis using that by blast
qed

text \<open>Search: the range at the lower bound of the ends is the only one that can hold the key.\<close>

lemma ranges_find:
  assumes "ranges lo hi xs"
  shows "x \<in> set xs \<and> in_range (lo x) (hi x) k \<longleftrightarrow>
    (let i = find_key hi k xs in i < length xs \<and> x = xs ! i \<and> \<not> less k (lo (xs ! i)))"
proof (cases "find_key hi k xs < length xs")
  case True
  let ?i = "find_key hi k xs"
  have "x = xs ! ?i" if x: "x \<in> set xs" "in_range (lo x) (hi x) k"
    using True x(1)
  proof (cases rule: split_elem)
    case 1
    with ranges_above(2) [OF assms True] x(2) show ?thesis unfolding in_range_def by blast
  next
    case 3
    with ranges_above(3) [OF assms True] have "less (hi (xs ! ?i)) (lo x)" by blast
    with ranges_above(1) [OF assms True] have "less k (lo x)" by (rule le_less_trans)
    with x(2) show ?thesis unfolding in_range_def by blast
  qed
  then show ?thesis using True ranges_above(1) [OF assms True] by (auto simp: in_range_def Let_def)
next
  case False
  then have "find_key hi k xs = length xs" by (simp add: le_antisym not_less)
  then have "\<forall>y\<in>set xs. less (hi y) k" using find_key_below [OF ranges_sorted [OF assms], of _ k] by (metis take_all_iff order_refl)
  then show ?thesis using False by (auto simp: in_range_def)
qed

text \<open>Insertion: the conditions of the code say that the new range meets no other one.\<close>

lemma ranges_insert:
  assumes "ranges lo hi xs" and "\<not> less (hi x) (lo x)"
  defines "i \<equiv> find_key hi (lo x) xs"
  shows "(\<forall>y\<in>set xs. less (hi x) (lo y) \<or> less (hi y) (lo x)) \<longleftrightarrow>
      i = length xs \<or> less (lo x) (lo (xs ! i)) \<and> find_key hi (hi x) xs = i \<and> less (hi x) (lo (xs ! i))"
    and "\<forall>y\<in>set xs. less (hi x) (lo y) \<or> less (hi y) (lo x) \<Longrightarrow> ranges lo hi (insert_at i x xs)"
proof -
  have le: "i \<le> length xs" by (simp add: i_def)
  have below: "\<forall>y\<in>set (take i xs). less (hi y) (lo x)"
    unfolding i_def using find_key_below [OF ranges_sorted [OF assms(1)]] by blast
  have self: "\<not> less (hi y) (lo y)" if "y \<in> set xs" for y using assms(1) that unfolding ranges_def by blast
  show iff: "(\<forall>y\<in>set xs. less (hi x) (lo y) \<or> less (hi y) (lo x)) \<longleftrightarrow>
      i = length xs \<or> less (lo x) (lo (xs ! i)) \<and> find_key hi (hi x) xs = i \<and> less (hi x) (lo (xs ! i))"
  proof (cases "i = length xs")
    case True
    with below show ?thesis by simp
  next
    case False
    with le have i: "i < length xs" by simp
    note above = ranges_above [OF assms(1), of "lo x", folded i_def, OF i]
    have tail: "\<forall>y\<in>set (drop (i + 1) xs). less (hi x) (lo y)" if "less (hi x) (lo (xs ! i))"
    proof
      fix y assume "y \<in> set (drop (i + 1) xs)"
      with above(3) have "less (hi (xs ! i)) (lo y)" by blast
      with self [OF nth_mem [OF i]] have "less (lo (xs ! i)) (lo y)" by (rule le_less_trans)
      with that show "less (hi x) (lo y)" by (rule trans)
    qed
    have parts: "y \<in> set (take i xs) \<or> y = xs ! i \<or> y \<in> set (drop (i + 1) xs)" if "y \<in> set xs" for y
      using i that by (cases rule: split_elem) blast+
    have find: "find_key hi (hi x) xs = i" if gap: "less (hi x) (lo (xs ! i))"
    proof -
      have "\<forall>y\<in>set (take i xs). less (hi y) (hi x)" using below assms(2) less_le_trans by blast
      moreover have "\<not> less (hi y) (hi x)" if y: "y \<in> set (drop i xs)" for y
      proof -
        have "y = xs ! i \<or> y \<in> set (drop (i + 1) xs)" using y i by (simp add: Cons_nth_drop_Suc [symmetric])
        then have "less (hi x) (lo y)" using gap tail by blast
        then have "less (hi x) (hi y)" using self [of y] less_le_trans in_set_dropD [OF y] by blast
        then show ?thesis by (rule asym)
      qed
      ultimately show ?thesis
        using lower_bound_split [of "take i xs" "\<lambda>y. less (hi y) (hi x)" "drop i xs"] le by simp
    qed
    show ?thesis
    proof
      assume "\<forall>y\<in>set xs. less (hi x) (lo y) \<or> less (hi y) (lo x)"
      then have "less (hi x) (lo (xs ! i))" using above(1) i by auto
      moreover from this have "less (lo x) (lo (xs ! i))" using le_less_trans [OF assms(2)] by blast
      ultimately show "i = length xs \<or> less (lo x) (lo (xs ! i)) \<and> find_key hi (hi x) xs = i \<and> less (hi x) (lo (xs ! i))"
        using find by blast
    next
      assume "i = length xs \<or> less (lo x) (lo (xs ! i)) \<and> find_key hi (hi x) xs = i \<and> less (hi x) (lo (xs ! i))"
      with False have "less (hi x) (lo (xs ! i))" by simp
      with parts tail below show "\<forall>y\<in>set xs. less (hi x) (lo y) \<or> less (hi y) (lo x)" by blast
    qed
  qed
  assume free: "\<forall>y\<in>set xs. less (hi x) (lo y) \<or> less (hi y) (lo x)"
  have above: "less (hi x) (lo y)" if "y \<in> set (drop i xs)" for y
  proof -
    have "\<not> less (hi y) (lo x)"
      using find_key_above [OF ranges_sorted [OF assms(1)], of y "lo x"] that irrefl asym by (auto simp: i_def)
    with free that show ?thesis by (blast dest: in_set_dropD)
  qed
  have "sorted_wrt (\<lambda>a b. less (hi a) (lo b)) (take i xs @ drop i xs)" using assms(1) by (simp add: ranges_def)
  then have "sorted_wrt (\<lambda>a b. less (hi a) (lo b)) (take i xs @ x # drop i xs)"
    unfolding sorted_wrt_mid using below above by blast
  moreover have "\<forall>y\<in>set (take i xs @ x # drop i xs). \<not> less (hi y) (lo y)"
    using assms(2) self by (auto dest: in_set_takeD in_set_dropD)
  ultimately show "ranges lo hi (insert_at i x xs)" by (simp add: ranges_def insert_at_def)
qed

lemma ranges_distinct:
  assumes "ranges lo hi xs"
  shows "distinct xs"
proof -
  have "distinct (map hi xs)" using sorted_distinct [OF ranges_sorted [OF assms]] .
  then show ?thesis by (simp add: distinct_map)
qed

end

section \<open>Well-formed views\<close>

abbreviation item_covers :: "comparator \<Rightarrow> bytes \<Rightarrow> level_item \<Rightarrow> bool" where
  "item_covers cmp k it \<equiv> \<not> key_less cmp k (li_begin it) \<and> \<not> key_less cmp (li_end it) k"

definition lv_wf :: "level_view \<Rightarrow> bool" where
  "lv_wf v \<longleftrightarrow> good_comparator (lv_cmp v) \<and> key_order.ranges (key_less (lv_cmp v)) li_begin li_end (lv_items v)"

lemma lv_wfD:
  "lv_wf v \<Longrightarrow> key_order (key_less (lv_cmp v))"
  "lv_wf v \<Longrightarrow> key_order.ranges (key_less (lv_cmp v)) li_begin li_end (lv_items v)"
  "lv_wf v \<Longrightarrow> key_comp (lv_cmp v) k l = 1 \<longleftrightarrow> key_less (lv_cmp v) l k"
  by (simp_all add: lv_wf_def good_comparatorD)

lemma ranges_None:
  "key_order.ranges (key_less None) lo hi xs \<longleftrightarrow>
     sorted_wrt (\<lambda>a b. bytes_less (hi a) (lo b)) xs \<and> (\<forall>x\<in>set xs. \<not> bytes_less (hi x) (lo x))"
  unfolding key_order.ranges_def [OF good_comparatorD(1) [OF good_comparator_None]] key_less_None ..

lemma lv_wf_new [simp]: "lv_wf (lv_new i)"
  by (simp add: lv_wf_def lv_new_def ranges_None)

lemma lv_covers_unique:
  assumes "lv_wf v"
  shows "it \<in> set (lv_items v) \<and> item_covers (lv_cmp v) k it \<longleftrightarrow>
    lv_find v k < length (lv_items v) \<and> it = lv_items v ! lv_find v k \<and>
    \<not> key_less (lv_cmp v) k (li_begin (lv_items v ! lv_find v k))"
  using key_order.ranges_find [OF lv_wfD(1,2) [OF assms], of it k]
  unfolding key_order.in_range_def [OF lv_wfD(1) [OF assms]] Let_def lv_find_def [symmetric] by blast

lemma lv_find_le: "lv_find v k \<le> length (lv_items v)"
  by (simp add: lv_find_def)

text \<open>The search is a linear one for the item that covers the key.\<close>

lemma find_unique:
  assumes "\<And>y. y \<in> set xs \<and> p y \<longleftrightarrow> y = x"
  shows "List.find p xs = Some x"
proof -
  have "List.find p xs \<noteq> None" using assms [of x] by (auto simp: find_None_iff)
  then obtain y where y: "List.find p xs = Some y" by blast
  then have "y \<in> set xs \<and> p y" by (auto simp: find_Some_iff)
  then have "y = x" using assms [of y] by simp
  then show ?thesis using y by simp
qed

lemma lv_find_id_scan:
  assumes "lv_wf v"
  shows "lv_find_id v k = map_option li_id (List.find (item_covers (lv_cmp v) k) (lv_items v))"
proof (cases "lv_find v k < length (lv_items v) \<and> \<not> key_less (lv_cmp v) k (li_begin (lv_items v ! lv_find v k))")
  case True
  then have "List.find (item_covers (lv_cmp v) k) (lv_items v) = Some (lv_items v ! lv_find v k)"
    using lv_covers_unique [OF assms, of _ k] by (intro find_unique) blast
  then show ?thesis using True lv_wfD(3) [OF assms] by (simp add: lv_find_id_def Let_def)
next
  case False
  then have "List.find (item_covers (lv_cmp v) k) (lv_items v) = None"
    using lv_covers_unique [OF assms, of _ k] unfolding find_None_iff by blast
  then show ?thesis
    using False lv_find_le [of v k] lv_wfD(3) [OF assms] by (auto simp: lv_find_id_def Let_def)
qed

definition meets_none :: "comparator \<Rightarrow> bytes \<Rightarrow> bytes \<Rightarrow> level_item list \<Rightarrow> bool" where
  "meets_none cmp b e its \<longleftrightarrow> (\<forall>it\<in>set its. key_less cmp e (li_begin it) \<or> key_less cmp (li_end it) b)"

lemma lv_overlap_test:
  assumes "lv_wf v" and "\<not> key_less (lv_cmp v) e b"
  shows "meets_none (lv_cmp v) b e (lv_items v) \<longleftrightarrow>
    lv_find v b = length (lv_items v) \<or> key_less (lv_cmp v) b (li_begin (lv_items v ! lv_find v b)) \<and>
      lv_find v e = lv_find v b \<and> key_less (lv_cmp v) e (li_begin (lv_items v ! lv_find v b))"
  using key_order.ranges_insert(1) [OF lv_wfD(1,2) [OF assms(1)], of "\<lparr>li_begin = b, li_end = e, li_id = 0\<rparr>"] assms(2)
  unfolding meets_none_def lv_find_def by simp

lemma lv_is_not_overlapped_iff:
  assumes "lv_wf v" and "\<not> key_less (lv_cmp v) e b"
  shows "lv_is_not_overlapped v b e \<longleftrightarrow> meets_none (lv_cmp v) b e (lv_items v)"
  unfolding lv_overlap_test [OF assms] lv_is_not_overlapped_def Let_def lv_wfD(3) [OF assms(1)] by auto

lemma lv_try_put_result:
  assumes "lv_wf v" and "\<not> key_less (lv_cmp v) e b"
  shows "lv_try_put b e i v = (if meets_none (lv_cmp v) b e (lv_items v)
    then (True, v\<lparr>lv_items := insert_at (lv_find v b) \<lparr>li_begin = b, li_end = e, li_id = i\<rparr> (lv_items v)\<rparr>)
    else (False, v))"
  unfolding lv_overlap_test [OF assms] lv_try_put_def Let_def lv_wfD(3) [OF assms(1)] by (auto simp: insert_at_def)

lemma lv_insert_wf:
  assumes "lv_wf v" and "\<not> key_less (lv_cmp v) e b" and "meets_none (lv_cmp v) b e (lv_items v)"
  shows "lv_wf (v\<lparr>lv_items := insert_at (lv_find v b) \<lparr>li_begin = b, li_end = e, li_id = i\<rparr> (lv_items v)\<rparr>)"
  using key_order.ranges_insert(2) [OF lv_wfD(1,2) [OF assms(1)], of "\<lparr>li_begin = b, li_end = e, li_id = i\<rparr>"]
    assms unfolding meets_none_def lv_wf_def lv_find_def by simp

lemma set_erase_id: "set (li_erase_id i its) \<subseteq> set its"
  by (induction its) auto

lemma sorted_erase_id: "sorted_wrt r its \<Longrightarrow> sorted_wrt r (li_erase_id i its)"
  by (induction its) (auto dest: subsetD [OF set_erase_id])

lemma lv_delete_wf:
  assumes "lv_wf v"
  shows "lv_wf (lv_delete i v)"
  using assms sorted_erase_id [of _ "lv_items v" i] set_erase_id [of i "lv_items v"]
  by (auto simp: lv_wf_def lv_delete_def key_order.ranges_def [OF lv_wfD(1) [OF assms]])

section \<open>Properties of views and components\<close>

text \<open>C36: in a view whose items have disjoint ranges, \<open>TryPut\<close> of a range with its ends in order succeeds exactly when the
  range meets no item of the view; \<open>IsNotOverlapped\<close> tells so beforehand and \<open>Put\<close> throws otherwise. The view has then the
  one item more, in its place by the order of the keys, and is left as it was on failure; \<open>Delete\<close> keeps the order too.\<close>

theorem level_view_try_put:
  assumes "lv_wf v" and "\<not> key_less (lv_cmp v) e b"
  shows "(case lv_try_put b e i v of (r, v') \<Rightarrow>
      lv_wf v' \<and> lv_wf (lv_delete j v') \<and> r = lv_is_not_overlapped v b e \<and>
      r = (\<forall>it\<in>set (lv_items v). key_less (lv_cmp v) e (li_begin it) \<or> key_less (lv_cmp v) (li_end it) b) \<and>
      set (lv_items v') = (if r then insert \<lparr>li_begin = b, li_end = e, li_id = i\<rparr> (set (lv_items v)) else set (lv_items v)) \<and>
      lv_put b e i v = (if r then Inr v' else Inl Invalid_argument) \<and> (\<not> r \<longrightarrow> v' = v))"
  using assms lv_insert_wf [OF assms] lv_delete_wf
  unfolding lv_put_def lv_try_put_result [OF assms] lv_is_not_overlapped_iff [OF assms] meets_none_def [symmetric]
  by simp

definition level_view_example :: level_view where
  "level_view_example = (lv_new 3)\<lparr>lv_items :=
     [\<lparr>li_begin = [1], li_end = [4], li_id = 0\<rparr>, \<lparr>li_begin = [7], li_end = [9], li_id = 1\<rparr>]\<rparr>"

lemma level_view_example_wf: "lv_wf level_view_example" "lv_cmp level_view_example = None"
  by (simp_all add: lv_wf_def level_view_example_def lv_new_def ranges_None)

theorem level_view_try_put_witness:
  "(case lv_try_put [5] [6] 2 level_view_example of (r, v') \<Rightarrow> r \<and> lv_wf v') \<and>
   \<not> fst (lv_try_put [3] [6] 2 level_view_example)"
proof -
  note ex = level_view_example_wf
  have "\<not> key_less (lv_cmp level_view_example) [6] [5]" "\<not> key_less (lv_cmp level_view_example) [6] [3]"
    by (simp_all add: ex key_less_None)
  from level_view_try_put [OF ex(1) this(1), where i = 2 and j = 0] level_view_try_put [OF ex(1) this(2), where i = 2 and j = 0]
  show ?thesis
    by (cases "lv_try_put [5] [6] 2 level_view_example"; cases "lv_try_put [3] [6] 2 level_view_example")
      (simp add: ex(2) key_less_None, simp add: level_view_example_def)
qed

text \<open>C37: in a view whose items have disjoint ranges, \<open>FindId\<close> by binary search on the ends of the ranges gives what a linear
  search for an item that covers the key gives: the number of its table, or none when no item covers the key.\<close>

theorem level_view_find:
  assumes "lv_wf v"
  shows "lv_find_id v k = map_option li_id (List.find
      (\<lambda>it. \<not> key_less (lv_cmp v) k (li_begin it) \<and> \<not> key_less (lv_cmp v) (li_end it) k) (lv_items v))"
  by (rule lv_find_id_scan [OF assms])

theorem level_view_find_witness:
  "lv_find_id level_view_example [8, 2] = Some 1 \<and> lv_find_id level_view_example [5] = None"
  using level_view_find [of level_view_example "[8, 2]"] level_view_find [of level_view_example "[5]"] level_view_example_wf
  by (simp add: key_less_None level_view_example_def lv_new_def)



end
