(* ===== verification/Steps.thy ===== *)
theory Steps
  imports Prelude
begin

text \<open>
  The steps of the tables: operations on a state that end with a value or an exception, or never. The level table
  and the balanced table are written with them.
\<close>

section \<open>Steps\<close>

text \<open>
  A step works on the state and ends with a value or an exception; either way it leaves a state behind. A step that
  never returns is \<open>None\<close>.
\<close>

type_synonym ('s, 'a) act = "'s \<Rightarrow> ((exn + 'a) \<times> 's) option"

definition act_return :: "'a \<Rightarrow> ('s, 'a) act" where
  "act_return x s = Some (Inr x, s)"

definition act_lift :: "exn + 'a \<Rightarrow> ('s, 'a) act" where
  "act_lift r s = Some (r, s)"

definition act_bind :: "('s, 'a) act \<Rightarrow> ('a \<Rightarrow> ('s, 'b) act) \<Rightarrow> ('s, 'b) act" where
  "act_bind m f s =
     (case m s of None \<Rightarrow> None | Some (Inl e, s') \<Rightarrow> Some (Inl e, s') | Some (Inr x, s') \<Rightarrow> f x s')"

definition act_modify :: "('s \<Rightarrow> 's) \<Rightarrow> ('s, unit) act" where
  "act_modify g s = Some (Inr (), g s)"

definition act_gets :: "('s \<Rightarrow> 'a) \<Rightarrow> ('s, 'a) act" where
  "act_gets g s = Some (Inr (g s), s)"

text \<open>A \<open>try\<close> block whose handler changes the state and throws again.\<close>

definition act_catch :: "('s, 'a) act \<Rightarrow> ('s \<Rightarrow> 's) \<Rightarrow> ('s, 'a) act" where
  "act_catch m h s = (case m s of Some (Inl e, s') \<Rightarrow> Some (Inl e, h s') | r \<Rightarrow> r)"

fun act_each :: "('a \<Rightarrow> ('s, 'b) act) \<Rightarrow> 'a list \<Rightarrow> ('s, 'b list) act" where
  "act_each f [] = act_return []"
| "act_each f (x # xs) = act_bind (f x) (\<lambda>y. act_bind (act_each f xs) (\<lambda>ys. act_return (y # ys)))"

lemma act_simps [simp]:
  "act_return x s = Some (Inr x, s)"
  "act_lift r s = Some (r, s)"
  "act_modify g s = Some (Inr (), g s)"
  "act_gets h s = Some (Inr (h s), s)"
  "act_bind (act_gets h) f s = f (h s) s"
  "act_bind (act_return x) f s = f x s"
  "act_bind (act_lift (Inr x)) f s = f x s"
  "act_bind (act_lift (Inl e)) f s = Some (Inl e, s)"
  "act_bind (act_modify g) k s = k () (g s)"
  by (simp_all add: act_return_def act_lift_def act_modify_def act_gets_def act_bind_def)

lemma act_bind_Some:
  "m s = Some (Inr x, s') \<Longrightarrow> act_bind m f s = f x s'"
  "m s = Some (Inl e, s') \<Longrightarrow> act_bind m f s = Some (Inl e, s')"
  "m s = None \<Longrightarrow> act_bind m f s = None"
  by (simp_all add: act_bind_def)

lemma act_bind_mono [partial_function_mono]:
  fixes B :: "('x \<Rightarrow> 'y option) \<Rightarrow> ('s, 'a) act"
  assumes "\<And>s. mono_option (\<lambda>f. B f s)" and "\<And>y s. mono_option (\<lambda>f. C y f s)"
  shows "mono_option (\<lambda>f. act_bind (B f) (\<lambda>y. C y f) s)"
proof (rule monotoneI)
  fix f g :: "'x \<Rightarrow> 'y option"
  assume le: "fun_ord option_ord f g"
  have B: "B f s = None \<or> B f s = B g s"
    using assms(1) [of s, THEN monotoneD, OF le] by (auto simp: flat_ord_def)
  have C: "C y f s' = None \<or> C y f s' = C y g s'" for y s'
    using assms(2) [of y s', THEN monotoneD, OF le] by (auto simp: flat_ord_def)
  show "option_ord (act_bind (B f) (\<lambda>y. C y f) s) (act_bind (B g) (\<lambda>y. C y g) s)"
  proof (cases "B f s = None")
    case True
    then show ?thesis by (simp add: act_bind_def flat_ord_def)
  next
    case False
    with B have "B g s = B f s" by (elim disjE) simp_all
    then show ?thesis using C by (simp add: act_bind_def flat_ord_def split: option.split sum.split)
  qed
qed

lemma act_catch_mono [partial_function_mono]:
  fixes B :: "('x \<Rightarrow> 'y option) \<Rightarrow> ('s, 'a) act"
  assumes "\<And>s. mono_option (\<lambda>f. B f s)"
  shows "mono_option (\<lambda>f. act_catch (B f) h s)"
proof (rule monotoneI)
  fix f g :: "'x \<Rightarrow> 'y option"
  assume le: "fun_ord option_ord f g"
  have "B f s = None \<or> B f s = B g s" using assms [of s, THEN monotoneD, OF le] by (auto simp: flat_ord_def)
  then show "option_ord (act_catch (B f) h s) (act_catch (B g) h s)"
    by (auto simp: act_catch_def flat_ord_def)
qed

lemma act_control_mono [partial_function_mono]:
  "mono_option (\<lambda>f. F f s) \<Longrightarrow> mono_option (\<lambda>f. G f s) \<Longrightarrow> mono_option (\<lambda>f. (if b then F f else G f) s)"
  "(\<And>x y. mono_option (\<lambda>f. H f x y s)) \<Longrightarrow> mono_option (\<lambda>f. (case p of (x, y) \<Rightarrow> H f x y) s)"
  "(\<And>x. mono_option (\<lambda>f. K f x s)) \<Longrightarrow> mono_option (\<lambda>f. (let x = u in K f x) s)"
  by (cases b; simp) (cases p; simp add: Let_def)+

end
