(* ===== verification/LevelStore.thy ===== *)
theory LevelStore
  imports Steps LevelView SstTable MemoryTable
begin

text \<open>
  What the level table keeps and the small operations on it (the first part of \<open>src/LevelTable.cpp\<close>,
  \<open>include/sharpen/LevelTable.hpp\<close>): the manifest with its counters, views and components behind two write-through
  maps, the table files and the cache of opened tables, and the memory tables with their logs.
\<close>

section \<open>Names of files\<close>

text \<open>\<open>Itoa\<close> of an unsigned number: the digits are written backwards and reversed.\<close>

fun itoa_digits :: "nat \<Rightarrow> bytes" where
  "itoa_digits n = (if n = 0 then [] else word_of_nat (48 + n mod 10) # itoa_digits (n div 10))"

declare itoa_digits.simps [simp del]

definition itoa :: "nat \<Rightarrow> bytes" where
  "itoa n = (if n = 0 then [48] else rev (itoa_digits n))"

text \<open>
  A name of \<open>capacity\<close> characters, filled from the left; the rest stays zero. Characters behind the end are
  written out of bounds.
\<close>

definition fill_name :: "nat \<Rightarrow> bytes \<Rightarrow> exn + bytes" where
  "fill_name capacity w = mem_write (replicate capacity 0) 0 w"

definition format_table_name :: "bytes \<Rightarrow> bytes \<Rightarrow> nat \<Rightarrow> exn + bytes" where
  "format_table_name name ext i = fill_name (length name + 1 + 44 + 1 + length ext + 1) (name @ 95 # itoa i @ 46 # ext)"

definition format_memory_table_name :: "bytes \<Rightarrow> bytes \<Rightarrow> bytes \<Rightarrow> nat \<Rightarrow> exn + bytes" where
  "format_memory_table_name name ext wal_ext i =
     fill_name (length name + 1 + 44 + 1 + length ext + 1) (name @ 95 # itoa i @ 46 # wal_ext)"

definition format_manifest_name :: "bytes \<Rightarrow> bytes \<Rightarrow> bytes \<Rightarrow> exn + bytes" where
  "format_manifest_name name ext wal_ext =
     fill_name (length name + 1 + 8 + 1 + length ext + 1)
       (name @ 95 # [109, 97, 110, 105, 102, 101, 115, 116] @ 46 # wal_ext)"

section \<open>Memory tables\<close>

text \<open>
  A memory table of the level table: its entries in the order of their keys, as \<open>std::map\<close> iterates over them, the
  number of its log file and the offset of its logger.
\<close>

record mem_table =
  mm_id :: nat
  mm_offset :: nat
  mm_entries :: "wal_item list"

definition mm_find :: "comparator \<Rightarrow> bytes \<Rightarrow> wal_item list \<Rightarrow> nat" where
  "mm_find cmp key xs = lower_bound (\<lambda>e. key_less cmp (fst e) key) xs"

definition mm_hit :: "comparator \<Rightarrow> bytes \<Rightarrow> wal_item list \<Rightarrow> bool" where
  "mm_hit cmp key xs \<longleftrightarrow>
     (let i = mm_find cmp key xs in i \<noteq> length xs \<and> \<not> key_less cmp key (fst (xs ! i)))"

definition mm_set :: "comparator \<Rightarrow> wal_item \<Rightarrow> wal_item list \<Rightarrow> wal_item list" where
  "mm_set cmp e xs =
     (let i = mm_find cmp (fst e) xs in
        if mm_hit cmp (fst e) xs then xs[i := (fst (xs ! i), snd e)] else insert_at i e xs)"

definition mm_emplace :: "comparator \<Rightarrow> wal_item \<Rightarrow> wal_item list \<Rightarrow> wal_item list" where
  "mm_emplace cmp e xs =
     (if mm_hit cmp (fst e) xs then xs else insert_at (mm_find cmp (fst e) xs) e xs)"

fun mm_internal_action :: "comparator \<Rightarrow> batch \<Rightarrow> wal_item list \<Rightarrow> wal_item list" where
  "mm_internal_action cmp [] xs = xs"
| "mm_internal_action cmp (a # as) xs =
     mm_internal_action cmp as (mm_set cmp (act_key a, if act_type a = Put then Some (act_value a) else None) xs)"

definition mm_lookup :: "comparator \<Rightarrow> bytes \<Rightarrow> wal_item list \<Rightarrow> bytes option option" where
  "mm_lookup cmp key xs = (if mm_hit cmp key xs then Some (snd (xs ! mm_find cmp key xs)) else None)"

definition mm_exist :: "comparator \<Rightarrow> bytes \<Rightarrow> mem_table \<Rightarrow> exist_status" where
  "mm_exist cmp key t =
     (case mm_lookup cmp key (mm_entries t) of None \<Rightarrow> Not_exist | Some None \<Rightarrow> Deleted | Some (Some _) \<Rightarrow> Exist)"

definition mm_get :: "comparator \<Rightarrow> bytes \<Rightarrow> mem_table \<Rightarrow> exn + bytes" where
  "mm_get cmp key t =
     (case mm_lookup cmp key (mm_entries t) of Some (Some v) \<Rightarrow> Inr v | _ \<Rightarrow> Inl Out_of_range)"

section \<open>The state\<close>

text \<open>The options the level table keeps, of which \<open>lo_max_views\<close> and \<open>lo_max_tables\<close> are unlimited when zero.\<close>

record level_option =
  lo_cmp :: comparator
  lo_max_views :: nat
  lo_max_tables :: nat
  lo_max_mem :: nat
  lo_max_imms :: nat

text \<open>
  What the level table asks of a table: opening the bytes of a file; building file \<open>id\<close> from entries; merging tables
  into file \<open>id\<close>, with deleted entries erased or not, the tables being in order or not; whether it has no blocks; its
  first and last key; a lookup. Building and merging give the bytes of the file, too.
\<close>

record 't table_ops =
  to_open :: "bytes \<Rightarrow> exn + 't"
  to_build :: "nat \<Rightarrow> wal_item list \<Rightarrow> (exn + 't) \<times> bytes"
  to_merge :: "nat \<Rightarrow> bool \<Rightarrow> bool \<Rightarrow> 't list \<Rightarrow> ((exn + 't) \<times> bytes) option"
  to_empty :: "'t \<Rightarrow> bool"
  to_ends :: "'t \<Rightarrow> exn + (bytes \<times> bytes)"
  to_get :: "bytes \<Rightarrow> 't \<Rightarrow> exn + bytes option"

text \<open>
  \<open>ls_manifest\<close> is the map of the manifest, a memory table that erases directly; \<open>ls_views\<close> and \<open>ls_components\<close> are
  \<open>viewMap_\<close> and \<open>componentMap_\<close>; \<open>ls_tables\<close> and \<open>ls_logs\<close> are the files of tables and of memory tables, by number.
  The pointer to the memory table is null while, and after a failure, a new one is made.
\<close>

record 't level_state =
  ls_manifest :: "bytes \<Rightarrow> bytes option"
  ls_views :: "nat \<Rightarrow> level_view option"
  ls_components :: "nat \<Rightarrow> nat list option"
  ls_tables :: "nat \<Rightarrow> bytes option"
  ls_logs :: "nat \<Rightarrow> bytes option"
  ls_cache :: "'t circle_cache list"
  ls_mem :: "mem_table option"
  ls_imms :: "mem_table list"
  ls_used :: nat

section \<open>The manifest\<close>

datatype counter = Current_table | Current_view | Current_memory | Max_level | Prev_table | Prev_view | Prev_memory

fun counter_key :: "counter \<Rightarrow> bytes" where
  "counter_key Current_table = [99, 116, 105, 100]"
| "counter_key Current_view = [99, 118, 105, 100]"
| "counter_key Current_memory = [99, 109, 105, 100]"
| "counter_key Max_level = [109, 108]"
| "counter_key Prev_table = [112, 116, 105, 100]"
| "counter_key Prev_view = [112, 118, 105, 100]"
| "counter_key Prev_memory = [112, 109, 105, 100]"

declare counter_key.simps [simp del]

definition view_key :: "nat \<Rightarrow> bytes" where
  "view_key i = 118 # le_bytes 8 i"

definition component_key :: "nat \<Rightarrow> bytes" where
  "component_key l = 108 # le_bytes 8 l"

text \<open>The getters are \<open>noexcept\<close>; \<open>As\<close> reads beyond a value that is too short.\<close>

definition get_counter :: "counter \<Rightarrow> ('t level_state, nat) act" where
  "get_counter c s =
     (case ls_manifest s (counter_key c) of
        None \<Rightarrow> Some (Inl Undefined, s)
      | Some w \<Rightarrow> Some (if length w < 8 then Inl Undefined else Inr (le_nat (take 8 w)), s))"

definition manifest_put :: "bytes \<Rightarrow> bytes \<Rightarrow> 't level_state \<Rightarrow> 't level_state" where
  "manifest_put key w s = s\<lparr>ls_manifest := (ls_manifest s)(key \<mapsto> w)\<rparr>"

definition manifest_delete :: "bytes \<Rightarrow> 't level_state \<Rightarrow> 't level_state" where
  "manifest_delete key s = s\<lparr>ls_manifest := (ls_manifest s)(key := None)\<rparr>"

definition put_counter :: "counter \<Rightarrow> nat \<Rightarrow> 't level_state \<Rightarrow> 't level_state" where
  "put_counter c n = manifest_put (counter_key c) (le_bytes 8 n)"

abbreviation set_counter :: "counter \<Rightarrow> nat \<Rightarrow> ('t level_state, unit) act" where
  "set_counter c n \<equiv> act_modify (put_counter c n)"

section \<open>Views and components\<close>

text \<open>\<open>put_view\<close> and \<open>put_component\<close> are the changes through the references the getters return.\<close>

definition put_view :: "nat \<Rightarrow> level_view \<Rightarrow> 't level_state \<Rightarrow> 't level_state" where
  "put_view i v s = s\<lparr>ls_views := (ls_views s)(i \<mapsto> v)\<rparr>"

definition put_component :: "nat \<Rightarrow> nat list \<Rightarrow> 't level_state \<Rightarrow> 't level_state" where
  "put_component l c s = s\<lparr>ls_components := (ls_components s)(l \<mapsto> c)\<rparr>"

definition get_view :: "comparator \<Rightarrow> nat \<Rightarrow> ('t level_state, level_view) act" where
  "get_view cmp i s =
     (case ls_views s i of
        Some v \<Rightarrow> Some (Inr v, s)
      | None \<Rightarrow>
          let v = (lv_new i)\<lparr>lv_cmp := cmp\<rparr> in
            (case ls_manifest s (view_key i) of
               None \<Rightarrow> Some (Inr v, put_view i v s)
             | Some w \<Rightarrow> (case lv_load w v of Inl e \<Rightarrow> Some (Inl e, s) | Inr (_, v') \<Rightarrow> Some (Inr v', put_view i v' s))))"

definition save_view :: "nat \<Rightarrow> level_view \<Rightarrow> ('t level_state, unit) act" where
  "save_view i v =
     act_bind (act_lift (lv_store_to_buffer v [] 0)) (\<lambda>w. act_modify (manifest_put (view_key i) w))"

definition get_component :: "nat \<Rightarrow> ('t level_state, nat list) act" where
  "get_component l s =
     (case ls_components s l of
        Some c \<Rightarrow> Some (Inr c, s)
      | None \<Rightarrow>
          (case ls_manifest s (component_key l) of
             None \<Rightarrow> Some (Inr [], put_component l [] s)
           | Some w \<Rightarrow> (case lc_load w [] of Inl e \<Rightarrow> Some (Inl e, s) | Inr (_, c) \<Rightarrow> Some (Inr c, put_component l c s))))"

definition save_component :: "nat \<Rightarrow> nat list \<Rightarrow> ('t level_state, unit) act" where
  "save_component l c =
     act_bind (act_lift (lc_store_to_buffer c [] 0)) (\<lambda>w. act_modify (manifest_put (component_key l) w))"

definition get_table_count :: "comparator \<Rightarrow> nat list \<Rightarrow> ('t level_state, nat) act" where
  "get_table_count cmp c =
     act_bind (act_each (get_view cmp) c) (\<lambda>vs. act_return (sum_list (map (length \<circ> lv_items) vs)))"

section \<open>Table files\<close>

text \<open>The file is created when it is missing.\<close>

definition load_table :: "'t table_ops \<Rightarrow> nat \<Rightarrow> ('t level_state, 't) act" where
  "load_table ops i s =
     (let data = (case ls_tables s i of Some w \<Rightarrow> w | None \<Rightarrow> []) in
        Some (to_open ops data, s\<lparr>ls_tables := (ls_tables s)(i \<mapsto> data)\<rparr>))"

text \<open>\<open>CreateNew\<close> refuses a file that exists.\<close>

definition create_table :: "nat \<Rightarrow> ('t level_state, unit) act" where
  "create_table i s =
     (if ls_tables s i = None then Some (Inr (), s\<lparr>ls_tables := (ls_tables s)(i \<mapsto> [])\<rparr>)
      else Some (Inl System_error, s))"

definition write_table :: "nat \<Rightarrow> bytes \<Rightarrow> 't level_state \<Rightarrow> 't level_state" where
  "write_table i data s = s\<lparr>ls_tables := (ls_tables s)(i \<mapsto> data)\<rparr>"

definition cache_key :: "nat \<Rightarrow> bytes" where
  "cache_key i = le_bytes 8 i"

definition delete_table_from_cache :: "nat \<Rightarrow> ('t level_state, unit) act" where
  "delete_table_from_cache i s =
     (case sc_delete (cache_key i) (ls_cache s) of
        Inl e \<Rightarrow> Some (Inl e, s) | Inr c \<Rightarrow> Some (Inr (), s\<lparr>ls_cache := c\<rparr>))"

definition delete_table :: "nat \<Rightarrow> ('t level_state, unit) act" where
  "delete_table i =
     act_bind (delete_table_from_cache i) (\<lambda>_. act_modify (\<lambda>s. s\<lparr>ls_tables := (ls_tables s)(i := None)\<rparr>))"

definition load_table_from_cache :: "nat \<Rightarrow> ('t level_state, 't option) act" where
  "load_table_from_cache i s =
     (case sc_get (cache_key i) (ls_cache s) of
        Inl e \<Rightarrow> Some (Inl e, s) | Inr (r, c) \<Rightarrow> Some (Inr r, s\<lparr>ls_cache := c\<rparr>))"

definition load_table_cache :: "'t table_ops \<Rightarrow> nat \<Rightarrow> ('t level_state, 't) act" where
  "load_table_cache ops i =
     act_bind (load_table_from_cache i) (\<lambda>r.
       case r of
         Some t \<Rightarrow> act_return t
       | None \<Rightarrow> act_bind (load_table ops i) (\<lambda>t. \<lambda>s.
           case sc_get_or_emplace (cache_key i) t (ls_cache s) of
             Inl e \<Rightarrow> Some (Inl e, s) | Inr (t', c) \<Rightarrow> Some (Inr t', s\<lparr>ls_cache := c\<rparr>)))"

section \<open>Memory tables are maps\<close>

abbreviation mm_sorted :: "comparator \<Rightarrow> wal_item list \<Rightarrow> bool" where
  "mm_sorted cmp \<equiv> sorted_wrt (\<lambda>a b. key_less cmp (fst a) (fst b))"

lemma assoc_map_of: "assoc fst snd xs = map_of xs"
  by (simp add: assoc_def)

lemma mm_hit_iff:
  assumes "good_comparator cmp" and "mm_sorted cmp xs"
  shows "mm_hit cmp k xs \<longleftrightarrow> mm_find cmp k xs < length xs \<and> fst (xs ! mm_find cmp k xs) = k"
    and "mm_hit cmp k xs \<longleftrightarrow> k \<in> fst ` set xs"
proof -
  note ord = good_comparatorD(1) [OF assms(1)]
  have le: "mm_find cmp k xs \<le> length xs" by (simp add: mm_find_def)
  have "fst (xs ! mm_find cmp k xs) = k \<or> key_less cmp k (fst (xs ! mm_find cmp k xs))" if "mm_find cmp k xs < length xs"
  proof -
    have "xs ! mm_find cmp k xs \<in> set (drop (mm_find cmp k xs) xs)"
      using that by (metis Cons_nth_drop_Suc list.set_intros(1))
    then show ?thesis using key_order.find_key_above [OF ord assms(2)] unfolding mm_find_def by blast
  qed
  moreover have "\<not> key_less cmp k k" by (rule key_order.irrefl [OF ord])
  ultimately show iff: "mm_hit cmp k xs \<longleftrightarrow> mm_find cmp k xs < length xs \<and> fst (xs ! mm_find cmp k xs) = k"
    using le by (auto simp: mm_hit_def Let_def)
  show "mm_hit cmp k xs \<longleftrightarrow> k \<in> fst ` set xs"
    unfolding iff key_order.find_key_hit [OF ord assms(2)] mm_find_def ..
qed

lemma mm_lookup_map_of:
  assumes "good_comparator cmp" and "mm_sorted cmp xs"
  shows "mm_lookup cmp k xs = map_of xs k"
  using key_order.assoc_find_key [OF good_comparatorD(1) [OF assms(1)] assms(2), of snd k]
  unfolding mm_lookup_def mm_hit_iff(1) [OF assms] assoc_map_of mm_find_def Let_def by simp

lemma mm_set_map_of:
  assumes "good_comparator cmp" and "mm_sorted cmp xs"
  shows "mm_sorted cmp (mm_set cmp e xs)" and "map_of (mm_set cmp e xs) = (map_of xs)(fst e \<mapsto> snd e)"
proof -
  note ord = good_comparatorD(1) [OF assms(1)]
  have "mm_sorted cmp (mm_set cmp e xs) \<and> map_of (mm_set cmp e xs) = (map_of xs)(fst e \<mapsto> snd e)"
  proof (cases "mm_hit cmp (fst e) xs")
    case True
    then have hit: "mm_find cmp (fst e) xs < length xs" "fst (xs ! mm_find cmp (fst e) xs) = fst e"
      using mm_hit_iff(1) [OF assms] by blast+
    then show ?thesis
      using key_order.replace_sorted(1) [OF ord assms(2), where x = e]
        key_order.replace_sorted(2) [OF ord assms(2), where x = e and val = snd] True
      by (simp add: mm_set_def mm_find_def Let_def assoc_map_of)
  next
    case False
    then have "fst e \<notin> fst ` set xs" using mm_hit_iff(2) [OF assms] by blast
    then show ?thesis
      using key_order.insert_sorted(1) [OF ord assms(2), where x = e]
        key_order.insert_sorted(2) [OF ord assms(2), where x = e and val = snd] False
      by (simp add: mm_set_def mm_find_def Let_def assoc_map_of)
  qed
  then show "mm_sorted cmp (mm_set cmp e xs)" "map_of (mm_set cmp e xs) = (map_of xs)(fst e \<mapsto> snd e)" by blast+
qed

lemma mm_emplace_map_of:
  assumes "good_comparator cmp" and "mm_sorted cmp xs"
  shows "mm_sorted cmp (mm_emplace cmp e xs)" and "map_of (mm_emplace cmp e xs) = [fst e \<mapsto> snd e] ++ map_of xs"
proof -
  have "mm_sorted cmp (mm_emplace cmp e xs) \<and> map_of (mm_emplace cmp e xs) = [fst e \<mapsto> snd e] ++ map_of xs"
  proof (cases "mm_hit cmp (fst e) xs")
    case True
    then obtain v where "map_of xs (fst e) = Some v" using mm_hit_iff(2) [OF assms] by (metis map_of_eq_None_iff option.exhaust)
    then show ?thesis using True assms(2) by (auto simp: mm_emplace_def map_add_def split: option.split)
  next
    case False
    then have "map_of xs (fst e) = None" using mm_hit_iff(2) [OF assms] by (simp add: map_of_eq_None_iff)
    moreover have "mm_emplace cmp e xs = mm_set cmp e xs" using False by (simp add: mm_emplace_def mm_set_def Let_def)
    ultimately show ?thesis using mm_set_map_of [OF assms, of e] by (auto simp: map_add_def split: option.split)
  qed
  then show "mm_sorted cmp (mm_emplace cmp e xs)" "map_of (mm_emplace cmp e xs) = [fst e \<mapsto> snd e] ++ map_of xs" by blast+
qed

text \<open>Actions on the entries are the actions on the map of \<open>MemoryTable\<close>.\<close>

lemma mm_internal_action_map_of:
  assumes "good_comparator cmp" and "mm_sorted cmp xs"
  shows "mm_sorted cmp (mm_internal_action cmp b xs)"
    and "map_of (mm_internal_action cmp b xs) = mt_internal_action False b (map_of xs)"
proof -
  have "mm_sorted cmp (mm_internal_action cmp b xs) \<and>
      map_of (mm_internal_action cmp b xs) = mt_internal_action False b (map_of xs)"
    using assms(2)
  proof (induction b arbitrary: xs)
    case (Cons a b)
    let ?v = "if act_type a = Put then Some (act_value a) else None"
    have "mt_internal_action False (a # b) (map_of xs) = mt_internal_action False b ((map_of xs)(act_key a \<mapsto> ?v))"
      by (simp add: mt_internal_put_def mt_internal_delete_def)
    moreover note mm_set_map_of(2) [OF assms(1) Cons.prems, of "(act_key a, ?v)"]
    moreover note Cons.IH [OF mm_set_map_of(1) [OF assms(1) Cons.prems, of "(act_key a, ?v)"]]
    ultimately show ?case by (simp only: mm_internal_action.simps fst_conv snd_conv simp_thms)
  qed simp
  then show "mm_sorted cmp (mm_internal_action cmp b xs)"
    "map_of (mm_internal_action cmp b xs) = mt_internal_action False b (map_of xs)" by blast+
qed

end
