(* ===== verification/LevelTable.thy ===== *)
theory LevelTable
  imports LevelStore
begin

text \<open>
  The level table (\<open>src/LevelTable.cpp\<close>, \<open>include/sharpen/LevelTable.hpp\<close>): batches go to a memory table, full memory
  tables are dumped into table files, and the files of a level that is full are merged into the next one.
\<close>

section \<open>Merging the tables of a component\<close>

text \<open>\<open>MergeTables\<close>, which is only called with a table to append; the tables are in order when one view takes them all.\<close>

definition load_view_tables :: "'t table_ops \<Rightarrow> comparator \<Rightarrow> nat \<Rightarrow> ('t level_state, 't list) act" where
  "load_view_tables ops cmp i =
     act_bind (get_view cmp i) (\<lambda>v. act_each (load_table ops) (map li_id (lv_items v)))"

definition merge_tables_of ::
  "'t table_ops \<Rightarrow> level_option \<Rightarrow> nat list \<Rightarrow> nat \<Rightarrow> bool \<Rightarrow> 't \<Rightarrow> ('t level_state, 't) act" where
  "merge_tables_of ops opt c new_id erase t =
     act_bind (create_table new_id) (\<lambda>_.
       act_bind (act_each (load_view_tables ops (lo_cmp opt)) c) (\<lambda>tss.
         act_bind
           (if length c = 1 then
              act_bind (act_lift (to_ends ops t)) (\<lambda>(first_key, last_key).
                act_bind (get_view (lo_cmp opt) (last c)) (\<lambda>v. act_return (lv_is_not_overlapped v first_key last_key)))
            else act_return False) (\<lambda>ordered. \<lambda>s.
           case to_merge ops new_id erase ordered (concat tss @ [t]) of
             None \<Rightarrow> None
           | Some (r, data) \<Rightarrow> Some (r, write_table new_id data s))))"

section \<open>Adding a table to a component\<close>

definition delete_view :: "comparator \<Rightarrow> nat \<Rightarrow> ('t level_state, unit) act" where
  "delete_view cmp i =
     act_bind (get_view cmp i) (\<lambda>v.
       act_bind (act_each delete_table (map li_id (lv_items v))) (\<lambda>_. act_modify (manifest_delete (view_key i))))"

text \<open>
  A full component: its tables and the new one are merged into a table that \<open>add\<close> adds to the next component, and the
  component is emptied.
\<close>

definition push_down ::
  "'t table_ops \<Rightarrow> level_option \<Rightarrow> ('t \<Rightarrow> nat \<Rightarrow> ('t level_state, unit) act) \<Rightarrow> nat list \<Rightarrow> 't \<Rightarrow> nat \<Rightarrow> nat \<Rightarrow>
     ('t level_state, unit) act" where
  "push_down ops opt add c t table_id l =
     act_bind (get_counter Current_table) (\<lambda>new_id.
       act_bind (set_counter Current_table (add64 new_id 1)) (\<lambda>_.
         act_bind (get_counter Max_level) (\<lambda>max_level.
           act_bind (merge_tables_of ops opt c new_id (l = max_level \<and> length c = 1) t) (\<lambda>new_table.
             act_bind (act_catch (add new_table new_id) (put_counter Current_table new_id)) (\<lambda>_.
               act_bind (act_modify (put_component l [])) (\<lambda>_.
                 act_bind (save_component l []) (\<lambda>_.
                   act_bind (act_each (delete_view (lo_cmp opt)) c) (\<lambda>_.
                     act_bind (delete_table table_id) (\<lambda>_.
                       act_bind (get_counter Max_level) (\<lambda>max_level'.
                         if l \<noteq> 0 \<and> max_level' = l then set_counter Max_level (l - 1) else act_return ()))))))))))"

lemma push_down_mono [partial_function_mono]:
  fixes R :: "('x \<Rightarrow> 'y option) \<Rightarrow> 't \<Rightarrow> nat \<Rightarrow> ('t level_state, unit) act"
  assumes "\<And>t i s. mono_option (\<lambda>f. R f t i s)"
  shows "mono_option (\<lambda>f. push_down ops opt (R f) c t table_id l s)"
  unfolding push_down_def by (intro act_bind_mono act_catch_mono assms option.const_mono)

text \<open>
  A new view of one table. In a component that had none before, \<open>SetPrevViewId\<close> comes before \<open>SaveComponent\<close>; the two
  write different entries of the manifest.
\<close>

definition add_view :: "bytes \<Rightarrow> bytes \<Rightarrow> nat \<Rightarrow> nat list \<Rightarrow> nat \<Rightarrow> ('t level_state, unit) act" where
  "add_view first_key last_key table_id c l =
     act_bind (get_counter Current_view) (\<lambda>view_id.
       act_bind (set_counter Current_view (add64 view_id 1)) (\<lambda>_.
         act_bind (act_lift (lv_put first_key last_key table_id (lv_new view_id))) (\<lambda>v.
           act_bind (get_counter Current_table) (\<lambda>n.
             act_bind (set_counter Prev_table n) (\<lambda>_.
               act_bind (save_view view_id v) (\<lambda>_.
                 act_bind (act_modify (put_component l (lc_put view_id c))) (\<lambda>_.
                   act_bind (save_component l (lc_put view_id c)) (\<lambda>_.
                     set_counter Prev_view (add64 view_id 1)))))))))"

text \<open>
  \<open>AddToComponent\<close>. A component is full when it has \<open>lo_max_tables\<close> tables, or \<open>lo_max_views\<close> views of which the last
  one does not take the table.
\<close>

partial_function (option) add_to_component ::
  "'t table_ops \<Rightarrow> level_option \<Rightarrow> 't \<Rightarrow> nat \<Rightarrow> nat \<Rightarrow> 't level_state \<Rightarrow> ((exn + unit) \<times> 't level_state) option" where
  "add_to_component ops opt t table_id l s =
     act_bind (get_component l) (\<lambda>c.
       act_bind (get_counter Max_level) (\<lambda>level.
         if to_empty ops t then
           act_bind (get_counter Current_table) (\<lambda>n.
             act_bind (set_counter Prev_table n) (\<lambda>_.
               if level = l \<and> c = [] then set_counter Max_level (sub64 level 1) else act_return ()))
         else
           act_bind (if level < l then set_counter Max_level l else act_return ()) (\<lambda>_.
             act_bind (act_lift (to_ends ops t)) (\<lambda>(first_key, last_key).
               if c = [] then add_view first_key last_key table_id c l
               else
                 act_bind (get_table_count (lo_cmp opt) c) (\<lambda>n.
                   if lo_max_tables opt \<noteq> 0 \<and> n = lo_max_tables opt then
                     push_down ops opt (\<lambda>t' i s'. add_to_component ops opt t' i (l + 1) s') c t table_id l
                   else
                     act_bind (get_view (lo_cmp opt) (last c)) (\<lambda>v.
                       let (r, v') = lv_try_put first_key last_key table_id v in
                         act_bind (act_modify (put_view (last c) v')) (\<lambda>_.
                           if \<not> r then
                             (if lo_max_views opt \<noteq> 0 \<and> length c = lo_max_views opt then
                                push_down ops opt (\<lambda>t' i s'. add_to_component ops opt t' i (l + 1) s') c t table_id l
                              else add_view first_key last_key table_id c l)
                           else
                             act_bind (get_counter Current_table) (\<lambda>m.
                               act_bind (set_counter Prev_table m) (\<lambda>_. save_view (last c) v')))))))))
     s"

section \<open>Dumping the immutable memory tables\<close>

text \<open>The entries of the tables in one map, the newest table first: an entry that is there is kept.\<close>

definition merge_imms :: "comparator \<Rightarrow> mem_table list \<Rightarrow> wal_item list" where
  "merge_imms cmp ms = fold (mm_emplace cmp) (concat (map mm_entries (rev ms))) []"

definition build_table :: "'t table_ops \<Rightarrow> nat \<Rightarrow> wal_item list \<Rightarrow> ('t level_state, 't) act" where
  "build_table ops i kvs s = (case to_build ops i kvs of (r, data) \<Rightarrow> Some (r, write_table i data s))"

definition remove_logs :: "nat \<Rightarrow> nat \<Rightarrow> 't level_state \<Rightarrow> 't level_state" where
  "remove_logs b e s = s\<lparr>ls_logs := (\<lambda>i. if b \<le> i \<and> i < e then None else ls_logs s i)\<rparr>"

definition dump_imms :: "'t table_ops \<Rightarrow> level_option \<Rightarrow> ('t level_state, unit) act" where
  "dump_imms ops opt s0 =
     act_bind (get_counter Current_table) (\<lambda>i.
       act_bind (set_counter Current_table (add64 i 1)) (\<lambda>_.
         act_bind (create_table i) (\<lambda>_.
           act_bind (build_table ops i (merge_imms (lo_cmp opt) (ls_imms s0))) (\<lambda>t.
             act_bind (act_catch (add_to_component ops opt t i 0) (put_counter Current_table i)) (\<lambda>_.
               act_bind (act_modify (\<lambda>s. s\<lparr>ls_imms := []\<rparr>)) (\<lambda>_.
                 act_bind (get_counter Prev_memory) (\<lambda>b.
                   act_bind (get_counter Current_memory) (\<lambda>e.
                     act_bind (act_modify (remove_logs b e)) (\<lambda>_. set_counter Prev_memory e)))))))))
     s0"

section \<open>Writing\<close>

text \<open>The log of the memory table is written first.\<close>

definition mem_action :: "comparator \<Rightarrow> batch \<Rightarrow> ('t level_state, unit) act" where
  "mem_action cmp b s =
     (case ls_mem s of
        None \<Rightarrow> Some (Inl Undefined, s)
      | Some m \<Rightarrow>
          (case bl_log_written b \<lparr>lg_file = (case ls_logs s (mm_id m) of Some w \<Rightarrow> w | None \<Rightarrow> []), lg_offset = mm_offset m\<rparr> of
             Inl e \<Rightarrow> Some (Inl e, s)
           | Inr l \<Rightarrow> Some (Inr (), s\<lparr>ls_logs := (ls_logs s)(mm_id m \<mapsto> lg_file l),
               ls_mem := Some (m\<lparr>mm_offset := lg_offset l, mm_entries := mm_internal_action cmp b (mm_entries m)\<rparr>)\<rparr>)))"

definition make_new_memory_table :: "('t level_state, mem_table) act" where
  "make_new_memory_table =
     act_bind (get_counter Current_memory) (\<lambda>i.
       act_bind (set_counter Current_memory (add64 i 1)) (\<lambda>_. \<lambda>s.
         if ls_logs s (add64 i 1) \<noteq> None then Some (Inl System_error, s)
         else Some (Inr \<lparr>mm_id = add64 i 1, mm_offset = 0, mm_entries = []\<rparr>,
           s\<lparr>ls_logs := (ls_logs s)(add64 i 1 \<mapsto> [])\<rparr>)))"

definition batch_size :: "batch \<Rightarrow> nat" where
  "batch_size b = sum_list (map (\<lambda>a. length (act_key a) + (if act_type a = Put then length (act_value a) else 0)) b)"

text \<open>The memory table becomes immutable; the pointer is null until there is a new one.\<close>

definition rotate :: "'t table_ops \<Rightarrow> level_option \<Rightarrow> mem_table \<Rightarrow> ('t level_state, unit) act" where
  "rotate ops opt m =
     act_bind (act_modify (\<lambda>s. s\<lparr>ls_used := 0, ls_mem := None\<rparr>)) (\<lambda>_.
       act_bind make_new_memory_table (\<lambda>m'. \<lambda>s.
         let s' = s\<lparr>ls_mem := Some m', ls_imms := ls_imms s @ [m]\<rparr> in
           if length (ls_imms s') = lo_max_imms opt then dump_imms ops opt s' else Some (Inr (), s')))"

definition level_action :: "'t table_ops \<Rightarrow> level_option \<Rightarrow> batch \<Rightarrow> ('t level_state, unit) act" where
  "level_action ops opt b =
     act_bind (mem_action (lo_cmp opt) b) (\<lambda>_. \<lambda>s.
       let s' = s\<lparr>ls_used := add64 (ls_used s) (batch_size b)\<rparr> in
         case ls_mem s' of
           None \<Rightarrow> Some (Inl Undefined, s')
         | Some m \<Rightarrow> if ls_used s' > lo_max_mem opt then rotate ops opt m s' else Some (Inr (), s'))"

definition level_put :: "'t table_ops \<Rightarrow> level_option \<Rightarrow> bytes \<Rightarrow> bytes \<Rightarrow> ('t level_state, unit) act" where
  "level_put ops opt key value = level_action ops opt (wb_put key value [])"

definition level_delete :: "'t table_ops \<Rightarrow> level_option \<Rightarrow> bytes \<Rightarrow> ('t level_state, unit) act" where
  "level_delete ops opt key = level_action ops opt (wb_delete key [])"

section \<open>Reading\<close>

text \<open>The memory table and then the immutable ones, the newest first: the first that knows the key, also as deleted.\<close>

fun search_mems :: "comparator \<Rightarrow> bytes \<Rightarrow> mem_table list \<Rightarrow> exn + bytes option option" where
  "search_mems cmp key [] = Inr None"
| "search_mems cmp key (m # ms) =
     (case mm_exist cmp key m of
        Exist \<Rightarrow> res_bind (mm_get cmp key m) (\<lambda>v. Inr (Some (Some v)))
      | Deleted \<Rightarrow> Inr (Some None)
      | Not_exist \<Rightarrow> search_mems cmp key ms)"

fun exist_mems :: "comparator \<Rightarrow> bytes \<Rightarrow> mem_table list \<Rightarrow> exist_status" where
  "exist_mems cmp key [] = Not_exist"
| "exist_mems cmp key (m # ms) =
     (if mm_exist cmp key m = Not_exist then exist_mems cmp key ms else mm_exist cmp key m)"

fun search_views :: "'t table_ops \<Rightarrow> comparator \<Rightarrow> bytes \<Rightarrow> nat list \<Rightarrow> ('t level_state, bytes option) act" where
  "search_views ops cmp key [] = act_return None"
| "search_views ops cmp key (i # is) =
     act_bind (get_view cmp i) (\<lambda>v.
       case lv_find_id v key of
         None \<Rightarrow> search_views ops cmp key is
       | Some table_id \<Rightarrow>
           act_bind (load_table_cache ops table_id) (\<lambda>t.
             act_bind (act_lift (to_get ops key t)) (\<lambda>r.
               case r of None \<Rightarrow> search_views ops cmp key is | Some val \<Rightarrow> act_return (Some val))))"

fun search_levels :: "'t table_ops \<Rightarrow> comparator \<Rightarrow> bytes \<Rightarrow> nat list \<Rightarrow> ('t level_state, bytes option) act" where
  "search_levels ops cmp key [] = act_return None"
| "search_levels ops cmp key (l # ls) =
     act_bind (get_component l) (\<lambda>c.
       act_bind (search_views ops cmp key (rev c)) (\<lambda>r.
         case r of None \<Rightarrow> search_levels ops cmp key ls | Some val \<Rightarrow> act_return (Some val)))"

definition search_components :: "'t table_ops \<Rightarrow> level_option \<Rightarrow> bytes \<Rightarrow> ('t level_state, bytes option) act" where
  "search_components ops opt key =
     act_bind (get_counter Max_level) (\<lambda>n. search_levels ops (lo_cmp opt) key [0..<add64 n 1])"

definition level_try_get :: "'t table_ops \<Rightarrow> level_option \<Rightarrow> bytes \<Rightarrow> ('t level_state, bytes option) act" where
  "level_try_get ops opt key s =
     (case ls_mem s of
        None \<Rightarrow> Some (Inl Undefined, s)
      | Some m \<Rightarrow>
          act_bind (act_lift (search_mems (lo_cmp opt) key (m # rev (ls_imms s)))) (\<lambda>r.
            case r of
              Some v \<Rightarrow> act_return v
            | None \<Rightarrow> act_bind (search_components ops opt key) (\<lambda>r'.
                act_return (case r' of None \<Rightarrow> None | Some val \<Rightarrow> if val = [] then None else Some val)))
          s)"

definition level_exist :: "'t table_ops \<Rightarrow> level_option \<Rightarrow> bytes \<Rightarrow> ('t level_state, exist_status) act" where
  "level_exist ops opt key s =
     (case ls_mem s of
        None \<Rightarrow> Some (Inl Undefined, s)
      | Some m \<Rightarrow>
          (let e = exist_mems (lo_cmp opt) key (m # rev (ls_imms s)) in
             if e \<noteq> Not_exist then Some (Inr e, s)
             else act_bind (search_components ops opt key) (\<lambda>r'.
               act_return (case r' of None \<Rightarrow> Not_exist | Some val \<Rightarrow> if val = [] then Deleted else Exist)) s))"

definition level_get :: "'t table_ops \<Rightarrow> level_option \<Rightarrow> bytes \<Rightarrow> ('t level_state, bytes) act" where
  "level_get ops opt key =
     act_bind (level_try_get ops opt key) (\<lambda>r. case r of None \<Rightarrow> act_lift (Inl Out_of_range) | Some v \<Rightarrow> act_return v)"

section \<open>The size of the table\<close>

definition entry_bytes :: "wal_item list \<Rightarrow> nat" where
  "entry_bytes kvs = sum_list (map wal_size kvs)"

text \<open>The size of the file, whether the table is in the cache or not.\<close>

definition table_bytes :: "nat \<Rightarrow> ('t level_state, nat) act" where
  "table_bytes i =
     act_bind (load_table_from_cache i) (\<lambda>_. \<lambda>s.
       Some (Inr (case ls_tables s i of None \<Rightarrow> 0 | Some w \<Rightarrow> length w), s))"

definition view_bytes :: "comparator \<Rightarrow> nat \<Rightarrow> ('t level_state, nat) act" where
  "view_bytes cmp i =
     act_bind (get_view cmp i) (\<lambda>v.
       act_bind (act_each table_bytes (map li_id (lv_items v))) (\<lambda>ns. act_return (sum_list ns)))"

definition component_bytes :: "comparator \<Rightarrow> nat \<Rightarrow> ('t level_state, nat) act" where
  "component_bytes cmp l =
     act_bind (get_component l) (\<lambda>c. act_bind (act_each (view_bytes cmp) (rev c)) (\<lambda>ns. act_return (sum_list ns)))"

definition get_table_size :: "level_option \<Rightarrow> ('t level_state, nat) act" where
  "get_table_size opt =
     act_bind (get_counter Max_level) (\<lambda>n.
       act_bind (act_each (component_bytes (lo_cmp opt)) [0..<add64 n 1]) (\<lambda>ns. \<lambda>s.
         Some (Inr (ls_used s + sum_list (map (entry_bytes \<circ> mm_entries) (rev (ls_imms s))) + sum_list ns), s)))"

section \<open>Opening the table\<close>

text \<open>\<open>InitManifest\<close> restores the manifest, which the state already stands for, and starts the counters of a new one.\<close>

definition init_manifest :: "'t level_state \<Rightarrow> 't level_state" where
  "init_manifest s =
     (if ls_manifest s \<noteq> Map.empty then s
      else fold (\<lambda>c. put_counter c 0)
        [Current_table, Current_view, Current_memory, Max_level, Prev_memory, Prev_table, Prev_view] s)"

text \<open>A memory table with the batches of its log, which is created when it is missing.\<close>

definition open_mem :: "comparator \<Rightarrow> nat \<Rightarrow> ('t level_state, mem_table) act" where
  "open_mem cmp i s =
     (let data = (case ls_logs s i of Some w \<Rightarrow> w | None \<Rightarrow> []) in
        case bl_get_write_batchs (bl_open data) of
          Inl e \<Rightarrow> Some (Inl e, s\<lparr>ls_logs := (ls_logs s)(i \<mapsto> data)\<rparr>)
        | Inr (bs, l) \<Rightarrow>
            Some (Inr \<lparr>mm_id = i, mm_offset = lg_offset l, mm_entries = fold (mm_internal_action cmp) bs []\<rparr>,
              s\<lparr>ls_logs := (ls_logs s)(i \<mapsto> lg_file l)\<rparr>))"

definition init_memory_table :: "comparator \<Rightarrow> ('t level_state, unit) act" where
  "init_memory_table cmp =
     act_bind (get_counter Current_memory) (\<lambda>i.
       act_bind (open_mem cmp i) (\<lambda>m. act_modify (\<lambda>s. s\<lparr>ls_mem := Some m\<rparr>)))"

definition init_immutable_tables :: "'t table_ops \<Rightarrow> level_option \<Rightarrow> ('t level_state, unit) act" where
  "init_immutable_tables ops opt =
     act_bind (get_counter Prev_memory) (\<lambda>b.
       act_bind (get_counter Current_memory) (\<lambda>e.
         act_bind (act_each (open_mem (lo_cmp opt)) [b..<e]) (\<lambda>ms. \<lambda>s.
           let s' = s\<lparr>ls_imms := ls_imms s @ ms\<rparr> in
             if length (ls_imms s') \<ge> lo_max_imms opt then dump_imms ops opt s' else Some (Inr (), s'))))"

definition init_used :: "'t level_state \<Rightarrow> 't level_state" where
  "init_used s = s\<lparr>ls_used := (case ls_mem s of Some m \<Rightarrow> sum_list (map wal_size (mm_entries m)) mod 2 ^ 64 | None \<Rightarrow> 0)\<rparr>"

text \<open>Views that were added but not recorded as complete are removed from the manifest.\<close>

definition gc_views :: "('t level_state, unit) act" where
  "gc_views =
     act_bind (get_counter Prev_view) (\<lambda>b.
       act_bind (get_counter Current_view) (\<lambda>e.
         if b = e then act_return ()
         else act_bind (act_modify (fold (\<lambda>i. manifest_delete (view_key i)) (rev [b..<e]))) (\<lambda>_. set_counter Current_view b)))"

text \<open>
  \<open>GcTables\<close> removes the tables after \<open>b\<close> and up to \<open>e\<close> from the views and the views that are empty then from their
  components, lowers the top level to one that is not empty, and deletes the files from \<open>b\<close> on.
\<close>

definition gc_view :: "comparator \<Rightarrow> nat \<Rightarrow> nat \<Rightarrow> nat \<Rightarrow> ('t level_state, bool) act" where
  "gc_view cmp b e i =
     act_bind (get_view cmp i) (\<lambda>v.
       let ids = filter (\<lambda>j. b < j \<and> j \<le> e) (map li_id (lv_items v)) in
         if length ids = length (lv_items v) then act_return True
         else if ids = [] then act_return False
         else
           (let v' = fold lv_delete ids v in
              act_bind (act_modify (put_view i v')) (\<lambda>_. act_bind (save_view i v') (\<lambda>_. act_return False))))"

definition gc_component :: "comparator \<Rightarrow> nat \<Rightarrow> nat \<Rightarrow> nat \<Rightarrow> ('t level_state, unit) act" where
  "gc_component cmp b e l =
     act_bind (get_component l) (\<lambda>c.
       act_bind (act_each (gc_view cmp b e) c) (\<lambda>rs.
         let is = map fst (filter snd (zip c rs)) in
           if is = [] then act_return ()
           else
             (let c' = fold lc_delete is c in act_bind (act_modify (put_component l c')) (\<lambda>_. save_component l c'))))"

fun top_level :: "nat \<Rightarrow> ('t level_state, nat) act" where
  "top_level 0 = act_return 0"
| "top_level (Suc l) = act_bind (get_component (Suc l)) (\<lambda>c. if c \<noteq> [] then act_return (Suc l) else top_level l)"

definition gc_tables :: "comparator \<Rightarrow> ('t level_state, unit) act" where
  "gc_tables cmp =
     act_bind (get_counter Prev_table) (\<lambda>b.
       act_bind (get_counter Current_table) (\<lambda>e.
         if b = e then act_return ()
         else
           act_bind (get_counter Max_level) (\<lambda>n.
             act_bind (act_each (gc_component cmp b e) [0..<add64 n 1]) (\<lambda>_.
               act_bind (top_level n) (\<lambda>l.
                 act_bind (if l \<noteq> n then set_counter Max_level l else act_return ()) (\<lambda>_.
                   act_bind (act_each delete_table (rev [b..<e])) (\<lambda>_. set_counter Current_table b)))))))"

text \<open>The constructor, on the files it finds.\<close>

definition level_closed :: "nat \<Rightarrow> 't level_state \<Rightarrow> 't level_state" where
  "level_closed cache_size s = s\<lparr>ls_views := Map.empty, ls_components := Map.empty, ls_cache := sc_new cache_size,
     ls_mem := None, ls_imms := [], ls_used := 0\<rparr>"

definition level_open :: "'t table_ops \<Rightarrow> level_option \<Rightarrow> nat \<Rightarrow> ('t level_state, unit) act" where
  "level_open ops opt cache_size =
     act_bind (act_modify (init_manifest \<circ> level_closed cache_size)) (\<lambda>_.
       act_bind (init_memory_table (lo_cmp opt)) (\<lambda>_.
         act_bind (init_immutable_tables ops opt) (\<lambda>_.
           act_bind (act_modify init_used) (\<lambda>_.
             act_bind gc_views (\<lambda>_. gc_tables (lo_cmp opt))))))"

definition empty_disk :: "'t level_state" where
  "empty_disk = \<lparr>ls_manifest = Map.empty, ls_views = Map.empty, ls_components = Map.empty, ls_tables = (\<lambda>_. None),
     ls_logs = (\<lambda>_. None), ls_cache = [], ls_mem = None, ls_imms = [], ls_used = 0\<rparr>"

section \<open>Destroying the table\<close>

definition level_destroy :: "('t level_state, unit) act" where
  "level_destroy =
     act_bind (act_modify (\<lambda>s. s\<lparr>ls_mem := None, ls_imms := [], ls_cache := sc_release (ls_cache s)\<rparr>)) (\<lambda>_.
       act_bind (get_counter Prev_memory) (\<lambda>b.
         act_bind (get_counter Current_memory) (\<lambda>e.
           act_bind (act_modify (remove_logs b (add64 e 1))) (\<lambda>_.
             act_bind (get_counter Current_table) (\<lambda>n.
               act_modify (\<lambda>s. s\<lparr>ls_tables := (\<lambda>i. if i < add64 n 1 then None else ls_tables s i), ls_manifest := Map.empty\<rparr>))))))"

section \<open>Runs\<close>

text \<open>Batches and lookups one after the other; an exception does not end the run, a call that never returns does.\<close>

datatype level_call = Write batch | Read bytes

fun level_calls :: "'t table_ops \<Rightarrow> level_option \<Rightarrow> level_call list \<Rightarrow> 't level_state \<Rightarrow> 't level_state option" where
  "level_calls ops opt [] s = Some s"
| "level_calls ops opt (Write b # cs) s =
     (case level_action ops opt b s of None \<Rightarrow> None | Some (_, s') \<Rightarrow> level_calls ops opt cs s')"
| "level_calls ops opt (Read k # cs) s =
     (case level_try_get ops opt k s of None \<Rightarrow> None | Some (_, s') \<Rightarrow> level_calls ops opt cs s')"

fun writes_of :: "level_call list \<Rightarrow> batch list" where
  "writes_of [] = []"
| "writes_of (Write b # cs) = b # writes_of cs"
| "writes_of (Read k # cs) = writes_of cs"

end
