(* ===== verification/LevelMeta.thy ===== *)
theory LevelMeta
  imports LevelStore
begin

text \<open>
  What the manifest of a level table means: counters, the views of every component and the items of every view, with
  the bytes it keeps for them and the two maps in front of it. Steps are followed on that meaning: from a state that
  shows one, a step that goes well ends in a state that shows the next.
\<close>

section \<open>The meaning of the manifest\<close>

text \<open>Views with numbers from \<open>me_limit\<close> on have not been loaded or saved yet.\<close>

record meta =
  me_counter :: "counter \<Rightarrow> nat"
  me_comp :: "nat \<Rightarrow> nat list"
  me_view :: "nat \<Rightarrow> level_item list option"
  me_limit :: nat

abbreviation view_of :: "nat \<Rightarrow> level_item list \<Rightarrow> level_view" where
  "view_of i its \<equiv> \<lparr>lv_id = i, lv_items = its, lv_cmp = None\<rparr>"

definition meta_ok :: "meta \<Rightarrow> bool" where
  "meta_ok M \<longleftrightarrow> (\<forall>l. length (me_comp M l) \<le> 2 ^ 30 \<and> (\<forall>i\<in>set (me_comp M l). i < 2 ^ 30)) \<and>
     (\<forall>i its. me_view M i = Some its \<longrightarrow> i < me_limit M \<and> length its \<le> 2 ^ 30 \<and> (\<forall>it\<in>set its. li_ok it)) \<and>
     (\<forall>c. me_counter M c < 2 ^ 63) \<and> me_limit M < 2 ^ 63"

definition manifest_shows :: "(bytes \<Rightarrow> bytes option) \<Rightarrow> meta \<Rightarrow> bool" where
  "manifest_shows m M \<longleftrightarrow> (\<forall>c. m (counter_key c) = Some (le_bytes 8 (me_counter M c))) \<and>
     (\<forall>l<2 ^ 63. m (component_key l) = None \<and> me_comp M l = [] \<or> m (component_key l) = Some (lc_enc (me_comp M l))) \<and>
     (\<forall>i<2 ^ 63. m (view_key i) = map_option (\<lambda>its. lv_enc (view_of i its)) (me_view M i))"

text \<open>The views in the map stand for themselves as long as the manifest has them; views that are gone may stay there.\<close>

definition maps_show :: "(nat \<Rightarrow> level_view option) \<Rightarrow> (nat \<Rightarrow> nat list option) \<Rightarrow> meta \<Rightarrow> bool" where
  "maps_show vs cs M \<longleftrightarrow>
     (\<forall>i v. vs i = Some v \<longrightarrow> i < me_limit M \<and> (\<forall>its. me_view M i = Some its \<longrightarrow> v = view_of i its)) \<and>
     (\<forall>l<2 ^ 63. \<forall>c. cs l = Some c \<longrightarrow> c = me_comp M l)"

definition rest_of :: "'t level_state \<Rightarrow> 't level_state" where
  "rest_of s = s\<lparr>ls_manifest := Map.empty, ls_views := Map.empty, ls_components := Map.empty\<rparr>"

text \<open>A state that shows \<open>M\<close> and has \<open>D\<close> besides the manifest and its maps.\<close>

definition shows_at :: "meta \<Rightarrow> 't level_state \<Rightarrow> 't level_state \<Rightarrow> bool" where
  "shows_at M D s \<longleftrightarrow> meta_ok M \<and> manifest_shows (ls_manifest s) M \<and> maps_show (ls_views s) (ls_components s) M \<and> rest_of s = D"

definition goes :: "meta \<Rightarrow> 't level_state \<Rightarrow> ('t level_state, 'a) act \<Rightarrow> exn + 'a \<Rightarrow> meta \<Rightarrow> 't level_state \<Rightarrow> bool" where
  "goes M D m r M' D' \<longleftrightarrow> (\<forall>s. shows_at M D s \<longrightarrow> (\<exists>s'. m s = Some (r, s') \<and> shows_at M' D' s'))"

definition stuck :: "meta \<Rightarrow> 't level_state \<Rightarrow> ('t level_state, 'a) act \<Rightarrow> bool" where
  "stuck M D m \<longleftrightarrow> (\<forall>s. shows_at M D s \<longrightarrow> m s = None)"

lemma goes_bind: "goes M D m (Inr x) M1 D1 \<Longrightarrow> goes M1 D1 (f x) r M2 D2 \<Longrightarrow> goes M D (act_bind m f) r M2 D2"
  unfolding goes_def by (metis act_bind_Some(1))

lemma goes_bind_Inl: "goes M D m (Inl e) M1 D1 \<Longrightarrow> goes M D (act_bind m f) (Inl e) M1 D1"
  unfolding goes_def by (metis act_bind_Some(2))

lemma stuck_bind: "goes M D m (Inr x) M1 D1 \<Longrightarrow> stuck M1 D1 (f x) \<Longrightarrow> stuck M D (act_bind m f)"
  unfolding goes_def stuck_def by (metis act_bind_Some(1))

lemma stuck_bind_first: "stuck M D m \<Longrightarrow> stuck M D (act_bind m f)"
  unfolding stuck_def by (metis act_bind_Some(3))

lemma goes_eq: "goes M D m r M1 D1 \<Longrightarrow> M1 = M2 \<Longrightarrow> D1 = D2 \<Longrightarrow> goes M D m r M2 D2"
  by simp

lemma goes_return: "goes M D (act_return x) (Inr x) M D"
  by (simp add: goes_def)

lemma goes_each_Nil: "goes M D (act_each f []) (Inr []) M D"
  by (simp add: goes_def)

lemma goes_lift: "r = x \<Longrightarrow> goes M D (act_lift r) x M D"
  by (simp add: goes_def)

lemma goes_catch: "goes M D m (Inr x) M1 D1 \<Longrightarrow> goes M D (act_catch m h) (Inr x) M1 D1"
  unfolding goes_def act_catch_def by (metis (no_types, lifting) option.simps(5) prod.case sum.case(2))

lemma goes_catch_Inl:
  assumes "goes M D m (Inl e) M1 D1" and "\<And>s. shows_at M1 D1 s \<Longrightarrow> shows_at M2 D2 (h s)"
  shows "goes M D (act_catch m h) (Inl e) M2 D2"
  unfolding goes_def
proof (intro allI impI)
  fix s
  assume "shows_at M D s"
  then obtain s' where "m s = Some (Inl e, s')" "shows_at M1 D1 s'" using assms(1) by (auto simp: goes_def)
  then show "\<exists>s'. act_catch m h s = Some (Inl e, s') \<and> shows_at M2 D2 s'" using assms(2) by (simp add: act_catch_def)
qed

lemma stuck_catch: "stuck M D m \<Longrightarrow> stuck M D (act_catch m h)"
  by (simp add: stuck_def act_catch_def)

lemma goes_modify: "(\<And>s. shows_at M D s \<Longrightarrow> shows_at M1 D1 (f s)) \<Longrightarrow> goes M D (act_modify f) (Inr ()) M1 D1"
  by (simp add: goes_def)

lemma goes_each:
  assumes "\<And>x. x \<in> set xs \<Longrightarrow> goes M D (f x) (Inr (g x)) M D"
  shows "goes M D (act_each f xs) (Inr (map g xs)) M D"
  using assms
proof (induction xs)
  case (Cons x xs)
  have "goes M D (act_bind (act_each f xs) (\<lambda>ys. act_return (g x # ys))) (Inr (g x # map g xs)) M D"
    using Cons by (intro goes_bind [OF Cons.IH] goes_return) simp_all
  then show ?case using Cons.prems by (auto intro: goes_bind [of M D "f x" "g x"])
qed (simp add: goes_return)

section \<open>The keys of the manifest\<close>

lemma le_bytes_inj: "le_bytes k a = le_bytes k b \<Longrightarrow> a < 256 ^ k \<Longrightarrow> b < 256 ^ k \<Longrightarrow> a = b"
  by (metis le_nat_le_bytes_small)

lemma counter_key_inj [simp]: "counter_key c = counter_key d \<longleftrightarrow> c = d"
  by (cases c; cases d) (simp_all add: counter_key.simps)

lemma manifest_keys [simp]:
  "counter_key c \<noteq> view_key i \<and> counter_key c \<noteq> component_key i \<and> view_key i \<noteq> counter_key c \<and>
   component_key i \<noteq> counter_key c \<and> view_key i \<noteq> component_key j \<and> component_key j \<noteq> view_key i"
  by (cases c) (simp_all add: counter_key.simps view_key_def component_key_def)

lemma manifest_keys_inj:
  "i < 2 ^ 63 \<Longrightarrow> j < 2 ^ 63 \<Longrightarrow> view_key i = view_key j \<longleftrightarrow> i = j"
  "i < 2 ^ 63 \<Longrightarrow> j < 2 ^ 63 \<Longrightarrow> component_key i = component_key j \<longleftrightarrow> i = j"
  using le_bytes_inj [of 8 i j] by (auto simp: view_key_def component_key_def)

section \<open>The sizes of the entries\<close>

lemma venc_le: "n < 2 ^ 31 \<Longrightarrow> length (venc n) \<le> 10"
  using vsize_bound [of n] by (simp add: vsize_def)

lemma li_enc_le:
  assumes "li_ok it"
  shows "length (li_enc it) \<le> 2 ^ 32 + 30"
proof -
  have k: "length (li_begin it) < 2 ^ 31" "length (li_end it) < 2 ^ 31" "li_id it < 2 ^ 31"
    using assms by (simp_all add: li_ok_def)
  show ?thesis
    using k venc_le [OF k(1)] venc_le [OF k(2)] venc_le [OF k(3)] by (simp add: li_enc_def)
qed

lemma length_concat_le: "\<forall>x\<in>set xs. length (f x) \<le> n \<Longrightarrow> length (concat (map f xs)) \<le> length xs * n"
  by (induction xs) auto

lemma lv_enc_le:
  assumes "\<forall>it\<in>set its. li_ok it" and "length its \<le> 2 ^ 30"
  shows "length (lv_enc (view_of i its)) < 2 ^ 63"
proof -
  have "length (concat (map li_enc its)) \<le> length its * (2 ^ 32 + 30)"
    using assms(1) li_enc_le by (intro length_concat_le) blast
  also have "\<dots> \<le> 2 ^ 30 * (2 ^ 32 + 30)" using assms(2) by (intro mult_right_mono) simp_all
  finally have "length (concat (map li_enc its)) \<le> 2 ^ 30 * (2 ^ 32 + 30)" .
  moreover have "length (venc (length its)) \<le> 10" using assms(2) by (intro venc_le) simp
  ultimately show ?thesis by (simp add: lv_enc_def)
qed

lemma lc_enc_le:
  assumes "\<forall>i\<in>set c. i < 2 ^ 30" and "length c \<le> 2 ^ 30"
  shows "length (lc_enc c) < 2 ^ 63"
proof -
  have "length (concat (map venc c)) \<le> length c * 10"
    using assms(1) venc_le by (intro length_concat_le) force
  moreover have "length (venc (length c)) \<le> 10" using assms(2) by (intro venc_le) simp
  ultimately show ?thesis using assms(2) by (simp add: lc_enc_def)
qed

lemma store_new_buffer:
  assumes "length w < 2 ^ 63" and "need = Inr (length w)"
  shows "store_extending need (Inr w) [] 0 = Inr w"
  using store_extending_fits [of need w 0 "[]"] assms by simp

section \<open>The small operations\<close>

lemma goes_get_counter: "goes M D (get_counter c) (Inr (me_counter M c)) M D"
  unfolding goes_def
proof (intro allI impI)
  fix s
  assume s: "shows_at M D s"
  then have "ls_manifest s (counter_key c) = Some (le_bytes 8 (me_counter M c))" "me_counter M c < 2 ^ 63"
    by (simp_all add: shows_at_def manifest_shows_def meta_ok_def)
  moreover from this(2) have "me_counter M c < 256 ^ 8" by simp
  then have "le_nat (le_bytes 8 (me_counter M c)) = me_counter M c" by (rule le_nat_le_bytes_small)
  ultimately show "\<exists>s'. get_counter c s = Some (Inr (me_counter M c), s') \<and> shows_at M D s'"
    using s by (simp add: get_counter_def)
qed

abbreviation with_counter :: "counter \<Rightarrow> nat \<Rightarrow> meta \<Rightarrow> meta" where
  "with_counter c n M \<equiv> M\<lparr>me_counter := (me_counter M)(c := n)\<rparr>"

lemma shows_put_counter:
  assumes "shows_at M D s" and "n < 2 ^ 63"
  shows "shows_at (with_counter c n M) D (put_counter c n s)"
  using assms
  by (simp add: shows_at_def manifest_shows_def maps_show_def meta_ok_def put_counter_def manifest_put_def rest_of_def)

lemma goes_set_counter: "n < 2 ^ 63 \<Longrightarrow> goes M D (set_counter c n) (Inr ()) (with_counter c n M) D"
  by (intro goes_modify shows_put_counter)

lemma goes_get_view:
  assumes "me_view M i = Some its"
  shows "goes M D (get_view None i) (Inr (view_of i its)) M D"
  unfolding goes_def
proof (intro allI impI)
  fix s
  assume s: "shows_at M D s"
  then have ok: "i < me_limit M" "length its \<le> 2 ^ 30" "\<forall>it\<in>set its. li_ok it"
    and "me_limit M < 2 ^ 63" using assms by (auto simp: shows_at_def meta_ok_def)
  then have i: "i < 2 ^ 63" by linarith
  show "\<exists>s'. get_view None i s = Some (Inr (view_of i its), s') \<and> shows_at M D s'"
  proof (cases "ls_views s i")
    case (Some v)
    then have "v = view_of i its" using s assms by (auto simp: shows_at_def maps_show_def)
    then show ?thesis using Some s by (simp add: get_view_def)
  next
    case None
    have "ls_manifest s (view_key i) = Some (lv_enc (view_of i its))"
      using s assms i by (simp add: shows_at_def manifest_shows_def)
    moreover have "lv_load (lv_enc (view_of i its)) ((lv_new i)\<lparr>lv_cmp := None\<rparr>) = Inr (length (lv_enc (view_of i its)), view_of i its)"
      using lv_load_enc [of "view_of i its" "[]" "(lv_new i)\<lparr>lv_cmp := None\<rparr>"] ok(2,3) lv_enc_le [OF ok(3,2)] by (simp add: lv_new_def)
    moreover have "shows_at M D (put_view i (view_of i its) s)"
      using s assms ok(1) by (auto simp: shows_at_def maps_show_def put_view_def rest_of_def)
    ultimately show ?thesis using None by (simp add: get_view_def Let_def)
  qed
qed

lemma goes_get_component:
  assumes "l < 2 ^ 63"
  shows "goes M D (get_component l) (Inr (me_comp M l)) M D"
  unfolding goes_def
proof (intro allI impI)
  fix s
  assume s: "shows_at M D s"
  have put: "shows_at M D (put_component l (me_comp M l) s)"
    using s by (auto simp: shows_at_def maps_show_def put_component_def rest_of_def)
  show "\<exists>s'. get_component l s = Some (Inr (me_comp M l), s') \<and> shows_at M D s'"
  proof (cases "ls_components s l")
    case (Some c)
    then have "c = me_comp M l" using s assms by (auto simp: shows_at_def maps_show_def)
    then show ?thesis using Some s by (simp add: get_component_def)
  next
    case None
    have e: "ls_manifest s (component_key l) = None \<and> me_comp M l = [] \<or>
        ls_manifest s (component_key l) = Some (lc_enc (me_comp M l))"
      using s assms by (simp add: shows_at_def manifest_shows_def)
    have "\<forall>i\<in>set (me_comp M l). i < 2 ^ 30" "length (me_comp M l) \<le> 2 ^ 30"
      using s by (simp_all add: shows_at_def meta_ok_def)
    then have ok: "\<forall>i\<in>set (me_comp M l). i < 2 ^ 31" "length (me_comp M l) < 2 ^ 31" by fastforce+
    have "lc_load (lc_enc (me_comp M l)) [] = Inr (length (lc_enc (me_comp M l)), me_comp M l)"
      using lc_load_enc [OF ok, of "[]" "[]"] by simp
    then show ?thesis using None e put by (auto simp: get_component_def split: option.splits)
  qed
qed


lemma act_bind_assoc: "act_bind m (\<lambda>x. act_bind (f x) g) = act_bind (act_bind m f) g"
  by (intro ext) (simp add: act_bind_def split: option.split sum.split prod.split)

section \<open>Changing components and views\<close>

lemma save_component_enc:
  assumes "\<forall>i\<in>set c. i < 2 ^ 30" and "length c \<le> 2 ^ 30"
  shows "save_component l c s = Some (Inr (), manifest_put (component_key l) (lc_enc c) s)"
proof -
  have ok: "\<forall>i\<in>set c. i < 2 ^ 31" "length c < 2 ^ 31" using assms by fastforce+
  have "lc_store_to_buffer c [] 0 = Inr (lc_enc c)"
    using store_new_buffer [OF lc_enc_le [OF assms]] lc_store_enc [OF ok]
    by (simp add: lc_store_to_buffer_def lc_compute_size_def)
  then show ?thesis by (simp add: save_component_def)
qed

lemma goes_put_save_component:
  assumes "l < 2 ^ 63" and "\<forall>i\<in>set c. i < 2 ^ 30" and "length c \<le> 2 ^ 30"
  shows "goes M D (act_bind (act_modify (put_component l c)) (\<lambda>_. save_component l c)) (Inr ())
    (M\<lparr>me_comp := (me_comp M)(l := c)\<rparr>) D"
  unfolding goes_def
proof (intro allI impI)
  fix s
  assume s: "shows_at M D s"
  let ?s = "manifest_put (component_key l) (lc_enc c) (put_component l c s)"
  have "shows_at (M\<lparr>me_comp := (me_comp M)(l := c)\<rparr>) D ?s"
    using s assms manifest_keys_inj(2) [of _ l]
    by (simp add: shows_at_def manifest_shows_def maps_show_def meta_ok_def manifest_put_def put_component_def rest_of_def)
  then show "\<exists>s'. act_bind (act_modify (put_component l c)) (\<lambda>_. save_component l c) s = Some (Inr (), s') \<and>
      shows_at (M\<lparr>me_comp := (me_comp M)(l := c)\<rparr>) D s'"
    by (simp add: save_component_enc [OF assms(2,3)])
qed

lemma goes_put_save_component_then:
  assumes "l < 2 ^ 63" and "\<forall>i\<in>set c. i < 2 ^ 30" and "length c \<le> 2 ^ 30"
    and "goes (M\<lparr>me_comp := (me_comp M)(l := c)\<rparr>) D (f ()) r M2 D2"
  shows "goes M D (act_bind (act_modify (put_component l c)) (\<lambda>_. act_bind (save_component l c) f)) r M2 D2"
  unfolding act_bind_assoc
  by (rule goes_bind [where x = "()", OF goes_put_save_component [OF assms(1-3)]]) (rule assms(4))

lemma save_view_enc:
  assumes "\<forall>it\<in>set its. li_ok it" and "length its \<le> 2 ^ 30"
  shows "save_view i (view_of j its) s = Some (Inr (), manifest_put (view_key i) (lv_enc (view_of i its)) s)"
proof -
  have "length (lv_items (view_of j its)) < 2 ^ 31" using assms(2) by simp
  then have "lv_store_to_buffer (view_of j its) [] 0 = Inr (lv_enc (view_of j its))"
    using store_new_buffer [OF lv_enc_le [OF assms]] lv_store_enc [of "view_of j its"] assms(1)
    by (simp add: lv_store_to_buffer_def)
  moreover have "lv_enc (view_of j its) = lv_enc (view_of i its)" by (simp add: lv_enc_def)
  ultimately show ?thesis by (simp add: save_view_def)
qed

lemma goes_save_new_view:
  assumes "me_limit M \<le> i" and "i < 2 ^ 62" and "\<forall>it\<in>set its. li_ok it" and "length its \<le> 2 ^ 30"
  shows "goes M D (save_view i (view_of j its)) (Inr ()) (M\<lparr>me_view := (me_view M)(i \<mapsto> its), me_limit := Suc i\<rparr>) D"
  unfolding goes_def
proof (intro allI impI)
  fix s
  assume s: "shows_at M D s"
  let ?M = "M\<lparr>me_view := (me_view M)(i \<mapsto> its), me_limit := Suc i\<rparr>"
  have "meta_ok ?M" using s assms by (fastforce simp: shows_at_def meta_ok_def)
  moreover have "manifest_shows (ls_manifest (manifest_put (view_key i) (lv_enc (view_of i its)) s)) ?M"
    using s assms(2) manifest_keys_inj(1) [of _ i] by (simp add: shows_at_def manifest_shows_def manifest_put_def)
  moreover have "maps_show (ls_views s) (ls_components s) ?M"
    using s assms(1) by (fastforce simp: shows_at_def maps_show_def)
  ultimately have "shows_at ?M D (manifest_put (view_key i) (lv_enc (view_of i its)) s)"
    using s by (simp add: shows_at_def manifest_put_def rest_of_def)
  then show "\<exists>s'. save_view i (view_of j its) s = Some (Inr (), s') \<and> shows_at ?M D s'"
    by (simp add: save_view_enc [OF assms(3,4)])
qed

text \<open>A view changed in place, with the counter that \<open>AddToComponent\<close> sets before it saves the view.\<close>

lemma goes_change_view:
  assumes "me_view M i = Some its" and "\<forall>it\<in>set its'. li_ok it" and "length its' \<le> 2 ^ 30"
  shows "goes M D (act_bind (act_modify (put_view i (view_of i its'))) (\<lambda>_. act_bind (get_counter Current_table) (\<lambda>m.
      act_bind (set_counter Prev_table m) (\<lambda>_. save_view i (view_of i its'))))) (Inr ())
    ((with_counter Prev_table (me_counter M Current_table) M)\<lparr>me_view := (me_view M)(i \<mapsto> its')\<rparr>) D"
  unfolding goes_def
proof (intro allI impI)
  fix s
  assume s: "shows_at M D s"
  let ?n = "me_counter M Current_table"
  let ?M = "(with_counter Prev_table ?n M)\<lparr>me_view := (me_view M)(i \<mapsto> its')\<rparr>"
  let ?s = "put_counter Prev_table ?n (put_view i (view_of i its') s)"
  have i: "i < me_limit M" "me_limit M < 2 ^ 63" using s assms(1) by (auto simp: shows_at_def meta_ok_def)
  then have j: "i < 2 ^ 63" by linarith
  have "get_counter Current_table s = Some (Inr ?n, s) \<or> (\<exists>s'. get_counter Current_table s = Some (Inr ?n, s'))"
    using goes_get_counter [of M D Current_table] s by (auto simp: goes_def)
  then have "get_counter Current_table (put_view i (view_of i its') s) = Some (Inr ?n, put_view i (view_of i its') s)"
    by (auto simp: get_counter_def put_view_def split: option.splits)
  moreover have "shows_at ?M D (manifest_put (view_key i) (lv_enc (view_of i its')) ?s)"
    using s assms i j manifest_keys_inj(1) [OF _ j]
    by (simp add: shows_at_def manifest_shows_def maps_show_def meta_ok_def manifest_put_def put_counter_def put_view_def rest_of_def)
  ultimately show "\<exists>s'. act_bind (act_modify (put_view i (view_of i its'))) (\<lambda>_. act_bind (get_counter Current_table) (\<lambda>m.
      act_bind (set_counter Prev_table m) (\<lambda>_. save_view i (view_of i its')))) s = Some (Inr (), s') \<and> shows_at ?M D s'"
    by (simp add: act_bind_Some(1) save_view_enc [OF assms(2,3)])
qed

lemma goes_same_view:
  assumes "me_view M i = Some its"
  shows "goes M D (act_modify (put_view i (view_of i its))) (Inr ()) M D"
  using assms by (intro goes_modify) (auto simp: shows_at_def maps_show_def put_view_def rest_of_def meta_ok_def)

lemma goes_delete_view_entry:
  assumes "i < 2 ^ 63"
  shows "goes M D (act_modify (manifest_delete (view_key i))) (Inr ()) (M\<lparr>me_view := (me_view M)(i := None)\<rparr>) D"
  using assms manifest_keys_inj(1) [of _ i]
  by (intro goes_modify)
    (auto simp: shows_at_def manifest_shows_def maps_show_def meta_ok_def manifest_delete_def rest_of_def)

section \<open>Steps on the files and the cache\<close>

text \<open>A step that only looks at and changes what is besides the manifest.\<close>

lemma goes_upd:
  assumes "\<And>s. rest_of s = D \<Longrightarrow> m s = Some (r, f s)" and "\<And>s. rest_of (f s) = f (rest_of s)"
    and "\<And>s. ls_manifest (f s) = ls_manifest s \<and> ls_views (f s) = ls_views s \<and> ls_components (f s) = ls_components s"
  shows "goes M D m r M (f D)"
  using assms by (auto simp: goes_def shows_at_def)

lemma rest_of_sel [simp]:
  "ls_tables (rest_of s) = ls_tables s" "ls_logs (rest_of s) = ls_logs s" "ls_cache (rest_of s) = ls_cache s"
  "ls_mem (rest_of s) = ls_mem s" "ls_imms (rest_of s) = ls_imms s" "ls_used (rest_of s) = ls_used s"
  by (simp_all add: rest_of_def)

lemma goes_create_table:
  "ls_tables D i = None \<Longrightarrow> goes M D (create_table i) (Inr ()) M (D\<lparr>ls_tables := (ls_tables D)(i \<mapsto> [])\<rparr>)"
  "ls_tables D i \<noteq> None \<Longrightarrow> goes M D (create_table i) (Inl System_error) M D"
proof -
  assume "ls_tables D i = None"
  then have "goes M D (create_table i) (Inr ()) M ((\<lambda>s. s\<lparr>ls_tables := (ls_tables D)(i \<mapsto> [])\<rparr>) D)"
    by (intro goes_upd) (auto simp: create_table_def rest_of_def fun_upd_def)
  then show "goes M D (create_table i) (Inr ()) M (D\<lparr>ls_tables := (ls_tables D)(i \<mapsto> [])\<rparr>)" by simp
next
  assume "ls_tables D i \<noteq> None"
  then have "goes M D (create_table i) (Inl System_error) M ((\<lambda>s. s) D)"
    by (intro goes_upd) (auto simp: create_table_def rest_of_def)
  then show "goes M D (create_table i) (Inl System_error) M D" by simp
qed

lemma goes_load_table:
  assumes "ls_tables D i = Some data"
  shows "goes M D (load_table ops i) (to_open ops data) M D"
proof -
  have "goes M D (load_table ops i) (to_open ops data) M ((\<lambda>s. s) D)"
    using assms by (intro goes_upd) (auto simp: load_table_def Let_def rest_of_def fun_upd_idem)
  then show ?thesis by simp
qed

lemma goes_delete_table:
  assumes "sc_delete (cache_key i) (ls_cache D) = Inr c"
  shows "goes M D (delete_table i) (Inr ()) M (D\<lparr>ls_cache := c, ls_tables := (ls_tables D)(i := None)\<rparr>)"
proof (rule goes_upd [where f = "\<lambda>s. s\<lparr>ls_cache := c, ls_tables := (ls_tables D)(i := None)\<rparr>"])
    fix s
    assume "rest_of s = D"
    then have "ls_cache s = ls_cache D" "ls_tables s = ls_tables D" by auto
    then show "delete_table i s = Some (Inr (), s\<lparr>ls_cache := c, ls_tables := (ls_tables D)(i := None)\<rparr>)"
      using assms by (simp add: delete_table_def delete_table_from_cache_def act_bind_def)
qed (simp_all add: rest_of_def)

lemma goes_write_table: "goes M D (\<lambda>s. Some (r, write_table i data s)) r M (D\<lparr>ls_tables := (ls_tables D)(i \<mapsto> data)\<rparr>)"
proof -
  have "goes M D (\<lambda>s. Some (r, write_table i data s)) r M ((\<lambda>s. s\<lparr>ls_tables := (ls_tables D)(i \<mapsto> data)\<rparr>) D)"
    by (intro goes_upd) (auto simp: write_table_def rest_of_def fun_upd_def)
  then show ?thesis by simp
qed

end
