(* ===== verification/LevelInvariant.thy ===== *)
theory LevelInvariant
  imports LevelTable LevelMeta SstMerge
begin

text \<open>
  The level table refines one memory table: the invariant of its components, views, files and cache, the contract of
  the tables it is built on (the locale \<open>table_service\<close>), and what every step does to the entries it stands for.
\<close>

section \<open>Deleting from the cache\<close>

lemma cc_delete_law:
  assumes "cc_valid c" and "\<forall>l b. cc_holds c l b \<longrightarrow> key_fits k l"
  shows "\<exists>d. cc_delete k c = Inr d \<and> cc_valid d \<and> (\<forall>l b. cc_holds d l b \<longrightarrow> cc_holds c l b)"
proof -
  obtain i where i: "cc_find k (cc_buf c) = Inr i"
    using assms(2) cc_find_total [of "cc_buf c" k] by (auto simp: cc_holds_def)
  let ?x = "(cc_buf c ! i)\<lparr>ci_chances := 0, ci_obj := None\<rparr>"
  have "x \<in> set (cc_buf c)" if "x \<in> set ((cc_buf c)[i := ?x])" "ci_obj x = Some b" for x b
    using that set_update_subset_insert [of "cc_buf c" i ?x] by auto
  then show ?thesis using i assms(1) by (auto simp: cc_delete_def cc_valid_def cc_holds_def)
qed

lemma sc_delete_law:
  assumes "sc_valid s" and "\<forall>l b. sc_holds s l b \<longrightarrow> key_fits k l"
  shows "\<exists>t. sc_delete k s = Inr t \<and> sc_valid t \<and> (\<forall>l b. sc_holds t l b \<longrightarrow> sc_holds s l b)"
proof -
  have i: "s ! sc_hash k s \<in> set s" using assms(1) sc_hash_less [of s k] by (auto simp: sc_valid_def)
  then have v: "cc_valid (s ! sc_hash k s)" "\<forall>l b. cc_holds (s ! sc_hash k s) l b \<longrightarrow> key_fits k l"
    using assms by (auto simp: sc_valid_def sc_holds_def)
  from cc_delete_law [OF v] obtain d where d: "cc_delete k (s ! sc_hash k s) = Inr d" "cc_valid d"
    "\<forall>l b. cc_holds d l b \<longrightarrow> cc_holds (s ! sc_hash k s) l b" by (elim exE conjE)
  then show ?thesis
    using assms(1) i set_update_subset_insert [of s "sc_hash k s" d]
    by (fastforce simp: sc_delete_def sc_valid_def sc_holds_def Let_def)
qed

section \<open>Ascending lists\<close>

text \<open>Every list has an ascending one with the same map; the entries of several lists are those of one.\<close>

lemma bytes_key_order: "key_order bytes_less"
proof -
  have "key_less None = bytes_less" by (intro ext) (rule key_less_None)
  then show ?thesis using good_comparatorD(1) [OF good_comparator_None] by simp
qed

lemma ascending_exists: "\<exists>R. keys_ascend R \<and> map_of R = map_of (L :: (bytes \<times> 'a) list)"
proof (induction L)
  case (Cons p L)
  then obtain R where R: "keys_ascend R" "map_of R = map_of L" by blast
  have R': "assoc fst snd R = map_of R" by (rule assoc_map_of)
  show ?case
  proof (cases "fst p \<in> fst ` set R")
    case True
    let ?i = "lower_bound (\<lambda>x. bytes_less (fst x) (fst p)) R"
    have "?i < length R \<and> fst (R ! ?i) = fst p"
      using key_order.find_key_hit [OF bytes_key_order R(1)] True by blast
    then have "keys_ascend (R[?i := p]) \<and> map_of (R[?i := p]) = (map_of R)(fst p \<mapsto> snd p)"
      using key_order.replace_sorted(1) [OF bytes_key_order R(1), of p]
        key_order.replace_sorted(2) [OF bytes_key_order R(1), of p snd] by (simp add: assoc_map_of)
    then show ?thesis using R(2) by (intro exI [of _ "R[?i := p]"]) simp
  next
    case False
    let ?R = "insert_at (lower_bound (\<lambda>x. bytes_less (fst x) (fst p)) R) p R"
    have "keys_ascend ?R \<and> map_of ?R = (map_of R)(fst p \<mapsto> snd p)"
      using key_order.insert_sorted(1) [OF bytes_key_order R(1) False]
        key_order.insert_sorted(2) [OF bytes_key_order R(1) False, of snd] by (simp add: assoc_map_of)
    then show ?thesis using R(2) by (intro exI [of _ ?R]) simp
  qed
qed simp

lemma merged_concat: "merged Ls = map_of (concat (rev Ls))"
  by (intro ext, induction Ls) (simp_all add: map_add_def split: option.split)

lemma merged_append: "merged (As @ Bs) = merged As ++ merged Bs"
  unfolding merged_concat by simp

lemma ascend_distinct: "keys_ascend L \<Longrightarrow> distinct (map fst L)"
  using key_order.sorted_distinct [OF bytes_key_order] by blast

lemma ascend_mem: "keys_ascend L \<Longrightarrow> map_of L k = Some v \<longleftrightarrow> (k, v) \<in> set L"
  by (rule map_of_eq_Some_iff [OF ascend_distinct])

lemma ascend_subset:
  assumes "keys_ascend R" and "map_of R = merged Ls" and "\<forall>L\<in>set Ls. set L \<subseteq> U"
  shows "set R \<subseteq> U"
proof
  fix p
  assume "p \<in> set R"
  then have "map_of R (fst p) = Some (snd p)" using ascend_mem [OF assms(1)] by simp
  then obtain L where "L \<in> set Ls" "p \<in> set L" using merged_mem [of Ls "fst p"] assms(2) by auto
  with assms(3) show "p \<in> U" by blast
qed

lemma ascend_ends:
  assumes "keys_ascend L" and "(k, v) \<in> set L"
  shows "\<not> bytes_less k (fst (hd L))" and "\<not> bytes_less (fst (last L)) k"
proof -
  note ord = bytes_key_order
  have "k = fst (hd L) \<or> bytes_less (fst (hd L)) k" using assms by (cases L) auto
  then show "\<not> bytes_less k (fst (hd L))"
    using key_order.irrefl [OF ord] key_order.asym [OF ord] by blast
  have "k = fst (last L) \<or> bytes_less k (fst (last L))"
    using key_order.part_less_last [OF ord assms] by simp
  then show "\<not> bytes_less (fst (last L)) k"
    using key_order.irrefl [OF ord] key_order.asym [OF ord] by blast
qed

section \<open>The contract of the tables\<close>

text \<open>
  \<open>holds L t\<close> is a table with the ascending entries \<open>L\<close>, an empty value being a deleted key. \<open>fits\<close> is the limit of
  what a table can take. Entries merged while deleted ones are erased are only promised when there are none.
\<close>

locale table_service =
  fixes ops :: "'t table_ops"
    and holds :: "(bytes \<times> bytes) list \<Rightarrow> 't \<Rightarrow> bool"
    and fits :: "(bytes \<times> bytes) list \<Rightarrow> bool"
  assumes build_law: "keys_ascend (map wal_kv kvs) \<Longrightarrow> fits (map wal_kv kvs) \<Longrightarrow> to_build ops i kvs = (Inr t, data) \<Longrightarrow>
      holds (map wal_kv kvs) t \<and> (\<exists>t'. to_open ops data = Inr t' \<and> holds (map wal_kv kvs) t')"
    and merge_law: "list_all2 holds Ls ts \<Longrightarrow> ts \<noteq> [] \<Longrightarrow> keys_ascend R \<Longrightarrow> map_of R = merged Ls \<Longrightarrow> fits R \<Longrightarrow>
      (erase \<longrightarrow> (\<forall>p\<in>set R. snd p \<noteq> [])) \<Longrightarrow> to_merge ops i erase ordered ts = Some (Inr t, data) \<Longrightarrow>
      holds R t \<and> (\<exists>t'. to_open ops data = Inr t' \<and> holds R t')"
    and merge_returns: "list_all2 holds Ls ts \<Longrightarrow> ts \<noteq> [] \<Longrightarrow> keys_ascend R \<Longrightarrow> map_of R = merged Ls \<Longrightarrow> fits R \<Longrightarrow>
      \<not> ordered \<Longrightarrow> to_merge ops i erase ordered ts \<noteq> None"
    and empty_law: "holds L t \<Longrightarrow> to_empty ops t \<longleftrightarrow> L = []"
    and ends_law: "holds L t \<Longrightarrow> L \<noteq> [] \<Longrightarrow> to_ends ops t = Inr (fst (hd L), fst (last L))"
    and get_law: "holds L t \<Longrightarrow> to_get ops k t = Inr (map_of L k)"
    and holds_entries: "holds L t \<Longrightarrow> keys_ascend L \<and> (\<forall>p\<in>set L. fst p \<noteq> [] \<and> length (fst p) < 2 ^ 31)"

section \<open>The entries of a level\<close>

definition items_in :: "meta \<Rightarrow> nat \<Rightarrow> level_item list" where
  "items_in M i = (case me_view M i of Some its \<Rightarrow> its | None \<Rightarrow> [])"

definition level_items :: "meta \<Rightarrow> nat \<Rightarrow> level_item list" where
  "level_items M l = concat (map (items_in M) (me_comp M l))"

abbreviation contents :: "(nat \<Rightarrow> (bytes \<times> bytes) list) \<Rightarrow> level_item list \<Rightarrow> (bytes \<times> bytes) list list" where
  "contents G its \<equiv> map (\<lambda>it. G (li_id it)) its"

definition level_map :: "meta \<Rightarrow> (nat \<Rightarrow> (bytes \<times> bytes) list) \<Rightarrow> nat \<Rightarrow> bytes \<Rightarrow> bytes option" where
  "level_map M G l = merged (contents G (level_items M l))"

text \<open>The entries of level \<open>l\<close> and the deeper ones below \<open>n\<close>; a level overrides the deeper ones.\<close>

definition levels_map :: "meta \<Rightarrow> (nat \<Rightarrow> (bytes \<times> bytes) list) \<Rightarrow> nat \<Rightarrow> nat \<Rightarrow> bytes \<Rightarrow> bytes option" where
  "levels_map M G l n = foldr (\<lambda>j m. m ++ level_map M G j) [l..<n] Map.empty"

abbreviation upper :: "meta \<Rightarrow> (nat \<Rightarrow> (bytes \<times> bytes) list) \<Rightarrow> nat \<Rightarrow> bytes \<Rightarrow> bytes option" where
  "upper M G l \<equiv> levels_map M G l (Suc (me_counter M Max_level))"

abbreviation no_deeper :: "meta \<Rightarrow> bool" where
  "no_deeper M \<equiv> \<forall>l>me_counter M Max_level. me_comp M l = []"

lemma level_map_empty: "me_comp M l = [] \<Longrightarrow> level_map M G l = Map.empty"
  by (auto simp: level_map_def level_items_def)

lemma levels_map_empty: "l \<le> n \<Longrightarrow> \<forall>j. l \<le> j \<longrightarrow> level_map M G j = Map.empty \<Longrightarrow> levels_map M G l n = Map.empty"
proof -
  assume e: "\<forall>j. l \<le> j \<longrightarrow> level_map M G j = Map.empty"
  have "\<forall>j\<in>set js. l \<le> j \<Longrightarrow> foldr (\<lambda>j m. m ++ level_map M G j) js Map.empty = Map.empty" for js
    using e by (induction js) simp_all
  then show ?thesis by (simp add: levels_map_def)
qed

lemma levels_map_step: "l < n \<Longrightarrow> levels_map M G l n = levels_map M G (Suc l) n ++ level_map M G l"
  by (simp add: levels_map_def upt_conv_Cons)

lemma levels_map_more:
  assumes "no_deeper M" and "Suc (me_counter M Max_level) \<le> n"
  shows "levels_map M G l n = upper M G l"
proof -
  have e: "level_map M G j = Map.empty" if "me_counter M Max_level < j" for j
    using assms(1) that by (intro level_map_empty) blast
  have "foldr (\<lambda>j m. m ++ level_map M G j) js m = m" if "\<forall>j\<in>set js. me_counter M Max_level < j" for js m
    using that e by (induction js arbitrary: m) simp_all
  then have z: "foldr (\<lambda>j m. m ++ level_map M G j) [max l (Suc (me_counter M Max_level))..<n] m = m" for m by simp
  show ?thesis
  proof (cases "l \<le> Suc (me_counter M Max_level)")
    case True
    then have "[l..<n] = [l..<Suc (me_counter M Max_level)] @ [Suc (me_counter M Max_level)..<n]"
      using assms(2) by (metis le_add_diff_inverse upt_add_eq_append)
    then show ?thesis using z [of Map.empty] True by (simp add: levels_map_def max_absorb2 del: upt_Suc)
  next
    case False
    then show ?thesis using z [of Map.empty] by (simp add: levels_map_def max_absorb1)
  qed
qed

lemma upper_step: "no_deeper M \<Longrightarrow> upper M G l = upper M G (Suc l) ++ level_map M G l"
proof -
  assume n: "no_deeper M"
  let ?n = "Suc (max l (me_counter M Max_level))"
  have "upper M G l = levels_map M G l ?n" "upper M G (Suc l) = levels_map M G (Suc l) ?n"
    using levels_map_more [OF n, of ?n] by simp_all
  then show ?thesis using levels_map_step [of l ?n M G] by simp
qed

lemma upper_cong:
  assumes "no_deeper M" and "no_deeper M'" and "\<forall>j\<ge>l. level_map M G j = level_map M' G' j"
  shows "upper M G l = upper M' G' l"
proof -
  let ?n = "Suc (max (me_counter M Max_level) (me_counter M' Max_level))"
  have "upper M G l = levels_map M G l ?n" "upper M' G' l = levels_map M' G' l ?n"
    using levels_map_more [OF assms(1), of ?n] levels_map_more [OF assms(2), of ?n] by simp_all
  moreover have "levels_map M G l ?n = levels_map M' G' l ?n"
    unfolding levels_map_def using assms(3) by (intro foldr_cong) auto
  ultimately show ?thesis by simp
qed

section \<open>The entries of a view\<close>

definition covered :: "(nat \<Rightarrow> (bytes \<times> bytes) list) \<Rightarrow> level_item \<Rightarrow> bool" where
  "covered G it \<longleftrightarrow> (\<forall>p\<in>set (G (li_id it)). item_covers None (fst p) it)"

lemma covered_map_of: "covered G it \<Longrightarrow> \<not> item_covers None k it \<Longrightarrow> map_of (G (li_id it)) k = None"
  by (auto simp: covered_def map_of_eq_None_iff)

lemma view_merged:
  assumes "lv_wf (view_of i its)" and "\<forall>it\<in>set its. covered G it"
  shows "it \<in> set its \<Longrightarrow> item_covers None k it \<Longrightarrow> merged (contents G its) k = map_of (G (li_id it)) k"
    and "\<forall>it\<in>set its. \<not> item_covers None k it \<Longrightarrow> merged (contents G its) k = None"
proof -
  assume it: "it \<in> set its" "item_covers None k it"
  then obtain j where j: "j < length its" "it = its ! j" by (metis in_set_conv_nth)
  have "map_of (G (li_id (its ! n))) k = None" if "n < length its" "n \<noteq> j" for n
  proof (rule covered_map_of)
    show "covered G (its ! n)" using assms(2) that(1) by simp
    have "distinct its" using key_order.ranges_distinct [OF lv_wfD(1,2) [OF assms(1)]] by simp
    then have "its ! n \<noteq> it" using that j by (simp add: nth_eq_iff_index_eq)
    moreover have "its ! n \<in> set its" using that(1) by simp
    ultimately show "\<not> item_covers None k (its ! n)"
      using lv_covers_unique [OF assms(1), of it k] lv_covers_unique [OF assms(1), of "its ! n" k] it by auto
  qed
  then show "merged (contents G its) k = map_of (G (li_id it)) k"
    using merged_only [of j "contents G its" k] j by simp
next
  assume "\<forall>it\<in>set its. \<not> item_covers None k it"
  then show "merged (contents G its) k = None"
    using assms(2) covered_map_of unfolding merged_None by auto
qed

lemma view_find:
  assumes "lv_wf (view_of i its)" and "\<forall>it\<in>set its. covered G it"
  shows "case List.find (item_covers None k) its of
      None \<Rightarrow> merged (contents G its) k = None
    | Some it \<Rightarrow> it \<in> set its \<and> merged (contents G its) k = map_of (G (li_id it)) k"
proof (cases "List.find (item_covers None k) its")
  case None
  then have "\<forall>it\<in>set its. \<not> item_covers None k it" by (simp add: find_None_iff)
  from view_merged(2) [OF assms this] None show ?thesis by simp
next
  case (Some it)
  then have "it \<in> set its" "item_covers None k it" by (auto simp: find_Some_iff)
  then show ?thesis using view_merged(1) [OF assms] Some by simp
qed

lemma view_insert:
  assumes "lv_wf (view_of i (insert_at j it its))" and "\<forall>x\<in>set its. covered G x" and "covered G it" and "lv_wf (view_of i its)"
    and "meets_none None (li_begin it) (li_end it) its"
  shows "merged (contents G (insert_at j it its)) = merged (contents G its) ++ map_of (G (li_id it))"
proof (rule ext)
  fix k
  note ord = good_comparatorD(1) [OF good_comparator_None]
  have all: "\<forall>x\<in>set (insert_at j it its). covered G x" using assms(2,3) by (simp)
  show "merged (contents G (insert_at j it its)) k = (merged (contents G its) ++ map_of (G (li_id it))) k"
  proof (cases "item_covers None k it")
    case True
    have "\<not> item_covers None k x" if x: "x \<in> set its" for x
    proof
      assume c: "item_covers None k x"
      from assms(5) x have "key_less None (li_end it) (li_begin x) \<or> key_less None (li_end x) (li_begin it)"
        by (simp add: meets_none_def)
      then show False
      proof
        assume "key_less None (li_end it) (li_begin x)"
        with True have "key_less None k (li_begin x)" using key_order.le_less_trans [OF ord] by blast
        with c show False by blast
      next
        assume "key_less None (li_end x) (li_begin it)"
        with True have "key_less None (li_end x) k" using key_order.less_le_trans [OF ord] by blast
        with c show False by blast
      qed
    qed
    then have "merged (contents G its) k = None" using view_merged(2) [OF assms(4,2)] by blast
    moreover have "merged (contents G (insert_at j it its)) k = map_of (G (li_id it)) k"
      using view_merged(1) [OF assms(1) all _ True] by (simp)
    ultimately show ?thesis by (simp add: map_add_def split: option.split)
  next
    case False
    then have "map_of (G (li_id it)) k = None" using covered_map_of [OF assms(3)] by blast
    then have right: "(merged (contents G its) ++ map_of (G (li_id it))) k = merged (contents G its) k"
      by (simp add: map_add_def)
    show ?thesis
    proof (cases "\<exists>x\<in>set its. item_covers None k x")
      case True
      then obtain x where x: "x \<in> set its" "item_covers None k x" by blast
      then show ?thesis using view_merged(1) [OF assms(4,2) x] view_merged(1) [OF assms(1) all _ x(2)] right
        by (simp)
    next
      case none: False
      then have "\<forall>x\<in>set its. \<not> item_covers None k x" "\<forall>x\<in>set (insert_at j it its). \<not> item_covers None k x"
        using False by auto
      from view_merged(2) [OF assms(4,2) this(1)] view_merged(2) [OF assms(1) all this(2)]
      show ?thesis unfolding right by simp
    qed
  qed
qed

section \<open>The invariant\<close>

definition live :: "meta \<Rightarrow> nat \<Rightarrow> bool" where
  "live M i \<longleftrightarrow> (\<exists>l. i \<in> set (me_comp M l))"

definition item_at :: "meta \<Rightarrow> nat \<Rightarrow> level_item \<Rightarrow> bool" where
  "item_at M i it \<longleftrightarrow> live M i \<and> it \<in> set (items_in M i)"

abbreviation new_item :: "(bytes \<times> bytes) list \<Rightarrow> nat \<Rightarrow> level_item" where
  "new_item L i \<equiv> \<lparr>li_begin = fst (hd L), li_end = fst (last L), li_id = i\<rparr>"

abbreviation "ct M \<equiv> me_counter M Current_table"
abbreviation "cv M \<equiv> me_counter M Current_view"
abbreviation "ml M \<equiv> me_counter M Max_level"

text \<open>The components: nothing above the top level, every view in one place, and views that are not empty and in order.\<close>

definition shape_ok :: "meta \<Rightarrow> bool" where
  "shape_ok M \<longleftrightarrow> no_deeper M \<and> (\<forall>l. distinct (me_comp M l)) \<and>
     (\<forall>l l' i. i \<in> set (me_comp M l) \<longrightarrow> i \<in> set (me_comp M l') \<longrightarrow> l = l') \<and>
     (\<forall>i. live M i \<longrightarrow> i < cv M \<and> (\<exists>its. me_view M i = Some its \<and> its \<noteq> [] \<and> lv_wf (view_of i its))) \<and> me_limit M \<le> cv M"

lemma shape_okD:
  assumes "shape_ok M"
  shows "no_deeper M" "distinct (me_comp M l)" "i \<in> set (me_comp M l) \<Longrightarrow> i \<in> set (me_comp M l') \<Longrightarrow> l = l'"
    "live M i \<Longrightarrow> i < cv M" "me_limit M \<le> cv M"
    "live M i \<Longrightarrow> me_view M i = Some (items_in M i) \<and> items_in M i \<noteq> [] \<and> lv_wf (view_of i (items_in M i))"
  using assms by (auto simp: shape_ok_def items_in_def)

text \<open>Entries none of which is deleted.\<close>

definition plain :: "(bytes \<times> bytes) set \<Rightarrow> bool" where
  "plain U \<longleftrightarrow> (\<forall>p\<in>U. snd p \<noteq> [])"

context table_service
begin

definition opens :: "bytes \<Rightarrow> (bytes \<times> bytes) list \<Rightarrow> bool" where
  "opens data L \<longleftrightarrow> (\<exists>t. to_open ops data = Inr t \<and> holds L t)"

text \<open>A table file: its entries are known, and are those its item promises.\<close>

definition file_ok :: "(bytes \<times> bytes) set \<Rightarrow> 't level_state \<Rightarrow> (nat \<Rightarrow> (bytes \<times> bytes) list) \<Rightarrow> nat \<Rightarrow> bool" where
  "file_ok U D G i \<longleftrightarrow> G i \<noteq> [] \<and> set (G i) \<subseteq> U \<and> (\<exists>data. ls_tables D i = Some data \<and> opens data (G i))"

definition files_ok :: "(bytes \<times> bytes) set \<Rightarrow> meta \<Rightarrow> 't level_state \<Rightarrow> (nat \<Rightarrow> (bytes \<times> bytes) list) \<Rightarrow> bool" where
  "files_ok U M D G \<longleftrightarrow>
     (\<forall>i it. item_at M i it \<longrightarrow> li_id it < ct M \<and> file_ok U D G (li_id it) \<and> it = new_item (G (li_id it)) (li_id it)) \<and>
     (\<forall>i j it jt. item_at M i it \<longrightarrow> item_at M j jt \<longrightarrow> li_id it = li_id jt \<longrightarrow> i = j)"

definition cache_ok :: "meta \<Rightarrow> 't level_state \<Rightarrow> nat \<Rightarrow> bool" where
  "cache_ok M D n \<longleftrightarrow> sc_valid (ls_cache D) \<and>
     (\<forall>k b. sc_holds (ls_cache D) k b \<longrightarrow> (\<exists>i<n. k = cache_key i \<and>
        (\<forall>j it. item_at M j it \<longrightarrow> li_id it = i \<longrightarrow> (\<exists>data. ls_tables D i = Some data \<and> to_open ops data = Inr b))))"

definition lt_inv :: "(bytes \<times> bytes) set \<Rightarrow> meta \<Rightarrow> 't level_state \<Rightarrow> (nat \<Rightarrow> (bytes \<times> bytes) list) \<Rightarrow> bool" where
  "lt_inv U M D G \<longleftrightarrow> shape_ok M \<and> files_ok U M D G \<and> cache_ok M D (ct M)"

text \<open>A table that is about to be added: it has its file, and its number lies above all that are in use.\<close>

definition pending :: "(bytes \<times> bytes) set \<Rightarrow> meta \<Rightarrow> 't level_state \<Rightarrow> (nat \<Rightarrow> (bytes \<times> bytes) list) \<Rightarrow> nat \<Rightarrow> bool" where
  "pending U M D G n \<longleftrightarrow> file_ok U D G n \<and> n < ct M \<and> (\<forall>i it. item_at M i it \<longrightarrow> li_id it < n) \<and> cache_ok M D n"

lemma cache_okE:
  assumes "cache_ok M D n" and "sc_holds (ls_cache D) q b"
  obtains r where "r < n" and "q = cache_key r"
    and "\<forall>j it. item_at M j it \<longrightarrow> li_id it = r \<longrightarrow> (\<exists>data. ls_tables D r = Some data \<and> to_open ops data = Inr b)"
  using assms unfolding cache_ok_def by meson

lemma opens_entries: "opens data L \<Longrightarrow> keys_ascend L \<and> (\<forall>p\<in>set L. fst p \<noteq> [] \<and> length (fst p) < 2 ^ 31)"
  using holds_entries by (auto simp: opens_def)

lemma file_ok_item:
  assumes "file_ok U D G n"
  shows "keys_ascend (G n)" and "\<not> bytes_less (li_end (new_item (G n) n)) (li_begin (new_item (G n) n))"
    and "n < 2 ^ 31 \<Longrightarrow> li_ok (new_item (G n) n)" and "covered G (new_item (G n) n)"
proof -
  from assms obtain data where d: "G n \<noteq> []" "opens data (G n)" by (auto simp: file_ok_def)
  then show asc: "keys_ascend (G n)" using opens_entries by blast
  have hd: "(fst (hd (G n)), snd (hd (G n))) \<in> set (G n)" using d(1) by simp
  show "\<not> bytes_less (li_end (new_item (G n) n)) (li_begin (new_item (G n) n))" using ascend_ends(2) [OF asc hd] by simp
  have "hd (G n) \<in> set (G n)" "last (G n) \<in> set (G n)" using d(1) by simp_all
  then have "fst (hd (G n)) \<noteq> [] \<and> length (fst (hd (G n))) < 2 ^ 31" "fst (last (G n)) \<noteq> [] \<and> length (fst (last (G n))) < 2 ^ 31"
    using opens_entries [OF d(2)] by blast+
  then show "n < 2 ^ 31 \<Longrightarrow> li_ok (new_item (G n) n)" by (simp add: li_ok_def)
  show "covered G (new_item (G n) n)"
    unfolding covered_def
  proof
    fix p
    assume "p \<in> set (G (li_id (new_item (G n) n)))"
    then have "(fst p, snd p) \<in> set (G n)" by simp
    from ascend_ends [OF asc this] show "item_covers None (fst p) (new_item (G n) n)" by (simp add: key_less_None)
  qed
qed

lemma inv_covered:
  assumes "lt_inv U M D G" and "live M i"
  shows "\<forall>it\<in>set (items_in M i). covered G it"
proof
  fix it
  assume "it \<in> set (items_in M i)"
  then have "item_at M i it" using assms(2) by (simp add: item_at_def)
  then have "file_ok U D G (li_id it)" "it = new_item (G (li_id it)) (li_id it)"
    using assms(1) by (simp_all add: lt_inv_def files_ok_def)
  then show "covered G it" using file_ok_item(4) by metis
qed

text \<open>Adding the item of the pending table somewhere.\<close>

lemma inv_add_item:
  assumes "lt_inv U M D G" and "pending U M D G n" and "shape_ok M'" and "ct M' = ct M"
    and "\<And>i it. item_at M' i it \<longleftrightarrow> item_at M i it \<or> i = v \<and> it = new_item (G n) n"
  shows "lt_inv U M' D G"
proof -
  have f: "files_ok U M D G" and c: "cache_ok M D (ct M)" using assms(1) by (simp_all add: lt_inv_def)
  have p: "file_ok U D G n" "n < ct M" "\<And>i it. item_at M i it \<Longrightarrow> li_id it < n" and c': "cache_ok M D n"
    using assms(2) by (auto simp: pending_def)
  have "files_ok U M' D G"
    unfolding files_ok_def
  proof (intro conjI allI impI)
    fix i j it jt
    assume at: "item_at M' i it"
    show "li_id it < ct M'" "file_ok U D G (li_id it)" "it = new_item (G (li_id it)) (li_id it)"
      using at f p(1,2) unfolding assms(4,5) files_ok_def by auto
    assume "item_at M' j jt" "li_id it = li_id jt"
    with at show "i = j"
      unfolding assms(5) using f p(3) unfolding files_ok_def by (metis less_irrefl level_item.select_convs(3))
  qed
  moreover have "cache_ok M' D (ct M')"
    unfolding cache_ok_def
  proof (intro conjI allI impI)
    show "sc_valid (ls_cache D)" using c by (simp add: cache_ok_def)
    fix k b
    assume "sc_holds (ls_cache D) k b"
    with c' obtain i where i: "i < n" "k = cache_key i"
      "\<forall>j it. item_at M j it \<longrightarrow> li_id it = i \<longrightarrow> (\<exists>data. ls_tables D i = Some data \<and> to_open ops data = Inr b)"
      by (rule cache_okE)
    have "\<exists>data. ls_tables D i = Some data \<and> to_open ops data = Inr b" if "item_at M' j it" "li_id it = i" for j it
      using that i(1,3) unfolding assms(5) by auto
    then show "\<exists>i<ct M'. k = cache_key i \<and> (\<forall>j it. item_at M' j it \<longrightarrow> li_id it = i \<longrightarrow>
        (\<exists>data. ls_tables D i = Some data \<and> to_open ops data = Inr b))"
      using i(1,2) p(2) assms(4) by (intro exI [of _ i]) auto
  qed
  ultimately show ?thesis using assms(3) by (simp add: lt_inv_def)
qed

text \<open>The effect of \<open>add_view\<close>.\<close>

definition view_added :: "meta \<Rightarrow> level_item \<Rightarrow> nat \<Rightarrow> meta" where
  "view_added M it l = M\<lparr>me_counter := (me_counter M)(Current_view := Suc (cv M), Prev_table := ct M, Prev_view := Suc (cv M)),
     me_comp := (me_comp M)(l := me_comp M l @ [cv M]), me_view := (me_view M)(cv M \<mapsto> [it]), me_limit := Suc (cv M)\<rparr>"

lemma comp_small:
  assumes "shape_ok M" and "cv M < 2 ^ 30"
  shows "\<forall>i\<in>set (me_comp M l). i < cv M" and "length (me_comp M l) \<le> cv M"
proof -
  show less: "\<forall>i\<in>set (me_comp M l). i < cv M" using shape_okD(4) [OF assms(1)] by (auto simp: live_def)
  then have "card (set (me_comp M l)) \<le> card {..<cv M}" by (intro card_mono) auto
  then show "length (me_comp M l) \<le> cv M" using shape_okD(2) [OF assms(1), of l] by (simp add: distinct_card)
qed

lemma goes_add_view:
  assumes "shape_ok M" and "li_ok it" and "\<not> bytes_less (li_end it) (li_begin it)" and "cv M < 2 ^ 30 - 1" and "ct M < 2 ^ 63"
    and "l < 2 ^ 63"
  shows "goes M D (add_view (li_begin it) (li_end it) (li_id it) (me_comp M l) l) (Inr ()) (view_added M it l) D"
proof -
  let ?v = "cv M"
  have v: "?v < 2 ^ 30" "add64 ?v 1 = Suc ?v" using assms(4) by (simp_all add: add64_small)
  have put: "lv_put (li_begin it) (li_end it) (li_id it) (lv_new ?v) = Inr (view_of ?v [it])"
    by (simp add: lv_put_def lv_try_put_def lv_find_def lv_new_def lower_bound_def lower_bound_from.simps)
  have c: "\<forall>i\<in>set (lc_put ?v (me_comp M l)). i < 2 ^ 30" "length (lc_put ?v (me_comp M l)) \<le> 2 ^ 30"
    using comp_small [OF assms(1) v(1), of l] v(1) assms(4) by (auto simp: lc_put_def)
  have limit: "me_limit M \<le> ?v" using shape_okD(5) [OF assms(1)] .
  have "goes M D (add_view (li_begin it) (li_end it) (li_id it) (me_comp M l) l) (Inr ()) (with_counter Prev_view (Suc ?v)
      ((with_counter Prev_table (ct M) (with_counter Current_view (Suc ?v) M))\<lparr>me_view := (me_view M)(?v \<mapsto> [it]), me_limit := Suc ?v,
        me_comp := (me_comp M)(l := lc_put ?v (me_comp M l))\<rparr>)) D"
    unfolding add_view_def
    apply (rule goes_bind [OF goes_get_counter])
    apply (rule goes_bind [OF goes_set_counter])
    using v apply simp
    apply (rule goes_bind [OF goes_lift [OF put]])
    apply (rule goes_bind [OF goes_get_counter])
    apply (rule goes_bind [OF goes_set_counter])
    using assms(5) apply simp
    apply (rule goes_bind [OF goes_save_new_view])
    using limit v assms(2) apply simp_all
    apply (rule goes_put_save_component_then)
    using c assms(6) v apply simp_all
    apply (rule goes_eq [OF goes_set_counter])
    using v apply simp_all
    done
  then show ?thesis by (rule goes_eq) (simp_all add: view_added_def lc_put_def)
qed

lemma view_added_simps [simp]:
  "ct (view_added M it l) = ct M" "cv (view_added M it l) = Suc (cv M)" "ml (view_added M it l) = ml M"
  by (simp_all add: view_added_def)

lemma view_added_live:
  "live (view_added M it l) i \<longleftrightarrow> live M i \<or> i = cv M"
  "shape_ok M \<Longrightarrow> items_in (view_added M it l) i = (if i = cv M then [it] else items_in M i)"
  by (auto simp: live_def view_added_def items_in_def)

lemma view_added_shape:
  assumes "shape_ok M" and "\<not> bytes_less (li_end it) (li_begin it)" and "l \<le> ml M"
  shows "shape_ok (view_added M it l)"
    and "item_at (view_added M it l) i x \<longleftrightarrow> item_at M i x \<or> i = cv M \<and> x = it"
proof -
  have fresh: "\<not> live M (cv M)" using shape_okD(4) [OF assms(1), of "cv M"] by blast
  then have out: "cv M \<notin> set (me_comp M l')" for l' by (auto simp: live_def)
  show "item_at (view_added M it l) i x \<longleftrightarrow> item_at M i x \<or> i = cv M \<and> x = it"
    unfolding item_at_def view_added_live(1) view_added_live(2) [OF assms(1)] using fresh by auto
  have wf: "lv_wf (view_of (cv M) [it])"
    using assms(2) by (simp add: lv_wf_def ranges_None)
  have c: "me_comp (view_added M it l) j = (if j = l then me_comp M l @ [cv M] else me_comp M j)" for j
    by (simp add: view_added_def)
  show "shape_ok (view_added M it l)"
    unfolding shape_ok_def
  proof (intro conjI allI impI)
    show "me_comp (view_added M it l) j = []" if "ml (view_added M it l) < j" for j
      using that assms(3) shape_okD(1) [OF assms(1)] unfolding c by simp
    show "distinct (me_comp (view_added M it l) j)" for j
      using shape_okD(2) [OF assms(1)] out unfolding c by simp
    show "j = j'" if "i \<in> set (me_comp (view_added M it l) j)" "i \<in> set (me_comp (view_added M it l) j')" for j j' i
      using that shape_okD(3) [OF assms(1), of i j j'] out unfolding c by (auto split: if_splits)
    show "i < cv (view_added M it l)" if "live (view_added M it l) i" for i
      using that shape_okD(4) [OF assms(1), of i] unfolding view_added_live(1) by auto
    show "\<exists>its. me_view (view_added M it l) i = Some its \<and> its \<noteq> [] \<and> lv_wf (view_of i its)"
      if "live (view_added M it l) i" for i
      using that shape_okD(6) [OF assms(1), of i] wf unfolding view_added_live(1) by (auto simp: view_added_def)
    show "me_limit (view_added M it l) \<le> cv (view_added M it l)" by (simp add: view_added_def)
  qed
qed

lemma view_added_maps:
  assumes "shape_ok M"
  shows "level_map (view_added M it l) G j = (if j = l then level_map M G l ++ map_of (G (li_id it)) else level_map M G j)"
proof -
  have out: "cv M \<notin> set (me_comp M j)" for j using shape_okD(4) [OF assms, of "cv M"] by (auto simp: live_def)
  have e: "map (items_in (view_added M it l)) (me_comp M j) = map (items_in M) (me_comp M j)" for j
    using out [of j] view_added_live(2) [OF assms] by (intro map_cong) auto
  have "level_items (view_added M it l) j = (if j = l then level_items M l @ [it] else level_items M j)"
  proof -
    have "me_comp (view_added M it l) j = (if j = l then me_comp M l @ [cv M] else me_comp M j)" by (simp add: view_added_def)
    then show ?thesis using view_added_live(2) [OF assms, of it l "cv M"]
      by (cases "j = l") (simp_all only: level_items_def e map_append concat_append list.map concat.simps append_Nil2 simp_thms if_True if_False)
  qed
  then show ?thesis by (simp add: level_map_def merged_append merged_concat)
qed

text \<open>The effect of putting an item into the last view of a component.\<close>

definition view_changed :: "meta \<Rightarrow> nat \<Rightarrow> level_item list \<Rightarrow> meta" where
  "view_changed M i its = (with_counter Prev_table (ct M) M)\<lparr>me_view := (me_view M)(i \<mapsto> its)\<rparr>"

lemma view_changed_simps [simp]:
  "ct (view_changed M i its) = ct M" "cv (view_changed M i its) = cv M" "ml (view_changed M i its) = ml M"
  "me_comp (view_changed M i its) = me_comp M" "live (view_changed M i its) j = live M j"
  "me_view (view_changed M i its) j = (if j = i then Some its else me_view M j)"
  "items_in (view_changed M i its) j = (if j = i then its else items_in M j)"
  "me_limit (view_changed M i its) = me_limit M"
  by (simp_all add: view_changed_def live_def items_in_def)

lemma view_changed_shape:
  assumes "shape_ok M" and "live M i" and "lv_wf (view_of i its)" and "set its = insert it (set (items_in M i))"
  shows "shape_ok (view_changed M i its)"
    and "item_at (view_changed M i its) j x \<longleftrightarrow> item_at M j x \<or> j = i \<and> x = it"
proof -
  have "its \<noteq> []" using assms(4) by auto
  then show "shape_ok (view_changed M i its)" using assms(1,3) by (auto simp: shape_ok_def)
  show "item_at (view_changed M i its) j x \<longleftrightarrow> item_at M j x \<or> j = i \<and> x = it"
    using assms(2,4) by (auto simp: item_at_def)
qed

lemma view_changed_maps:
  assumes "shape_ok M" and "me_comp M l \<noteq> []" and "i = last (me_comp M l)"
    and "merged (contents G its) = merged (contents G (items_in M i)) ++ m"
  shows "level_map (view_changed M i its) G j = (if j = l then level_map M G l ++ m else level_map M G j)"
proof -
  let ?M = "view_changed M i its"
  have c: "me_comp M l = butlast (me_comp M l) @ [i]" using assms(2,3) by simp
  have in_l: "i \<in> set (me_comp M l)" using assms(2,3) by simp
  show ?thesis
  proof (cases "j = l")
    case True
    have "i \<notin> set (butlast (me_comp M l))"
      using shape_okD(2) [OF assms(1), of l] by (subst (asm) c) simp
    then have e: "map (items_in ?M) (butlast (me_comp M l)) = map (items_in M) (butlast (me_comp M l))"
      by (intro map_cong) auto
    have "level_items M l = concat (map (items_in M) (butlast (me_comp M l))) @ items_in M i"
      unfolding level_items_def by (subst c) simp
    moreover have "level_items ?M l = concat (map (items_in M) (butlast (me_comp M l))) @ its"
      unfolding level_items_def view_changed_simps(4) by (subst c) (simp only: map_append concat_append e, simp)
    ultimately show ?thesis using True assms(4) by (simp add: level_map_def merged_append)
  next
    case False
    then have "i \<notin> set (me_comp M j)" using shape_okD(3) [OF assms(1) in_l] by auto
    then have "map (items_in ?M) (me_comp M j) = map (items_in M) (me_comp M j)" by (intro map_cong) auto
    then have "level_items ?M j = level_items M j" by (simp only: level_items_def view_changed_simps(4))
    then show ?thesis using False by (simp add: level_map_def)
  qed
qed

text \<open>The effect of raising the top level.\<close>

lemma raised:
  assumes "shape_ok M" and "ml M \<le> l"
  shows "shape_ok (with_counter Max_level l M)" "upper (with_counter Max_level l M) G j = upper M G j"
    "level_map (with_counter Max_level l M) G j = level_map M G j" "item_at (with_counter Max_level l M) = item_at M"
    "items_in (with_counter Max_level l M) = items_in M"
proof -
  let ?M = "with_counter Max_level l M"
  show shape: "shape_ok ?M" using assms by (auto simp: shape_ok_def live_def)
  show i: "items_in ?M = items_in M" by (intro ext) (simp add: items_in_def)
  show m: "level_map ?M G j = level_map M G j" for j by (simp add: level_map_def level_items_def i)
  show "item_at ?M = item_at M" by (intro ext) (simp add: item_at_def live_def i)
  show "upper ?M G j = upper M G j"
    using shape_okD(1) [OF assms(1)] shape_okD(1) [OF shape] m by (intro upper_cong) simp_all
qed

lemma raised_inv:
  assumes "lt_inv U M D G" and "ml M \<le> l"
  shows "lt_inv U (with_counter Max_level l M) D G" and "pending U M D G n \<Longrightarrow> pending U (with_counter Max_level l M) D G n"
  using assms raised(1) [OF _ assms(2)] raised(4) [OF _ assms(2)]
  by (auto simp: lt_inv_def files_ok_def cache_ok_def pending_def)

text \<open>What the limits of the tables allow.\<close>

definition closed :: "(bytes \<times> bytes) set \<Rightarrow> bool" where
  "closed U \<longleftrightarrow> (\<forall>R. keys_ascend R \<longrightarrow> set R \<subseteq> U \<longrightarrow> fits R)"

abbreviation with_file :: "'t level_state \<Rightarrow> nat \<Rightarrow> bytes option \<Rightarrow> 't level_state" where
  "with_file D k x \<equiv> D\<lparr>ls_tables := (ls_tables D)(k := x)\<rparr>"

lemma opened_files:
  assumes "\<forall>i\<in>set is. \<exists>data. ls_tables D i = Some data \<and> opens data (G i)"
  shows "\<exists>g. (\<forall>i\<in>set is. goes M D (load_table ops i) (Inr (g i)) M D) \<and> list_all2 holds (map G is) (map g is)"
proof -
  have "\<forall>i\<in>set is. \<exists>t data. ls_tables D i = Some data \<and> to_open ops data = Inr t \<and> holds (G i) t"
    using assms by (auto simp: opens_def)
  from bchoice [OF this] obtain g where
    g: "\<forall>i\<in>set is. \<exists>data. ls_tables D i = Some data \<and> to_open ops data = Inr (g i) \<and> holds (G i) (g i)" ..
  have "goes M D (load_table ops i) (Inr (g i)) M D" if "i \<in> set is" for i
  proof -
    from g that obtain data where "ls_tables D i = Some data" "to_open ops data = Inr (g i)" by blast
    then show ?thesis using goes_load_table [of D i data M ops] by simp
  qed
  moreover have "list_all2 holds (map G is) (map g is)" using g unfolding list_all2_map1 list_all2_map2 by (intro list.rel_refl_strong) blast
  ultimately show ?thesis by blast
qed

lemma goes_views:
  assumes "shape_ok M"
  shows "goes M D (act_each (get_view None) (me_comp M l)) (Inr (map (\<lambda>i. view_of i (items_in M i)) (me_comp M l))) M D"
proof (rule goes_each)
  fix i
  assume "i \<in> set (me_comp M l)"
  then have "live M i" by (auto simp: live_def)
  then show "goes M D (get_view None i) (Inr (view_of i (items_in M i))) M D"
    using goes_get_view shape_okD(6) [OF assms] by blast
qed

lemma goes_view_tables:
  assumes "shape_ok M" and "\<forall>j\<in>set (map li_id (level_items M l)). goes M D (load_table ops j) (Inr (g j)) M D"
  shows "goes M D (act_each (load_view_tables ops None) (me_comp M l)) (Inr (map (\<lambda>i. map g (map li_id (items_in M i))) (me_comp M l))) M D"
proof (rule goes_each)
  fix i
  assume i: "i \<in> set (me_comp M l)"
  then have "live M i" by (auto simp: live_def)
  then have view: "goes M D (get_view None i) (Inr (view_of i (items_in M i))) M D"
    using goes_get_view shape_okD(6) [OF assms(1)] by blast
  have "set (map li_id (items_in M i)) \<subseteq> set (map li_id (level_items M l))" using i by (auto simp: level_items_def)
  then have "goes M D (act_each (load_table ops) (map li_id (items_in M i))) (Inr (map g (map li_id (items_in M i)))) M D"
    using assms(2) by (intro goes_each) blast
  then show "goes M D (load_view_tables ops None i) (Inr (map g (map li_id (items_in M i)))) M D"
    unfolding load_view_tables_def by (intro goes_bind [OF view]) simp
qed

lemma level_item_at: "it \<in> set (level_items M l) \<longleftrightarrow> (\<exists>i\<in>set (me_comp M l). item_at M i it)"
  by (auto simp: level_items_def item_at_def live_def)

lemma merge_goes:
  assumes "lt_inv U M D G" and "file_ok U D G n" and "holds (G n) t" and "\<forall>i it. item_at M i it \<longrightarrow> li_id it < k"
    and "me_comp M l \<noteq> []" and "closed U" and "erase \<longrightarrow> plain U" and "lo_cmp opt = None"
  shows "stuck M D (merge_tables_of ops opt (me_comp M l) k erase t) \<and> length (me_comp M l) = 1 \<or>
    (\<exists>e x. goes M D (merge_tables_of ops opt (me_comp M l) k erase t) (Inl e) M (with_file D k x)) \<or>
    (\<exists>t' data R. goes M D (merge_tables_of ops opt (me_comp M l) k erase t) (Inr t') M (with_file D k (Some data)) \<and>
       holds R t' \<and> opens data R \<and> keys_ascend R \<and> set R \<subseteq> U \<and>
       map_of R = merged (contents G (level_items M l) @ [G n]))"
proof (cases "ls_tables D k = None")
  case False
  then have "goes M D (merge_tables_of ops opt (me_comp M l) k erase t) (Inl System_error) M D"
    unfolding merge_tables_of_def by (intro goes_bind_Inl goes_create_table(2))
  then have "goes M D (merge_tables_of ops opt (me_comp M l) k erase t) (Inl System_error) M (with_file D k (ls_tables D k))" by simp
  then show ?thesis by blast
next
  case True
  have shape: "shape_ok M" and files: "files_ok U M D G" using assms(1) by (simp_all add: lt_inv_def)
  let ?c = "me_comp M l" and ?D = "with_file D k (Some [])" and ?ids = "map li_id (level_items M l)"
  have ok: "file_ok U D G i" "i < k" if i: "i \<in> set ?ids" for i
  proof -
    obtain it j where "i = li_id it" "item_at M j it" using i level_item_at by auto
    then show "file_ok U D G i" "i < k" using files assms(4) by (auto simp: files_ok_def)
  qed
  then have "\<forall>i\<in>set ?ids. \<exists>data. ls_tables ?D i = Some data \<and> opens data (G i)"
    by (auto simp: file_ok_def)
  then obtain g where g: "\<forall>i\<in>set ?ids. goes M ?D (load_table ops i) (Inr (g i)) M ?D"
    "list_all2 holds (map G ?ids) (map g ?ids)" using opened_files [of ?ids ?D G M] by blast
  have concat: "concat (map (\<lambda>i. map g (map li_id (items_in M i))) ?c) = map g ?ids"
    by (simp add: level_items_def map_concat comp_def)
  let ?ts = "map g ?ids @ [t]" and ?Ls = "contents G (level_items M l) @ [G n]"
  have all: "list_all2 holds ?Ls ?ts" using g(2) assms(3) by (simp add: list_all2_appendI comp_def)
  obtain R where R: "keys_ascend R" "map_of R = merged ?Ls"
    using ascending_exists [of "concat (rev ?Ls)"] by (auto simp: merged_concat)
  have sub: "\<forall>L\<in>set ?Ls. set L \<subseteq> U" using ok(1) assms(2) by (auto simp: file_ok_def)
  have RU: "set R \<subseteq> U" using ascend_subset [OF R sub] .
  have fits: "fits R" using assms(6) R(1) RU by (simp add: closed_def)
  have erase: "erase \<longrightarrow> (\<forall>p\<in>set R. snd p \<noteq> [])" using assms(7) RU by (auto simp: plain_def)
  have ne: "G n \<noteq> []" using assms(2) by (simp add: file_ok_def)
  define ord where "ord = (length ?c = 1 \<and> lv_is_not_overlapped (view_of (last ?c) (items_in M (last ?c))) (fst (hd (G n))) (fst (last (G n))))"
  have last: "live M (last ?c)" using last_in_set [OF assms(5)] unfolding live_def by blast
  have order: "goes M ?D (if length ?c = 1 then act_bind (act_lift (to_ends ops t)) (\<lambda>(first_key, last_key).
      act_bind (get_view (lo_cmp opt) (last ?c)) (\<lambda>v. act_return (lv_is_not_overlapped v first_key last_key)))
      else act_return False) (Inr ord) M ?D"
  proof (cases "length ?c = 1")
    case True
    have "goes M ?D (act_bind (act_lift (to_ends ops t)) (\<lambda>(first_key, last_key).
      act_bind (get_view (lo_cmp opt) (last ?c)) (\<lambda>v. act_return (lv_is_not_overlapped v first_key last_key)))) (Inr ord) M ?D"
      apply (rule goes_bind [OF goes_lift [OF ends_law [OF assms(3) ne]]])
      unfolding prod.case assms(8)
      apply (rule goes_bind [OF goes_get_view])
      using shape_okD(6) [OF shape last] apply blast
      using True apply (simp add: ord_def goes_return)
      done
    with True show ?thesis by simp
  next
    case False
    then show ?thesis by (simp add: ord_def goes_return)
  qed
  have prefix: "goes M ?D (\<lambda>s. case to_merge ops k erase ord ?ts of None \<Rightarrow> None | Some (r, data) \<Rightarrow> Some (r, write_table k data s)) r M2 D2 \<Longrightarrow>
      goes M D (merge_tables_of ops opt ?c k erase t) r M2 D2"
    "stuck M ?D (\<lambda>s. case to_merge ops k erase ord ?ts of None \<Rightarrow> None | Some (r, data) \<Rightarrow> Some (r, write_table k data s)) \<Longrightarrow>
      stuck M D (merge_tables_of ops opt ?c k erase t)" for r M2 D2
    unfolding merge_tables_of_def assms(8)
    by (rule goes_bind [OF goes_create_table(1) [OF True]], rule goes_bind [OF goes_view_tables [OF shape g(1)]],
        unfold concat, rule goes_bind [OF order [unfolded assms(8)]], assumption)
      (rule stuck_bind [OF goes_create_table(1) [OF True]], rule stuck_bind [OF goes_view_tables [OF shape g(1)]],
        unfold concat, rule stuck_bind [OF order [unfolded assms(8)]], assumption)
  show ?thesis
  proof (cases "to_merge ops k erase ord ?ts")
    case None
    then have "ord" using merge_returns [OF all _ R fits, of ord k erase] by (cases ord) simp_all
    moreover have "stuck M D (merge_tables_of ops opt ?c k erase t)" using None by (intro prefix(2)) (simp add: stuck_def)
    ultimately show ?thesis by (simp add: ord_def)
  next
    case (Some rd)
    obtain r data where rd: "rd = (r, data)" by fastforce
    have D2: "?D\<lparr>ls_tables := (ls_tables ?D)(k \<mapsto> data)\<rparr> = with_file D k (Some data)" by simp
    have run: "goes M D (merge_tables_of ops opt ?c k erase t) r M (with_file D k (Some data))"
      using goes_write_table [of M ?D r k data] Some rd unfolding D2 by (intro prefix(1)) simp
    show ?thesis
    proof (cases r)
      case (Inl e)
      with run show ?thesis by blast
    next
      case (Inr t')
      have "to_merge ops k erase ord ?ts = Some (Inr t', data)" using Some rd Inr by simp
      from merge_law [OF all _ R fits erase this] have "holds R t'" "opens data R" by (auto simp: opens_def)
      with run Inr R RU show ?thesis by blast
    qed
  qed
qed

text \<open>Deleting tables and views.\<close>

definition cache_keyed :: "'t circle_cache list \<Rightarrow> bool" where
  "cache_keyed c \<longleftrightarrow> sc_valid c \<and> (\<forall>k b. sc_holds c k b \<longrightarrow> (\<exists>i. k = cache_key i))"

lemma cache_keyed_fits: "cache_keyed c \<Longrightarrow> sc_valid c \<and> (\<forall>l b. sc_holds c l b \<longrightarrow> key_fits (cache_key i) l)"
proof (intro conjI allI impI)
  assume k: "cache_keyed c"
  then show "sc_valid c" by (simp add: cache_keyed_def)
  fix l b
  assume "sc_holds c l b"
  with k obtain j where "l = cache_key j" unfolding cache_keyed_def by blast
  then show "key_fits (cache_key i) l" by (simp add: cache_key_def key_fits_same_length)
qed

lemma cache_ok_keyed: "cache_ok M D n \<Longrightarrow> cache_keyed (ls_cache D)"
  unfolding cache_ok_def cache_keyed_def by meson

abbreviation less_cache :: "'t circle_cache list \<Rightarrow> 't circle_cache list \<Rightarrow> bool" where
  "less_cache c' c \<equiv> cache_keyed c' \<and> (\<forall>k b. sc_holds c' k b \<longrightarrow> sc_holds c k b)"

abbreviation without_files :: "nat set \<Rightarrow> 't circle_cache list \<Rightarrow> 't level_state \<Rightarrow> 't level_state" where
  "without_files I c D \<equiv> D\<lparr>ls_cache := c, ls_tables := (\<lambda>i. if i \<in> I then None else ls_tables D i)\<rparr>"

lemma goes_delete_one:
  assumes "cache_keyed (ls_cache D)"
  shows "\<exists>c. less_cache c (ls_cache D) \<and> goes M D (delete_table i) (Inr ()) M (without_files {i} c D)"
proof -
  from sc_delete_law [of "ls_cache D" "cache_key i"] cache_keyed_fits [OF assms]
  obtain c where c: "sc_delete (cache_key i) (ls_cache D) = Inr c" "sc_valid c" "\<forall>k b. sc_holds c k b \<longrightarrow> sc_holds (ls_cache D) k b"
    by blast
  have "(ls_tables D)(i := None) = (\<lambda>j. if j \<in> {i} then None else ls_tables D j)" by auto
  then have "goes M D (delete_table i) (Inr ()) M (without_files {i} c D)" using goes_delete_table [OF c(1), of M] by simp
  moreover have "cache_keyed c" using c(2,3) assms unfolding cache_keyed_def by blast
  ultimately show ?thesis using c(3) by blast
qed

lemma goes_delete_tables:
  assumes "cache_keyed (ls_cache D)"
  shows "\<exists>c. less_cache c (ls_cache D) \<and>
    goes M D (act_each delete_table is) (Inr (map (\<lambda>_. ()) is)) M (without_files (set is) c D)"
  using assms
proof (induction "is" arbitrary: D)
  case Nil
  then show ?case using goes_each_Nil [of M D] by (intro exI [of _ "ls_cache D"]) (simp del: act_each.simps)
next
  case (Cons i "is")
  from goes_delete_one [OF Cons.prems, of M i] obtain c where c: "less_cache c (ls_cache D)"
    "goes M D (delete_table i) (Inr ()) M (without_files {i} c D)" by blast
  let ?D = "without_files {i} c D"
  from Cons.IH [of ?D] c(1) obtain c' where c': "less_cache c' c"
    "goes M ?D (act_each delete_table is) (Inr (map (\<lambda>_. ()) is)) M (without_files (set is) c' ?D)" by auto
  have "without_files (set is) c' ?D = without_files (set (i # is)) c' D"
    by (simp add: insert_commute) (intro arg_cong2 [where f = "\<lambda>f D. D\<lparr>ls_cache := c', ls_tables := f\<rparr>"] refl ext; simp)
  then have "goes M D (act_each delete_table (i # is)) (Inr (map (\<lambda>_. ()) (i # is))) M (without_files (set (i # is)) c' D)"
    using goes_bind [OF c(2), of "\<lambda>y. act_bind (act_each delete_table is) (\<lambda>ys. act_return (y # ys))"]
      goes_bind [OF c'(2), of "\<lambda>ys. act_return (() # ys)"] goes_return by fastforce
  then show ?case using c(1) c'(1) by blast
qed

abbreviation without_views :: "nat set \<Rightarrow> meta \<Rightarrow> meta" where
  "without_views I M \<equiv> M\<lparr>me_view := (\<lambda>i. if i \<in> I then None else me_view M i)\<rparr>"

lemma goes_delete_views:
  assumes "cache_keyed (ls_cache D)" and "\<forall>i\<in>set c. me_view M i = Some (items i) \<and> i < 2 ^ 63" and "distinct c"
  shows "\<exists>h. less_cache h (ls_cache D) \<and> goes M D (act_each (delete_view None) c) (Inr (map (\<lambda>_. ()) c))
    (without_views (set c) M) (without_files (li_id ` set (concat (map items c))) h D)"
  using assms
proof (induction c arbitrary: M D)
  case Nil
  then show ?case using goes_each_Nil [of M D] by (intro exI [of _ "ls_cache D"]) (simp del: act_each.simps)
next
  case (Cons i c)
  have v: "me_view M i = Some (items i)" "i < 2 ^ 63" using Cons.prems(2) by simp_all
  from goes_delete_tables [OF Cons.prems(1), of M "map li_id (items i)"] obtain h where h: "less_cache h (ls_cache D)"
    "goes M D (act_each delete_table (map li_id (items i))) (Inr (map (\<lambda>_. ()) (map li_id (items i)))) M
      (without_files (set (map li_id (items i))) h D)" by blast
  let ?D = "without_files (set (map li_id (items i))) h D" and ?M = "M\<lparr>me_view := (me_view M)(i := None)\<rparr>"
  have one: "goes M D (delete_view None i) (Inr ()) ?M ?D"
    unfolding delete_view_def
    apply (rule goes_bind [OF goes_get_view [OF v(1)]])
    apply (simp only: level_view.select_convs)
    apply (rule goes_bind [OF h(2)])
    apply (rule goes_delete_view_entry [OF v(2)])
    done
  have "\<forall>j\<in>set c. me_view ?M j = Some (items j) \<and> j < 2 ^ 63" "distinct c" using Cons.prems(2,3) by auto
  from Cons.IH [OF _ this, of ?D] h(1) obtain h' where h': "less_cache h' h"
    "goes ?M ?D (act_each (delete_view None) c) (Inr (map (\<lambda>_. ()) c)) (without_views (set c) ?M)
      (without_files (li_id ` set (concat (map items c))) h' ?D)" by auto
  have M: "without_views (set c) ?M = without_views (set (i # c)) M"
    by (simp, intro arg_cong [where f = "\<lambda>f. M\<lparr>me_view := f\<rparr>"] ext) simp
  have D: "without_files (li_id ` set (concat (map items c))) h' ?D = without_files (li_id ` set (concat (map items (i # c)))) h' D"
    by (simp, intro arg_cong [where f = "\<lambda>f. D\<lparr>ls_cache := h', ls_tables := f\<rparr>"] ext) auto
  have "goes M D (act_each (delete_view None) (i # c)) (Inr (() # map (\<lambda>_. ()) c)) (without_views (set (i # c)) M)
      (without_files (li_id ` set (concat (map items (i # c)))) h' D)"
    unfolding act_each.simps
    by (rule goes_bind [OF one], rule goes_bind [OF h'(2)], rule goes_eq [OF goes_return M D])
  then show ?case using h(1) h'(1) unfolding list.map by blast
qed

text \<open>Files and contents above all numbers in use may change.\<close>

lemma inv_files_above:
  assumes "lt_inv U M D G" and "\<forall>i it. item_at M i it \<longrightarrow> li_id it < m" and "cache_ok M D m" and "m \<le> k"
    and "\<forall>i<m. f i = ls_tables D i \<and> G' i = G i"
  shows "lt_inv U (with_counter Current_table k M) (D\<lparr>ls_tables := f\<rparr>) G'"
    and "cache_ok (with_counter Current_table k M) (D\<lparr>ls_tables := f\<rparr>) m"
    and "level_map (with_counter Current_table k M) G' j = level_map M G j"
    and "item_at (with_counter Current_table k M) = item_at M"
proof -
  let ?M = "with_counter Current_table k M" and ?D = "D\<lparr>ls_tables := f\<rparr>"
  have items: "items_in ?M = items_in M" by (intro ext) (simp add: items_in_def)
  show at: "item_at ?M = item_at M" by (intro ext) (simp add: item_at_def live_def items)
  have shape: "shape_ok ?M" using assms(1) by (simp add: lt_inv_def shape_ok_def live_def)
  have files: "files_ok U ?M ?D G'"
    using assms(1,2,4,5) unfolding lt_inv_def files_ok_def file_ok_def at by (simp, meson less_le_trans)
  have cache: "cache_ok ?M ?D i" if "m \<le> i" for i
    unfolding cache_ok_def at
  proof (intro conjI allI impI)
    show "sc_valid (ls_cache ?D)" using assms(3) by (simp add: cache_ok_def)
    fix q b
    assume "sc_holds (ls_cache ?D) q b"
    then have "sc_holds (ls_cache D) q b" by simp
    with assms(3) obtain r where r: "r < m" "q = cache_key r"
      "\<forall>j it. item_at M j it \<longrightarrow> li_id it = r \<longrightarrow> (\<exists>data. ls_tables D r = Some data \<and> to_open ops data = Inr b)"
      by (rule cache_okE)
    then show "\<exists>i'<i. q = cache_key i' \<and> (\<forall>j it. item_at M j it \<longrightarrow> li_id it = i' \<longrightarrow>
        (\<exists>data. ls_tables ?D i' = Some data \<and> to_open ops data = Inr b))"
      using assms(5) that by (intro exI [of _ r]) simp
  qed
  then show "cache_ok ?M ?D m" by simp
  show "lt_inv U ?M ?D G'" using shape files cache [OF assms(4)] by (simp add: lt_inv_def)
  have "contents G' (level_items M j) = contents G (level_items M j)"
    using assms(2,5) level_item_at [of _ M j] by (intro map_cong) auto
  moreover have "level_items ?M j = level_items M j" by (simp add: level_items_def items)
  ultimately show "level_map ?M G' j = level_map M G j" by (simp only: level_map_def)
qed

text \<open>The effect of emptying a component.\<close>

definition cleared :: "meta \<Rightarrow> nat \<Rightarrow> meta" where
  "cleared M l = (without_views (set (me_comp M l)) M)\<lparr>me_comp := (me_comp M)(l := [])\<rparr>"

lemma cleared_simps [simp]:
  "me_counter (cleared M l) = me_counter M" "me_limit (cleared M l) = me_limit M"
  "me_comp (cleared M l) j = (if j = l then [] else me_comp M j)"
  by (simp_all add: cleared_def)

lemma cleared_live:
  assumes "shape_ok M"
  shows "live (cleared M l) i \<longleftrightarrow> live M i \<and> i \<notin> set (me_comp M l)"
    and "items_in (cleared M l) i = (if i \<in> set (me_comp M l) then [] else items_in M i)"
proof -
  show "live (cleared M l) i \<longleftrightarrow> live M i \<and> i \<notin> set (me_comp M l)"
  proof
    assume "live (cleared M l) i"
    then obtain j where "j \<noteq> l" "i \<in> set (me_comp M j)" by (auto simp: live_def split: if_splits)
    then show "live M i \<and> i \<notin> set (me_comp M l)" using shape_okD(3) [OF assms, of i j l] by (auto simp: live_def)
  next
    assume "live M i \<and> i \<notin> set (me_comp M l)"
    then obtain j where "i \<in> set (me_comp M j)" "j \<noteq> l" by (auto simp: live_def)
    then show "live (cleared M l) i" unfolding live_def by (intro exI [of _ j]) simp
  qed
  show "items_in (cleared M l) i = (if i \<in> set (me_comp M l) then [] else items_in M i)"
    by (simp add: items_in_def cleared_def)
qed

lemma cleared_ok:
  assumes "lt_inv U M D G" and "\<forall>i it. item_at M i it \<longrightarrow> li_id it \<noteq> n" and "less_cache h (ls_cache D)"
  shows "lt_inv U (cleared M l) (without_files (insert n (li_id ` set (level_items M l))) h D) G"
    and "level_map (cleared M l) G j = (if j = l then Map.empty else level_map M G j)"
    and "item_at (cleared M l) i it \<longleftrightarrow> item_at M i it \<and> i \<notin> set (me_comp M l)"
proof -
  have shape: "shape_ok M" and files: "files_ok U M D G" and cache: "cache_ok M D (ct M)"
    using assms(1) by (simp_all add: lt_inv_def)
  let ?M = "cleared M l" and ?I = "insert n (li_id ` set (level_items M l))"
  note live = cleared_live [OF shape, of l]
  have at: "item_at ?M i it \<longleftrightarrow> item_at M i it \<and> i \<notin> set (me_comp M l)" for i it
    unfolding item_at_def live by auto
  then show "item_at ?M i it \<longleftrightarrow> item_at M i it \<and> i \<notin> set (me_comp M l)" .
  have shape': "shape_ok ?M"
    using shape unfolding shape_ok_def live(1) by (auto simp: cleared_def)
  have kept: "li_id it \<notin> ?I" if "item_at ?M i it" for i it
  proof
    assume "li_id it \<in> ?I"
    moreover have "item_at M i it" "i \<notin> set (me_comp M l)" using that at by blast+
    ultimately obtain jt where "jt \<in> set (level_items M l)" "li_id it = li_id jt" using assms(2) by auto
    then obtain j where "j \<in> set (me_comp M l)" "item_at M j jt" "li_id it = li_id jt" by (auto simp: level_item_at)
    moreover from this have "i = j" using files \<open>item_at M i it\<close> unfolding files_ok_def by metis
    ultimately show False using \<open>i \<notin> set (me_comp M l)\<close> by simp
  qed
  have "files_ok U ?M (without_files ?I h D) G"
    unfolding files_ok_def
  proof (intro conjI allI impI)
    fix i j it jt
    assume a: "item_at ?M i it"
    then have "item_at M i it" "li_id it \<notin> ?I" using at kept by blast+
    then show "li_id it < ct ?M" "file_ok U (without_files ?I h D) G (li_id it)" "it = new_item (G (li_id it)) (li_id it)"
      using files by (auto simp: files_ok_def file_ok_def)
    assume "item_at ?M j jt" "li_id it = li_id jt"
    then show "i = j" using a at files unfolding files_ok_def by blast
  qed
  moreover have "cache_ok ?M (without_files ?I h D) (ct ?M)"
    unfolding cache_ok_def
  proof (intro conjI allI impI)
    show "sc_valid (ls_cache (without_files ?I h D))" using assms(3) by (simp add: cache_keyed_def)
    fix q b
    assume "sc_holds (ls_cache (without_files ?I h D)) q b"
    then have "sc_holds (ls_cache D) q b" using assms(3) by simp
    with cache obtain r where r: "r < ct M" "q = cache_key r"
      "\<forall>j it. item_at M j it \<longrightarrow> li_id it = r \<longrightarrow> (\<exists>data. ls_tables D r = Some data \<and> to_open ops data = Inr b)"
      by (rule cache_okE)
    show "\<exists>i<ct ?M. q = cache_key i \<and> (\<forall>j it. item_at ?M j it \<longrightarrow> li_id it = i \<longrightarrow>
        (\<exists>data. ls_tables (without_files ?I h D) i = Some data \<and> to_open ops data = Inr b))"
    proof (intro exI [of _ r] conjI allI impI)
      fix j it
      assume a: "item_at ?M j it" "li_id it = r"
      then have "item_at M j it" "r \<notin> ?I" using at kept [OF a(1)] a(2) by blast+
      then show "\<exists>data. ls_tables (without_files ?I h D) r = Some data \<and> to_open ops data = Inr b"
        using r(3) a(2) by auto
    qed (use r in auto)
  qed
  ultimately show "lt_inv U ?M (without_files ?I h D) G" using shape' by (simp add: lt_inv_def)
  show "level_map ?M G j = (if j = l then Map.empty else level_map M G j)"
  proof (cases "j = l")
    case True
    then show ?thesis by (simp add: level_map_empty)
  next
    case False
    then have "map (items_in ?M) (me_comp M j) = map (items_in M) (me_comp M j)"
      unfolding live(2) using shape_okD(3) [OF shape, of _ j l] by (intro map_cong) auto
    then have "level_items ?M j = level_items M j" using False by (simp only: level_items_def cleared_simps if_False)
    then show ?thesis using False by (simp add: level_map_def)
  qed
qed

end

end
