(* ===== verification/LevelAdd.thy ===== *)
theory LevelAdd
  imports LevelInvariant
begin

text \<open>
  What \<open>AddToComponent\<close> does to the entries of a level table: with enough steps it ends, and then the entries of the
  new table override those of its level and the deeper ones.
\<close>

section \<open>Steps that come down to another step\<close>

definition becomes :: "meta \<Rightarrow> 't level_state \<Rightarrow> ('t level_state, 'a) act \<Rightarrow> meta \<Rightarrow> 't level_state \<Rightarrow> ('t level_state, 'a) act \<Rightarrow> bool" where
  "becomes M D m M0 D0 m0 \<longleftrightarrow> (\<forall>s. shows_at M D s \<longrightarrow> (\<exists>s0. shows_at M0 D0 s0 \<and> m s = m0 s0))"

lemma becomes_goes: "becomes M D m M0 D0 m0 \<Longrightarrow> goes M0 D0 m0 r M' D' \<Longrightarrow> goes M D m r M' D'"
  unfolding becomes_def goes_def by metis

lemma becomes_stuck: "becomes M D m M0 D0 m0 \<Longrightarrow> stuck M0 D0 m0 \<Longrightarrow> stuck M D m"
  unfolding becomes_def stuck_def by metis

lemma becomes_refl: "becomes M D m M D m"
  unfolding becomes_def by blast

lemma becomes_trans: "becomes M D m M1 D1 m1 \<Longrightarrow> becomes M1 D1 m1 M2 D2 m2 \<Longrightarrow> becomes M D m M2 D2 m2"
  unfolding becomes_def by metis

lemma becomes_bind: "goes M D m (Inr x) M1 D1 \<Longrightarrow> becomes M1 D1 (f x) M2 D2 m2 \<Longrightarrow> becomes M D (act_bind m f) M2 D2 m2"
  unfolding becomes_def goes_def by (metis act_bind_Some(1))

text \<open>Options with which a call always returns.\<close>

definition safe :: "level_option \<Rightarrow> bool" where
  "safe opt \<longleftrightarrow> lo_max_tables opt = 0 \<and> lo_max_views opt \<noteq> 1"

context table_service
begin

section \<open>Adding a table\<close>

text \<open>
  What adding table \<open>n\<close> to level \<open>l\<close> does: on the levels from \<open>l\<close> on its entries override the others, the levels below
  stay, and the numbers grow by no more than the levels there are.
\<close>

definition added :: "(bytes \<times> bytes) set \<Rightarrow> meta \<Rightarrow> 't level_state \<Rightarrow> (nat \<Rightarrow> (bytes \<times> bytes) list) \<Rightarrow> nat \<Rightarrow> nat \<Rightarrow>
    meta \<Rightarrow> 't level_state \<Rightarrow> (nat \<Rightarrow> (bytes \<times> bytes) list) \<Rightarrow> bool" where
  "added U M D G n l M' D' G' \<longleftrightarrow> lt_inv U M' D' G' \<and> upper M' G' l = upper M G l ++ map_of (G n) \<and>
     (\<forall>j<l. me_comp M' j = me_comp M j \<and> level_map M' G' j = level_map M G j) \<and>
     (\<forall>i it. item_at M' i it \<longrightarrow> (\<exists>j jt. item_at M j jt \<and> li_id jt = li_id it) \<or> li_id it = n \<or> ct M \<le> li_id it) \<and>
     ct M \<le> ct M' \<and> ct M' \<le> ct M + (Suc (ml M) - l) \<and> cv M' \<le> Suc (cv M) \<and> l \<le> ml M' \<and> ml M' \<le> max l (Suc (ml M)) \<and>
     (\<forall>c\<in>{Current_memory, Prev_memory}. me_counter M' c = me_counter M c) \<and>
     me_counter M' Prev_table = ct M' \<and> (me_counter M Prev_view = cv M \<longrightarrow> me_counter M' Prev_view = cv M') \<and>
     (\<exists>h f. D' = D\<lparr>ls_cache := h, ls_tables := f\<rparr>)"

text \<open>What a failure leaves: the counter of tables and files that nothing refers to.\<close>

definition failed :: "meta \<Rightarrow> 't level_state \<Rightarrow> nat \<Rightarrow> meta \<Rightarrow> 't level_state \<Rightarrow> bool" where
  "failed M D n M' D' \<longleftrightarrow> (\<exists>k f. M' = with_counter Current_table k M \<and> n \<le> k \<and> k \<le> Suc (ct M) \<and>
     D' = D\<lparr>ls_tables := f\<rparr> \<and> (\<forall>i<n. f i = ls_tables D i))"

lemma merged_nonempty:
  assumes "map_of R = merged (Ls @ [L])" and "L \<noteq> []"
  shows "R \<noteq> []"
proof -
  obtain k v L' where "L = (k, v) # L'" using assms(2) by (metis list.exhaust surj_pair)
  then have "merged (Ls @ [L]) k \<noteq> None" by (simp add: merged_append)
  then show ?thesis unfolding assms(1) [symmetric] by (cases R) auto
qed

text \<open>After the merged table \<open>k\<close> was added to the next level, the level is emptied.\<close>

lemma cleared_added:
  assumes inv: "lt_inv U M D G" and pend: "pending U M D G n" and ne: "me_comp M l \<noteq> []" and k: "k = ct M"
    and maps: "\<And>j. level_map M1 G1 j = level_map M G j" and M1: "M1 = with_counter Current_table (Suc k) M"
    and D1: "D1 = with_file D k x" and R: "map_of (G1 k) = merged (contents G (level_items M l) @ [G n])"
    and add: "added U M1 D1 G1 k (Suc l) M2 D2 G2" and h: "less_cache h (ls_cache D2)"
  shows "added U M D G n l (cleared M2 l) (without_files (insert n (li_id ` set (level_items M2 l))) h D2) G2"
proof -
  have shape: "shape_ok M" using inv by (simp add: lt_inv_def)
  have l: "l \<le> ml M" using ne shape_okD(1) [OF shape] not_le by blast
  have less: "li_id it < n" if "item_at M i it" for i it using that pend unfolding pending_def by blast
  have nk: "n < k" using pend by (simp add: pending_def k)
  have at: "item_at M1 = item_at M" unfolding M1 by (intro ext) (simp add: item_at_def live_def items_in_def)
  have inv2: "lt_inv U M2 D2 G2" and up2: "upper M2 G2 (Suc l) = upper M1 G1 (Suc l) ++ map_of (G1 k)"
    and lower: "\<And>j. j < Suc l \<Longrightarrow> me_comp M2 j = me_comp M1 j \<and> level_map M2 G2 j = level_map M1 G1 j"
    and ids: "\<And>i it. item_at M2 i it \<Longrightarrow> (\<exists>j jt. item_at M1 j jt \<and> li_id jt = li_id it) \<or> li_id it = k \<or> ct M1 \<le> li_id it"
    and bounds: "ct M1 \<le> ct M2" "ct M2 \<le> ct M1 + (Suc (ml M1) - Suc l)" "cv M2 \<le> Suc (cv M1)" "Suc l \<le> ml M2"
      "ml M2 \<le> max (Suc l) (Suc (ml M1))"
    and mem: "\<And>c. c \<in> {Current_memory, Prev_memory} \<Longrightarrow> me_counter M2 c = me_counter M1 c"
    and prev: "me_counter M2 Prev_table = ct M2" "me_counter M1 Prev_view = cv M1 \<longrightarrow> me_counter M2 Prev_view = cv M2"
    and rest: "\<exists>h f. D2 = D1\<lparr>ls_cache := h, ls_tables := f\<rparr>"
    using add unfolding added_def by blast+
  have ids': "(\<exists>j jt. item_at M j jt \<and> li_id jt = li_id it) \<or> k \<le> li_id it" if "item_at M2 i it" for i it
    using ids [OF that] unfolding at unfolding M1 by auto
  have fresh: "\<forall>i it. item_at M2 i it \<longrightarrow> li_id it \<noteq> n"
  proof (intro allI impI notI)
    fix i it
    assume "item_at M2 i it" "li_id it = n"
    with ids' [OF this(1)] nk obtain j jt where "item_at M j jt" "li_id jt = n" by auto
    with less [of j jt] show False by simp
  qed
  note ok = cleared_ok [OF inv2 fresh h, where l = l]
  have shape2: "shape_ok M2" and shape3: "shape_ok (cleared M2 l)"
    using inv2 ok(1) unfolding lt_inv_def by blast+
  have shape1: "shape_ok M1" using shape unfolding M1 by (simp add: shape_ok_def live_def)
  have "upper (cleared M2 l) G2 l = upper (cleared M2 l) G2 (Suc l) ++ level_map (cleared M2 l) G2 l"
    by (rule upper_step [OF shape_okD(1) [OF shape3]])
  also have "upper (cleared M2 l) G2 (Suc l) = upper M2 G2 (Suc l)"
    using ok(2) by (intro upper_cong shape_okD(1) [OF shape3] shape_okD(1) [OF shape2]) simp
  also have "level_map (cleared M2 l) G2 l = Map.empty" using ok(2) by simp
  finally have up: "upper (cleared M2 l) G2 l = upper M2 G2 (Suc l)" by simp
  have "upper M1 G1 (Suc l) = upper M G (Suc l)"
    using maps by (intro upper_cong shape_okD(1) [OF shape1] shape_okD(1) [OF shape]) simp
  then have "upper (cleared M2 l) G2 l = upper M G (Suc l) ++ map_of (G1 k)" unfolding up up2 by simp
  then have "upper (cleared M2 l) G2 l = upper M G l ++ map_of (G n)"
    unfolding R upper_step [OF shape_okD(1) [OF shape], of G l] by (simp add: merged_append level_map_def merged_concat)
  moreover have "me_comp (cleared M2 l) j = me_comp M j \<and> level_map (cleared M2 l) G2 j = level_map M G j" if "j < l" for j
    using that lower [of j] ok(2) maps [of j] by (simp add: M1)
  moreover have "(\<exists>j jt. item_at M j jt \<and> li_id jt = li_id it) \<or> li_id it = n \<or> ct M \<le> li_id it"
    if "item_at (cleared M2 l) i it" for i it
    using ids' ok(3) that unfolding k by blast
  moreover have "ct M \<le> ct M2 \<and> ct M2 \<le> ct M + (Suc (ml M) - l) \<and> cv M2 \<le> Suc (cv M) \<and> l \<le> ml M2 \<and> ml M2 \<le> max l (Suc (ml M))"
    using bounds l by (simp add: M1 k)
  moreover have "\<forall>c\<in>{Current_memory, Prev_memory}. me_counter M2 c = me_counter M c" using mem by (simp add: M1)
  moreover have "me_counter M2 Prev_table = ct M2 \<and> (me_counter M Prev_view = cv M \<longrightarrow> me_counter M2 Prev_view = cv M2)"
    using prev by (simp add: M1)
  moreover have "\<exists>h' f. without_files (insert n (li_id ` set (level_items M2 l))) h D2 = D\<lparr>ls_cache := h', ls_tables := f\<rparr>"
  proof -
    from rest obtain h' f where "D2 = D1\<lparr>ls_cache := h', ls_tables := f\<rparr>" by blast
    then show ?thesis unfolding D1
      by (intro exI [of _ h] exI [of _ "\<lambda>i. if i \<in> insert n (li_id ` set (level_items M2 l)) then None else f i"]) (simp cong: if_cong)
  qed
  ultimately show ?thesis using ok(1) unfolding added_def cleared_simps by blast
qed

lemma push_goes:
  assumes inv: "lt_inv U M D G" and pend: "pending U M D G n" and t: "holds (G n) t" and ne: "me_comp M l \<noteq> []"
    and U: "closed U" "length (me_comp M l) = 1 \<longrightarrow> plain U" and cmp: "lo_cmp opt = None"
    and sizes: "ct M + (Suc (ml M) - l) < 2 ^ 30" "ml M < 2 ^ 30" "cv M < 2 ^ 30 - 1"
    and add: "\<And>D1 G1 t1. lt_inv U (with_counter Current_table (Suc (ct M)) M) D1 G1 \<Longrightarrow>
      pending U (with_counter Current_table (Suc (ct M)) M) D1 G1 (ct M) \<Longrightarrow> holds (G1 (ct M)) t1 \<Longrightarrow>
      (stuck (with_counter Current_table (Suc (ct M)) M) D1 (add t1 (ct M)) \<and> \<not> safe opt) \<or>
      (\<exists>M' D' G'. goes (with_counter Current_table (Suc (ct M)) M) D1 (add t1 (ct M)) (Inr ()) M' D' \<and>
         added U (with_counter Current_table (Suc (ct M)) M) D1 G1 (ct M) (Suc l) M' D' G') \<or>
      (\<exists>e M' D'. goes (with_counter Current_table (Suc (ct M)) M) D1 (add t1 (ct M)) (Inl e) M' D' \<and>
         failed (with_counter Current_table (Suc (ct M)) M) D1 (ct M) M' D')"
  shows "(stuck M D (push_down ops opt add (me_comp M l) t n l) \<and> (length (me_comp M l) = 1 \<or> \<not> safe opt)) \<or>
    (\<exists>M' D' G'. goes M D (push_down ops opt add (me_comp M l) t n l) (Inr ()) M' D' \<and> added U M D G n l M' D' G') \<or>
    (\<exists>e M' D'. goes M D (push_down ops opt add (me_comp M l) t n l) (Inl e) M' D' \<and> failed M D n M' D')"
proof -
  let ?c = "me_comp M l" and ?k = "ct M"
  let ?M = "with_counter Current_table (Suc ?k) M"
  let ?erase = "l = ml ?M \<and> length ?c = 1"
  have shape: "shape_ok M" using inv by (simp add: lt_inv_def)
  have l: "l \<le> ml M" using ne shape_okD(1) [OF shape] not_le by blast
  have less: "\<forall>i it. item_at M i it \<longrightarrow> li_id it < ?k" using inv by (simp add: lt_inv_def files_ok_def)
  have cache: "cache_ok M D ?k" using inv by (simp add: lt_inv_def)
  have n: "file_ok U D G n" "n < ?k" "\<forall>i it. item_at M i it \<longrightarrow> li_id it < n" "cache_ok M D n"
    using pend by (simp_all add: pending_def)
  have k: "add64 ?k 1 = Suc ?k" "?k < 2 ^ 63" "Suc ?k < 2 ^ 63" using sizes by (simp_all add: add64_small)
  note above = inv_files_above [OF inv less cache, where k = "Suc ?k"]
  have inv': "lt_inv U ?M D G" and at': "item_at ?M = item_at M"
    using above(1,4) [of "ls_tables D" G] by simp_all
  have less': "\<forall>i it. item_at ?M i it \<longrightarrow> li_id it < ?k" using less at' by simp
  define F where "F = (\<lambda>new_table. act_bind (act_catch (add new_table ?k) (put_counter Current_table ?k)) (\<lambda>_.
         act_bind (act_modify (put_component l [])) (\<lambda>_. act_bind (save_component l []) (\<lambda>_.
           act_bind (act_each (delete_view None) ?c) (\<lambda>_. act_bind (delete_table n) (\<lambda>_.
             act_bind (get_counter Max_level) (\<lambda>max_level'.
               if l \<noteq> 0 \<and> max_level' = l then set_counter Max_level (l - 1) else act_return ())))))))"
  let ?P = "push_down ops opt add ?c t n l" and ?m = "merge_tables_of ops opt (me_comp ?M l) ?k ?erase t"
  have start: "goes M D ?P r M' D'" if "goes ?M D (act_bind ?m F) r M' D'" for r M' D'
    unfolding push_down_def cmp
    apply (rule goes_bind [OF goes_get_counter])
    apply (rule goes_bind [OF goes_set_counter])
    using k apply simp
    unfolding k(1)
    apply (rule goes_bind [OF goes_get_counter])
    using that by (simp add: F_def)
  have start_stuck: "stuck M D ?P" if "stuck ?M D (act_bind ?m F)"
    unfolding push_down_def cmp
    apply (rule stuck_bind [OF goes_get_counter])
    apply (rule stuck_bind [OF goes_set_counter])
    using k apply simp
    unfolding k(1)
    apply (rule stuck_bind [OF goes_get_counter])
    using that by (simp add: F_def)
  have erase: "?erase \<longrightarrow> plain U" using U(2) by blast
  have ne': "me_comp ?M l \<noteq> []" using ne by simp
  from merge_goes [OF inv' n(1) t less' ne' U(1) erase cmp]
  consider (stuck) "stuck ?M D ?m" "length ?c = 1"
    | (failed) e x where "goes ?M D ?m (Inl e) ?M (with_file D ?k x)"
    | (merged) t1 data R where "goes ?M D ?m (Inr t1) ?M (with_file D ?k (Some data))" "holds R t1" "opens data R" "keys_ascend R"
        "set R \<subseteq> U" "map_of R = merged (contents G (level_items ?M l) @ [G n])"
    by auto
  then show ?thesis
  proof cases
    case stuck
    then show ?thesis using start_stuck [OF stuck_bind_first] by blast
  next
    case failed
    have "failed M D n ?M (with_file D ?k x)"
      using n(2) unfolding failed_def by (intro exI [of _ "Suc ?k"] exI [of _ "(ls_tables D)(?k := x)"]) simp
    with start [OF goes_bind_Inl [OF failed]] show ?thesis by blast
  next
    case merged
    let ?D = "with_file D ?k (Some data)" and ?G = "G(?k := R)"
    have inv1: "lt_inv U ?M ?D ?G" and cache1: "cache_ok ?M ?D ?k" and maps1: "\<And>j. level_map ?M ?G j = level_map M G j"
      using above [of "(ls_tables D)(?k := Some data)" ?G] by simp_all
    have "R \<noteq> []" using merged_nonempty [OF merged(6)] n(1) by (simp add: file_ok_def)
    then have pend1: "pending U ?M ?D ?G ?k"
      using merged(3,5) less' cache1 by (simp add: pending_def file_ok_def)
    have "holds (?G ?k) t1" using merged(2) by simp
    note rec = add [OF inv1 pend1 this]
    have merged_run: "goes M D ?P r M' D'" if "goes ?M ?D (F t1) r M' D'" for r M' D'
      by (rule start, rule goes_bind [OF merged(1)], rule that)
    from rec consider (stuck') "stuck ?M ?D (add t1 ?k)" "\<not> safe opt"
      | (added') M2 D2 G2 where "goes ?M ?D (add t1 ?k) (Inr ()) M2 D2" "added U ?M ?D ?G ?k (Suc l) M2 D2 G2"
      | (failed') e M2 D2 where "goes ?M ?D (add t1 ?k) (Inl e) M2 D2" "failed ?M ?D ?k M2 D2" by blast
    then show ?thesis
    proof cases
      case stuck'
      then have "stuck ?M ?D (F t1)" unfolding F_def by (intro stuck_bind_first stuck_catch)
      then have "stuck M D ?P" by (intro start_stuck stuck_bind [where f = F, OF merged(1)])
      then show ?thesis using stuck'(2) by blast
    next
      case failed'
      have "shows_at (with_counter Current_table ?k M2) D2 (put_counter Current_table ?k s)" if "shows_at M2 D2 s" for s
        using shows_put_counter [OF that k(2)] .
      then have "goes ?M ?D (F t1) (Inl e) (with_counter Current_table ?k M2) D2"
        unfolding F_def by (intro goes_bind_Inl goes_catch_Inl [OF failed'(1)])
      moreover have "failed M D n (with_counter Current_table ?k M2) D2"
        using failed'(2) n(2) unfolding failed_def by (elim exE conjE, intro exI [of _ ?k]) auto
      ultimately show ?thesis using merged_run by blast
    next
      case added'
      have M2: "lt_inv U M2 D2 G2" "me_comp M2 l = ?c" "Suc l \<le> ml M2" "cv M2 \<le> Suc (cv M)"
        using added'(2) by (simp_all add: added_def)
      have shape2: "shape_ok M2" and cache2: "cache_keyed (ls_cache D2)"
        using M2(1) cache_ok_keyed by (auto simp: lt_inv_def)
      let ?M3 = "M2\<lparr>me_comp := (me_comp M2)(l := [])\<rparr>"
      have views: "\<forall>i\<in>set ?c. me_view ?M3 i = Some (items_in M2 i) \<and> i < 2 ^ 63"
      proof
        fix i
        assume "i \<in> set ?c"
        then have "live M2 i" unfolding live_def by (intro exI [of _ l]) (simp add: M2(2))
        from shape_okD(4,6) [OF shape2 this] show "me_view ?M3 i = Some (items_in M2 i) \<and> i < 2 ^ 63"
          using M2(4) sizes(3) by simp
      qed
      from goes_delete_views [OF cache2 views shape_okD(2) [OF shape]] obtain h where h: "less_cache h (ls_cache D2)"
        "goes ?M3 D2 (act_each (delete_view None) ?c) (Inr (map (\<lambda>_. ()) ?c)) (without_views (set ?c) ?M3)
          (without_files (li_id ` set (concat (map (items_in M2) ?c))) h D2)" by blast
      let ?D3 = "without_files (li_id ` set (level_items M2 l)) h D2"
      have items: "concat (map (items_in M2) ?c) = level_items M2 l" by (simp add: level_items_def M2(2))
      from goes_delete_one [of ?D3 "without_views (set ?c) ?M3" n] h(1) obtain h' where h': "less_cache h' h"
        "goes (without_views (set ?c) ?M3) ?D3 (delete_table n) (Inr ()) (without_views (set ?c) ?M3) (without_files {n} h' ?D3)" by auto
      have M4: "without_views (set ?c) ?M3 = cleared M2 l" by (rule meta.equality) (simp_all add: cleared_def M2(2) cong: if_cong)
      let ?D4 = "without_files (insert n (li_id ` set (level_items M2 l))) h' D2"
      have D4: "without_files {n} h' ?D3 = ?D4"
        by (simp, intro arg_cong [where f = "\<lambda>f. D2\<lparr>ls_cache := h', ls_tables := f\<rparr>"] ext) auto
      have "goes ?M ?D (F t1) (Inr ()) (cleared M2 l) ?D4"
        unfolding F_def
        apply (rule goes_bind [OF goes_catch [OF added'(1)]])
        apply (rule goes_put_save_component_then)
        using l sizes(2) apply simp_all
        apply (rule goes_bind [OF h(2)])
        unfolding items
        apply (rule goes_bind [OF h'(2)])
        apply (rule goes_bind [OF goes_get_counter])
        unfolding M4 D4
        using M2(3) apply (simp add: goes_return)
        done
      moreover have "items_in ?M = items_in M" by (intro ext) (simp add: items_in_def)
      then have "level_items ?M l = level_items M l" by (simp add: level_items_def)
      then have "map_of (?G ?k) = merged (contents G (level_items M l) @ [G n])" using merged(6) by simp
      from cleared_added [OF inv pend ne refl maps1 refl refl this added'(2)] have "added U M D G n l (cleared M2 l) ?D4 G2"
        using h(1) h'(1) by blast
      ultimately show ?thesis using merged_run by blast
    qed
  qed
qed

text \<open>A table put into one level.\<close>

lemma level_added:
  assumes "lt_inv U M D G" and "lt_inv U M' D G"
    and maps: "\<And>j. level_map M' G j = (if j = l then level_map M G l ++ map_of (G n) else level_map M G j)"
    and "\<forall>j<l. me_comp M' j = me_comp M j" and "\<And>i it. item_at M' i it \<Longrightarrow> item_at M i it \<or> li_id it = n"
    and "ct M' = ct M" and "cv M' \<le> Suc (cv M)" and "ml M' = max l (ml M)"
    and "\<forall>c\<in>{Current_memory, Prev_memory}. me_counter M' c = me_counter M c"
    and "me_counter M' Prev_table = ct M'" and "me_counter M Prev_view = cv M \<Longrightarrow> me_counter M' Prev_view = cv M'"
  shows "added U M D G n l M' D G"
proof -
  have n: "no_deeper M" "no_deeper M'" using assms(1,2) shape_okD(1) by (auto simp: lt_inv_def)
  have "upper M' G (Suc l) = upper M G (Suc l)" using maps by (intro upper_cong n) simp
  then have "upper M' G l = upper M G l ++ map_of (G n)"
    using upper_step [OF n(1), of G l] upper_step [OF n(2), of G l] maps [of l] by simp
  moreover have "\<exists>h f. D = D\<lparr>ls_cache := h, ls_tables := f\<rparr>" by (intro exI [of _ "ls_cache D"] exI [of _ "ls_tables D"]) simp
  moreover have "\<forall>i it. item_at M' i it \<longrightarrow> (\<exists>j jt. item_at M j jt \<and> li_id jt = li_id it) \<or> li_id it = n \<or> ct M \<le> li_id it"
    using assms(5) by blast
  ultimately show ?thesis using assms(2,4,6-11) maps unfolding added_def by simp
qed

lemma view_small:
  assumes "lt_inv U M D G" and "live M i" and "ct M < 2 ^ 30"
  shows "\<forall>it\<in>set (items_in M i). li_ok it" and "length (items_in M i) \<le> 2 ^ 30"
proof -
  have f: "li_id it < ct M" "file_ok U D G (li_id it)" "it = new_item (G (li_id it)) (li_id it)" if "it \<in> set (items_in M i)" for it
    using that assms(1,2) unfolding lt_inv_def files_ok_def item_at_def by blast+
  show "\<forall>it\<in>set (items_in M i). li_ok it"
  proof
    fix it
    assume it: "it \<in> set (items_in M i)"
    have "li_id it < 2 ^ 31" using f(1) [OF it] assms(3) by simp
    then show "li_ok it" using file_ok_item(3) [OF f(2) [OF it]] f(3) [OF it] by simp
  qed
  have wf: "lv_wf (view_of i (items_in M i))" using shape_okD(6) assms(1,2) by (simp add: lt_inv_def)
  have "distinct (items_in M i)" using key_order.ranges_distinct [OF lv_wfD(1,2) [OF wf]] by simp
  moreover have "inj_on li_id (set (items_in M i))" using f(3) by (intro inj_onI) metis
  ultimately have "length (items_in M i) = card (li_id ` set (items_in M i))" by (simp add: card_image distinct_card)
  also have "\<dots> \<le> card {..<ct M}" using f(1) by (intro card_mono) auto
  finally show "length (items_in M i) \<le> 2 ^ 30" using assms(3) by simp
qed

lemma goes_table_count:
  assumes "shape_ok M"
  shows "\<exists>N. goes M D (get_table_count None (me_comp M l)) (Inr N) M D"
  unfolding get_table_count_def by (rule exI, rule goes_bind [OF goes_views [OF assms]], rule goes_return)

lemma goes_new_view:
  assumes inv: "lt_inv U M D G" and pend: "pending U M D G n" and l: "l \<le> Suc (ml M)" and sizes: "ct M < 2 ^ 30" "cv M < 2 ^ 30 - 1"
    and M0: "M0 = (if ml M < l then with_counter Max_level l M else M)" and "ml M < 2 ^ 30"
  shows "\<exists>M'. goes M0 D (add_view (fst (hd (G n))) (fst (last (G n))) n (me_comp M l) l) (Inr ()) M' D \<and> added U M D G n l M' D G"
proof -
  let ?it = "new_item (G n) n" and ?M' = "view_added M0 (new_item (G n) n) l"
  have n: "file_ok U D G n" "n < ct M" using pend by (simp_all add: pending_def)
  have inv0: "lt_inv U M0 D G" and pend0: "pending U M0 D G n"
    using raised_inv [OF inv, of l] inv pend unfolding M0 by simp_all
  have shape: "shape_ok M" and shape0: "shape_ok M0" using inv inv0 by (simp_all add: lt_inv_def)
  have same: "level_map M0 G j = level_map M G j" "me_comp M0 = me_comp M" "item_at M0 = item_at M" "ml M0 = max l (ml M)"
    "ct M0 = ct M" "cv M0 = cv M" for j
    using raised(3,4) [OF shape, of l] unfolding M0 by simp_all
  have it: "li_ok ?it" "\<not> bytes_less (li_end ?it) (li_begin ?it)"
    using file_ok_item(2,3) [OF n(1)] n(2) sizes(1) by simp_all
  have go: "goes M0 D (add_view (li_begin ?it) (li_end ?it) (li_id ?it) (me_comp M0 l) l) (Inr ()) ?M' D"
    using sizes l assms(7) same by (intro goes_add_view [OF shape0 it]) simp_all
  have l0: "l \<le> ml M0" by (simp add: same)
  note sh = view_added_shape [OF shape0 it(2) l0]
  have "lt_inv U ?M' D G" by (rule inv_add_item [OF inv0 pend0 sh(1) _ sh(2)]) simp
  moreover have "level_map ?M' G j = (if j = l then level_map M G l ++ map_of (G n) else level_map M G j)" for j
    unfolding view_added_maps [OF shape0] same(1) by simp
  moreover have "\<forall>j<l. me_comp ?M' j = me_comp M j" by (simp add: view_added_def same)
  moreover have "item_at M i x \<or> li_id x = n" if "item_at ?M' i x" for i x
    using that unfolding sh(2) same(3) by auto
  ultimately have "added U M D G n l ?M' D G"
  proof (rule level_added [OF inv])
    show "\<forall>c\<in>{Current_memory, Prev_memory}. me_counter ?M' c = me_counter M c" unfolding view_added_def M0 by simp
    show "me_counter ?M' Prev_table = ct ?M'" "me_counter ?M' Prev_view = cv ?M'" unfolding view_added_def by simp_all
  qed (simp_all add: same)
  with go show ?thesis unfolding same(2) by auto
qed

text \<open>A table put into the last view of its level.\<close>

lemma goes_last_view:
  assumes inv: "lt_inv U M D G" and pend: "pending U M D G n" and ne: "me_comp M l \<noteq> []" and sizes: "ct M < 2 ^ 30"
    and i: "i = last (me_comp M l)" and put: "lv_try_put (fst (hd (G n))) (fst (last (G n))) n (view_of i (items_in M i)) = (True, v)"
  shows "\<exists>M'. goes M D (act_bind (act_modify (put_view i v)) (\<lambda>_. act_bind (get_counter Current_table) (\<lambda>m.
      act_bind (set_counter Prev_table m) (\<lambda>_. save_view i v)))) (Inr ()) M' D \<and> added U M D G n l M' D G"
proof -
  let ?it = "new_item (G n) n" and ?its = "items_in M i"
  have n: "file_ok U D G n" "n < ct M" using pend by (simp_all add: pending_def)
  have shape: "shape_ok M" using inv by (simp add: lt_inv_def)
  have l: "l \<le> ml M" using ne shape_okD(1) [OF shape] not_le by blast
  have live: "live M i" using last_in_set [OF ne] unfolding live_def i by blast
  have view: "me_view M i = Some ?its" and wf: "lv_wf (view_of i ?its)" using shape_okD(6) [OF shape live] by simp_all
  have it: "\<not> bytes_less (li_end ?it) (li_begin ?it)" "covered G ?it" using file_ok_item(2,4) [OF n(1)] by blast+
  have order: "\<not> key_less (lv_cmp (view_of i ?its)) (fst (last (G n))) (fst (hd (G n)))" using it(1) by (simp add: key_less_None)
  let ?its' = "insert_at (lv_find (view_of i ?its) (fst (hd (G n)))) ?it ?its"
  have meets: "meets_none None (fst (hd (G n))) (fst (last (G n))) ?its" and v: "v = view_of i ?its'"
    using put unfolding lv_try_put_result [OF wf order] by (auto split: if_splits)
  have wf': "lv_wf (view_of i ?its')" using lv_insert_wf [OF wf order, of n] meets by simp
  let ?M' = "view_changed M i ?its'"
  have sh: "shape_ok ?M'" "\<And>j x. item_at ?M' j x \<longleftrightarrow> item_at M j x \<or> j = i \<and> x = ?it"
    using view_changed_shape [OF shape live wf', of ?it] by simp_all
  have inv': "lt_inv U ?M' D G" by (rule inv_add_item [OF inv pend sh(1) _ sh(2)]) simp
  have "merged (contents G ?its') = merged (contents G ?its) ++ map_of (G n)"
    using view_insert [OF wf' inv_covered [OF inv live] it(2) wf] meets by simp
  from view_changed_maps [OF shape ne i this]
  have maps: "level_map ?M' G j = (if j = l then level_map M G l ++ map_of (G n) else level_map M G j)" for j .
  have small: "\<forall>it\<in>set ?its'. li_ok it" "length ?its' \<le> 2 ^ 30"
    using view_small [OF inv', of i] live sizes by simp_all
  have "goes M D (act_bind (act_modify (put_view i v)) (\<lambda>_. act_bind (get_counter Current_table) (\<lambda>m.
      act_bind (set_counter Prev_table m) (\<lambda>_. save_view i v)))) (Inr ()) ?M' D"
    unfolding v using goes_change_view [OF view small] unfolding view_changed_def .
  moreover have "added U M D G n l ?M' D G"
  proof (rule level_added [OF inv inv' maps])
    show "item_at M j x \<or> li_id x = n" if "item_at ?M' j x" for j x using that unfolding sh(2) by auto
  qed (use l in \<open>simp_all add: view_changed_def\<close>)
  ultimately show ?thesis by blast
qed

lemma add_to_component_step:
  "add_to_component ops opt t n l = act_bind (get_component l) (\<lambda>c.
       act_bind (get_counter Max_level) (\<lambda>level.
         if to_empty ops t then
           act_bind (get_counter Current_table) (\<lambda>n.
             act_bind (set_counter Prev_table n) (\<lambda>_.
               if level = l \<and> c = [] then set_counter Max_level (sub64 level 1) else act_return ()))
         else
           act_bind (if level < l then set_counter Max_level l else act_return ()) (\<lambda>_.
             act_bind (act_lift (to_ends ops t)) (\<lambda>(first_key, last_key).
               if c = [] then add_view first_key last_key n c l
               else
                 act_bind (get_table_count (lo_cmp opt) c) (\<lambda>count.
                   if lo_max_tables opt \<noteq> 0 \<and> count = lo_max_tables opt then
                     push_down ops opt (\<lambda>t' i. add_to_component ops opt t' i (Suc l)) c t n l
                   else
                     act_bind (get_view (lo_cmp opt) (last c)) (\<lambda>v.
                       let (r, v') = lv_try_put first_key last_key n v in
                         act_bind (act_modify (put_view (last c) v')) (\<lambda>_.
                           if \<not> r then
                             (if lo_max_views opt \<noteq> 0 \<and> length c = lo_max_views opt then
                                push_down ops opt (\<lambda>t' i. add_to_component ops opt t' i (Suc l)) c t n l
                              else add_view first_key last_key n c l)
                           else
                             act_bind (get_counter Current_table) (\<lambda>m.
                               act_bind (set_counter Prev_table m) (\<lambda>_. save_view (last c) v')))))))))"
  by (rule ext, subst add_to_component.simps, unfold Suc_eq_plus1, rule refl)

text \<open>What the rest of the development needs to know of the outcome of a step that adds table \<open>n\<close> to level \<open>l\<close>.\<close>

definition adds :: "(bytes \<times> bytes) set \<Rightarrow> level_option \<Rightarrow> meta \<Rightarrow> 't level_state \<Rightarrow> (nat \<Rightarrow> (bytes \<times> bytes) list) \<Rightarrow> nat \<Rightarrow> nat \<Rightarrow>
    ('t level_state, unit) act \<Rightarrow> bool" where
  "adds U opt M D G n l m \<longleftrightarrow> (stuck M D m \<and> \<not> safe opt) \<or>
     (\<exists>M' D' G'. goes M D m (Inr ()) M' D' \<and> added U M D G n l M' D' G') \<or>
     (\<exists>e M' D'. goes M D m (Inl e) M' D' \<and> failed M D n M' D')"

lemma adds_becomes: "becomes M D m M D m0 \<Longrightarrow> adds U opt M D G n l m0 \<Longrightarrow> adds U opt M D G n l m"
  unfolding adds_def using becomes_goes [of M D m M D m0] becomes_stuck [of M D m M D m0] by blast

lemma adds_goes: "\<exists>M'. goes M0 D m (Inr ()) M' D \<and> added U M D G n l M' D G \<Longrightarrow> becomes M D m' M0 D m \<Longrightarrow> adds U opt M D G n l m'"
  unfolding adds_def using becomes_goes [of M D m' M0 D m] by blast

lemma push_adds:
  assumes "lt_inv U M D G" and "pending U M D G n" and "holds (G n) t" and "me_comp M l \<noteq> []" and "closed U"
    and one: "length (me_comp M l) = 1 \<longrightarrow> plain U \<and> \<not> safe opt" and "lo_cmp opt = None"
    and "ct M + (Suc (ml M) - l) < 2 ^ 30" and "ml M < 2 ^ 30 - 1" and "cv M < 2 ^ 30 - 1"
    and "\<And>D1 G1 t1. lt_inv U (with_counter Current_table (Suc (ct M)) M) D1 G1 \<Longrightarrow>
      pending U (with_counter Current_table (Suc (ct M)) M) D1 G1 (ct M) \<Longrightarrow> holds (G1 (ct M)) t1 \<Longrightarrow>
      adds U opt (with_counter Current_table (Suc (ct M)) M) D1 G1 (ct M) (Suc l) (add t1 (ct M))"
  shows "adds U opt M D G n l (push_down ops opt add (me_comp M l) t n l)"
proof -
  have "length (me_comp M l) = 1 \<longrightarrow> plain U" "ml M < 2 ^ 30" using one assms(9) by simp_all
  from push_goes [OF assms(1-5) this(1) assms(7,8) this(2) assms(10), where add = add] assms(11)
  show ?thesis using one unfolding adds_def by blast
qed

lemma add_goes:
  assumes U: "closed U" "\<not> safe opt \<longrightarrow> plain U" and cmp: "lo_cmp opt = None"
  shows "lt_inv U M D G \<Longrightarrow> pending U M D G n \<Longrightarrow> holds (G n) t \<Longrightarrow> l \<le> Suc (ml M) \<Longrightarrow>
    ct M + (Suc (ml M) - l) < 2 ^ 30 \<Longrightarrow> ml M < 2 ^ 30 - 1 \<Longrightarrow> cv M < 2 ^ 30 - 1 \<Longrightarrow>
    adds U opt M D G n l (add_to_component ops opt t n l)"
proof (induction "Suc (ml M) - l" arbitrary: M D G n l t rule: less_induct)
  case less
  note inv = less.prems(1) and pend = less.prems(2) and t = less.prems(3) and l = less.prems(4) and sizes = less.prems(5-7)
  let ?c = "me_comp M l" and ?b = "fst (hd (G n))" and ?e = "fst (last (G n))"
    and ?add = "\<lambda>t i. add_to_component ops opt t i (Suc l)"
  have shape: "shape_ok M" using inv by (simp add: lt_inv_def)
  have ne: "G n \<noteq> []" using pend by (simp add: pending_def file_ok_def)
  then have empty: "\<not> to_empty ops t" and ends: "to_ends ops t = Inr (?b, ?e)"
    using empty_law [OF t] ends_law [OF t] by blast+
  have l63: "l < 2 ^ 63" and ct: "ct M < 2 ^ 30" using l sizes by simp_all
  define M0 where "M0 = (if ml M < l then with_counter Max_level l M else M)"
  have raise: "goes M D (if ml M < l then set_counter Max_level l else act_return ()) (Inr ()) M0 D"
    by (simp add: M0_def goes_set_counter [OF l63] goes_return)
  define body where "body = (if ?c = [] then add_view ?b ?e n ?c l
       else act_bind (get_table_count None ?c) (\<lambda>count.
         if lo_max_tables opt \<noteq> 0 \<and> count = lo_max_tables opt then push_down ops opt ?add ?c t n l
         else act_bind (get_view None (last ?c)) (\<lambda>v.
           let (r, v') = lv_try_put ?b ?e n v in
             act_bind (act_modify (put_view (last ?c) v')) (\<lambda>_.
               if \<not> r then
                 (if lo_max_views opt \<noteq> 0 \<and> length ?c = lo_max_views opt then push_down ops opt ?add ?c t n l
                  else add_view ?b ?e n ?c l)
               else
                 act_bind (get_counter Current_table) (\<lambda>m. act_bind (set_counter Prev_table m) (\<lambda>_. save_view (last ?c) v'))))))"
  have start: "becomes M D (add_to_component ops opt t n l) M0 D body"
    apply (subst add_to_component_step)
    apply (rule becomes_bind [OF goes_get_component [OF l63]])
    apply (rule becomes_bind [OF goes_get_counter])
    unfolding if_not_P [OF empty]
    apply (rule becomes_bind [OF raise])
    apply (rule becomes_bind [OF goes_lift [OF ends]])
    unfolding prod.case cmp body_def
    apply (rule becomes_refl)
    done
  have new: "\<exists>M'. goes M0 D (add_view ?b ?e n ?c l) (Inr ()) M' D \<and> added U M D G n l M' D G"
    using sizes by (intro goes_new_view [OF inv pend l ct _ M0_def]) simp_all
  show ?case
  proof (cases "?c = []")
    case True
    then have "body = add_view ?b ?e n ?c l" by (simp add: body_def)
    with start new show ?thesis using adds_goes by metis
  next
    case False
    then have le: "l \<le> ml M" using shape_okD(1) [OF shape] not_le by blast
    then have M0: "M0 = M" by (simp add: M0_def)
    let ?push = "push_down ops opt ?add ?c t n l" and ?M1 = "with_counter Current_table (Suc (ct M)) M"
    have push: "adds U opt M D G n l ?push" if "length ?c = 1 \<longrightarrow> \<not> safe opt"
    proof (rule push_adds [OF inv pend t False U(1) _ cmp sizes])
      show "length ?c = 1 \<longrightarrow> plain U \<and> \<not> safe opt" using that U(2) by blast
      show "adds U opt ?M1 D1 G1 (ct M) (Suc l) (?add t1 (ct M))"
        if "lt_inv U ?M1 D1 G1" "pending U ?M1 D1 G1 (ct M)" "holds (G1 (ct M)) t1" for D1 G1 t1
        using le sizes by (intro less.hyps [OF _ that]) simp_all
    qed
    obtain N where N: "goes M D (get_table_count None ?c) (Inr N) M D" using goes_table_count [OF shape] by blast
    show ?thesis
    proof (cases "lo_max_tables opt \<noteq> 0 \<and> N = lo_max_tables opt")
      case True
      have "becomes M D body M D ?push"
        unfolding body_def if_not_P [OF False] by (rule becomes_bind [OF N], unfold if_P [OF True], rule becomes_refl)
      with push True start show ?thesis using adds_becomes unfolding M0 safe_def by metis
    next
      case False': False
      let ?i = "last ?c"
      let ?its = "items_in M ?i"
      have live: "live M ?i" using last_in_set [OF False] unfolding live_def by blast
      have view: "me_view M ?i = Some ?its" and wf: "lv_wf (view_of ?i ?its)" using shape_okD(6) [OF shape live] by simp_all
      have n: "file_ok U D G n" using pend by (simp add: pending_def)
      have order: "\<not> key_less (lv_cmp (view_of ?i ?its)) ?e ?b" using file_ok_item(2) [OF n] by (simp add: key_less_None)
      obtain r v' where put: "lv_try_put ?b ?e n (view_of ?i ?its) = (r, v')" by fastforce
      let ?rest = "act_bind (act_modify (put_view ?i v')) (\<lambda>_.
               if \<not> r then (if lo_max_views opt \<noteq> 0 \<and> length ?c = lo_max_views opt then ?push else add_view ?b ?e n ?c l)
               else act_bind (get_counter Current_table) (\<lambda>m. act_bind (set_counter Prev_table m) (\<lambda>_. save_view ?i v')))"
      have rest: "becomes M D body M D ?rest"
        unfolding body_def if_not_P [OF False]
        by (rule becomes_bind [OF N], unfold if_not_P [OF False'], rule becomes_bind [OF goes_get_view [OF view]],
            unfold put Let_def prod.case, rule becomes_refl)
      show ?thesis
      proof (cases r)
        case True
        have go: "\<exists>M'. goes M D ?rest (Inr ()) M' D \<and> added U M D G n l M' D G"
          using goes_last_view [OF inv pend False ct refl, of v'] put True by simp
        show ?thesis by (rule adds_becomes [OF start [unfolded M0] adds_becomes [OF rest adds_goes [OF go becomes_refl]]])
      next
        case no: False
        then have "v' = view_of ?i ?its" using put unfolding lv_try_put_result [OF wf order] by (auto split: if_splits)
        then have same: "goes M D (act_modify (put_view ?i v')) (Inr ()) M D" using goes_same_view [OF view] by simp
        have last: "becomes M D ?rest M D (if lo_max_views opt \<noteq> 0 \<and> length ?c = lo_max_views opt then ?push else add_view ?b ?e n ?c l)"
          by (rule becomes_bind [OF same]) (simp add: no becomes_refl)
        have "adds U opt M D G n l (if lo_max_views opt \<noteq> 0 \<and> length ?c = lo_max_views opt then ?push else add_view ?b ?e n ?c l)"
        proof (cases "lo_max_views opt \<noteq> 0 \<and> length ?c = lo_max_views opt")
          case True
          then have "length ?c = 1 \<longrightarrow> \<not> safe opt" by (simp add: safe_def)
          from push [OF this] True show ?thesis by simp
        next
          case False
          from adds_goes [OF new [unfolded M0] becomes_refl] show ?thesis unfolding if_not_P [OF False] .
        qed
        then show ?thesis by (rule adds_becomes [OF start [unfolded M0] adds_becomes [OF rest adds_becomes [OF last]]])
      qed
    qed
  qed
qed

end

end
