(* ===== verification/LevelRun.thy ===== *)
theory LevelRun
  imports LevelAdd
begin

text \<open>
  The level table over a run of batches: what it stands for is one map, on which every batch acts as on a memory
  table, whether the memory table was full, was dumped, or the dump failed.
\<close>

section \<open>Maps of entries\<close>

text \<open>A table keeps a deleted key as an empty value.\<close>

definition decoded :: "(bytes \<Rightarrow> bytes option) \<Rightarrow> bytes \<Rightarrow> bytes option option" where
  "decoded m k = map_option (\<lambda>v. if v = [] then None else Some v) (m k)"

lemma decoded_add: "decoded (f ++ g) = decoded f ++ decoded g"
  by (intro ext) (simp add: decoded_def map_add_def split: option.split)

lemma decoded_wal_kv: "\<forall>e\<in>set es. snd e \<noteq> Some [] \<Longrightarrow> decoded (map_of (map wal_kv es)) = map_of es"
proof (induction es)
  case (Cons e es)
  obtain k v where e: "e = (k, v)" by fastforce
  have v: "v \<noteq> Some []" and es: "decoded (map_of (map wal_kv es)) = map_of es" using Cons by (simp_all add: e)
  show ?case
  proof (rule ext)
    fix x
    have "decoded (map_of (map wal_kv es)) x = map_of es x" using es by simp
    then show "decoded (map_of (map wal_kv (e # es))) x = map_of (e # es) x"
      using v by (auto simp: decoded_def wal_kv_def e split: option.split)
  qed
qed (simp add: decoded_def fun_eq_iff)

abbreviation act_item :: "action \<Rightarrow> bytes option" where
  "act_item a \<equiv> if act_type a = Put then Some (act_value a) else None"

lemma mt_internal_action_Cons: "mt_internal_action False (a # b) f = mt_internal_action False b (f(act_key a := Some (act_item a)))"
  by (simp add: mt_internal_put_def mt_internal_delete_def)

lemma mt_internal_action_add: "mt_internal_action False b (f ++ g) = f ++ mt_internal_action False b g"
  by (induction b arbitrary: g)
    (simp, simp only: mt_internal_action_Cons map_add_upd [symmetric])

lemma mt_internal_action_dom: "f \<noteq> Map.empty \<or> b \<noteq> [] \<Longrightarrow> mt_internal_action False b f \<noteq> Map.empty"
proof (induction b arbitrary: f)
  case (Cons a b)
  have "f(act_key a := Some (act_item a)) \<noteq> Map.empty" by (metis fun_upd_same option.distinct(1))
  then show ?case unfolding mt_internal_action_Cons using Cons.IH by blast
qed simp

lemma merge_imms_map_of:
  assumes "good_comparator cmp"
  shows "mm_sorted cmp (merge_imms cmp ms) \<and> map_of (merge_imms cmp ms) = map_of (concat (map mm_entries (rev ms)))"
proof -
  have "mm_sorted cmp (fold (mm_emplace cmp) es xs) \<and> map_of (fold (mm_emplace cmp) es xs) = map_of es ++ map_of xs"
    if "mm_sorted cmp xs" for es xs
    using that
  proof (induction es arbitrary: xs)
    case (Cons e es)
    note step = mm_emplace_map_of [OF assms Cons.prems, of e]
    have "map_of es ++ ([fst e \<mapsto> snd e] ++ map_of xs) = map_of (e # es) ++ map_of xs"
      unfolding map_add_assoc by (cases e) simp
    moreover note step Cons.IH [OF step(1)]
    ultimately show ?case by (simp only: fold_simps simp_thms)
  qed simp
  from this [of "[]"] show ?thesis by (simp add: merge_imms_def)
qed

section \<open>What the memory tables keep\<close>

definition mems_map :: "mem_table list \<Rightarrow> items" where
  "mems_map ms = map_of (concat (map mm_entries (rev ms)))"

lemma mems_map_append: "mems_map (ms @ [m]) = mems_map ms ++ map_of (mm_entries m)"
  by (simp add: mems_map_def)

definition mem_ok :: "(bytes \<times> bytes) set \<Rightarrow> mem_table \<Rightarrow> bool" where
  "mem_ok U m \<longleftrightarrow> mm_sorted None (mm_entries m) \<and> (\<forall>e\<in>set (mm_entries m). wal_kv e \<in> U \<and> snd e \<noteq> Some [])"

text \<open>The log of a memory table holds the batches that made its entries.\<close>

definition logged :: "'t level_state \<Rightarrow> mem_table \<Rightarrow> bool" where
  "logged D m \<longleftrightarrow> (\<exists>bs. (\<forall>b\<in>set bs. loadable b) \<and> ls_logs D (mm_id m) = Some (concat (map log_record bs)) \<and>
     mm_offset m = length (concat (map log_record bs)) \<and> mm_entries m = fold (mm_internal_action None) bs [])"

text \<open>A batch the table can take: it can be logged and loaded, and no value is empty.\<close>

definition batch_in :: "(bytes \<times> bytes) set \<Rightarrow> batch \<Rightarrow> bool" where
  "batch_in U b \<longleftrightarrow> loadable b \<and> (\<forall>a\<in>set b. act_item a \<noteq> Some [] \<and> wal_kv (act_key a, act_item a) \<in> U)"

lemma mm_set_in: "e' \<in> set (mm_set cmp e xs) \<Longrightarrow> good_comparator cmp \<Longrightarrow> mm_sorted cmp xs \<Longrightarrow> e' = e \<or> e' \<in> set xs"
  using mm_hit_iff(1) [of cmp xs "fst e"] set_update_subset_insert [of xs "mm_find cmp (fst e) xs" e]
  by (cases e) (auto simp: mm_set_def Let_def split: if_splits)

lemma mem_ok_action:
  assumes "mem_ok U m" and "\<forall>a\<in>set b. act_item a \<noteq> Some [] \<and> wal_kv (act_key a, act_item a) \<in> U"
  shows "mem_ok U (m\<lparr>mm_offset := n, mm_entries := mm_internal_action None b (mm_entries m)\<rparr>)"
proof -
  have "\<forall>e\<in>set (mm_internal_action None b xs). wal_kv e \<in> U \<and> snd e \<noteq> Some []"
    if "mm_sorted None xs" "\<forall>e\<in>set xs. wal_kv e \<in> U \<and> snd e \<noteq> Some []" for xs
    using that assms(2)
  proof (induction b arbitrary: xs)
    case (Cons a b)
    let ?xs = "mm_set None (act_key a, act_item a) xs"
    have "\<forall>e\<in>set ?xs. wal_kv e \<in> U \<and> snd e \<noteq> Some []"
      using Cons.prems mm_set_in [OF _ good_comparator_None Cons.prems(1)] by fastforce
    with Cons.IH [of ?xs] Cons.prems mm_set_map_of(1) [OF good_comparator_None Cons.prems(1)]
    show ?case by simp
  qed simp
  from this [of "mm_entries m"] show ?thesis
    using assms(1) mm_internal_action_map_of(1) [OF good_comparator_None] by (simp add: mem_ok_def)
qed

text \<open>The entries of the immutable tables, merged: what a table is built from.\<close>

lemma merged_imms:
  assumes "\<forall>m\<in>set ms. mem_ok U m \<and> mm_entries m \<noteq> []" and "ms \<noteq> []"
  shows "map_of (merge_imms None ms) = mems_map ms" and "keys_ascend (map wal_kv (merge_imms None ms))"
    and "set (map wal_kv (merge_imms None ms)) \<subseteq> U" and "merge_imms None ms \<noteq> []"
    and "\<forall>e\<in>set (merge_imms None ms). snd e \<noteq> Some []"
proof -
  let ?E = "merge_imms None ms"
  have sorted: "mm_sorted None ?E" and map: "map_of ?E = mems_map ms"
    using merge_imms_map_of [OF good_comparator_None, of ms] by (simp_all add: mems_map_def)
  then show "map_of ?E = mems_map ms" by blast
  show asc: "keys_ascend (map wal_kv ?E)"
    using sorted unfolding key_less_None by (simp add: sorted_wrt_map)
  have "distinct (map fst ?E)" using ascend_distinct [OF asc] by (simp add: comp_def)
  then have in_mem: "\<exists>m\<in>set ms. e \<in> set (mm_entries m)" if "e \<in> set ?E" for e
    using that map_of_eq_Some_iff [of ?E "fst e" "snd e"] map_of_SomeD [of "concat (map mm_entries (rev ms))" "fst e" "snd e"]
    unfolding map mems_map_def by auto
  then show "set (map wal_kv ?E) \<subseteq> U" "\<forall>e\<in>set ?E. snd e \<noteq> Some []"
    using assms(1) unfolding mem_ok_def by fastforce+
  obtain m e where "m \<in> set ms" "e \<in> set (mm_entries m)" using assms by (metis ex_in_conv list.set_sel(1) set_empty)
  then have "fst e \<in> fst ` set (concat (map mm_entries (rev ms)))" by auto
  then have "mems_map ms (fst e) \<noteq> None" unfolding mems_map_def map_of_eq_None_iff by blast
  then show "?E \<noteq> []" unfolding map [symmetric] by auto
qed

section \<open>The invariant of the whole table\<close>

abbreviation "cm M \<equiv> me_counter M Current_memory"
abbreviation "pm M \<equiv> me_counter M Prev_memory"

text \<open>
  The memory table and the immutable ones have the numbers that are not dumped yet, in their order, with their logs;
  the memory in use is only counted for a table with entries.
\<close>

definition mems_ok :: "(bytes \<times> bytes) set \<Rightarrow> meta \<Rightarrow> 't level_state \<Rightarrow> bool" where
  "mems_ok U M D \<longleftrightarrow> (\<exists>m. ls_mem D = Some m \<and> (\<forall>x\<in>set (ls_imms D @ [m]). mem_ok U x \<and> logged D x) \<and>
     (\<forall>x\<in>set (ls_imms D). mm_entries x \<noteq> []) \<and> (ls_used D \<noteq> 0 \<longrightarrow> mm_entries m \<noteq> []) \<and>
     map mm_id (ls_imms D @ [m]) = [pm M..<Suc (cm M)] \<and> (\<forall>i>cm M. ls_logs D i = None))"

lemma mems_okE:
  assumes "mems_ok U M D"
  obtains m where "ls_mem D = Some m" "\<forall>x\<in>set (ls_imms D @ [m]). mem_ok U x \<and> logged D x"
    "\<forall>x\<in>set (ls_imms D). mm_entries x \<noteq> []" "ls_used D \<noteq> 0 \<longrightarrow> mm_entries m \<noteq> []"
    "map mm_id (ls_imms D @ [m]) = [pm M..<Suc (cm M)]" "\<forall>i>cm M. ls_logs D i = None"
  using assms unfolding mems_ok_def by blast

text \<open>The entries the whole table stands for.\<close>

definition total :: "meta \<Rightarrow> 't level_state \<Rightarrow> (nat \<Rightarrow> (bytes \<times> bytes) list) \<Rightarrow> items" where
  "total M D G = decoded (upper M G 0) ++ mems_map (ls_imms D @ (case ls_mem D of Some m \<Rightarrow> [m] | None \<Rightarrow> []))"

text \<open>How far one dump can move the numbers.\<close>

definition grown :: "meta \<Rightarrow> meta \<Rightarrow> bool" where
  "grown M M' \<longleftrightarrow> ct M' \<le> ct M + ml M + 2 \<and> cv M' \<le> Suc (cv M) \<and> ml M' \<le> Suc (ml M) \<and> cm M' = cm M"

text \<open>After a dump that went well every table is recorded as complete.\<close>

definition dumped :: "meta \<Rightarrow> exn + unit \<Rightarrow> meta \<Rightarrow> bool" where
  "dumped M r M' \<longleftrightarrow> grown M M' \<and> (r = Inr () \<longrightarrow> me_counter M' Prev_table = ct M')"

lemma goes_modify_rest:
  assumes "\<And>s. rest_of (f s) = f (rest_of s)"
    and "\<And>s. ls_manifest (f s) = ls_manifest s \<and> ls_views (f s) = ls_views s \<and> ls_components (f s) = ls_components s"
  shows "goes M D (act_modify f) (Inr ()) M (f D)"
  using assms by (intro goes_upd) simp_all

lemma logged_cong: "ls_logs D' (mm_id m) = ls_logs D (mm_id m) \<Longrightarrow> logged D' m \<longleftrightarrow> logged D m"
  by (simp add: logged_def)

context table_service
begin

definition st_inv :: "(bytes \<times> bytes) set \<Rightarrow> meta \<Rightarrow> 't level_state \<Rightarrow> (nat \<Rightarrow> (bytes \<times> bytes) list) \<Rightarrow> bool" where
  "st_inv U M D G \<longleftrightarrow> lt_inv U M D G \<and> mems_ok U M D \<and> (\<forall>i it. item_at M i it \<longrightarrow> li_id it < me_counter M Prev_table) \<and>
     me_counter M Prev_table \<le> ct M \<and> me_counter M Prev_view = cv M"

lemma lt_inv_rest:
  assumes "lt_inv U M D G" and "ls_tables D' = ls_tables D" and "ls_cache D' = ls_cache D"
    and "c \<notin> {Current_table, Current_view, Max_level}"
  shows "lt_inv U (with_counter c k M) D' G" and "upper (with_counter c k M) G l = upper M G l"
    and "item_at (with_counter c k M) = item_at M"
proof -
  let ?M = "with_counter c k M"
  have items: "items_in ?M = items_in M" by (intro ext) (simp add: items_in_def)
  show at: "item_at ?M = item_at M" by (intro ext) (simp add: item_at_def live_def items)
  have same: "ct ?M = ct M" "cv ?M = cv M" "ml ?M = ml M" using assms(4) by auto
  show "lt_inv U ?M D' G"
    using assms(1-3) same unfolding lt_inv_def files_ok_def cache_ok_def file_ok_def at by (simp add: shape_ok_def live_def)
  show "upper ?M G l = upper M G l"
    using same unfolding levels_map_def level_map_def level_items_def items by simp
qed

text \<open>A failed dump: the counter of tables may have moved, and files that nothing refers to are left.\<close>

lemma st_inv_failed:
  assumes "st_inv U M D G" and "ct M \<le> k" and "k \<le> Suc (ct M)" and "\<forall>i<ct M. f i = ls_tables D i"
  shows "st_inv U (with_counter Current_table k M) (D\<lparr>ls_tables := f\<rparr>) G"
    and "total (with_counter Current_table k M) (D\<lparr>ls_tables := f\<rparr>) G = total M D G"
    and "grown M (with_counter Current_table k M)"
proof -
  have inv: "lt_inv U M D G" using assms(1) by (simp add: st_inv_def)
  then have less: "\<forall>i it. item_at M i it \<longrightarrow> li_id it < ct M" and cache: "cache_ok M D (ct M)"
    by (simp_all add: lt_inv_def files_ok_def)
  let ?M = "with_counter Current_table k M" and ?D = "D\<lparr>ls_tables := f\<rparr>"
  have files: "\<forall>i<ct M. f i = ls_tables D i \<and> G i = G i" using assms(4) by simp
  note above = inv_files_above [OF inv less cache assms(2) files]
  have "mems_ok U ?M ?D" using assms(1) by (simp add: st_inv_def mems_ok_def logged_def)
  then show "st_inv U ?M ?D G" using assms(1,2) above(1,4) by (simp add: st_inv_def)
  have "shape_ok M" "shape_ok ?M" using inv above(1) by (simp_all add: lt_inv_def)
  then have "upper ?M G 0 = upper M G 0" using above(3) by (intro upper_cong) (simp_all add: shape_okD(1))
  then show "total ?M ?D G = total M D G" by (simp add: total_def)
  show "grown M ?M" using assms(3) by (simp add: grown_def)
qed

text \<open>What is left to do after the table was added.\<close>

definition dump_cleanup :: "('t level_state, unit) act" where
  "dump_cleanup = act_bind (act_modify (\<lambda>s. s\<lparr>ls_imms := []\<rparr>)) (\<lambda>_.
     act_bind (get_counter Prev_memory) (\<lambda>b. act_bind (get_counter Current_memory) (\<lambda>e.
       act_bind (act_modify (remove_logs b e)) (\<lambda>_. set_counter Prev_memory e))))"

lemma dump_becomes:
  "becomes M D (dump_imms ops opt) M D
     (act_bind (get_counter Current_table) (\<lambda>i. act_bind (set_counter Current_table (add64 i 1)) (\<lambda>_.
       act_bind (create_table i) (\<lambda>_. act_bind (build_table ops i (merge_imms (lo_cmp opt) (ls_imms D))) (\<lambda>t.
         act_bind (act_catch (add_to_component ops opt t i 0) (put_counter Current_table i)) (\<lambda>_. dump_cleanup))))))"
  unfolding becomes_def
proof (intro allI impI)
  fix s
  assume s: "shows_at M D s"
  then have "ls_imms s = ls_imms D" unfolding shows_at_def using rest_of_sel(5) by metis
  then show "\<exists>s0. shows_at M D s0 \<and> dump_imms ops opt s = act_bind (get_counter Current_table)
      (\<lambda>i. act_bind (set_counter Current_table (add64 i 1)) (\<lambda>_.
       act_bind (create_table i) (\<lambda>_. act_bind (build_table ops i (merge_imms (lo_cmp opt) (ls_imms D))) (\<lambda>t.
         act_bind (act_catch (add_to_component ops opt t i 0) (put_counter Current_table i)) (\<lambda>_. dump_cleanup))))) s0"
    using s by (intro exI [of _ s]) (simp add: dump_imms_def dump_cleanup_def)
qed

lemma dump_cleaned:
  assumes inv: "lt_inv U M D G" and mems: "mems_ok U M D" and prev: "me_counter M Prev_table = ct M" "me_counter M Prev_view = cv M"
    and "cm M < 2 ^ 63"
  shows "\<exists>D'. goes M D dump_cleanup (Inr ()) (with_counter Prev_memory (cm M) M) D' \<and>
    st_inv U (with_counter Prev_memory (cm M) M) D' G \<and>
    total (with_counter Prev_memory (cm M) M) D' G = decoded (upper M G 0) ++ map_of (mm_entries (the (ls_mem D)))"
proof -
  let ?D1 = "D\<lparr>ls_imms := []\<rparr>" and ?M = "with_counter Prev_memory (cm M) M"
  let ?D = "remove_logs (pm M) (cm M) ?D1"
  have imms: "goes M D (act_modify (\<lambda>s. s\<lparr>ls_imms := []\<rparr>)) (Inr ()) M ?D1" by (intro goes_modify_rest) (simp_all add: rest_of_def)
  have logs: "goes M ?D1 (act_modify (remove_logs (pm M) (cm M))) (Inr ()) M ?D"
    by (intro goes_modify_rest) (simp_all add: rest_of_def remove_logs_def cong: if_cong)
  have "goes M D dump_cleanup (Inr ()) ?M ?D"
    unfolding dump_cleanup_def
    by (rule goes_bind [OF imms], rule goes_bind [OF goes_get_counter], rule goes_bind [OF goes_get_counter],
        rule goes_bind [OF logs], rule goes_set_counter [OF assms(5)])
  moreover have "st_inv U ?M ?D G"
  proof -
    from mems obtain m where m: "ls_mem D = Some m" "\<forall>x\<in>set (ls_imms D @ [m]). mem_ok U x \<and> logged D x"
      "ls_used D \<noteq> 0 \<longrightarrow> mm_entries m \<noteq> []" "map mm_id (ls_imms D @ [m]) = [pm M..<Suc (cm M)]" "\<forall>i>cm M. ls_logs D i = None"
      by (rule mems_okE)
    have id: "mm_id m = cm M"
    proof -
      have "pm M \<le> cm M"
      proof (rule ccontr)
        assume "\<not> pm M \<le> cm M"
        with m(4) show False by simp
      qed
      then have "last (map mm_id (ls_imms D @ [m])) = cm M" unfolding m(4) by simp
      then show ?thesis by simp
    qed
    have "logged ?D m" using m(2) id logged_cong [of ?D m D] by (simp add: remove_logs_def)
    then have "mems_ok U ?M ?D" unfolding mems_ok_def using m id by (simp add: remove_logs_def)
    moreover have "lt_inv U ?M ?D G" by (rule lt_inv_rest [OF inv]) (simp_all add: remove_logs_def)
    moreover have "item_at ?M = item_at M" by (rule lt_inv_rest(3) [OF inv, of D]) simp_all
    moreover have "li_id it < ct M" if "item_at M i it" for i it using inv that by (simp add: lt_inv_def files_ok_def)
    ultimately show ?thesis using prev by (simp add: st_inv_def)
  qed
  moreover have "total ?M ?D G = decoded (upper M G 0) ++ map_of (mm_entries (the (ls_mem D)))"
  proof -
    obtain m where "ls_mem D = Some m" using mems by (rule mems_okE)
    moreover have "upper ?M G 0 = upper M G 0" by (rule lt_inv_rest(2) [OF inv, of D]) simp_all
    ultimately show ?thesis by (simp add: total_def remove_logs_def mems_map_def)
  qed
  ultimately show ?thesis by auto
qed

text \<open>A step that leaves the table as it was, in some state: it never returns only without \<open>safe\<close> options.\<close>

definition keeps :: "(bytes \<times> bytes) set \<Rightarrow> level_option \<Rightarrow> meta \<Rightarrow> 't level_state \<Rightarrow> items \<Rightarrow> (exn + unit \<Rightarrow> meta \<Rightarrow> bool) \<Rightarrow>
    ('t level_state, unit) act \<Rightarrow> bool" where
  "keeps U opt M D f Q m \<longleftrightarrow> (stuck M D m \<and> \<not> safe opt) \<or>
     (\<exists>r M' D' G'. goes M D m r M' D' \<and> st_inv U M' D' G' \<and> total M' D' G' = f \<and> Q r M')"

lemma keeps_becomes:
  assumes "becomes M D m M0 D0 m0" and "keeps U opt M0 D0 f Q0 m0" and "\<And>r M'. Q0 r M' \<Longrightarrow> Q r M'"
  shows "keeps U opt M D f Q m"
  using assms(2) unfolding keeps_def
proof (elim disjE exE conjE)
  assume "stuck M0 D0 m0" "\<not> safe opt"
  then show "(stuck M D m \<and> \<not> safe opt) \<or> (\<exists>r M' D' G'. goes M D m r M' D' \<and> st_inv U M' D' G' \<and> total M' D' G' = f \<and> Q r M')"
    using becomes_stuck [OF assms(1)] by blast
next
  fix r M' D' G'
  assume "goes M0 D0 m0 r M' D'" "st_inv U M' D' G'" "total M' D' G' = f" "Q0 r M'"
  then show "(stuck M D m \<and> \<not> safe opt) \<or> (\<exists>r M' D' G'. goes M D m r M' D' \<and> st_inv U M' D' G' \<and> total M' D' G' = f \<and> Q r M')"
    using becomes_goes [OF assms(1)] assms(3) by blast
qed

lemma dump_keeps:
  assumes U: "closed U" "\<not> safe opt \<longrightarrow> plain U" and cmp: "lo_cmp opt = None" and st: "st_inv U M D G"
    and ne: "ls_imms D \<noteq> []"
    and sizes: "ct M + ml M + 2 < 2 ^ 30" "ml M < 2 ^ 30 - 1" "cv M < 2 ^ 30 - 1" "cm M < 2 ^ 63"
  shows "keeps U opt M D (total M D G) (dumped M) (dump_imms ops opt)"
proof (rule keeps_becomes [OF dump_becomes _ asm_rl])
  let ?i = "ct M" and ?E = "merge_imms None (ls_imms D)"
  let ?M1 = "with_counter Current_table (Suc ?i) M"
  let ?rest = "\<lambda>i t. act_bind (act_catch (add_to_component ops opt t i 0) (put_counter Current_table i)) (\<lambda>_. dump_cleanup)"
  let ?body = "act_bind (get_counter Current_table) (\<lambda>i. act_bind (set_counter Current_table (add64 i 1)) (\<lambda>_.
       act_bind (create_table i) (\<lambda>_. act_bind (build_table ops i (merge_imms (lo_cmp opt) (ls_imms D))) (?rest i))))"
  have inv: "lt_inv U M D G" and mems: "mems_ok U M D" using st by (simp_all add: st_inv_def)
  have less: "\<forall>i it. item_at M i it \<longrightarrow> li_id it < ?i" and cache: "cache_ok M D ?i"
    using inv by (simp_all add: lt_inv_def files_ok_def)
  have i: "add64 ?i 1 = Suc ?i" "Suc ?i < 2 ^ 63" "?i < 2 ^ 63" using sizes by (simp_all add: add64_small)
  have start: "becomes M D ?body ?M1 D (act_bind (create_table ?i) (\<lambda>_. act_bind (build_table ops ?i ?E) (?rest ?i)))"
    unfolding cmp
    apply (rule becomes_bind [OF goes_get_counter])
    apply (rule becomes_bind [OF goes_set_counter])
    using i apply simp
    unfolding i(1)
    apply (rule becomes_refl)
    done
  have failed: "keeps U opt M D (total M D G) (dumped M) ?body"
    if "goes M D ?body (Inl e) (with_counter Current_table k M) (D\<lparr>ls_tables := f\<rparr>)" "?i \<le> k" "k \<le> Suc ?i" "\<forall>j<?i. f j = ls_tables D j" for e k f
  proof -
    have "dumped M (Inl e) (with_counter Current_table k M)" using st_inv_failed(3) [OF st that(2-4)] by (simp add: dumped_def)
    then show ?thesis unfolding keeps_def using that(1) st_inv_failed(1,2) [OF st that(2-4)] by blast
  qed
  show "keeps U opt M D (total M D G) (dumped M) ?body"
  proof (cases "ls_tables D ?i = None")
    case False
    have "goes M D ?body (Inl System_error) ?M1 D"
      by (rule becomes_goes [OF start goes_bind_Inl [OF goes_create_table(2) [OF False]]])
    then show ?thesis using failed [of System_error "Suc ?i" "ls_tables D"] by simp
  next
    case True
    obtain r data where build: "to_build ops ?i ?E = (r, data)" by fastforce
    let ?D1 = "with_file D ?i (Some [])" and ?D2 = "with_file D ?i (Some data)"
    have built: "goes ?M1 ?D1 (build_table ops ?i ?E) r ?M1 ?D2"
    proof -
      have "build_table ops ?i ?E = (\<lambda>s. Some (r, write_table ?i data s))" by (intro ext) (simp add: build_table_def build)
      then show ?thesis using goes_write_table [of ?M1 ?D1 r ?i data] by simp
    qed
    show ?thesis
    proof (cases r)
      case (Inl e)
      have "goes M D ?body (Inl e) ?M1 ?D2"
        by (rule becomes_goes [OF start], rule goes_bind [OF goes_create_table(1) [OF True]], rule goes_bind_Inl)
          (use built Inl in simp)
      then show ?thesis using failed [of e "Suc ?i" "(ls_tables D)(?i := Some data)"] by simp
    next
      case (Inr t)
      have body: "becomes M D ?body ?M1 ?D2 (?rest ?i t)"
      proof -
        have "becomes ?M1 D (act_bind (create_table ?i) (\<lambda>_. act_bind (build_table ops ?i ?E) (?rest ?i))) ?M1 ?D2 (?rest ?i t)"
          by (rule becomes_bind [OF goes_create_table(1) [OF True]], rule becomes_bind [OF _ becomes_refl]) (use built Inr in simp)
        with start show ?thesis by (rule becomes_trans)
      qed
      from mems obtain m where m: "ls_mem D = Some m" "\<forall>x\<in>set (ls_imms D @ [m]). mem_ok U x \<and> logged D x"
        "\<forall>x\<in>set (ls_imms D). mm_entries x \<noteq> []" by (rule mems_okE)
      then have "\<forall>x\<in>set (ls_imms D). mem_ok U x \<and> mm_entries x \<noteq> []" by simp
      note E = merged_imms [OF this ne]
      let ?kvs = "map wal_kv ?E"
      let ?G = "G(?i := ?kvs)"
      have "fits ?kvs" using U(1) E(2,3) by (simp add: closed_def)
      from build_law [OF E(2) this, of ?i t data] have t: "holds ?kvs t" "opens data ?kvs"
        using build Inr by (auto simp: opens_def)
      have files: "\<forall>j<?i. ((ls_tables D)(?i := Some data)) j = ls_tables D j \<and> ?G j = G j" by simp
      have above: "lt_inv U ?M1 ?D2 ?G" "cache_ok ?M1 ?D2 ?i" "\<And>j. level_map ?M1 ?G j = level_map M G j" "item_at ?M1 = item_at M"
        by (rule inv_files_above [OF inv less cache _ files], simp)+
      have pend: "pending U ?M1 ?D2 ?G ?i"
        using t(2) E(3,4) less above(2,4) by (simp add: pending_def file_ok_def)
      have ups: "upper ?M1 ?G 0 = upper M G 0"
        using inv above(1,3) by (intro upper_cong) (simp_all add: shape_okD(1) lt_inv_def)
      have "adds U opt ?M1 ?D2 ?G ?i 0 (add_to_component ops opt t ?i 0)"
        using sizes t(1) by (intro add_goes [OF U cmp above(1) pend]) simp_all
      then consider (stuck) "stuck ?M1 ?D2 (add_to_component ops opt t ?i 0)" "\<not> safe opt"
        | (added) M2 D3 G2 where "goes ?M1 ?D2 (add_to_component ops opt t ?i 0) (Inr ()) M2 D3" "added U ?M1 ?D2 ?G ?i 0 M2 D3 G2"
        | (failed) e M2 D3 where "goes ?M1 ?D2 (add_to_component ops opt t ?i 0) (Inl e) M2 D3" "failed ?M1 ?D2 ?i M2 D3"
        unfolding adds_def by blast
      then show ?thesis
      proof cases
        case stuck
        have "stuck M D ?body" by (rule becomes_stuck [OF body stuck_bind_first [OF stuck_catch [OF stuck(1)]]])
        with stuck(2) show ?thesis by (simp add: keeps_def)
      next
        case add_failed: failed
        from add_failed(2) obtain k f where k: "M2 = with_counter Current_table k ?M1" "D3 = ?D2\<lparr>ls_tables := f\<rparr>"
          "\<forall>j<?i. f j = ls_tables ?D2 j" unfolding failed_def by blast
        have reset: "shows_at (with_counter Current_table ?i M2) D3 (put_counter Current_table ?i s)" if "shows_at M2 D3 s" for s
          using shows_put_counter [OF that i(3)] .
        have "goes M D ?body (Inl e) (with_counter Current_table ?i M2) D3"
          by (rule becomes_goes [OF body goes_bind_Inl [OF goes_catch_Inl [OF add_failed(1) reset]]])
        then show ?thesis using failed [of e ?i f] k by simp
      next
        case added
        have M2: "lt_inv U M2 D3 G2" "upper M2 G2 0 = upper ?M1 ?G 0 ++ map_of ?kvs" "ct M2 \<le> Suc ?i + Suc (ml M)" "cv M2 \<le> Suc (cv M)"
          "ml M2 \<le> Suc (ml M)" "cm M2 = cm M" "pm M2 = pm M" "me_counter M2 Prev_table = ct M2" "me_counter M2 Prev_view = cv M2"
          using added(2) st unfolding added_def by (simp_all add: st_inv_def)
        obtain h f where D3: "D3 = D\<lparr>ls_cache := h, ls_tables := f\<rparr>" using added(2) unfolding added_def by auto
        have mems2: "mems_ok U M2 D3" using mems M2(6,7) unfolding D3 by (simp add: mems_ok_def logged_def)
        from dump_cleaned [OF M2(1) mems2 M2(8,9)] sizes(4) M2(6) obtain D' where
          D': "goes M2 D3 dump_cleanup (Inr ()) (with_counter Prev_memory (cm M2) M2) D'"
            "st_inv U (with_counter Prev_memory (cm M2) M2) D' G2"
            "total (with_counter Prev_memory (cm M2) M2) D' G2 = decoded (upper M2 G2 0) ++ map_of (mm_entries (the (ls_mem D3)))" by auto
        have "goes M D ?body (Inr ()) (with_counter Prev_memory (cm M2) M2) D'"
          by (rule becomes_goes [OF body goes_bind [OF goes_catch [OF added(1)] D'(1)]])
        moreover have "decoded (upper M2 G2 0) = decoded (upper M G 0) ++ mems_map (ls_imms D)"
          unfolding M2(2) ups decoded_add decoded_wal_kv [OF E(5)] E(1) ..
        then have "total (with_counter Prev_memory (cm M2) M2) D' G2 = total M D G"
          unfolding D'(3) by (simp add: total_def D3 m(1) mems_map_append)
        moreover have "dumped M (Inr ()) (with_counter Prev_memory (cm M2) M2)" using M2(3-6,8) by (simp add: grown_def dumped_def)
        ultimately show ?thesis using D'(2) unfolding keeps_def by blast
      qed
    qed
  qed
qed

lemma mem_last_id:
  assumes "map mm_id (ms @ [m]) = [a..<Suc b]"
  shows "mm_id m = b" and "a \<le> b" and "\<forall>x\<in>set ms. mm_id x \<noteq> b"
proof -
  show ab: "a \<le> b"
  proof (rule ccontr)
    assume "\<not> a \<le> b"
    with assms show False by simp
  qed
  then have "map mm_id ms @ [mm_id m] = [a..<b] @ [b]" using assms by simp
  then have "map mm_id ms = [a..<b]" "mm_id m = b" unfolding append1_eq_conv by blast+
  then have "mm_id ` set ms = {a..<b}" by (metis set_map set_upt)
  then show "mm_id m = b" "\<forall>x\<in>set ms. mm_id x \<noteq> b" using \<open>mm_id m = b\<close> by force+
qed

text \<open>The batch is logged and put into the memory table.\<close>

lemma mem_action_goes:
  assumes st: "st_inv U M D G" and b: "batch_in U b"
  shows "\<exists>m' D'. goes M D (mem_action None b) (Inr ()) M D' \<and> st_inv U M D' G \<and> ls_mem D' = Some m' \<and>
    total M D' G = mt_internal_action False b (total M D G) \<and> (b \<noteq> [] \<longrightarrow> mm_entries m' \<noteq> []) \<and>
    ls_used D' = ls_used D \<and> (mm_entries m' = [] \<longrightarrow> ls_used D = 0)"
proof -
  from st have mems: "mems_ok U M D" by (simp add: st_inv_def)
  then obtain m where m: "ls_mem D = Some m" "\<forall>x\<in>set (ls_imms D @ [m]). mem_ok U x \<and> logged D x"
    "\<forall>x\<in>set (ls_imms D). mm_entries x \<noteq> []" "ls_used D \<noteq> 0 \<longrightarrow> mm_entries m \<noteq> []"
    "map mm_id (ls_imms D @ [m]) = [pm M..<Suc (cm M)]" "\<forall>i>cm M. ls_logs D i = None" by (rule mems_okE)
  note ids = mem_last_id [OF m(5)]
  have mok: "mem_ok U m" and "logged D m" using m(2) by simp_all
  then obtain bs where bs: "\<forall>b\<in>set bs. loadable b" "ls_logs D (mm_id m) = Some (concat (map log_record bs))"
    "mm_offset m = length (concat (map log_record bs))" "mm_entries m = fold (mm_internal_action None) bs []"
    unfolding logged_def by blast
  have load: "loadable b" and acts: "\<forall>a\<in>set b. act_item a \<noteq> Some [] \<and> wal_kv (act_key a, act_item a) \<in> U"
    using b by (simp_all add: batch_in_def)
  let ?w = "concat (map log_record bs)"
  let ?w' = "concat (map log_record (bs @ [b]))"
  let ?m = "m\<lparr>mm_offset := length ?w', mm_entries := mm_internal_action None b (mm_entries m)\<rparr>"
  let ?f = "\<lambda>s. s\<lparr>ls_logs := (ls_logs s)(mm_id m \<mapsto> ?w'), ls_mem := Some ?m\<rparr>"
  have log: "bl_log_written b \<lparr>lg_file = ?w, lg_offset = length ?w\<rparr> = Inr \<lparr>lg_file = ?w', lg_offset = length ?w'\<rparr>"
    using bl_log_record [OF load] by (simp add: bl_log_written_def file_write_def)
  have "goes M D (mem_action None b) (Inr ()) M (?f D)"
  proof (rule goes_upd)
    fix s
    assume "rest_of s = D"
    then have "ls_mem s = Some m" "ls_logs s (mm_id m) = Some ?w" using m(1) bs(2) by auto
    then show "mem_action None b s = Some (Inr (), ?f s)" by (simp add: mem_action_def bs(3) log)
  qed (simp_all add: rest_of_def)
  moreover have "st_inv U M (?f D) G"
  proof -
    have "logged (?f D) ?m"
      unfolding logged_def using bs(1,4) load by (intro exI [of _ "bs @ [b]"]) simp
    moreover have "mem_ok U ?m" by (rule mem_ok_action [OF mok acts])
    moreover have "logged (?f D) x" if "x \<in> set (ls_imms D)" for x
      using m(2) ids that logged_cong [of "?f D" x D] by simp
    moreover have "mm_internal_action None b (mm_entries m) \<noteq> []" if "mm_entries m \<noteq> []"
    proof -
      have "map_of (mm_entries m) \<noteq> Map.empty" using that by (cases "mm_entries m") (auto simp: fun_eq_iff)
      then have "mt_internal_action False b (map_of (mm_entries m)) \<noteq> Map.empty" by (simp add: mt_internal_action_dom)
      then show ?thesis using mm_internal_action_map_of(2) [OF good_comparator_None, of "mm_entries m" b] mok
        by (auto simp: mem_ok_def)
    qed
    ultimately have "mems_ok U M (?f D)" unfolding mems_ok_def using m ids by simp
    moreover have "lt_inv U M (?f D) G" using st by (simp add: st_inv_def lt_inv_def files_ok_def file_ok_def cache_ok_def)
    ultimately show ?thesis using st by (simp add: st_inv_def)
  qed
  moreover have entries: "map_of (mm_entries ?m) = mt_internal_action False b (map_of (mm_entries m))"
    using mm_internal_action_map_of(2) [OF good_comparator_None] mok by (simp add: mem_ok_def)
  moreover have "total M (?f D) G = mt_internal_action False b (total M D G)"
    using entries by (simp add: total_def m(1) mems_map_append mt_internal_action_add)
  moreover have "mm_entries ?m \<noteq> []" if "b \<noteq> [] \<or> mm_entries m \<noteq> []"
  proof -
    have "map_of (mm_entries m) \<noteq> Map.empty \<or> b \<noteq> []" using that by (cases "mm_entries m") (auto simp: fun_eq_iff)
    from mt_internal_action_dom [OF this] show ?thesis using entries by auto
  qed
  ultimately show ?thesis using m(4) by (intro exI [of _ ?m] exI [of _ "?f D"]) auto
qed

text \<open>The memory table becomes immutable and a new one takes its place.\<close>

definition rotated :: "mem_table \<Rightarrow> nat \<Rightarrow> 't level_state \<Rightarrow> 't level_state" where
  "rotated m i D = D\<lparr>ls_used := 0, ls_logs := (ls_logs D)(i \<mapsto> []), ls_mem := Some \<lparr>mm_id = i, mm_offset = 0, mm_entries = []\<rparr>,
     ls_imms := ls_imms D @ [m]\<rparr>"

lemma rotate_becomes:
  assumes "ls_logs D (Suc (cm M)) = None" and "Suc (cm M) < 2 ^ 63"
  shows "becomes M D (rotate ops opt m) (with_counter Current_memory (Suc (cm M)) M) (rotated m (Suc (cm M)) D)
    (if Suc (length (ls_imms D)) = lo_max_imms opt then dump_imms ops opt else act_return ())"
  unfolding becomes_def
proof (intro allI impI)
  fix s
  assume s: "shows_at M D s"
  let ?i = "Suc (cm M)"
  let ?f = "\<lambda>s. s\<lparr>ls_used := 0, ls_mem := None\<rparr>"
  let ?s1 = "?f s"
  let ?s2 = "put_counter Current_memory ?i ?s1"
  let ?s3 = "?s2\<lparr>ls_logs := (ls_logs ?s2)(?i \<mapsto> [])\<rparr>"
  let ?m = "\<lparr>mm_id = ?i, mm_offset = 0, mm_entries = []\<rparr>"
  let ?s4 = "?s3\<lparr>ls_mem := Some ?m, ls_imms := ls_imms ?s3 @ [m]\<rparr>"
  have i: "add64 (cm M) 1 = ?i" using assms(2) by (simp add: add64_small)
  have s1: "shows_at M (?f D) ?s1" using s by (auto simp: shows_at_def rest_of_def)
  then have get: "get_counter Current_memory ?s1 = Some (Inr (cm M), ?s1)"
    using goes_get_counter [of M "?f D" Current_memory] by (auto simp: goes_def get_counter_def split: option.splits)
  have s2: "shows_at (with_counter Current_memory ?i M) (?f D) ?s2" by (rule shows_put_counter [OF s1 assms(2)])
  have rest: "ls_imms s = ls_imms D" "ls_logs s = ls_logs D"
    using s unfolding shows_at_def by (metis rest_of_sel(5), metis rest_of_sel(2))
  have new: "make_new_memory_table ?s1 = Some (Inr ?m, ?s3)"
    unfolding make_new_memory_table_def
    by (subst act_bind_Some(1), rule get, unfold i) (simp add: assms(1) rest put_counter_def manifest_put_def)
  have "rotate ops opt m s = (if Suc (length (ls_imms D)) = lo_max_imms opt then dump_imms ops opt ?s4 else Some (Inr (), ?s4))"
    unfolding rotate_def act_simps Let_def
    by (subst act_bind_Some(1), rule new) (simp add: put_counter_def manifest_put_def rest)
  moreover have "rest_of s = D" using s by (simp add: shows_at_def)
  then have "rest_of ?s4 = rotated m ?i D" by (auto simp: rest_of_def rotated_def put_counter_def manifest_put_def)
  then have "shows_at (with_counter Current_memory ?i M) (rotated m ?i D) ?s4"
    using s2 by (simp add: shows_at_def put_counter_def manifest_put_def)
  ultimately show "\<exists>s0. shows_at (with_counter Current_memory ?i M) (rotated m ?i D) s0 \<and>
      rotate ops opt m s = (if Suc (length (ls_imms D)) = lo_max_imms opt then dump_imms ops opt else act_return ()) s0"
    by (intro exI [of _ ?s4]) simp
qed

lemma rotated_inv:
  assumes st: "st_inv U M D G" and m: "ls_mem D = Some m" "mm_entries m \<noteq> []"
  shows "st_inv U (with_counter Current_memory (Suc (cm M)) M) (rotated m (Suc (cm M)) D) G"
    and "total (with_counter Current_memory (Suc (cm M)) M) (rotated m (Suc (cm M)) D) G = total M D G"
proof -
  let ?i = "Suc (cm M)"
  let ?M = "with_counter Current_memory ?i M" and ?D = "rotated m ?i D"
  have inv: "lt_inv U M D G" and mems: "mems_ok U M D" using st by (simp_all add: st_inv_def)
  from mems have all: "\<forall>x\<in>set (ls_imms D @ [m]). mem_ok U x \<and> logged D x" "\<forall>x\<in>set (ls_imms D). mm_entries x \<noteq> []"
    "map mm_id (ls_imms D @ [m]) = [pm M..<?i]" "\<forall>i>cm M. ls_logs D i = None"
    using m(1) unfolding mems_ok_def by auto
  note ids = mem_last_id [OF all(3)]
  have "mm_id x \<noteq> ?i" if "x \<in> set (ls_imms D @ [m])" for x
  proof -
    have "mm_id x \<in> set (map mm_id (ls_imms D @ [m]))" using that by auto
    then show ?thesis unfolding all(3) by (metis atLeastLessThan_iff less_irrefl set_upt)
  qed
  then have old: "mem_ok U x \<and> logged ?D x" if "x \<in> set (ls_imms D @ [m])" for x
    using all(1) that logged_cong [of ?D x D] by (auto simp: rotated_def)
  moreover have "logged ?D \<lparr>mm_id = ?i, mm_offset = 0, mm_entries = []\<rparr>"
    unfolding logged_def by (intro exI [of _ "[]"]) (simp add: rotated_def)
  ultimately have "mems_ok U ?M ?D"
    unfolding mems_ok_def using all m ids(2) by (auto simp: rotated_def mem_ok_def)
  moreover have "lt_inv U ?M ?D G" "item_at ?M = item_at M"
    by (rule lt_inv_rest(1,3) [OF inv]; simp add: rotated_def)+
  ultimately show "st_inv U ?M ?D G" using st by (simp add: st_inv_def)
  have "upper ?M G 0 = upper M G 0" by (rule lt_inv_rest(2) [OF inv, of D]) simp_all
  then show "total ?M ?D G = total M D G"
    by (simp add: total_def rotated_def m(1) mems_map_def)
qed

text \<open>How far one action can move the numbers.\<close>

definition moved :: "meta \<Rightarrow> meta \<Rightarrow> bool" where
  "moved M M' \<longleftrightarrow> ct M' \<le> ct M + ml M + 2 \<and> cv M' \<le> Suc (cv M) \<and> ml M' \<le> Suc (ml M) \<and> cm M' \<le> Suc (cm M)"

lemma keeps_return:
  assumes "st_inv U M D G" and "total M D G = f" and "Q (Inr ()) M"
  shows "keeps U opt M D f Q (act_return ())"
  using assms goes_return [of M D "()"] unfolding keeps_def by blast

lemma rotate_keeps:
  assumes U: "closed U" "\<not> safe opt \<longrightarrow> plain U" and cmp: "lo_cmp opt = None" and st: "st_inv U M D G"
    and m: "ls_mem D = Some m" "mm_entries m \<noteq> []"
    and sizes: "ct M + ml M + 2 < 2 ^ 30" "ml M < 2 ^ 30 - 1" "cv M < 2 ^ 30 - 1" "cm M < 2 ^ 30"
  shows "keeps U opt M D (total M D G) (\<lambda>_. moved M) (rotate ops opt m)"
proof -
  let ?i = "Suc (cm M)"
  let ?M = "with_counter Current_memory ?i M" and ?D = "rotated m ?i D"
  have "ls_logs D ?i = None" using st by (auto simp: st_inv_def mems_ok_def)
  moreover have "?i < 2 ^ 63" using sizes(4) by simp
  ultimately have start: "becomes M D (rotate ops opt m) ?M ?D
      (if Suc (length (ls_imms D)) = lo_max_imms opt then dump_imms ops opt else act_return ())" by (rule rotate_becomes)
  note st' = rotated_inv(1) [OF st m] and same = rotated_inv(2) [OF st m]
  have imms: "ls_imms ?D \<noteq> []" by (simp add: rotated_def)
  show ?thesis
  proof (cases "Suc (length (ls_imms D)) = lo_max_imms opt")
    case True
    have "keeps U opt ?M ?D (total ?M ?D G) (dumped ?M) (dump_imms ops opt)"
      using sizes by (intro dump_keeps [OF U cmp st' imms]) simp_all
    from keeps_becomes [OF start [unfolded if_P [OF True]] this, of "\<lambda>_. moved M"] show ?thesis
      unfolding same by (simp add: dumped_def grown_def moved_def)
  next
    case False
    have "keeps U opt ?M ?D (total M D G) (\<lambda>_. moved M) (act_return ())"
      by (rule keeps_return [OF st' same]) (simp add: moved_def)
    then show ?thesis by (rule keeps_becomes [OF start [unfolded if_not_P [OF False]]])
  qed
qed

lemma level_action_keeps:
  assumes U: "closed U" "\<not> safe opt \<longrightarrow> plain U" and cmp: "lo_cmp opt = None" and st: "st_inv U M D G" and b: "batch_in U b"
    and sizes: "ct M + ml M + 2 < 2 ^ 30" "ml M < 2 ^ 30 - 1" "cv M < 2 ^ 30 - 1" "cm M < 2 ^ 30"
  shows "keeps U opt M D (mt_internal_action False b (total M D G)) (\<lambda>_. moved M) (level_action ops opt b)"
proof -
  obtain m D1 where run: "goes M D (mem_action None b) (Inr ()) M D1" "st_inv U M D1 G" and m: "ls_mem D1 = Some m"
    and tot: "total M D1 G = mt_internal_action False b (total M D G)" and ne: "b \<noteq> [] \<longrightarrow> mm_entries m \<noteq> []"
    and used: "mm_entries m = [] \<longrightarrow> ls_used D1 = 0"
    using mem_action_goes [OF st b] by metis
  let ?n = "add64 (ls_used D1) (batch_size b)"
  let ?D = "D1\<lparr>ls_used := ?n\<rparr>" and ?after = "if ?n > lo_max_mem opt then rotate ops opt m else act_return ()"
  have nonzero: "mm_entries m \<noteq> []" if "?n \<noteq> 0"
  proof
    assume "mm_entries m = []"
    then have "ls_used D1 = 0" "b = []" using ne used by auto
    with that show False by (simp add: batch_size_def add64_def)
  qed
  have st': "st_inv U M ?D G"
    using run(2) m nonzero unfolding st_inv_def lt_inv_def mems_ok_def
    by (auto simp: files_ok_def file_ok_def cache_ok_def logged_def)
  have tot': "total M ?D G = mt_internal_action False b (total M D G)" using tot by (simp add: total_def)
  have "becomes M D (level_action ops opt b) M ?D ?after"
    unfolding level_action_def cmp
  proof (rule becomes_bind [OF run(1)], unfold becomes_def, intro allI impI)
    fix s
    assume s: "shows_at M D1 s"
    then have "rest_of s = D1" by (simp add: shows_at_def)
    then have "ls_mem s = Some m" "ls_used s = ls_used D1" "rest_of (s\<lparr>ls_used := ?n\<rparr>) = ?D"
      using m by (auto simp: rest_of_def)
    moreover from this have "shows_at M ?D (s\<lparr>ls_used := ?n\<rparr>)" using s by (simp add: shows_at_def)
    ultimately show "\<exists>s0. shows_at M ?D s0 \<and> (let s' = s\<lparr>ls_used := add64 (ls_used s) (batch_size b)\<rparr> in
         case ls_mem s' of None \<Rightarrow> Some (Inl Undefined, s')
         | Some m \<Rightarrow> if ls_used s' > lo_max_mem opt then rotate ops opt m s' else Some (Inr (), s')) = ?after s0"
      by (intro exI [of _ "s\<lparr>ls_used := ?n\<rparr>"]) (simp add: Let_def)
  qed
  moreover have "keeps U opt M ?D (mt_internal_action False b (total M D G)) (\<lambda>_. moved M) ?after"
  proof (cases "?n > lo_max_mem opt")
    case True
    then have "mm_entries m \<noteq> []" using nonzero by simp
    then have "keeps U opt M ?D (total M ?D G) (\<lambda>_. moved M) (rotate ops opt m)"
      using m sizes by (intro rotate_keeps [OF U cmp st']) simp_all
    with True tot' show ?thesis by simp
  next
    case False
    have "keeps U opt M ?D (mt_internal_action False b (total M D G)) (\<lambda>_. moved M) (act_return ())"
      by (rule keeps_return [OF st' tot']) (simp add: moved_def)
    with False show ?thesis by simp
  qed
  ultimately show ?thesis by (rule keeps_becomes)
qed

end

end
