(* ===== verification/LevelRead.thy ===== *)
theory LevelRead
  imports LevelRun
begin

text \<open>
  Reading the level table: lookups find what the table stands for. They go through the memory tables, the levels, the
  views of a level from the last one on, and the cache of opened tables, which they fill.
\<close>

section \<open>Searching the memory tables\<close>

definition item_status :: "bytes option option \<Rightarrow> exist_status" where
  "item_status x = (case x of None \<Rightarrow> Not_exist | Some None \<Rightarrow> Deleted | Some (Some _) \<Rightarrow> Exist)"

lemma search_mems_map:
  assumes "\<forall>m\<in>set ms. mm_sorted None (mm_entries m)"
  shows "search_mems None k ms = Inr (map_of (concat (map mm_entries ms)) k)"
    and "exist_mems None k ms = item_status (map_of (concat (map mm_entries ms)) k)"
proof -
  have one: "mm_exist None k m = item_status (map_of (mm_entries m) k)"
    "map_of (mm_entries m) k = Some (Some v) \<Longrightarrow> mm_get None k m = Inr v" if "mm_sorted None (mm_entries m)" for m v
    using mm_lookup_map_of [OF good_comparator_None that, of k]
    by (simp_all add: mm_exist_def mm_get_def item_status_def)
  from assms show "search_mems None k ms = Inr (map_of (concat (map mm_entries ms)) k)"
    by (induction ms) (auto simp: one item_status_def map_add_def split: option.split)
  from assms show "exist_mems None k ms = item_status (map_of (concat (map mm_entries ms)) k)"
    by (induction ms) (auto simp: one item_status_def map_add_def split: option.split)
qed

context table_service
begin

section \<open>Searching the levels\<close>

abbreviation with_cache :: "'t level_state \<Rightarrow> 't circle_cache list \<Rightarrow> 't level_state" where
  "with_cache D h \<equiv> D\<lparr>ls_cache := h\<rparr>"

lemma goes_load_table_from_cache:
  assumes "sc_get (cache_key i) (ls_cache D) = Inr (r, c)"
  shows "goes M D (load_table_from_cache i) (Inr r) M (with_cache D c)"
proof (rule goes_upd [where f = "\<lambda>s. s\<lparr>ls_cache := c\<rparr>"])
  fix s
  assume "rest_of s = D"
  then have "ls_cache s = ls_cache D" by auto
  then show "load_table_from_cache i s = Some (Inr r, s\<lparr>ls_cache := c\<rparr>)" using assms by (simp add: load_table_from_cache_def)
qed (simp_all add: rest_of_def)

lemma cache_ok_fits:
  assumes "cache_ok M D n"
  shows "sc_valid (ls_cache D)" and "\<forall>l b. sc_holds (ls_cache D) l b \<longrightarrow> key_fits (cache_key i) l"
  using cache_keyed_fits [OF cache_ok_keyed [OF assms]] by blast+

lemma cache_key_inj: "i < 2 ^ 63 \<Longrightarrow> j < 2 ^ 63 \<Longrightarrow> cache_key i = cache_key j \<longleftrightarrow> i = j"
  using le_bytes_inj [of 8 i j] by (auto simp: cache_key_def)

lemma cache_ok_less:
  assumes "cache_ok M D n" and "sc_valid h" and "\<forall>k b. sc_holds h k b \<longrightarrow> sc_holds (ls_cache D) k b"
  shows "cache_ok M (with_cache D h) n"
  using assms unfolding cache_ok_def by simp

lemma load_goes:
  assumes inv: "lt_inv U M D G" and it: "item_at M j it" and small: "ct M < 2 ^ 63"
  shows "\<exists>h t. goes M D (load_table_cache ops (li_id it)) (Inr t) M (with_cache D h) \<and> holds (G (li_id it)) t \<and>
    lt_inv U M (with_cache D h) G"
proof -
  let ?i = "li_id it"
  have cache: "cache_ok M D (ct M)" and i: "?i < ct M" and f: "file_ok U D G ?i"
    using inv it by (auto simp: lt_inv_def files_ok_def)
  then obtain data t where data: "ls_tables D ?i = Some data" "to_open ops data = Inr t" "holds (G ?i) t"
    by (auto simp: file_ok_def opens_def)
  have inv': "lt_inv U M (with_cache D h) G" if "cache_ok M (with_cache D h) (ct M)" for h
    using inv that by (simp add: lt_inv_def files_ok_def file_ok_def)
  from sc_get_law [OF cache_ok_fits [OF cache]] obtain r c where c: "sc_get (cache_key ?i) (ls_cache D) = Inr (r, c)"
    "sc_valid c" "\<forall>b. r = Some b \<longrightarrow> sc_holds (ls_cache D) (cache_key ?i) b" "\<forall>l b. sc_holds c l b \<longrightarrow> sc_holds (ls_cache D) l b"
    by blast
  have cache1: "cache_ok M (with_cache D c) (ct M)" by (rule cache_ok_less [OF cache c(2,4)])
  note get = goes_load_table_from_cache [OF c(1), of M]
  have held: "b = t" if "sc_holds (ls_cache D) (cache_key ?i) b" for b
  proof -
    from cache that obtain q where q: "q < ct M" "cache_key ?i = cache_key q"
      "\<forall>j it. item_at M j it \<longrightarrow> li_id it = q \<longrightarrow> (\<exists>data. ls_tables D q = Some data \<and> to_open ops data = Inr b)"
      by (rule cache_okE)
    then have "q = ?i" using cache_key_inj [of ?i q] i small by simp
    then have "to_open ops data = Inr b" using q(3) it data(1) by auto
    then show ?thesis using data(2) by simp
  qed
  show ?thesis
  proof (cases r)
    case (Some b)
    then have "b = t" using c(3) held by blast
    then have "goes M D (load_table_cache ops ?i) (Inr t) M (with_cache D c)"
      unfolding load_table_cache_def by (intro goes_bind [OF get]) (simp add: Some goes_return)
    then show ?thesis using data(3) inv' [OF cache1] by blast
  next
    case None
    let ?D = "with_cache D c"
    from sc_emplace_law [OF cache_ok_fits(1) [OF cache1] cache_ok_fits(2) [OF cache1, of ?i], of t] obtain a d where
      d: "sc_get_or_emplace (cache_key ?i) t c = Inr (a, d)" "sc_valid d" "a = t \<or> sc_holds c (cache_key ?i) a"
        "\<forall>l b. sc_holds d l b \<longrightarrow> sc_holds c l b \<or> l = cache_key ?i \<and> b = t" by auto
    have a: "a = t" using d(3) c(4) held by blast
    have load: "goes M ?D (load_table ops ?i) (Inr t) M ?D"
      using goes_load_table [of ?D ?i data M ops] data by simp
    have put: "goes M ?D (\<lambda>s. case sc_get_or_emplace (cache_key ?i) t (ls_cache s) of
        Inl e \<Rightarrow> Some (Inl e, s) | Inr (t', c) \<Rightarrow> Some (Inr t', s\<lparr>ls_cache := c\<rparr>)) (Inr t) M ((\<lambda>s. s\<lparr>ls_cache := d\<rparr>) ?D)"
    proof (rule goes_upd)
      fix s
      assume "rest_of s = ?D"
      then have "ls_cache s = c" by (metis rest_of_sel(3) level_state.select_convs(6) level_state.update_convs(6) level_state.surjective)
      then show "(case sc_get_or_emplace (cache_key ?i) t (ls_cache s) of
        Inl e \<Rightarrow> Some (Inl e, s) | Inr (t', c) \<Rightarrow> Some (Inr t', s\<lparr>ls_cache := c\<rparr>)) = Some (Inr t, s\<lparr>ls_cache := d\<rparr>)"
        using d(1) a by simp
    qed (simp_all add: rest_of_def)
    have "goes M D (load_table_cache ops ?i) (Inr t) M (with_cache D d)"
      unfolding load_table_cache_def
      apply (rule goes_bind [OF get])
      unfolding None option.case
      apply (rule goes_bind [OF load])
      using put by simp
    moreover have "cache_ok M (with_cache D d) (ct M)"
      unfolding cache_ok_def
    proof (intro conjI allI impI)
      show "sc_valid (ls_cache (with_cache D d))" using d(2) by simp
      fix k b
      assume "sc_holds (ls_cache (with_cache D d)) k b"
      then consider "sc_holds (ls_cache D) k b" | "k = cache_key ?i" "b = t" using d(4) c(4) by auto
      then show "\<exists>i<ct M. k = cache_key i \<and> (\<forall>j it. item_at M j it \<longrightarrow> li_id it = i \<longrightarrow>
          (\<exists>data. ls_tables (with_cache D d) i = Some data \<and> to_open ops data = Inr b))"
      proof cases
        case 1
        with cache show ?thesis unfolding cache_ok_def by simp
      next
        case 2
        then show ?thesis using i data by (intro exI [of _ ?i]) simp
      qed
    qed
    ultimately show ?thesis using data(3) inv' by blast
  qed
qed

lemma search_views_goes:
  assumes inv: "lt_inv U M D G" and small: "ct M < 2 ^ 63" and live: "\<forall>i\<in>set is. live M i"
  shows "\<exists>h. goes M D (search_views ops None k is) (Inr (merged (contents G (concat (map (items_in M) (rev is)))) k)) M
    (with_cache D h) \<and> lt_inv U M (with_cache D h) G"
  using inv live
proof (induction "is" arbitrary: D)
  case Nil
  have "with_cache D (ls_cache D) = D" by simp
  moreover have "merged (contents G (concat (map (items_in M) (rev [])))) k = None" by (simp add: merged_Nil)
  ultimately show ?case using Nil goes_return [of M D None]
    unfolding search_views.simps by (intro exI [of _ "ls_cache D"]) (simp only: simp_thms)
next
  case (Cons i "is")
  let ?its = "items_in M i" and ?rest = "merged (contents G (concat (map (items_in M) (rev is)))) k"
  have "live M i" using Cons.prems(2) by simp
  then have view: "me_view M i = Some ?its" and wf: "lv_wf (view_of i ?its)"
    using shape_okD(6) Cons.prems(1) by (simp_all add: lt_inv_def)
  note cov = inv_covered [OF Cons.prems(1) \<open>live M i\<close>]
  have res: "merged (contents G (concat (map (items_in M) (rev (i # is))))) k =
      (case merged (contents G ?its) k of None \<Rightarrow> ?rest | Some v \<Rightarrow> Some v)"
    by (simp add: merged_append map_add_def)
  have found: "lv_find_id (view_of i ?its) k = map_option li_id (List.find (item_covers None k) ?its)"
    using lv_find_id_scan [OF wf, of k] by simp
  show ?case
  proof (cases "List.find (item_covers None k) ?its")
    case None
    then have none: "merged (contents G ?its) k = None" using view_find [OF wf cov, of k] by simp
    from Cons.IH [OF Cons.prems(1)] Cons.prems(2) obtain h where h: "goes M D (search_views ops None k is) (Inr ?rest) M (with_cache D h)"
      "lt_inv U M (with_cache D h) G" by auto
    have "goes M D (search_views ops None k (i # is)) (Inr ?rest) M (with_cache D h)"
      unfolding search_views.simps by (rule goes_bind [OF goes_get_view [OF view]]) (simp add: found None h(1))
    then show ?thesis using h(2) unfolding res none by auto
  next
    case (Some it)
    then have it: "it \<in> set ?its" "merged (contents G ?its) k = map_of (G (li_id it)) k" using view_find [OF wf cov, of k] by simp_all
    then have at: "item_at M i it" using \<open>live M i\<close> by (simp add: item_at_def)
    from load_goes [OF Cons.prems(1) at small] obtain h t where
      h: "goes M D (load_table_cache ops (li_id it)) (Inr t) M (with_cache D h)" "holds (G (li_id it)) t" "lt_inv U M (with_cache D h) G"
      by blast
    let ?D = "with_cache D h"
    have get: "goes M ?D (act_lift (to_get ops k t)) (Inr (map_of (G (li_id it)) k)) M ?D"
      by (rule goes_lift) (rule get_law [OF h(2)])
    from Cons.IH [OF h(3)] Cons.prems(2) obtain h' where h': "goes M ?D (search_views ops None k is) (Inr ?rest) M (with_cache D h')"
      "lt_inv U M (with_cache D h') G" by auto
    show ?thesis
    proof (cases "map_of (G (li_id it)) k")
      case None
      have "goes M D (search_views ops None k (i # is)) (Inr ?rest) M (with_cache D h')"
        unfolding search_views.simps
        by (rule goes_bind [OF goes_get_view [OF view]], simp only: found Some option.map option.case, rule goes_bind [OF h(1)],
            rule goes_bind [OF get], simp only: None option.case, rule h'(1))
      then show ?thesis using h'(2) unfolding res it(2) None by auto
    next
      case (Some v)
      have "goes M D (search_views ops None k (i # is)) (Inr (Some v)) M ?D"
        unfolding search_views.simps
        by (rule goes_bind [OF goes_get_view [OF view]], simp only: found \<open>List.find _ _ = Some it\<close> option.map option.case,
            rule goes_bind [OF h(1)], rule goes_bind [OF get], simp only: Some option.case, rule goes_return)
      then show ?thesis using h(3) unfolding res it(2) Some by auto
    qed
  qed
qed

lemma map_add_at: "(f ++ g) k = (case g k of None \<Rightarrow> f k | Some v \<Rightarrow> Some v)"
  by (simp add: map_add_def)

lemma search_levels_goes:
  assumes inv: "lt_inv U M D G" and small: "ct M < 2 ^ 63" and levels: "\<forall>l\<in>set ls. l < 2 ^ 63"
  shows "\<exists>h. goes M D (search_levels ops None k ls) (Inr (foldr (\<lambda>j m. m ++ level_map M G j) ls Map.empty k)) M
    (with_cache D h) \<and> lt_inv U M (with_cache D h) G"
  using inv levels
proof (induction ls arbitrary: D)
  case Nil
  have "with_cache D (ls_cache D) = D" by simp
  moreover have "foldr (\<lambda>j m. m ++ level_map M G j) [] Map.empty k = None" by simp
  ultimately show ?case using Nil goes_return [of M D None]
    unfolding search_levels.simps by (intro exI [of _ "ls_cache D"]) (simp only: simp_thms)
next
  case (Cons l ls)
  let ?rest = "foldr (\<lambda>j m. m ++ level_map M G j) ls Map.empty k"
  have res: "foldr (\<lambda>j m. m ++ level_map M G j) (l # ls) Map.empty k = (case level_map M G l k of None \<Rightarrow> ?rest | Some v \<Rightarrow> Some v)"
    unfolding foldr_Cons comp_apply by (rule map_add_at)
  have l: "l < 2 ^ 63" using Cons.prems(2) by simp
  have "\<forall>i\<in>set (rev (me_comp M l)). live M i" by (auto simp: live_def)
  from search_views_goes [OF Cons.prems(1) small this, of k] obtain h where
    h: "goes M D (search_views ops None k (rev (me_comp M l))) (Inr (level_map M G l k)) M (with_cache D h)" "lt_inv U M (with_cache D h) G"
    by (auto simp: level_map_def level_items_def)
  show ?case
  proof (cases "level_map M G l k")
    case None
    from Cons.IH [OF h(2)] Cons.prems(2) obtain h' where h': "goes M (with_cache D h) (search_levels ops None k ls) (Inr ?rest) M (with_cache D h')"
      "lt_inv U M (with_cache D h') G" by auto
    have "goes M D (search_levels ops None k (l # ls)) (Inr ?rest) M (with_cache D h')"
      unfolding search_levels.simps
      by (rule goes_bind [OF goes_get_component [OF l]], rule goes_bind [OF h(1)], simp only: None option.case, rule h'(1))
    then show ?thesis using h'(2) unfolding res None by auto
  next
    case (Some v)
    have "goes M D (search_levels ops None k (l # ls)) (Inr (Some v)) M (with_cache D h)"
      unfolding search_levels.simps
      by (rule goes_bind [OF goes_get_component [OF l]], rule goes_bind [OF h(1)], simp only: Some option.case, rule goes_return)
    then show ?thesis using h(2) unfolding res Some by auto
  qed
qed

lemma search_components_goes:
  assumes inv: "lt_inv U M D G" and small: "ct M < 2 ^ 63" "Suc (ml M) < 2 ^ 63" and cmp: "lo_cmp opt = None"
  shows "\<exists>h. goes M D (search_components ops opt k) (Inr (upper M G 0 k)) M (with_cache D h) \<and> lt_inv U M (with_cache D h) G"
proof -
  have n: "add64 (ml M) 1 = Suc (ml M)" using small(2) by (simp add: add64_small)
  have "\<forall>l\<in>set [0..<Suc (ml M)]. l < 2 ^ 63" using small(2) by auto
  from search_levels_goes [OF inv small(1) this, of k] obtain h where
    h: "goes M D (search_levels ops None k [0..<Suc (ml M)]) (Inr (upper M G 0 k)) M (with_cache D h)" "lt_inv U M (with_cache D h) G"
    unfolding levels_map_def by blast
  have "goes M D (search_components ops opt k) (Inr (upper M G 0 k)) M (with_cache D h)"
    unfolding search_components_def cmp by (rule goes_bind [OF goes_get_counter], unfold n, rule h(1))
  with h(2) show ?thesis by blast
qed

section \<open>Lookups\<close>

lemma st_inv_cache: "st_inv U M D G \<Longrightarrow> lt_inv U M (with_cache D h) G \<Longrightarrow> st_inv U M (with_cache D h) G"
  by (simp add: st_inv_def mems_ok_def logged_def)

lemma reads_goes:
  assumes st: "st_inv U M D G" and small: "ct M < 2 ^ 63" "Suc (ml M) < 2 ^ 63" and cmp: "lo_cmp opt = None"
  shows "\<exists>h. goes M D (level_try_get ops opt k) (Inr (case total M D G k of Some v \<Rightarrow> v | None \<Rightarrow> None)) M (with_cache D h) \<and>
      st_inv U M (with_cache D h) G \<and> total M (with_cache D h) G = total M D G"
    and "\<exists>h. goes M D (level_exist ops opt k) (Inr (item_status (total M D G k))) M (with_cache D h) \<and>
      st_inv U M (with_cache D h) G \<and> total M (with_cache D h) G = total M D G"
proof -
  have inv: "lt_inv U M D G" and mems: "mems_ok U M D" using st by (simp_all add: st_inv_def)
  from mems obtain m where m: "ls_mem D = Some m" "\<forall>x\<in>set (ls_imms D @ [m]). mem_ok U x \<and> logged D x" by (rule mems_okE)
  let ?ms = "m # rev (ls_imms D)"
  let ?found = "mems_map (ls_imms D @ [m]) k"
  have sorted: "\<forall>m\<in>set ?ms. mm_sorted None (mm_entries m)" using m(2) by (auto simp: mem_ok_def)
  have search: "search_mems None k ?ms = Inr ?found" "exist_mems None k ?ms = item_status ?found"
    using search_mems_map [OF sorted, of k] by (simp_all add: mems_map_def)
  have tot: "total M D G k = (case ?found of None \<Rightarrow> decoded (upper M G 0) k | Some x \<Rightarrow> Some x)"
    by (simp add: total_def m(1) map_add_def)
  have same: "total M (with_cache D h) G = total M D G" for h by (simp add: total_def)
  from search_components_goes [OF inv small cmp, of k] obtain h where
    h: "goes M D (search_components ops opt k) (Inr (upper M G 0 k)) M (with_cache D h)" "lt_inv U M (with_cache D h) G" by blast
  note st' = st_inv_cache [OF st h(2)]
  have D: "with_cache D (ls_cache D) = D" by simp
  have rest: "ls_mem s = Some m \<and> ls_imms s = ls_imms D" if "shows_at M D s" for s
    using that m(1) unfolding shows_at_def by (metis rest_of_sel(4,5))
  let ?get = "act_bind (act_lift (search_mems None k ?ms)) (\<lambda>r.
            case r of
              Some v \<Rightarrow> act_return v
            | None \<Rightarrow> act_bind (search_components ops opt k) (\<lambda>r'.
                act_return (case r' of None \<Rightarrow> None | Some val \<Rightarrow> if val = [] then None else Some val)))"
  have get: "becomes M D (level_try_get ops opt k) M D ?get"
    unfolding becomes_def using rest by (auto simp: level_try_get_def cmp)
  show "\<exists>h. goes M D (level_try_get ops opt k) (Inr (case total M D G k of Some v \<Rightarrow> v | None \<Rightarrow> None)) M (with_cache D h) \<and>
      st_inv U M (with_cache D h) G \<and> total M (with_cache D h) G = total M D G"
  proof (cases ?found)
    case None
    have "goes M D ?get (Inr (case upper M G 0 k of None \<Rightarrow> None | Some val \<Rightarrow> if val = [] then None else Some val)) M (with_cache D h)"
      unfolding search None by (rule goes_bind [OF goes_lift [OF refl]], simp only: option.case, rule goes_bind [OF h(1)], rule goes_return)
    moreover have "(case total M D G k of Some v \<Rightarrow> v | None \<Rightarrow> None) =
        (case upper M G 0 k of None \<Rightarrow> None | Some val \<Rightarrow> if val = [] then None else Some val)"
      unfolding tot None by (simp add: decoded_def split: option.split)
    ultimately show ?thesis using becomes_goes [OF get] st' same by auto
  next
    case (Some v)
    have "goes M D ?get (Inr v) M D"
      unfolding search Some by (rule goes_bind [OF goes_lift [OF refl]], simp only: option.case, rule goes_return)
    then have "goes M D (level_try_get ops opt k) (Inr v) M (with_cache D (ls_cache D))" unfolding D by (rule becomes_goes [OF get])
    then show ?thesis using st unfolding tot Some option.case by (metis D)
  qed
  let ?exist = "if exist_mems None k ?ms \<noteq> Not_exist then act_return (exist_mems None k ?ms)
    else act_bind (search_components ops opt k) (\<lambda>r'.
               act_return (case r' of None \<Rightarrow> Not_exist | Some val \<Rightarrow> if val = [] then Deleted else Exist))"
  have exist: "becomes M D (level_exist ops opt k) M D ?exist"
    unfolding becomes_def using rest by (auto simp: level_exist_def cmp Let_def)
  show "\<exists>h. goes M D (level_exist ops opt k) (Inr (item_status (total M D G k))) M (with_cache D h) \<and>
      st_inv U M (with_cache D h) G \<and> total M (with_cache D h) G = total M D G"
  proof (cases ?found)
    case None
    then have "exist_mems None k ?ms = Not_exist" unfolding search by (simp add: item_status_def)
    then have "goes M D ?exist (Inr (case upper M G 0 k of None \<Rightarrow> Not_exist | Some val \<Rightarrow> if val = [] then Deleted else Exist)) M (with_cache D h)"
      by (simp only: if_False simp_thms) (rule goes_bind [OF h(1)], rule goes_return)
    moreover have "item_status (total M D G k) = (case upper M G 0 k of None \<Rightarrow> Not_exist | Some val \<Rightarrow> if val = [] then Deleted else Exist)"
      unfolding tot None by (simp add: decoded_def item_status_def split: option.split)
    ultimately show ?thesis using becomes_goes [OF exist] st' same by auto
  next
    case (Some v)
    then have e: "exist_mems None k ?ms = item_status (Some v)" "item_status (Some v) \<noteq> Not_exist"
      unfolding search by (simp_all add: item_status_def split: option.split)
    then have "goes M D ?exist (Inr (item_status (Some v))) M D" by (simp only: if_True simp_thms) (rule goes_return)
    then have "goes M D (level_exist ops opt k) (Inr (item_status (Some v))) M (with_cache D (ls_cache D))" unfolding D by (rule becomes_goes [OF exist])
    then show ?thesis using st unfolding tot Some option.case by (metis D)
  qed
qed

end

end
