(* ===== verification/LevelReopen.thy ===== *)
theory LevelReopen
  imports LevelRead
begin

text \<open>
  Runs of the level table from an empty disk, and opening it again on the files a run has left: the logs bring the
  memory tables back, and the garbage collection removes nothing that is in use.
\<close>

text \<open>Every lookup finds what \<open>f\<close> has.\<close>

definition level_serves :: "'t table_ops \<Rightarrow> level_option \<Rightarrow> items \<Rightarrow> 't level_state \<Rightarrow> bool" where
  "level_serves ops opt f s \<longleftrightarrow> (\<forall>k. (\<exists>s'. level_try_get ops opt k s = Some (Inr (case f k of Some v \<Rightarrow> v | None \<Rightarrow> None), s')) \<and>
     (\<exists>s'. level_exist ops opt k s = Some (Inr (item_status (f k)), s')))"

context table_service
begin

section \<open>Runs\<close>

text \<open>Numbers after \<open>n\<close> calls.\<close>

definition within :: "nat \<Rightarrow> meta \<Rightarrow> bool" where
  "within n M \<longleftrightarrow> ct M \<le> n * (n + 2) \<and> cv M \<le> n \<and> ml M \<le> n \<and> cm M \<le> n"

lemma within_moved: "within n M \<Longrightarrow> moved M M' \<Longrightarrow> within (Suc n) M'"
  by (auto simp: within_def moved_def algebra_simps)

lemma within_mono: "within n M \<Longrightarrow> n \<le> n' \<Longrightarrow> within n' M"
  unfolding within_def by (meson add_mono le_trans mult_le_mono order_refl)

lemma within_small:
  assumes "within n M" and "n < 2 ^ 14"
  shows "ct M + ml M + 2 < 2 ^ 30" "ml M < 2 ^ 30 - 1" "cv M < 2 ^ 30 - 1" "cm M < 2 ^ 30"
proof -
  have "n * (n + 2) \<le> 2 ^ 14 * (2 ^ 14 + 2)" using assms(2) by (intro mult_le_mono) simp_all
  then show "ct M + ml M + 2 < 2 ^ 30" "ml M < 2 ^ 30 - 1" "cv M < 2 ^ 30 - 1" "cm M < 2 ^ 30"
    using assms by (simp_all add: within_def)
qed

definition level_ok :: "(bytes \<times> bytes) set \<Rightarrow> nat \<Rightarrow> items \<Rightarrow> 't level_state \<Rightarrow> bool" where
  "level_ok U n f s \<longleftrightarrow> (\<exists>M D G. shows_at M D s \<and> st_inv U M D G \<and> total M D G = f \<and> within n M)"

lemma level_action_ok:
  assumes U: "closed U" "\<not> safe opt \<longrightarrow> plain U" and cmp: "lo_cmp opt = None" and ok: "level_ok U n f s" and b: "batch_in U b"
    and n: "n < 2 ^ 14"
  shows "level_action ops opt b s = None \<and> \<not> safe opt \<or>
    (\<exists>r s'. level_action ops opt b s = Some (r, s') \<and> level_ok U (Suc n) (mt_internal_action False b f) s')"
proof -
  from ok obtain M D G where s: "shows_at M D s" and st: "st_inv U M D G" "total M D G = f" "within n M"
    unfolding level_ok_def by blast
  from level_action_keeps [OF U cmp st(1) b within_small [OF st(3) n]] s
  show ?thesis
    unfolding keeps_def stuck_def goes_def level_ok_def st(2) using within_moved [OF st(3)] by blast
qed

lemma level_reads_ok:
  assumes "lo_cmp opt = None" and "level_ok U n f s" and "n \<le> 2 ^ 14"
  shows "\<exists>s'. level_try_get ops opt k s = Some (Inr (case f k of Some v \<Rightarrow> v | None \<Rightarrow> None), s') \<and> level_ok U n f s'"
    and "\<exists>s'. level_exist ops opt k s = Some (Inr (item_status (f k)), s') \<and> level_ok U n f s'"
proof -
  from assms(2) obtain M D G where s: "shows_at M D s" and st: "st_inv U M D G" "total M D G = f" "within n M"
    unfolding level_ok_def by blast
  have "n * (n + 2) \<le> 2 ^ 14 * (2 ^ 14 + 2)" using assms(3) by (intro mult_le_mono) simp_all
  then have small: "ct M < 2 ^ 63" "Suc (ml M) < 2 ^ 63" using st(3) assms(3) by (simp_all add: within_def)
  from reads_goes [OF st(1) small assms(1), of k] s st(2,3)
  show "\<exists>s'. level_try_get ops opt k s = Some (Inr (case f k of Some v \<Rightarrow> v | None \<Rightarrow> None), s') \<and> level_ok U n f s'"
    "\<exists>s'. level_exist ops opt k s = Some (Inr (item_status (f k)), s') \<and> level_ok U n f s'"
    unfolding goes_def level_ok_def by blast+
qed

lemma level_calls_ok:
  assumes U: "closed U" "\<not> safe opt \<longrightarrow> plain U" and cmp: "lo_cmp opt = None" and "level_ok U n f s"
    and "\<forall>b\<in>set (writes_of cs). batch_in U b" and "n + length (writes_of cs) \<le> 2 ^ 14"
  shows "level_calls ops opt cs s = None \<and> \<not> safe opt \<or>
    (\<exists>s'. level_calls ops opt cs s = Some s' \<and>
       level_ok U (n + length (writes_of cs)) (mt_apply_all False (writes_of cs) f) s')"
  using assms(4-)
proof (induction cs arbitrary: n f s)
  case (Cons c cs)
  show ?case
  proof (cases c)
    case (Write b)
    have b: "batch_in U b" "n < 2 ^ 14" and rest: "\<forall>b\<in>set (writes_of cs). batch_in U b" "Suc n + length (writes_of cs) \<le> 2 ^ 14"
      using Cons.prems Write by simp_all
    from level_action_ok [OF U cmp Cons.prems(1) b]
    consider "level_action ops opt b s = None" "\<not> safe opt"
      | r s' where "level_action ops opt b s = Some (r, s')" "level_ok U (Suc n) (mt_internal_action False b f) s'" by metis
    then show ?thesis
    proof cases
      case 2
      from Cons.IH [OF 2(2) rest] show ?thesis using 2(1) Write by simp
    qed (simp add: Write)
  next
    case (Read k)
    have n: "n \<le> 2 ^ 14" and rest: "\<forall>b\<in>set (writes_of cs). batch_in U b" "n + length (writes_of cs) \<le> 2 ^ 14"
      using Cons.prems Read by simp_all
    from level_reads_ok(1) [OF cmp Cons.prems(1) n, of k] obtain r s' where
      "level_try_get ops opt k s = Some (Inr r, s')" "level_ok U n f s'" by blast
    with Cons.IH [OF this(2) rest] show ?thesis using Read by simp
  qed
qed simp

section \<open>The garbage collection\<close>

lemma gc_view_goes:
  assumes st: "st_inv U M D G" and live: "live M i"
  shows "goes M D (gc_view None (me_counter M Prev_table) e i) (Inr False) M D"
proof -
  have shape: "shape_ok M" using st by (simp add: st_inv_def lt_inv_def)
  have less: "li_id it < me_counter M Prev_table" if "it \<in> set (items_in M i)" for it
    using st live that by (auto simp: st_inv_def item_at_def)
  then have none: "filter (\<lambda>j. me_counter M Prev_table < j \<and> j \<le> e) (map li_id (items_in M i)) = []"
    by (auto simp: filter_empty_conv) (meson less_trans less_irrefl)
  have "me_view M i = Some (items_in M i)" "items_in M i \<noteq> []" using shape_okD(6) [OF shape live] by simp_all
  then show ?thesis
    unfolding gc_view_def
    by (intro goes_bind [OF goes_get_view]) (assumption, unfold level_view.select_convs none Let_def, simp add: goes_return)
qed

lemma gc_component_goes:
  assumes st: "st_inv U M D G" and l: "l < 2 ^ 63"
  shows "goes M D (gc_component None (me_counter M Prev_table) e l) (Inr ()) M D"
proof -
  let ?c = "me_comp M l"
  have "goes M D (act_each (gc_view None (me_counter M Prev_table) e) ?c) (Inr (map (\<lambda>_. False) ?c)) M D"
    by (rule goes_each, rule gc_view_goes [OF st]) (auto simp: live_def)
  moreover have "filter snd (zip ?c (map (\<lambda>_. False) ?c)) = []" by (auto simp: filter_empty_conv set_zip)
  ultimately show ?thesis
    unfolding gc_component_def
    by (intro goes_bind [OF goes_get_component [OF l]] goes_bind) (auto simp: goes_return)
qed

lemma top_level_goes:
  assumes "n < 2 ^ 63"
  shows "\<exists>l\<le>n. goes M D (top_level n) (Inr l) M D \<and> (\<forall>j. l < j \<and> j \<le> n \<longrightarrow> me_comp M j = [])"
  using assms
proof (induction n)
  case 0
  show ?case unfolding top_level.simps using goes_return [of M D "0 :: nat"] by blast
next
  case (Suc n)
  show ?case
  proof (cases "me_comp M (Suc n) = []")
    case True
    from Suc obtain l where l: "l \<le> n" "goes M D (top_level n) (Inr l) M D" "\<forall>j. l < j \<and> j \<le> n \<longrightarrow> me_comp M j = []" by auto
    have "goes M D (top_level (Suc n)) (Inr l) M D"
      unfolding top_level.simps by (rule goes_bind [OF goes_get_component [OF Suc.prems]]) (simp add: True l(2))
    then show ?thesis using l True by (intro exI [of _ l]) (auto simp: le_Suc_eq)
  next
    case False
    have "goes M D (top_level (Suc n)) (Inr (Suc n)) M D"
      unfolding top_level.simps by (rule goes_bind [OF goes_get_component [OF Suc.prems]]) (simp add: False goes_return)
    then show ?thesis by (intro exI [of _ "Suc n"]) auto
  qed
qed

definition fresh_cache :: "'t level_state \<Rightarrow> bool" where
  "fresh_cache D \<longleftrightarrow> (\<forall>k b. \<not> sc_holds (ls_cache D) k b)"

text \<open>The tables after the last complete one are deleted, and empty levels at the top are left.\<close>

lemma collected:
  assumes st: "st_inv U M D G" and fresh: "fresh_cache D" and h: "less_cache h (ls_cache D)"
    and l: "l \<le> ml M" "\<forall>j. l < j \<and> j \<le> ml M \<longrightarrow> me_comp M j = []" and b: "b = me_counter M Prev_table"
    and M': "M' = with_counter Current_table b (with_counter Max_level l M)" and D': "D' = without_files {b..<ct M} h D"
  shows "st_inv U M' D' G" and "total M' D' G = total M D G"
proof -
  have inv: "lt_inv U M D G" and mems: "mems_ok U M D" and less: "\<And>i it. item_at M i it \<Longrightarrow> li_id it < b"
    using st by (simp_all add: st_inv_def b)
  have shape: "shape_ok M" and files: "files_ok U M D G" using inv by (simp_all add: lt_inv_def)
  have items: "items_in M' = items_in M" unfolding M' by (intro ext) (simp add: items_in_def)
  have at: "item_at M' = item_at M" unfolding item_at_def live_def items by (simp add: M')
  have "me_comp M j = []" if "l < j" for j
    using l(2) shape_okD(1) [OF shape] that by (cases "j \<le> ml M") auto
  then have shape': "shape_ok M'" using shape by (auto simp: shape_ok_def live_def M')
  moreover have "files_ok U M' D' G"
    using files less unfolding files_ok_def at by (simp add: M' D' file_ok_def) (meson not_le)
  moreover have "cache_ok M' D' (ct M')"
    using fresh h unfolding cache_ok_def D' by (simp add: fresh_cache_def cache_keyed_def)
  ultimately have inv': "lt_inv U M' D' G" by (simp add: lt_inv_def)
  have "mems_ok U M' D'" using mems unfolding M' D' by (simp add: mems_ok_def logged_def)
  then show "st_inv U M' D' G" using inv' st less unfolding st_inv_def at by (simp add: M' b)
  have "level_map M' G j = level_map M G j" for j unfolding level_map_def level_items_def items by (simp add: M')
  then have "upper M' G 0 = upper M G 0" by (intro upper_cong shape_okD(1) shape shape') simp
  then show "total M' D' G = total M D G" by (simp add: total_def D')
qed

lemma gc_tables_goes:
  assumes st: "st_inv U M D G" and fresh: "me_counter M Prev_table = ct M \<or> fresh_cache D"
    and sizes: "ct M < 2 ^ 63" "Suc (ml M) < 2 ^ 63"
  shows "\<exists>M' D'. goes M D (gc_tables None) (Inr ()) M' D' \<and> st_inv U M' D' G \<and> total M' D' G = total M D G \<and>
    ct M' \<le> ct M \<and> cv M' = cv M \<and> ml M' \<le> ml M \<and> cm M' = cm M"
proof (cases "me_counter M Prev_table = ct M")
  case True
  have "goes M D (gc_tables None) (Inr ()) M D"
    unfolding gc_tables_def
    by (rule goes_bind [OF goes_get_counter], rule goes_bind [OF goes_get_counter]) (simp add: True goes_return)
  then show ?thesis using st by blast
next
  case False
  let ?b = "me_counter M Prev_table" and ?e = "ct M"
  have cache: "cache_keyed (ls_cache D)" using st cache_ok_keyed by (auto simp: st_inv_def lt_inv_def)
  have b: "?b \<le> ?e" using st by (simp add: st_inv_def)
  have n: "add64 (ml M) 1 = Suc (ml M)" using sizes(2) by (simp add: add64_small)
  have comps: "goes M D (act_each (gc_component None ?b ?e) [0..<Suc (ml M)]) (Inr (map (\<lambda>_. ()) [0..<Suc (ml M)])) M D"
    by (rule goes_each, rule gc_component_goes [OF st]) (use sizes(2) in auto)
  obtain l where l: "l \<le> ml M" "goes M D (top_level (ml M)) (Inr l) M D" "\<forall>j. l < j \<and> j \<le> ml M \<longrightarrow> me_comp M j = []"
    using top_level_goes [of "ml M" M D] sizes(2) by auto
  let ?M1 = "with_counter Max_level l M"
  have lower: "goes M D (if l \<noteq> ml M then set_counter Max_level l else act_return ()) (Inr ()) ?M1 D"
    using l(1) sizes(2) by (cases "l = ml M") (simp_all add: goes_return goes_set_counter fun_upd_idem)
  obtain h where h: "less_cache h (ls_cache D)"
    "goes ?M1 D (act_each delete_table (rev [?b..<?e])) (Inr (map (\<lambda>_. ()) (rev [?b..<?e]))) ?M1 (without_files {?b..<?e} h D)"
    using goes_delete_tables [OF cache, of ?M1 "rev [?b..<?e]"] by auto
  let ?M = "with_counter Current_table ?b ?M1" and ?D = "without_files {?b..<?e} h D"
  have "goes M D (gc_tables None) (Inr ()) ?M ?D"
    unfolding gc_tables_def
    apply (rule goes_bind [OF goes_get_counter])
    apply (rule goes_bind [OF goes_get_counter])
    unfolding if_not_P [OF False]
    apply (rule goes_bind [OF goes_get_counter])
    unfolding n
    apply (rule goes_bind [OF comps])
    apply (rule goes_bind [OF l(2)])
    apply (rule goes_bind [OF lower])
    apply (rule goes_bind [OF h(2)])
    apply (rule goes_set_counter)
    using b sizes(1) by simp
  moreover have "fresh_cache D" using fresh False by blast
  note collected [OF st this h(1) l(1,3) refl refl refl]
  ultimately show ?thesis using b l(1) by (intro exI [of _ ?M] exI [of _ ?D]) simp
qed

lemma gc_views_goes: "me_counter M Prev_view = cv M \<Longrightarrow> goes M D gc_views (Inr ()) M D"
  unfolding gc_views_def
  by (rule goes_bind [OF goes_get_counter], rule goes_bind [OF goes_get_counter]) (simp add: goes_return)

section \<open>Opening\<close>

lemma goes_open_mem:
  assumes "logged D m"
  shows "goes M D (open_mem None (mm_id m)) (Inr m) M D"
proof -
  from assms obtain bs where bs: "\<forall>b\<in>set bs. loadable b" "ls_logs D (mm_id m) = Some (concat (map log_record bs))"
    "mm_offset m = length (concat (map log_record bs))" "mm_entries m = fold (mm_internal_action None) bs []"
    unfolding logged_def by blast
  let ?w = "concat (map log_record bs)"
  have read: "bl_get_write_batchs (bl_open ?w) = Inr (bs, \<lparr>lg_file = ?w, lg_offset = length ?w\<rparr>)"
    using bl_read_records [of bs 0 ?w "length ?w" "[]" "[]"] bs(1) by (simp add: bl_get_write_batchs_def bl_open_def)
  have m: "\<lparr>mm_id = mm_id m, mm_offset = length ?w, mm_entries = fold (mm_internal_action None) bs []\<rparr> = m"
    using bs(3,4) by (cases m) simp
  have "goes M D (open_mem None (mm_id m)) (Inr m) M ((\<lambda>s. s) D)"
  proof (rule goes_upd)
    fix s
    assume "rest_of s = D"
    then have "ls_logs s (mm_id m) = Some ?w" using bs(2) by auto
    moreover from this have "(ls_logs s)(mm_id m \<mapsto> ?w) = ls_logs s" by (simp add: fun_upd_idem)
    ultimately show "open_mem None (mm_id m) s = Some (Inr m, s)" by (simp add: open_mem_def read m)
  qed simp_all
  then show ?thesis by simp
qed

lemma goes_open_mems:
  assumes "\<forall>m\<in>set ms. logged D m"
  shows "goes M D (act_each (open_mem None) (map mm_id ms)) (Inr ms) M D"
  using assms
proof (induction ms)
  case Nil
  show ?case using goes_each_Nil [of M D "open_mem None"] by (simp del: act_each.simps)
next
  case (Cons m ms)
  have "goes M D (act_bind (act_each (open_mem None) (map mm_id ms)) (\<lambda>ys. act_return (m # ys))) (Inr (m # ms)) M D"
    using Cons by (intro goes_bind [OF Cons.IH] goes_return) simp_all
  then show ?case using Cons.prems by (auto intro: goes_bind [OF goes_open_mem])
qed

lemma init_immutable_becomes:
  assumes "\<forall>m\<in>set ms. logged D m" and "map mm_id ms = [pm M..<cm M]" and "lo_cmp opt = None" and "ls_imms D = []"
  shows "becomes M D (init_immutable_tables ops opt) M (D\<lparr>ls_imms := ms\<rparr>)
    (if length ms \<ge> lo_max_imms opt then dump_imms ops opt else act_return ())"
  unfolding init_immutable_tables_def
proof (rule becomes_bind [OF goes_get_counter], rule becomes_bind [OF goes_get_counter],
    rule becomes_bind, unfold assms(2) [symmetric] assms(3), rule goes_open_mems [OF assms(1)], unfold becomes_def, intro allI impI)
  fix s
  assume s: "shows_at M D s"
  then have "rest_of s = D" by (simp add: shows_at_def)
  then have "ls_imms s = []" "rest_of (s\<lparr>ls_imms := ms\<rparr>) = D\<lparr>ls_imms := ms\<rparr>"
    using assms(4) by (auto simp: rest_of_def)
  moreover from this have "shows_at M (D\<lparr>ls_imms := ms\<rparr>) (s\<lparr>ls_imms := ms\<rparr>)" using s by (simp add: shows_at_def)
  ultimately show "\<exists>s0. shows_at M (D\<lparr>ls_imms := ms\<rparr>) s0 \<and> (let s' = s\<lparr>ls_imms := ls_imms s @ ms\<rparr>
      in if lo_max_imms opt \<le> length (ls_imms s') then dump_imms ops opt s' else Some (Inr (), s')) =
      (if lo_max_imms opt \<le> length ms then dump_imms ops opt else act_return ()) s0"
    by (intro exI [of _ "s\<lparr>ls_imms := ms\<rparr>"]) (simp add: Let_def)
qed

lemma st_inv_used:
  assumes "st_inv U M D G" and "ls_mem D = Some m" and "x \<noteq> 0 \<longrightarrow> mm_entries m \<noteq> []"
  shows "st_inv U M (D\<lparr>ls_used := x\<rparr>) G" and "total M (D\<lparr>ls_used := x\<rparr>) G = total M D G"
proof -
  show "total M (D\<lparr>ls_used := x\<rparr>) G = total M D G" by (simp add: total_def)
  show "st_inv U M (D\<lparr>ls_used := x\<rparr>) G"
    using assms unfolding st_inv_def lt_inv_def mems_ok_def
    by (auto simp: files_ok_def file_ok_def cache_ok_def logged_def)
qed

text \<open>What the constructor does once the memory tables are there.\<close>

definition open_tail :: "('t level_state, unit) act" where
  "open_tail = act_bind (act_modify init_used) (\<lambda>_. act_bind gc_views (\<lambda>_. gc_tables None))"

lemma open_tail_goes:
  assumes st: "st_inv U M D G" and fresh: "me_counter M Prev_table = ct M \<or> fresh_cache D"
    and sizes: "ct M < 2 ^ 63" "Suc (ml M) < 2 ^ 63"
  shows "\<exists>M' D'. goes M D open_tail (Inr ()) M' D' \<and> st_inv U M' D' G \<and> total M' D' G = total M D G \<and>
    ct M' \<le> ct M \<and> cv M' = cv M \<and> ml M' \<le> ml M \<and> cm M' = cm M"
proof -
  from st have "mems_ok U M D" by (simp add: st_inv_def)
  then obtain m where m: "ls_mem D = Some m" by (rule mems_okE)
  let ?x = "sum_list (map wal_size (mm_entries m)) mod 2 ^ 64"
  let ?D = "D\<lparr>ls_used := ?x\<rparr>"
  have used: "goes M D (act_modify init_used) (Inr ()) M ?D"
  proof -
    have "goes M D (act_modify init_used) (Inr ()) M (init_used D)"
      by (intro goes_modify_rest) (simp_all add: init_used_def rest_of_def)
    then show ?thesis by (simp add: init_used_def m)
  qed
  have "?x \<noteq> 0 \<longrightarrow> mm_entries m \<noteq> []" by auto
  note st' = st_inv_used [OF st m this]
  have "me_counter M Prev_table = ct M \<or> fresh_cache ?D" using fresh by (simp add: fresh_cache_def)
  from gc_tables_goes [OF st'(1) this sizes] obtain M' D' where M': "goes M ?D (gc_tables None) (Inr ()) M' D'" "st_inv U M' D' G"
    "total M' D' G = total M ?D G" "ct M' \<le> ct M" "cv M' = cv M" "ml M' \<le> ml M" "cm M' = cm M" by blast
  have "me_counter M Prev_view = cv M" using st by (simp add: st_inv_def)
  then have "goes M D open_tail (Inr ()) M' D'"
    unfolding open_tail_def by (rule goes_bind [OF used goes_bind [OF gc_views_goes M'(1)]])
  with M'(2-) show ?thesis unfolding st'(2) by blast
qed

lemma becomes_bind_first: "becomes M D m M0 D0 m0 \<Longrightarrow> becomes M D (act_bind m f) M0 D0 (act_bind m0 f)"
  unfolding becomes_def
proof (intro allI impI)
  fix s
  assume "\<forall>s. shows_at M D s \<longrightarrow> (\<exists>s0. shows_at M0 D0 s0 \<and> m s = m0 s0)" "shows_at M D s"
  then obtain s0 where "shows_at M0 D0 s0" "m s = m0 s0" by blast
  then show "\<exists>s0. shows_at M0 D0 s0 \<and> act_bind m f s = act_bind m0 f s0"
    by (intro exI [of _ s0]) (simp add: act_bind_def)
qed

lemma open_tail_within:
  assumes "st_inv U M D G" and "within n M" and "me_counter M Prev_table = ct M \<or> fresh_cache D" and "n \<le> 2 ^ 14"
  shows "\<exists>M' D'. goes M D open_tail (Inr ()) M' D' \<and> st_inv U M' D' G \<and> total M' D' G = total M D G \<and> within n M'"
proof -
  have "n * (n + 2) \<le> 2 ^ 14 * (2 ^ 14 + 2)" using assms(4) by (intro mult_le_mono) simp_all
  then have "ct M < 2 ^ 63" "Suc (ml M) < 2 ^ 63" using assms(2,4) by (simp_all add: within_def)
  from open_tail_goes [OF assms(1,3) this] obtain M' D' where "goes M D open_tail (Inr ()) M' D'" "st_inv U M' D' G"
    "total M' D' G = total M D G" "ct M' \<le> ct M" "cv M' = cv M" "ml M' \<le> ml M" "cm M' = cm M" by blast
  moreover from this assms(2) have "within n M'" by (auto simp: within_def)
  ultimately show ?thesis by blast
qed

text \<open>The files of a table that is not open, with memory table \<open>m\<close> and the immutable ones \<open>ms\<close> in the logs.\<close>

definition on_disk :: "(bytes \<times> bytes) set \<Rightarrow> meta \<Rightarrow> 't level_state \<Rightarrow> (nat \<Rightarrow> (bytes \<times> bytes) list) \<Rightarrow> mem_table list \<Rightarrow> mem_table \<Rightarrow> bool" where
  "on_disk U M D G ms m \<longleftrightarrow> ls_mem D = Some m \<and> ls_imms D = [] \<and> fresh_cache D \<and> st_inv U M (D\<lparr>ls_imms := ms\<rparr>) G"

lemma on_diskD:
  assumes "on_disk U M D G ms m"
  shows "\<forall>x\<in>set ms. logged D x" and "map mm_id ms = [pm M..<cm M]"
proof -
  have "mems_ok U M (D\<lparr>ls_imms := ms\<rparr>)" "ls_mem D = Some m" using assms by (simp_all add: on_disk_def st_inv_def)
  then have "\<forall>x\<in>set ms. logged (D\<lparr>ls_imms := ms\<rparr>) x" and ids: "map mm_id (ms @ [m]) = [pm M..<Suc (cm M)]"
    by (auto simp: mems_ok_def)
  then show "\<forall>x\<in>set ms. logged D x" by (simp add: logged_def)
  show "map mm_id ms = [pm M..<cm M]" using ids mem_last_id(1,2) [OF ids] by simp
qed

lemma open_imms_short:
  assumes cmp: "lo_cmp opt = None" and disk: "on_disk U M D G ms m" and n: "within n M" "n \<le> 2 ^ 14" and short: "length ms < lo_max_imms opt"
  shows "\<exists>M' D'. goes M D (act_bind (init_immutable_tables ops opt) (\<lambda>_. open_tail)) (Inr ()) M' D' \<and> st_inv U M' D' G \<and>
    total M' D' G = total M (D\<lparr>ls_imms := ms\<rparr>) G \<and> within n M'"
proof -
  let ?D = "D\<lparr>ls_imms := ms\<rparr>"
  have D: "ls_imms D = []" "st_inv U M ?D G" and fresh: "fresh_cache ?D" using disk by (simp_all add: on_disk_def fresh_cache_def)
  have "(if length ms \<ge> lo_max_imms opt then dump_imms ops opt else act_return ()) = act_return ()" using short by simp
  with becomes_bind_first [OF init_immutable_becomes [OF on_diskD [OF disk] cmp D(1)], of "\<lambda>_. open_tail"]
  have start: "becomes M D (act_bind (init_immutable_tables ops opt) (\<lambda>_. open_tail)) M ?D (act_bind (act_return ()) (\<lambda>_. open_tail))" by simp
  from open_tail_within [OF D(2) n(1) _ n(2)] fresh obtain M' D' where
    M': "goes M ?D open_tail (Inr ()) M' D'" "st_inv U M' D' G" "total M' D' G = total M ?D G" "within n M'" by blast
  from becomes_goes [OF start goes_bind [OF goes_return M'(1)]] M'(2-) show ?thesis by blast
qed

lemma open_imms_keeps:
  assumes U: "closed U" "\<not> safe opt \<longrightarrow> plain U" and cmp: "lo_cmp opt = None" and max: "0 < lo_max_imms opt"
    and disk: "on_disk U M D G ms m" and n: "within n M" "n < 2 ^ 14"
  shows "keeps U opt M D (total M (D\<lparr>ls_imms := ms\<rparr>) G) (\<lambda>_. within (Suc n)) (act_bind (init_immutable_tables ops opt) (\<lambda>_. open_tail))"
proof (cases "length ms < lo_max_imms opt")
  case True
  have "n \<le> 2 ^ 14" using n(2) by simp
  from open_imms_short [OF cmp disk n(1) this True] within_mono [of n _ "Suc n"] show ?thesis
    unfolding keeps_def by (meson le_SucI order_refl)
next
  case False
  let ?D = "D\<lparr>ls_imms := ms\<rparr>"
  note small = within_small [OF n]
  have D: "ls_imms D = []" and st: "st_inv U M ?D G" using disk by (simp_all add: on_disk_def)
  have "(if length ms \<ge> lo_max_imms opt then dump_imms ops opt else act_return ()) = dump_imms ops opt" using False by simp
  with becomes_bind_first [OF init_immutable_becomes [OF on_diskD [OF disk] cmp D], of "\<lambda>_. open_tail"]
  have start: "becomes M D (act_bind (init_immutable_tables ops opt) (\<lambda>_. open_tail)) M ?D (act_bind (dump_imms ops opt) (\<lambda>_. open_tail))" by simp
  have ne: "ls_imms ?D \<noteq> []" using False max by auto
  have "cm M < 2 ^ 63" using small(4) by simp
  from dump_keeps [OF U cmp st ne small(1-3) this] consider (stuck) "stuck M ?D (dump_imms ops opt)" "\<not> safe opt"
    | (ran) r M1 D1 G1 where "goes M ?D (dump_imms ops opt) r M1 D1" "st_inv U M1 D1 G1" "total M1 D1 G1 = total M ?D G" "dumped M r M1"
    unfolding keeps_def by metis
  then show ?thesis
  proof cases
    case stuck
    from becomes_stuck [OF start stuck_bind_first [OF stuck(1)]] stuck(2) show ?thesis unfolding keeps_def by blast
  next
    case ran
    have w: "within (Suc n) M1" using ran(4) by (intro within_moved [OF n(1)]) (simp add: dumped_def grown_def moved_def)
    show ?thesis
    proof (cases r)
      case (Inl e)
      from becomes_goes [OF start goes_bind_Inl [OF ran(1) [unfolded Inl]]] ran(2,3) w show ?thesis
        unfolding keeps_def by blast
    next
      case (Inr u)
      then have r: "r = Inr ()" by simp
      have "me_counter M1 Prev_table = ct M1" using ran(4) r by (simp add: dumped_def)
      moreover have "Suc n \<le> 2 ^ 14" using n(2) by simp
      ultimately obtain M2 D2 where M2: "goes M1 D1 open_tail (Inr ()) M2 D2" "st_inv U M2 D2 G1"
        "total M2 D2 G1 = total M1 D1 G1" "within (Suc n) M2" using open_tail_within [OF ran(2) w] by blast
      have "total M2 D2 G1 = total M ?D G" using M2(3) ran(3) by simp
      with becomes_goes [OF start goes_bind [OF ran(1) [unfolded r] M2(1)]] M2(2,4) show ?thesis
        unfolding keeps_def by blast
    qed
  qed
qed

lemma level_open_tail:
  assumes "lo_cmp opt = None"
  shows "level_open ops opt c s = act_bind (init_memory_table None) (\<lambda>_. act_bind (init_immutable_tables ops opt) (\<lambda>_. open_tail))
    (init_manifest (level_closed c s))"
  by (simp add: level_open_def open_tail_def assms)

lemma goes_init_memory:
  assumes "mm_id m = cm M" and "logged D m"
  shows "goes M D (init_memory_table None) (Inr ()) M (D\<lparr>ls_mem := Some m\<rparr>)"
proof -
  have "goes M D (act_modify (\<lambda>s. s\<lparr>ls_mem := Some m\<rparr>)) (Inr ()) M (D\<lparr>ls_mem := Some m\<rparr>)"
    by (intro goes_modify_rest) (simp_all add: rest_of_def)
  then show ?thesis
    unfolding init_memory_table_def assms(1) [symmetric]
    by (intro goes_bind [OF goes_get_counter]) (unfold assms(1) [symmetric], rule goes_bind [OF goes_open_mem [OF assms(2)]])
qed

lemma closed_shows:
  assumes "shows_at M D s"
  shows "init_manifest (level_closed c s) = level_closed c s" and "shows_at M (level_closed c D) (level_closed c s)"
proof -
  have "ls_manifest s (counter_key Max_level) = Some (le_bytes 8 (ml M))" using assms by (simp add: shows_at_def manifest_shows_def)
  then have "ls_manifest (level_closed c s) \<noteq> Map.empty" by (auto simp: level_closed_def)
  then show "init_manifest (level_closed c s) = level_closed c s" by (simp add: init_manifest_def)
  have "rest_of s = D" using assms by (simp add: shows_at_def)
  then have "rest_of (level_closed c s) = level_closed c D" by (auto simp: rest_of_def level_closed_def)
  then show "shows_at M (level_closed c D) (level_closed c s)"
    using assms by (simp add: shows_at_def level_closed_def maps_show_def)
qed

lemma closed_on_disk:
  assumes st: "st_inv U M D G" and m: "ls_mem D = Some m"
  shows "on_disk U M ((level_closed c D)\<lparr>ls_mem := Some m\<rparr>) G (ls_imms D) m"
    and "total M ((level_closed c D)\<lparr>ls_mem := Some m, ls_imms := ls_imms D\<rparr>) G = total M D G"
    and "mm_id m = cm M" and "logged (level_closed c D) m"
proof -
  let ?D = "(level_closed c D)\<lparr>ls_mem := Some m, ls_imms := ls_imms D\<rparr>"
  have inv: "lt_inv U M D G" and mems: "mems_ok U M D" using st by (simp_all add: st_inv_def)
  show "total M ?D G = total M D G" by (simp add: total_def m level_closed_def)
  have ids: "map mm_id (ls_imms D @ [m]) = [pm M..<Suc (cm M)]" and "logged D m" using mems m by (auto simp: mems_ok_def)
  show "mm_id m = cm M" by (rule mem_last_id(1) [OF ids])
  show "logged (level_closed c D) m" using \<open>logged D m\<close> by (simp add: logged_def level_closed_def)
  have "lt_inv U M ?D G"
    using inv by (simp add: lt_inv_def files_ok_def file_ok_def cache_ok_def level_closed_def)
  moreover have "mems_ok U M ?D" using mems m by (auto simp: mems_ok_def logged_def level_closed_def)
  ultimately have "st_inv U M ?D G" using st by (simp add: st_inv_def)
  then show "on_disk U M ((level_closed c D)\<lparr>ls_mem := Some m\<rparr>) G (ls_imms D) m"
    by (simp add: on_disk_def fresh_cache_def level_closed_def)
qed

text \<open>Opening the files of a table gives the table back; it can only fail when it has to dump.\<close>

lemma level_reopen_ok:
  assumes U: "closed U" "\<not> safe opt \<longrightarrow> plain U" and cmp: "lo_cmp opt = None" and max: "0 < lo_max_imms opt"
    and ok: "level_ok U n f s" and n: "n < 2 ^ 14"
  shows "level_open ops opt c s = None \<and> \<not> safe opt \<or> (\<exists>r s'. level_open ops opt c s = Some (r, s') \<and> level_ok U (Suc n) f s')"
    and "length (ls_imms s) < lo_max_imms opt \<Longrightarrow> \<exists>s'. level_open ops opt c s = Some (Inr (), s') \<and> level_ok U (Suc n) f s'"
proof -
  from ok obtain M D G where s: "shows_at M D s" and st: "st_inv U M D G" "total M D G = f" "within n M"
    unfolding level_ok_def by blast
  from st(1) have "mems_ok U M D" by (simp add: st_inv_def)
  then obtain m where m: "ls_mem D = Some m" by (rule mems_okE)
  note disk = closed_on_disk(1,2) [OF st(1) m, of c] and shows' = closed_shows [OF s, of c]
  let ?D = "(level_closed c D)\<lparr>ls_mem := Some m\<rparr>" and ?tail = "act_bind (init_immutable_tables ops opt) (\<lambda>_. open_tail)"
  have tot: "total M (?D\<lparr>ls_imms := ls_imms D\<rparr>) G = f" using disk(2) st(2) by simp
  note mem = goes_init_memory [OF closed_on_disk(3) [OF st(1) m] closed_on_disk(4) [OF st(1) m, of c]]
  have opened: "becomes M (level_closed c D) (act_bind (init_memory_table None) (\<lambda>_. ?tail)) M ?D ?tail"
    by (rule becomes_bind [OF mem becomes_refl])
  have run: "level_open ops opt c s = act_bind (init_memory_table None) (\<lambda>_. ?tail) (level_closed c s)"
    unfolding level_open_tail [OF cmp] shows'(1) ..
  have "keeps U opt M (level_closed c D) f (\<lambda>_. within (Suc n)) (act_bind (init_memory_table None) (\<lambda>_. ?tail))"
    by (rule keeps_becomes [OF opened open_imms_keeps [OF U cmp max disk(1) st(3) n, unfolded tot]])
  then show "level_open ops opt c s = None \<and> \<not> safe opt \<or> (\<exists>r s'. level_open ops opt c s = Some (r, s') \<and> level_ok U (Suc n) f s')"
    using shows'(2) unfolding run keeps_def stuck_def goes_def level_ok_def by blast
  have n': "n \<le> 2 ^ 14" using n by simp
  have imms: "ls_imms s = ls_imms D" using s unfolding shows_at_def by (metis rest_of_sel(5))
  show "\<exists>s'. level_open ops opt c s = Some (Inr (), s') \<and> level_ok U (Suc n) f s'" if "length (ls_imms s) < lo_max_imms opt"
  proof -
    from open_imms_short [OF cmp disk(1) st(3) n' that [unfolded imms]] obtain M' D' where
      M': "goes M ?D ?tail (Inr ()) M' D'" "st_inv U M' D' G" "total M' D' G = f" "within n M'" unfolding tot by blast
    from becomes_goes [OF opened M'(1)] shows'(2) obtain s' where
      s': "act_bind (init_memory_table None) (\<lambda>_. ?tail) (level_closed c s) = Some (Inr (), s')" "shows_at M' D' s'"
      unfolding goes_def by blast
    have "within (Suc n) M'" using within_mono [OF M'(4)] by simp
    then have "level_ok U (Suc n) f s'" unfolding level_ok_def using s'(2) M'(2,3) by blast
    then show ?thesis unfolding run using s'(1) by blast
  qed
qed

section \<open>A new table\<close>

definition new_meta :: meta where
  "new_meta = \<lparr>me_counter = (\<lambda>_. 0), me_comp = (\<lambda>_. []), me_view = (\<lambda>_. None), me_limit = 0\<rparr>"

lemma new_table_shows:
  "shows_at new_meta (level_closed c (empty_disk :: 't level_state)) (init_manifest (level_closed c empty_disk))"
proof -
  let ?s = "init_manifest (level_closed c (empty_disk :: 't level_state))"
  have m: "ls_manifest ?s = (\<lambda>k. if k \<in> range counter_key then Some (le_bytes 8 0) else None)"
  proof
    fix k
    show "ls_manifest ?s k = (if k \<in> range counter_key then Some (le_bytes 8 0) else None)"
    proof (cases "k \<in> range counter_key")
      case True
      then obtain d where "k = counter_key d" by blast
      then show ?thesis
        by (cases d) (simp_all add: init_manifest_def level_closed_def empty_disk_def put_counter_def manifest_put_def)
    next
      case False
      then have "k \<noteq> counter_key d" for d by blast
      then show ?thesis using False
        by (simp add: init_manifest_def level_closed_def empty_disk_def put_counter_def manifest_put_def)
    qed
  qed
  have "view_key i \<notin> range counter_key" "component_key i \<notin> range counter_key" for i
    using manifest_keys by auto
  then have "manifest_shows (ls_manifest ?s) new_meta" unfolding m manifest_shows_def by (simp add: new_meta_def)
  moreover have "rest_of ?s = level_closed c empty_disk"
    by (simp add: rest_of_def init_manifest_def level_closed_def empty_disk_def put_counter_def manifest_put_def)
  moreover have "ls_views ?s = Map.empty" "ls_components ?s = Map.empty"
    by (simp_all add: init_manifest_def level_closed_def empty_disk_def put_counter_def manifest_put_def)
  ultimately show ?thesis by (simp add: shows_at_def meta_ok_def maps_show_def new_meta_def)
qed

lemma goes_init_new_memory:
  assumes "cm M = i" and "ls_logs D i = None"
  shows "goes M D (init_memory_table None) (Inr ()) M
    (D\<lparr>ls_logs := (ls_logs D)(i \<mapsto> []), ls_mem := Some \<lparr>mm_id = i, mm_offset = 0, mm_entries = []\<rparr>\<rparr>)"
proof -
  let ?m = "\<lparr>mm_id = i, mm_offset = 0, mm_entries = []\<rparr>" and ?D = "D\<lparr>ls_logs := (ls_logs D)(i \<mapsto> [])\<rparr>"
  have "bl_get_write_batchs (bl_open []) = Inr ([], \<lparr>lg_file = [], lg_offset = 0\<rparr>)"
    using bl_read_records [of "[]" 0 "[]" 0 "[]" "[]"] by (simp add: bl_get_write_batchs_def bl_open_def)
  then have new: "goes M D (open_mem None i) (Inr ?m) M ((\<lambda>s. s\<lparr>ls_logs := (ls_logs D)(i \<mapsto> [])\<rparr>) D)"
    using assms(2) by (intro goes_upd) (auto simp: open_mem_def rest_of_def fun_upd_def bl_open_def cong: if_cong)
  have set: "goes M ?D (act_modify (\<lambda>s. s\<lparr>ls_mem := Some ?m\<rparr>)) (Inr ()) M (?D\<lparr>ls_mem := Some ?m\<rparr>)"
    by (intro goes_modify_rest) (simp_all add: rest_of_def)
  have "goes M D (act_bind (open_mem None i) (\<lambda>m. act_modify (\<lambda>s. s\<lparr>ls_mem := Some m\<rparr>))) (Inr ()) M (?D\<lparr>ls_mem := Some ?m\<rparr>)"
    by (rule goes_bind [OF new], rule set)
  then show ?thesis unfolding init_memory_table_def by (intro goes_bind [OF goes_get_counter]) (simp add: assms(1))
qed

lemma level_new_ok:
  assumes cmp: "lo_cmp opt = None" and max: "0 < lo_max_imms opt"
  shows "\<exists>s. level_open ops opt c empty_disk = Some (Inr (), s) \<and> level_ok U 0 Map.empty s"
proof -
  let ?m = "\<lparr>mm_id = 0, mm_offset = 0, mm_entries = []\<rparr>"
  let ?E = "level_closed c (empty_disk :: 't level_state)" and ?G = "\<lambda>_ :: nat. [] :: (bytes \<times> bytes) list"
  let ?D = "?E\<lparr>ls_logs := (ls_logs ?E)(0 \<mapsto> []), ls_mem := Some ?m\<rparr>"
  let ?tail = "act_bind (init_immutable_tables ops opt) (\<lambda>_. open_tail)"
  have "goes new_meta ?E (init_memory_table None) (Inr ()) new_meta ?D"
    by (rule goes_init_new_memory [where D = ?E and i = 0]) (simp_all add: new_meta_def level_closed_def empty_disk_def)
  then have opened: "becomes new_meta ?E (act_bind (init_memory_table None) (\<lambda>_. ?tail)) new_meta ?D ?tail"
    by (rule becomes_bind) (rule becomes_refl)
  have shape: "shape_ok new_meta" by (simp add: shape_ok_def new_meta_def live_def)
  have at: "\<not> item_at new_meta i it" for i it by (simp add: item_at_def live_def new_meta_def)
  have "lt_inv U new_meta (?D\<lparr>ls_imms := []\<rparr>) ?G"
    using shape at by (simp add: lt_inv_def files_ok_def cache_ok_def level_closed_def)
  moreover have "mems_ok U new_meta (?D\<lparr>ls_imms := []\<rparr>)"
    by (auto simp: mems_ok_def mem_ok_def logged_def level_closed_def empty_disk_def new_meta_def intro: exI [of _ "[]"])
  ultimately have "st_inv U new_meta (?D\<lparr>ls_imms := []\<rparr>) ?G" using at by (simp add: st_inv_def new_meta_def)
  then have disk: "on_disk U new_meta ?D ?G [] ?m"
    by (simp add: on_disk_def fresh_cache_def level_closed_def)
  have w: "within 0 new_meta" by (simp add: within_def new_meta_def)
  have "upper new_meta ?G 0 = Map.empty"
    by (rule levels_map_empty) (simp_all add: level_map_empty new_meta_def)
  then have tot: "total new_meta (?D\<lparr>ls_imms := []\<rparr>) ?G = Map.empty"
    by (simp add: total_def mems_map_def decoded_def fun_eq_iff)
  have "length ([] :: mem_table list) < lo_max_imms opt" using max by simp
  from open_imms_short [OF cmp disk w _ this] obtain M' D' where M': "goes new_meta ?D ?tail (Inr ()) M' D'"
    "st_inv U M' D' ?G" "total M' D' ?G = Map.empty" "within 0 M'" unfolding tot by auto
  from becomes_goes [OF opened M'(1)] new_table_shows [of c] obtain s where
    "act_bind (init_memory_table None) (\<lambda>_. ?tail) (init_manifest ?E) = Some (Inr (), s)" "shows_at M' D' s"
    unfolding goes_def by blast
  then show ?thesis unfolding level_open_tail [OF cmp] level_ok_def using M'(2-4) by blast
qed

section \<open>The level table is one memory table\<close>

text \<open>
  From an empty disk, after any batches and lookups, every lookup finds what a memory table would have after the
  batches, also after the files are opened again. Only with options that are not \<open>safe\<close> a call may never return.
\<close>

lemma level_ok_agrees: "lo_cmp opt = None \<Longrightarrow> level_ok U n f s \<Longrightarrow> n \<le> 2 ^ 14 \<Longrightarrow> level_serves ops opt f s"
  using level_reads_ok unfolding level_serves_def by metis

lemma level_runs:
  assumes U: "closed U" "\<not> safe opt \<longrightarrow> plain U" and cmp: "lo_cmp opt = None" and max: "0 < lo_max_imms opt"
    and b: "\<forall>b\<in>set (writes_of cs). batch_in U b" and n: "length (writes_of cs) < 2 ^ 14"
  obtains s where "level_open ops opt c empty_disk = Some (Inr (), s)"
    and "level_calls ops opt cs s = None \<and> \<not> safe opt \<or>
      (\<exists>s'. level_calls ops opt cs s = Some s' \<and> level_serves ops opt (mt_apply_all False (writes_of cs) Map.empty) s' \<and>
        (level_open ops opt c s' = None \<and> \<not> safe opt \<or>
         (\<exists>r s''. level_open ops opt c s' = Some (r, s'') \<and> level_serves ops opt (mt_apply_all False (writes_of cs) Map.empty) s'' \<and>
            (length (ls_imms s') < lo_max_imms opt \<longrightarrow> r = Inr ()))))"
proof -
  let ?f = "mt_apply_all False (writes_of cs) Map.empty" and ?n = "length (writes_of cs)"
  obtain s where s: "level_open ops opt c empty_disk = Some (Inr (), s)" "level_ok U 0 Map.empty s"
    using level_new_ok [OF cmp max] by blast
  have "0 + ?n \<le> 2 ^ 14" using n by simp
  from level_calls_ok [OF U cmp s(2) b this] consider "level_calls ops opt cs s = None" "\<not> safe opt"
    | s' where "level_calls ops opt cs s = Some s'" "level_ok U ?n ?f s'" unfolding add_0 by metis
  then show thesis
  proof cases
    case 1
    then show thesis using that [OF s(1)] by blast
  next
    case 2
    have a: "level_serves ops opt ?f s'" using level_ok_agrees [OF cmp 2(2)] n by simp
    have again: "level_serves ops opt ?f s''" if "level_ok U (Suc ?n) ?f s''" for s'' using level_ok_agrees [OF cmp that] n by simp
    have "level_open ops opt c s' = None \<and> \<not> safe opt \<or>
        (\<exists>r s''. level_open ops opt c s' = Some (r, s'') \<and> level_serves ops opt ?f s'' \<and> (length (ls_imms s') < lo_max_imms opt \<longrightarrow> r = Inr ()))"
      using level_reopen_ok [OF U cmp max 2(2) n, of c] again by (cases "length (ls_imms s') < lo_max_imms opt") blast+
    then show thesis using that [OF s(1)] a 2(1) by blast
  qed
qed

end

end
