(* ===== verification/LevelSst.thy ===== *)
theory LevelSst
  imports LevelReopen
begin

text \<open>
  The level table on the sorted string tables of the library: the tables of \<open>SstTable\<close> and \<open>SstMerge\<close> keep the
  contract of \<open>table_service\<close>, so a level table on them is one memory table, also after it is opened again.
\<close>

section \<open>The tables of the level table\<close>

text \<open>
  What the level table takes from its options for its tables: the bits of a filter per byte, the size of a block and the
  size of the caches. A table that is built or merged has caches of size zero. \<open>accept i\<close> is which writes to file \<open>i\<close>
  succeed.
\<close>

record sst_params =
  sp_cmp :: comparator
  sp_bits :: nat
  sp_block_bytes :: nat
  sp_cache :: nat
  sp_accept :: "nat \<Rightarrow> bool list"

definition made_option :: "sst_params \<Rightarrow> sst_option" where
  "made_option p = \<lparr>so_cmp = sp_cmp p, so_bits = sp_bits p, so_data_cache = 0, so_filter_cache = 0\<rparr>"

definition load_option :: "sst_params \<Rightarrow> sst_option" where
  "load_option p = \<lparr>so_cmp = sp_cmp p, so_bits = sp_bits p, so_data_cache = sp_cache p, so_filter_cache = sp_cache p\<rparr>"

text \<open>The table on a file that has just been created.\<close>

definition built_table :: "sst_params \<Rightarrow> nat \<Rightarrow> wal_item list \<Rightarrow> (exn + sst_table) \<times> bytes" where
  "built_table p i kvs =
     (case st_open [] (made_option p) of Inl e \<Rightarrow> (Inl e, [])
      | Inr t \<Rightarrow>
         (case st_build (sp_block_bytes p) kvs (sp_bits p) False (sp_accept p i) t of
            (Inl e, t') \<Rightarrow> (Inl e, st_file t')
          | (Inr _, t') \<Rightarrow> (Inr t', st_file t')))"

definition merged_table ::
  "sst_params \<Rightarrow> nat \<Rightarrow> bool \<Rightarrow> bool \<Rightarrow> sst_table list \<Rightarrow> ((exn + sst_table) \<times> bytes) option" where
  "merged_table p i erase ordered ts =
     (case st_open [] (made_option p) of Inl e \<Rightarrow> Some (Inl e, [])
      | Inr t \<Rightarrow>
         (case st_merge \<lparr>mo_cmp = sp_cmp p, mo_bytes = sp_block_bytes p, mo_table_blocks = 0, mo_bits = sp_bits p,
             mo_erase = erase\<rparr> ts ordered (sp_accept p i) t of
            None \<Rightarrow> None
          | Some (Inl e, t') \<Rightarrow> Some (Inl e, st_file t')
          | Some (Inr _, t') \<Rightarrow> Some (Inr t', st_file t')))"

text \<open>The first key of the first block and the last key of the last one; a table without blocks has neither.\<close>

definition table_ends :: "sst_table \<Rightarrow> exn + (bytes \<times> bytes)" where
  "table_ends t =
     (let hs = ib_blocks (rt_index (st_root t)) in
        if hs = [] then Inl Undefined
        else res_bind (st_load_block t (bh_block (hd hs))) (\<lambda>a.
          res_bind (st_load_block t (bh_block (last hs))) (\<lambda>b. Inr (db_first_key a, db_last_key b))))"

definition sst_ops :: "sst_params \<Rightarrow> sst_table table_ops" where
  "sst_ops p = \<lparr>to_open = (\<lambda>data. st_open data (load_option p)), to_build = built_table p, to_merge = merged_table p,
     to_empty = st_empty, to_ends = table_ends, to_get = (\<lambda>k t. fst (st_try_get k t))\<rparr>"

section \<open>Dumps whose writes succeed\<close>

text \<open>An operation that ends well does the same when every write is accepted.\<close>

definition io_sure :: "'a io \<Rightarrow> bool" where
  "io_sure m \<longleftrightarrow> (\<forall>as f x as' f'. m (as, f) = (Inr x, as', f') \<longrightarrow> m ([], f) = (Inr x, [], f'))"

lemma io_sureD: "io_sure m \<Longrightarrow> m (as, f) = (Inr x, as', f') \<Longrightarrow> m ([], f) = (Inr x, [], f')"
  unfolding io_sure_def by blast

lemma io_sure_return [simp]: "io_sure (io_return x)" "io_sure (io_lift r)"
  by (simp_all add: io_sure_def io_return_def io_lift_def)

lemma io_sure_write [simp]: "io_sure (io_write offset w)"
  by (auto simp: io_sure_def io_write_def split: list.splits if_splits)

lemma io_sure_bind:
  assumes "io_sure m" and "\<And>x. io_sure (k x)"
  shows "io_sure (io_bind m k)"
  unfolding io_sure_def
proof (intro allI impI)
  fix as f y as' f'
  assume "io_bind m k (as, f) = (Inr y, as', f')"
  then obtain x as1 f1 where "m (as, f) = (Inr x, as1, f1)" "k x (as1, f1) = (Inr y, as', f')"
    by (auto simp: io_bind_eq_Inr)
  from io_sureD [OF assms(1) this(1)] io_sureD [OF assms(2) this(2)]
  show "io_bind m k ([], f) = (Inr y, [], f')" by (simp add: io_bind_def)
qed

lemma io_sure_cleanup [simp]: "io_sure m \<Longrightarrow> io_sure (io_cleanup m n)"
  unfolding io_sure_def io_cleanup_eq_Inr by simp

lemma write_block_sure: "io_sure (write_block b bits t)"
  unfolding write_block_def Let_def by (auto intro!: io_sure_bind io_sure_cleanup)

lemma dump_loop_sure: "io_sure (dump_loop bytes erase bits kvs b used t)"
  by (induction kvs arbitrary: b used t) (auto simp: Let_def flush_block_def intro!: io_sure_bind write_block_sure)

lemma write_filters_sure: "io_sure (write_filters_from i fs t)"
  by (induction fs arbitrary: i t) (auto simp: Let_def intro!: io_sure_bind)

lemma rt_store_sure: "io_sure (rt_store r offset)"
  unfolding rt_store_def rt_store_block_def Let_def by (auto intro!: io_sure_bind io_sure_cleanup)

lemma dump_wal_sure: "io_sure (dump_wal bytes kvs bits erase cmp)"
  unfolding dump_wal_def write_filters_def
  by (auto intro!: io_sure_bind dump_loop_sure write_filters_sure rt_store_sure)

text \<open>A dump depends on the keys and values only, an empty value being a deleted entry.\<close>

lemma wal_size_kv: "wal_size kv = length (fst (wal_kv kv)) + length (snd (wal_kv kv))"
  by (simp add: wal_size_def wal_kv_def split: option.split)

lemma dump_loop_kv:
  "map wal_kv kvs = map wal_kv kvs' \<Longrightarrow> dump_loop bytes erase bits kvs b used t = dump_loop bytes erase bits kvs' b used t"
proof (induction kvs arbitrary: kvs' b used t)
  case (Cons kv kvs)
  then obtain kv' ks where k: "kvs' = kv' # ks" "wal_kv kv = wal_kv kv'" "map wal_kv kvs = map wal_kv ks" by (cases kvs') auto
  have IH: "dump_loop bytes erase bits kvs = dump_loop bytes erase bits ks"
    by (intro ext fun_cong [OF Cons.IH [OF k(3)]])
  show ?case using k(2) by (simp add: k(1) IH put_wal_kv_put wal_size_kv Let_def cong: if_cong)
qed simp

lemma dump_wal_kv: "dump_wal bytes kvs bits erase cmp = dump_wal bytes (map wal_of (map wal_kv kvs)) bits erase cmp"
  unfolding dump_wal_def by (subst dump_loop_kv [of kvs "map wal_of (map wal_kv kvs)"]) (simp_all add: comp_def)

text \<open>Without deleted entries there is nothing to erase.\<close>

lemma erase_none_deleted:
  assumes "db_wf b" and "\<forall>p\<in>set (db_pairs b). kv_value p \<noteq> []"
  shows "db_erase_deleted b = b"
proof -
  have ps: "erase_empty_pairs ps = ps" if "\<forall>p\<in>set ps. kv_value p \<noteq> []" for ps
    using that by (simp add: erase_empty_pairs_filter)
  have "erase_deleted_groups gs = gs" if "\<forall>g\<in>set gs. sg_pairs g \<noteq> [] \<and> (\<forall>p\<in>set (sg_pairs g). kv_value p \<noteq> [])" for gs
    using that by (induction gs) (simp_all add: ps Let_def sg_is_empty_def)
  moreover have "\<forall>g\<in>set (db_groups b). sg_pairs g \<noteq> []" by (rule db_wfD(3) [OF assms(1)])
  ultimately show ?thesis using assms(2) by (simp add: db_erase_deleted_def db_pairs_def)
qed

lemma dump_loop_not_erased:
  assumes "db_built b" and "keys_ascend (db_items b @ R)" and "\<forall>p\<in>set (db_pairs b). kv_value p \<noteq> []"
    and "\<forall>q\<in>set R. length (fst q) < 2 ^ 31 \<and> length (snd q) < 2 ^ 31 \<and> snd q \<noteq> []"
  shows "dump_loop bytes True bits (map wal_of R) b used t = dump_loop bytes False bits (map wal_of R) b used t"
  using assms
proof (induction R arbitrary: b used t)
  case Nil
  then show ?case by (simp add: flush_block_def erase_none_deleted db_built_def)
next
  case (Cons q R)
  obtain k v where q: "q = (k, v)" by fastforce
  have less: "\<forall>p\<in>set (db_pairs b). bytes_less (kv_key p) k"
    using Cons.prems(2) q by (fastforce simp: sorted_wrt_append)
  obtain b' sh u where b': "db_put k v b = Inr b'" "db_built b'" "db_pairs b' = db_pairs b @ [kv_new sh u k v]"
    using db_put_ascending [OF Cons.prems(1) less, of v] Cons.prems(4) q by auto
  have vals: "\<forall>p\<in>set (db_pairs b'). kv_value p \<noteq> []" using Cons.prems(3,4) q by (auto simp: b'(3) kv_new_def)
  have asc: "keys_ascend (db_items b' @ R)" using Cons.prems(2) q by (simp add: b'(3) kv_new_def)
  have flush: "flush_block b' True bits t = flush_block b' False bits t"
    using erase_none_deleted [OF _ vals] b'(2) by (simp add: flush_block_def db_built_def)
  have "keys_ascend R" using asc by (simp add: sorted_wrt_append)
  then have "dump_loop bytes True bits (map wal_of R) (b'\<lparr>db_groups := []\<rparr>) 0 = dump_loop bytes False bits (map wal_of R) (b'\<lparr>db_groups := []\<rparr>) 0"
    using Cons.prems(4) b'(2) by (intro ext fun_cong [OF Cons.IH]) (simp_all add: db_pairs_def)
  moreover have "dump_loop bytes True bits (map wal_of R) b' n t = dump_loop bytes False bits (map wal_of R) b' n t" for n t
    using Cons.prems(4) b'(2) asc vals by (intro Cons.IH) simp_all
  ultimately show ?case using b'(1) flush by (simp add: q Let_def)
qed

lemma dump_wal_not_erased:
  assumes "keys_ascend R" and "\<forall>q\<in>set R. length (fst q) < 2 ^ 31 \<and> length (snd q) < 2 ^ 31 \<and> snd q \<noteq> []"
  shows "dump_wal bytes (map wal_of R) bits True None = dump_wal bytes (map wal_of R) bits False None"
proof -
  have "dump_loop bytes True bits (map wal_of R) (db_new\<lparr>db_cmp := None\<rparr>) 0 t =
      dump_loop bytes False bits (map wal_of R) (db_new\<lparr>db_cmp := None\<rparr>) 0 t" for t
    using assms by (intro dump_loop_not_erased) (simp_all add: db_built_def db_wf_def db_new_def db_pairs_def)
  then show ?thesis unfolding dump_wal_def by simp
qed

section \<open>The contract\<close>

text \<open>A table the level table can use, and entries that fit into one.\<close>

definition sst_holds :: "(bytes \<times> bytes) list \<Rightarrow> sst_table \<Rightarrow> bool" where
  "sst_holds L t \<longleftrightarrow> (\<exists>bs. st_ok bs t \<and> bs_items bs = L) \<and> st_cmp t = None \<and>
     (\<forall>p\<in>set L. fst p \<noteq> [] \<and> length (fst p) < 2 ^ 31)"

definition dump_data :: "sst_params \<Rightarrow> (bytes \<times> bytes) list \<Rightarrow> bytes" where
  "dump_data p R = snd (snd (dump_wal (sp_block_bytes p) (map wal_of R) (sp_bits p) False None ([], [])))"

definition sst_fits :: "sst_params \<Rightarrow> (bytes \<times> bytes) list \<Rightarrow> bool" where
  "sst_fits p R \<longleftrightarrow> length R < 2 ^ 31 \<and> (\<forall>x\<in>set R. fst x \<noteq> [] \<and> length (fst x) < 2 ^ 31 \<and> length (snd x) < 2 ^ 31) \<and>
     (\<forall>x\<in>set R. \<forall>y\<in>set R. key_fits (fst x) (fst y)) \<and> length (dump_data p R) * sp_bits p < 2 ^ 63"

lemma sst_fitsD:
  assumes "sst_fits p R"
  shows "length R < 2 ^ 31" "\<forall>x\<in>set R. fst x \<noteq> [] \<and> length (fst x) < 2 ^ 31 \<and> length (snd x) < 2 ^ 31"
    "\<forall>x\<in>set R. \<forall>y\<in>set R. key_fits (fst x) (fst y)" "length (dump_data p R) * sp_bits p < 2 ^ 63"
  using assms unfolding sst_fits_def by blast+

text \<open>What a dump that succeeds leaves: the table it stands for, opened with any caches, and as it is in memory.\<close>

lemma dumped_holds:
  assumes "keys_ascend R" and "sst_fits p R" and "10 \<le> sp_bits p"
    and "dump_wal (sp_block_bytes p) (map wal_of R) (sp_bits p) False None (as, []) = (Inr r, as', data)"
    and "so_cmp opt = None" and "so_bits opt = sp_bits p"
  shows "\<exists>t. st_open data opt = Inr t \<and> st_root t = r \<and> sst_holds R t"
proof -
  note f = sst_fitsD [OF assms(2)]
  from io_sureD [OF dump_wal_sure assms(4)] have dump:
    "dump_wal (sp_block_bytes p) (map wal_of R) (sp_bits p) False None ([], []) = (Inr r, [], data)" .
  then have "length data * sp_bits p < 2 ^ 63" using f(4) by (simp add: dump_data_def)
  moreover have "keys_ascend (map wal_kv (map wal_of R))" using assms(1) by (simp add: comp_def)
  moreover have "\<forall>kv\<in>set (map wal_of R). length (fst (wal_kv kv)) < 2 ^ 31 \<and> length (snd (wal_kv kv)) < 2 ^ 31"
    "\<forall>x\<in>set (map wal_of R). \<forall>y\<in>set (map wal_of R). key_fits (fst x) (fst y)" "length (map wal_of R) < 2 ^ 31"
    using f(1-3) by auto
  ultimately have "\<exists>bs t. bs_items bs = map wal_kv (map wal_of R) \<and> st_open data opt = Inr t \<and> (Inr r :: exn + sst_root) = Inr (st_root t) \<and> st_ok bs t"
    by (intro dump_wal_table [OF _ _ _ _ assms(3,5) dump])
  then obtain bs t where t: "bs_items bs = R" "st_open data opt = Inr t" "st_root t = r" "st_ok bs t" by (auto simp: comp_def)
  then have "st_cmp t = None" using assms(5) by (auto simp: st_open_def Let_def res_bind_eq_Inr)
  then have "sst_holds R t" using t(1,4) f(2) by (auto simp: sst_holds_def)
  with t(2,3) show ?thesis by blast
qed

lemma open_fields:
  "st_open data opt = Inr t \<Longrightarrow> t = \<lparr>st_file = data, st_root = st_root t, st_bits = so_bits opt,
     st_data = sc_new (so_data_cache opt), st_filters = sc_new (so_filter_cache opt), st_cmp = so_cmp opt\<rparr>"
  by (auto simp: st_open_def Let_def res_bind_eq_Inr)

lemma open_new:
  "\<exists>r. st_open [] opt = Inr \<lparr>st_file = [], st_root = r, st_bits = so_bits opt,
     st_data = sc_new (so_data_cache opt), st_filters = sc_new (so_filter_cache opt), st_cmp = so_cmp opt\<rparr>"
  by (simp add: st_open_def Let_def)

text \<open>The table that is in memory after a dump is the one that opening its file gives.\<close>

lemma made_table:
  assumes "keys_ascend R" and "sst_fits p R" and "10 \<le> sp_bits p" and "sp_cmp p = None"
    and "dump_wal (sp_block_bytes p) (map wal_of R) (sp_bits p) False None (as, []) = (Inr r, as', data)"
  shows "sst_holds R \<lparr>st_file = data, st_root = r, st_bits = sp_bits p, st_data = sc_new 0, st_filters = sc_new 0, st_cmp = None\<rparr>"
    and "\<exists>t. st_open data (load_option p) = Inr t \<and> sst_holds R t"
proof -
  have "so_cmp (made_option p) = None" "so_bits (made_option p) = sp_bits p" using assms(4) by (simp_all add: made_option_def)
  from dumped_holds [OF assms(1-3,5) this] obtain t where t: "st_open data (made_option p) = Inr t" "st_root t = r" "sst_holds R t"
    by blast
  from open_fields [OF t(1)] t(2,3) assms(4)
  show "sst_holds R \<lparr>st_file = data, st_root = r, st_bits = sp_bits p, st_data = sc_new 0, st_filters = sc_new 0, st_cmp = None\<rparr>"
    by (simp add: made_option_def)
  have "so_cmp (load_option p) = None" "so_bits (load_option p) = sp_bits p" using assms(4) by (simp_all add: load_option_def)
  from dumped_holds [OF assms(1-3,5) this] show "\<exists>t. st_open data (load_option p) = Inr t \<and> sst_holds R t" by blast
qed

lemma built_table_holds:
  assumes "keys_ascend (map wal_kv kvs)" and "sst_fits p (map wal_kv kvs)" and "10 \<le> sp_bits p" and "sp_cmp p = None"
    and "built_table p i kvs = (Inr t, data)"
  shows "sst_holds (map wal_kv kvs) t \<and> (\<exists>t'. st_open data (load_option p) = Inr t' \<and> sst_holds (map wal_kv kvs) t')"
proof -
  obtain r0 where new: "st_open [] (made_option p) = Inr \<lparr>st_file = [], st_root = r0, st_bits = sp_bits p,
      st_data = sc_new 0, st_filters = sc_new 0, st_cmp = None\<rparr>"
    using open_new [of "made_option p"] assms(4) by (auto simp: made_option_def)
  obtain res as data' where d: "dump_wal (sp_block_bytes p) kvs (sp_bits p) False None (sp_accept p i, []) = (res, as, data')"
    by (metis prod_cases3)
  with assms(5) new obtain r where r: "res = Inr r" "data' = data"
    "t = \<lparr>st_file = data, st_root = r, st_bits = sp_bits p, st_data = sc_new 0, st_filters = sc_new 0, st_cmp = None\<rparr>"
    by (cases res) (auto simp: built_table_def st_build_def)
  from d have "dump_wal (sp_block_bytes p) (map wal_of (map wal_kv kvs)) (sp_bits p) False None (sp_accept p i, []) = (Inr r, as, data)"
    unfolding r(1,2) by (subst (asm) dump_wal_kv)
  from made_table [OF assms(1-4) this] show ?thesis unfolding r(3) by blast
qed

lemma holds_table:
  assumes "sst_holds L t"
  shows "\<exists>bs. table_holds bs (st_root t, st_file t) \<and> bs_items bs = L"
proof -
  obtain bs where bs: "st_ok bs t" "bs_items bs = L" using assms by (auto simp: sst_holds_def)
  have "[] \<notin> fst ` set L" "st_cmp t = None" using assms by (auto simp: sst_holds_def)
  moreover have "st_shows bs t" "bs_wf bs" using bs(1) by (simp_all add: st_ok_def)
  moreover note st_okD(6) [OF bs(1)]
  ultimately have "table_holds bs (st_root t, st_file t)" using bs(2)
    by (simp add: table_holds_def st_shows_def st_load_block_def Let_def)
  with bs(2) show ?thesis by blast
qed

lemma holds_tables:
  assumes "list_all2 sst_holds Ls ts"
  shows "\<exists>bss. list_all2 table_holds bss (map (\<lambda>u. (st_root u, st_file u)) ts) \<and> map bs_items bss = Ls"
  using assms
proof (induction rule: list_all2_induct)
  case (Cons L Ls t ts)
  obtain bs where "table_holds bs (st_root t, st_file t)" "bs_items bs = L" using holds_table [OF Cons.hyps(1)] by blast
  moreover obtain bss where "list_all2 table_holds bss (map (\<lambda>u. (st_root u, st_file u)) ts)" "map bs_items bss = Ls"
    using Cons.IH by blast
  ultimately show ?case by (intro exI [of _ "bs # bss"]) simp
qed simp

abbreviation merge_opt :: "sst_params \<Rightarrow> bool \<Rightarrow> merge_option" where
  "merge_opt p erase \<equiv> \<lparr>mo_cmp = None, mo_bytes = sp_block_bytes p, mo_table_blocks = 0, mo_bits = sp_bits p, mo_erase = erase\<rparr>"

text \<open>A merge that is not of ordered tables.\<close>

lemma merged_table_result:
  assumes "list_all2 sst_holds Ls ts" and "ts \<noteq> []" and "keys_ascend R" and "map_of R = merged Ls" and "sst_fits p R"
    and "sp_cmp p = None"
  shows "\<exists>r as data. merge_into_one (merge_opt p erase) (map (\<lambda>u. (st_root u, st_file u)) ts) (sp_accept p i, []) = Some (r, as, data) \<and>
    (\<forall>x. r = Inr x \<longrightarrow>
      dump_wal (sp_block_bytes p) (map wal_of R) (sp_bits p) erase None (sp_accept p i, []) = (Inr x, as, data))"
proof -
  let ?ts = "map (\<lambda>u. (st_root u, st_file u)) ts"
  obtain bss where bss: "list_all2 table_holds bss ?ts" "map bs_items bss = Ls" using holds_tables [OF assms(1)] by blast
  have ne: "?ts \<noteq> []" using assms(2) by simp
  have R: "map_of R = merged (map bs_items bss)" using assms(4) bss(2) by simp
  have small: "\<forall>q\<in>set R. length (fst q) < 2 ^ 31 \<and> length (snd q) < 2 ^ 31" using sst_fitsD(2) [OF assms(5)] by blast
  have cmp: "mo_cmp (merge_opt p erase) = None" by simp
  note m = merge_dump [OF ne bss(1) assms(3) R small cmp, of "(sp_accept p i, [])"]
  show ?thesis
  proof (cases "ends_open (mo_bytes (merge_opt p erase)) 0 False R")
    case True
    obtain r as data where d: "dump_wal (sp_block_bytes p) (map wal_of R) (sp_bits p) erase None (sp_accept p i, []) = (r, as, data)"
      by (metis prod_cases3)
    then show ?thesis using m(1) [OF True] by simp
  next
    case False
    obtain e as data where "merge_into_one (merge_opt p erase) ?ts (sp_accept p i, []) = Some (Inl e, as, data)"
      using m(2) [OF False] by auto
    then show ?thesis by simp
  qed
qed

lemma merged_table_eq:
  assumes "sp_cmp p = None"
  shows "\<exists>r0. merged_table p i erase False ts =
    (case merge_into_one (merge_opt p erase) (map (\<lambda>u. (st_root u, st_file u)) ts) (sp_accept p i, []) of
       None \<Rightarrow> None
     | Some (Inl e, _, data) \<Rightarrow> Some (Inl e, data)
     | Some (Inr r, _, data) \<Rightarrow> Some (Inr \<lparr>st_file = data, st_root = r, st_bits = sp_bits p, st_data = sc_new 0,
         st_filters = sc_new 0, st_cmp = None\<rparr>, data))"
  using open_new [of "made_option p"] assms
  by (auto simp: merged_table_def made_option_def st_merge_def Let_def split: option.split sum.split prod.split)

lemma merged_table_holds:
  assumes "list_all2 sst_holds Ls ts" and "ts \<noteq> []" and "keys_ascend R" and "map_of R = merged Ls" and "sst_fits p R"
    and "erase \<longrightarrow> (\<forall>x\<in>set R. snd x \<noteq> [])" and "10 \<le> sp_bits p" and "sp_cmp p = None"
    and "merged_table p i erase False ts = Some (Inr t, data)"
  shows "sst_holds R t \<and> (\<exists>t'. st_open data (load_option p) = Inr t' \<and> sst_holds R t')"
proof -
  obtain r as data' where m: "merge_into_one (merge_opt p erase) (map (\<lambda>u. (st_root u, st_file u)) ts) (sp_accept p i, []) = Some (r, as, data')"
    "\<And>x. r = Inr x \<Longrightarrow> dump_wal (sp_block_bytes p) (map wal_of R) (sp_bits p) erase None (sp_accept p i, []) = (Inr x, as, data')"
    using merged_table_result [OF assms(1-5,8), of erase i] by blast
  obtain x where x: "r = Inr x" "data' = data"
    "t = \<lparr>st_file = data, st_root = x, st_bits = sp_bits p, st_data = sc_new 0, st_filters = sc_new 0, st_cmp = None\<rparr>"
    using merged_table_eq [OF assms(8), of i erase ts] m(1) assms(9) by (cases r) auto
  have "dump_wal (sp_block_bytes p) (map wal_of R) (sp_bits p) False None (sp_accept p i, []) = (Inr x, as, data)"
    using m(2) [OF x(1)] dump_wal_not_erased [OF assms(3), of "sp_block_bytes p" "sp_bits p"] sst_fitsD(2) [OF assms(5)] assms(6) x(2)
    by (cases erase) auto
  from made_table [OF assms(3,5,7,8) this] show ?thesis unfolding x(3) by blast
qed

lemma merged_table_ordered:
  assumes "ts \<noteq> []"
  shows "merged_table p i erase True ts \<noteq> Some (Inr t, data)"
proof
  assume "merged_table p i erase True ts = Some (Inr t, data)"
  then obtain r0 b ch where "combine_loop \<lparr>mo_cmp = sp_cmp p, mo_bytes = sp_block_bytes p, mo_table_blocks = 0, mo_bits = sp_bits p, mo_erase = erase\<rparr>
      (map (\<lambda>u. (st_root u, st_file u)) ts) (tb_new (sp_cmp p)) (sp_accept p i, []) = Some (Inr b, ch)"
    using open_new [of "made_option p"]
    by (auto simp: merged_table_def made_option_def st_merge_def combine_tables_def Let_def split: option.splits sum.splits prod.splits)
  from combine_loop_stuck [OF this] assms show False by simp
qed

lemma holds_blocks:
  assumes "sst_holds L t"
  obtains bs where "st_ok bs t" "bs_items bs = L" "\<forall>b\<in>set bs. db_pairs b \<noteq> [] \<and> db_groups b \<noteq> [] \<and>
    (\<forall>g\<in>set (db_groups b). sg_pairs g \<noteq> [])"
proof -
  obtain bs where bs: "st_ok bs t" "bs_items bs = L" using assms by (auto simp: sst_holds_def)
  have "db_full b" if "b \<in> set bs" for b using st_okD(1) [OF bs(1)] that by (simp add: bs_wf_def)
  then show thesis using db_fullD(1,3,7) db_wfD(3) by (intro that [OF bs]) blast
qed

lemma holds_empty: "sst_holds L t \<Longrightarrow> st_empty t \<longleftrightarrow> L = []"
proof -
  assume "sst_holds L t"
  then obtain bs where bs: "st_ok bs t" "bs_items bs = L" "\<forall>b\<in>set bs. db_pairs b \<noteq> []" by (rule holds_blocks) blast
  have "st_empty t \<longleftrightarrow> bs = []" using st_okD(6) [OF bs(1)] by (simp add: st_empty_def flip: length_0_conv)
  moreover have "bs = [] \<longleftrightarrow> L = []" using bs(2,3) by (cases bs) auto
  ultimately show ?thesis by simp
qed

lemma holds_ends:
  assumes "sst_holds L t" and "L \<noteq> []"
  shows "table_ends t = Inr (fst (hd L), fst (last L))"
proof -
  obtain bs where bs: "st_ok bs t" "bs_items bs = L" "\<forall>b\<in>set bs. db_pairs b \<noteq> [] \<and> db_groups b \<noteq> [] \<and>
    (\<forall>g\<in>set (db_groups b). sg_pairs g \<noteq> [])" using assms(1) by (rule holds_blocks)
  let ?hs = "ib_blocks (rt_index (st_root t))"
  have len: "length ?hs = length bs" by (rule st_okD(6) [OF bs(1)])
  have ne: "bs \<noteq> []" using assms(2) bs(2) by auto
  then have hs: "?hs \<noteq> []" using len by auto
  have load: "st_load_block t (bh_block (?hs ! i)) = Inr (bs ! i)" if "i < length bs" for i
    using st_okD(2) [OF bs(1)] that by (simp add: st_shows_def Let_def)
  have "st_load_block t (bh_block (hd ?hs)) = Inr (hd bs)" "st_load_block t (bh_block (last ?hs)) = Inr (last bs)"
    using load [of 0] load [of "length bs - 1"] ne hs len by (simp_all add: hd_conv_nth last_conv_nth)
  then have ends: "table_ends t = Inr (db_first_key (hd bs), db_last_key (last bs))" using hs by (simp add: table_ends_def Let_def)
  have h: "hd bs \<in> set bs" and l: "last bs \<in> set bs" using ne by simp_all
  have "db_groups (hd bs) \<noteq> []" "sg_pairs (hd (db_groups (hd bs))) \<noteq> []" using bs(3) h by auto
  then have "hd (db_pairs (hd bs)) = hd (sg_pairs (hd (db_groups (hd bs))))"
    by (cases "db_groups (hd bs)") (simp_all add: db_pairs_def)
  moreover have "L = db_items (hd bs) @ bs_items (tl bs)" using bs(2) ne by (cases bs) simp_all
  moreover have "db_pairs (hd bs) \<noteq> []" using bs(3) h by blast
  ultimately have first: "fst (hd L) = db_first_key (hd bs)" by (simp add: hd_map)
  have "db_full (last bs)" using st_okD(1) [OF bs(1)] l by (simp add: bs_wf_def)
  note last = db_fullD(7,8) [OF this]
  have "L = bs_items (butlast bs @ [last bs])" using bs(2) ne by simp
  then have "L = bs_items (butlast bs) @ db_items (last bs)" by (simp del: append_butlast_last_id)
  then have "fst (last L) = db_last_key (last bs)" using last by (simp add: last_map)
  then show ?thesis using ends first by simp
qed

lemma holds_get:
  assumes "sst_holds L t"
  shows "fst (st_try_get k t) = Inr (map_of L k)"
proof -
  obtain bs where bs: "st_ok bs t" "bs_items bs = L" using assms by (auto simp: sst_holds_def)
  from st_find_block_ok [OF bs(1), of k] obtain r t' where r: "st_find_block True k t = (Inr r, t')"
    "case r of None \<Rightarrow> map_of L k = None | Some b \<Rightarrow> db_wf b \<and> db_map b k = map_of L k" unfolding bs(2) by blast
  then show ?thesis using db_get_map db_exist_map by (cases r) (auto simp: st_try_get_def split: option.splits if_splits)
qed

text \<open>The tables of the library keep the contract of the level table.\<close>

lemma sst_service:
  assumes "10 \<le> sp_bits p" and "sp_cmp p = None"
  shows "table_service (sst_ops p) sst_holds (sst_fits p)"
proof
  show "to_merge (sst_ops p) i erase ordered ts \<noteq> None"
    if "list_all2 sst_holds Ls ts" "ts \<noteq> []" "keys_ascend R" "map_of R = merged Ls" "sst_fits p R" "\<not> ordered" for Ls ts R ordered i erase
  proof -
    from merged_table_result [OF that(1-5) assms(2)] obtain r as data where
      "merge_into_one (merge_opt p erase) (map (\<lambda>u. (st_root u, st_file u)) ts) (sp_accept p i, []) = Some (r, as, data)" by blast
    then show ?thesis using merged_table_eq [OF assms(2), of i erase ts] \<open>\<not> ordered\<close> by (auto simp: sst_ops_def split: sum.split)
  qed
next
  show "sst_holds R t \<and> (\<exists>t'. to_open (sst_ops p) data = Inr t' \<and> sst_holds R t')"
    if "list_all2 sst_holds Ls ts" "ts \<noteq> []" "keys_ascend R" "map_of R = merged Ls" "sst_fits p R"
      "erase \<longrightarrow> (\<forall>p\<in>set R. snd p \<noteq> [])" "to_merge (sst_ops p) i erase ordered ts = Some (Inr t, data)" for Ls ts R erase i ordered t data
    using merged_table_holds [OF that(1-6) assms] merged_table_ordered [OF that(2)] that(7) by (cases ordered) (auto simp: sst_ops_def)
next
  show "sst_holds (map wal_kv kvs) t \<and> (\<exists>t'. to_open (sst_ops p) data = Inr t' \<and> sst_holds (map wal_kv kvs) t')"
    if "keys_ascend (map wal_kv kvs)" "sst_fits p (map wal_kv kvs)" "to_build (sst_ops p) i kvs = (Inr t, data)" for kvs i t data
    using built_table_holds [OF that(1,2) assms] that(3) by (auto simp: sst_ops_def)
next
  show "keys_ascend L \<and> (\<forall>p\<in>set L. fst p \<noteq> [] \<and> length (fst p) < 2 ^ 31)" if "sst_holds L t" for L t
    using that by (auto simp: sst_holds_def st_ok_def bs_wf_def)
qed (simp_all add: sst_ops_def holds_empty holds_ends holds_get)

interpretation sst: table_service "sst_ops (p\<lparr>sp_cmp := None, sp_bits := 10 + n\<rparr>)" sst_holds "sst_fits (p\<lparr>sp_cmp := None, sp_bits := 10 + n\<rparr>)"
  for p :: sst_params and n :: nat
  by (rule sst_service) simp_all

lemma params_general: "10 \<le> sp_bits p \<Longrightarrow> sp_cmp p = None \<Longrightarrow> p = p\<lparr>sp_cmp := None, sp_bits := 10 + (sp_bits p - 10)\<rparr>"
  by simp

section \<open>Batches the tables can take\<close>

definition written :: "batch list \<Rightarrow> (bytes \<times> bytes) list" where
  "written bs = map (\<lambda>a. wal_kv (act_key a, if act_type a = Put then Some (act_value a) else None)) (concat bs)"

text \<open>
  Batches that a log brings back, without empty values, and whose entries fit into one table, whichever of them are
  written to it.
\<close>

definition batches_fit :: "sst_params \<Rightarrow> batch list \<Rightarrow> bool" where
  "batches_fit p bs \<longleftrightarrow> length bs < 2 ^ 14 \<and> (\<forall>b\<in>set bs. loadable b \<and> (\<forall>a\<in>set b. act_type a = Put \<longrightarrow> act_value a \<noteq> [])) \<and>
     (\<forall>R. keys_ascend R \<longrightarrow> set R \<subseteq> set (written bs) \<longrightarrow> sst_fits p R)"

lemma written_in:
  assumes "batches_fit p bs" and "b \<in> set bs"
  shows "batch_in (set (written bs)) b"
  using assms by (auto simp: batches_fit_def batch_in_def written_def)

lemma level_runs_sst:
  assumes p: "10 \<le> sp_bits p" "sp_cmp p = None" and opt: "lo_cmp opt = None" "0 < lo_max_imms opt"
    and fit: "batches_fit p (writes_of cs)" and plain: "safe opt \<or> (\<forall>b\<in>set (writes_of cs). \<forall>a\<in>set b. act_type a = Put)"
  obtains s where "level_open (sst_ops p) opt c empty_disk = Some (Inr (), s)"
    and "level_calls (sst_ops p) opt cs s = None \<and> \<not> safe opt \<or>
      (\<exists>s'. level_calls (sst_ops p) opt cs s = Some s' \<and> level_serves (sst_ops p) opt (mt_apply_all False (writes_of cs) Map.empty) s' \<and>
        (level_open (sst_ops p) opt c s' = None \<and> \<not> safe opt \<or>
         (\<exists>r s''. level_open (sst_ops p) opt c s' = Some (r, s'') \<and>
            level_serves (sst_ops p) opt (mt_apply_all False (writes_of cs) Map.empty) s'' \<and>
            (length (ls_imms s') < lo_max_imms opt \<longrightarrow> r = Inr ()))))"
proof -
  let ?U = "set (written (writes_of cs))"
  obtain n where q: "p = p\<lparr>sp_cmp := None, sp_bits := 10 + n\<rparr>" using params_general [OF p] by blast
  have closed: "sst.closed n p ?U" unfolding sst.closed_def [of n p] unfolding q [symmetric] using fit by (simp add: batches_fit_def)
  have acts: "\<forall>b\<in>set (writes_of cs). \<forall>a\<in>set b. act_type a = Put \<longrightarrow> act_value a \<noteq> []" using fit by (simp add: batches_fit_def)
  have plain': "\<not> safe opt \<longrightarrow> plain ?U"
  proof
    assume "\<not> safe opt"
    with plain acts show "plain ?U" by (auto simp: plain_def written_def wal_kv_def)
  qed
  have in_U: "\<forall>b\<in>set (writes_of cs). batch_in ?U b" using written_in [OF fit] by blast
  have len: "length (writes_of cs) < 2 ^ 14" using fit by (simp add: batches_fit_def)
  show thesis by (rule sst.level_runs [OF closed plain' opt in_U len, of c, folded q]) (rule that)
qed

section \<open>An instance\<close>

definition params_example :: sst_params where
  "params_example = \<lparr>sp_cmp = None, sp_bits = 10, sp_block_bytes = 4096, sp_cache = 4, sp_accept = (\<lambda>_. [])\<rparr>"

definition level_example :: level_option where
  "level_example = \<lparr>lo_cmp = None, lo_max_views = 4, lo_max_tables = 0, lo_max_mem = 0, lo_max_imms = 1\<rparr>"

definition calls_example :: "level_call list" where
  "calls_example = [Write [put_action [1] [2]], Read [1], Write [put_action [1] [3]]]"

lemma single_key_lists:
  assumes "keys_ascend R" and "set R \<subseteq> {([1 :: 8 word], [2]), ([1], [3])}"
  shows "R = [] \<or> (\<exists>v. R = [([1], [v])])"
proof (cases R)
  case (Cons x xs)
  have one: "fst y = [1]" if "y \<in> set R" for y using assms(2) that by auto
  have "xs = []"
  proof (rule ccontr)
    assume "xs \<noteq> []"
    then obtain y ys where "xs = y # ys" by (cases xs) auto
    then have "bytes_less (fst x) (fst y)" "x \<in> set R" "y \<in> set R" using assms(1) Cons by auto
    then show False using one [of x] one [of y] key_order.irrefl [OF bytes_key_order] by simp
  qed
  moreover have "x = ([1], [2]) \<or> x = ([1], [3])" using assms(2) Cons by auto
  ultimately show ?thesis using Cons by auto
qed simp

lemma example_fits: "batches_fit params_example (writes_of calls_example)"
proof -
  have "sst_fits params_example []"
    by (simp add: sst_fits_def dump_data_def params_example_def dump_wal_def write_filters_def rt_store_def
        rt_store_block_def tb_new_def ib_new_def ib_store_def io_bind_def io_return_def io_lift_def io_cleanup_def
        io_write_def file_write_def db_new_def ft_bytes_def Let_def)
  moreover have "sst_fits params_example [([1], [v])]" for v
    using one_table_dump(1) [of 4096 v] one_table_dump(2) [of v]
    by (simp add: sst_fits_def dump_data_def params_example_def wal_of_def key_fits_def)
  moreover have "set (written (writes_of calls_example)) = {([1], [2]), ([1], [3])}"
    by (simp add: written_def calls_example_def wal_kv_def)
  ultimately have "\<forall>R. keys_ascend R \<longrightarrow> set R \<subseteq> set (written (writes_of calls_example)) \<longrightarrow> sst_fits params_example R"
    using single_key_lists by metis
  moreover have "loadable [put_action [1] [v]]" for v by (rule loadable_single) (simp add: act_ok_def)
  ultimately show ?thesis by (simp add: batches_fit_def calls_example_def)
qed

lemma act_bind_eq_Inr:
  "act_bind m f s = Some (Inr y, s') \<longleftrightarrow> (\<exists>x s1. m s = Some (Inr x, s1) \<and> f x s1 = Some (Inr y, s'))"
  by (auto simp: act_bind_def split: option.splits sum.splits prod.splits)

lemma load_tables_views:
  "act_each (load_table ops) is s = Some (Inr ts, s') \<Longrightarrow> ls_views s' = ls_views s"
  by (induction "is" arbitrary: s ts) (auto simp: act_bind_eq_Inr load_table_def Let_def)

section \<open>Properties\<close>









end
