(* ===== verification/Spec2Isabelle.thy ===== *)
theory Spec2Isabelle
  imports Varint BufferOps IntOps BloomFilter ByteBuffer Serializator Raft Quorum SstDataBlock WriteBatch MemoryTable AsyncLocks
    BtBlock CircleCache SstIndex SstTable SstMerge
    LevelView LevelSst
begin

text \<open>
  Sharpen is a C++ library for servers: fibers and asynchronous I/O, and on top of them consensus, storage and
  serialization. This development models the parts that compute: the encodings, the storage engine from the bytes
  of a key-value pair up to merged table files, the consensus core, the quorum and the locks of the fibers.
  Everything that talks to the operating system is left out or stands behind a parameter.

  \<^bold>\<open>The parts and the theories.\<close> Names of sources are relative to \<open>include/sharpen\<close> and \<open>src\<close>.

  \<^item> \<open>Prelude\<close>: results \<open>exn + 'a\<close> (every \<open>throw\<close> is \<open>Inl\<close> of its class, reading or writing outside an object and
    other undefined behaviour is \<open>Undefined\<close>), memory as byte lists, \<open>lower_bound\<close> as the binary search of the
    standard library, little-endian integers.
  \<^item> \<open>Varint\<close> (\<open>Varint.hpp\<close>), \<open>BufferOps\<close> (comparison, Base64, Adler-32, CRC-16, hash), \<open>IntOps\<close> (casts, decimal text),
    \<open>BloomFilter\<close>, \<open>ByteBuffer\<close> (with the streaming mark), \<open>Serializator\<close> (\<open>BinarySerializator.hpp\<close>; the contract of
    a serializable type is the locale \<open>serializable\<close>).
  \<^item> \<open>Raft\<close> (\<open>RaftWrapper.hpp\<close>): every handler over any storage and application; the locale \<open>raft_storage\<close> is what
    \<open>RaftConcepts.hpp\<close> asks of them. \<open>Quorum\<close> (\<open>Quorum.hpp\<close>): the callbacks of the proposers in any order.
  \<^item> \<open>SortedKeys\<close>: the locale \<open>key_order\<close> of comparators; inside it, sorted sequences searched with \<open>lower_bound\<close> are
    finite maps. It is interpreted on the byte order of \<open>ByteBuffer::CompareWith\<close> and used by every block below.
  \<^item> \<open>SstKeyValue\<close> and \<open>SstDataBlock\<close>: pairs with shared key prefixes, groups of at most 16 of them, and data blocks with
    their checksummed bytes. \<open>BtBlock\<close>: the blocks of the balanced table.
  \<^item> \<open>WriteBatch\<close> and \<open>MemoryTable\<close>: batches, the binary log (\<open>BinaryLogger\<close>) and the memory table, which replays any
    log that satisfies the locale \<open>write_ahead_log\<close>.
  \<^item> \<open>FileModel\<close>: a file as bytes; an operation on it takes the answers to its writes (a write may fail) and returns a
    value or an exception, and the new contents. \<open>CircleCache\<close>: the second-chance cache and its segmented form,
    both interpretations of the locale \<open>object_cache\<close>.
  \<^item> \<open>SstIndex\<close>: index blocks, the footer and the root of a table file. \<open>SstTable\<close>: \<open>DumpWalToTable\<close> and the reading
    table with its two caches. \<open>SstMerge\<close>: \<open>MergeTables\<close> and \<open>CombineTables\<close>.
  \<^item> \<open>LevelView\<close>: the items, views and components of the level table and their bytes. \<open>LevelStore\<close> and \<open>LevelTable\<close>: the
    level table (\<open>LevelTable.cpp\<close>): a step works on its state (manifest, maps of views and components, files, cache and
    memory tables) and ends with a value or an exception, or never; the tables it keeps are a parameter
    \<open>table_ops\<close>. \<open>LevelMeta\<close>: the manifest and the write-through maps as one record. \<open>LevelInvariant\<close>: the
    invariant of levels, files and cache, and the contract of the tables, the locale \<open>table_service\<close>, in which \<open>LevelAdd\<close>
    (adding a table to a level and pushing full levels down), \<open>LevelRun\<close> (dumps and batches), \<open>LevelRead\<close> (lookups) and
    \<open>LevelReopen\<close> (runs and the constructor on old files) prove what every step does to the entries. \<open>LevelSst\<close>
    interprets the locale on the tables of \<open>SstTable\<close> and \<open>SstMerge\<close>, and holds the properties of the whole.
  \<^item> \<open>AsyncLocks\<close>: the read-write lock, mutex, semaphore and barrier of the fibers, each operation one step under its
    spin lock.

  \<^bold>\<open>How they interact.\<close> A write batch goes to the binary log and to the memory table; the memory table is dumped
  into a table file: ascending entries fill data blocks, whose last keys are the index, each with a Bloom filter;
  the root is written behind them. A lookup goes through the meta index and a cached filter, the index and a cached
  block to the pair. Table files are merged block by block into a new one. The level table puts these together: full memory
  tables become table files of level 0, full levels are merged into the next one, and a manifest, itself a memory table,
  says which files belong to which view of which level. The bytes of every layer are those of the
  layer below: varints in pairs, pairs in groups, groups in blocks, blocks in files.

  \<^bold>\<open>What the lemmas show.\<close> For each encoding, that it can be read back and that corrupt or truncated bytes are an
  exception or are detected by their checksum; for each container, that its operations are those of a finite map
  on a well-formed state and keep it well-formed; for the files, that a table serves what was dumped into it after
  any sequence of lookups, that a merge writes what a dump of the merged entries would write, that a failed write
  leaves the file cut back, and that replaying the log recovers the table. For the level table, that after any batches, dumps and merges, with
  failing writes, and after opening it again, every lookup finds what one memory table would have. For the consensus core, that a node votes
  once in a term, that appending makes the log agree with the leader's, and that the reachable states of an election
  keep their invariant; for the quorum and the locks, invariants of the step relations and that they come to an end.
  Where the code fails its purpose, a theorem says what it does instead; the manifest lists these findings.

  \<^bold>\<open>Bounds and fuel.\<close> Machine integers are words or are reduced modulo the width where the code computes with them;
  \<open>size_t\<close> has 64 bits. Sizes below \<open>2 ^ 31\<close> or \<open>2 ^ 63\<close> in hypotheses are those the varints and the vector allocator
  bear. Loops are recursions with a termination proof; \<open>merge_loop\<close> and \<open>combine_loop\<close> are \<open>partial_function\<close>s, whose
  value \<open>None\<close> is a loop that never ends, and the theorems say when it does.

  \<^bold>\<open>Not modelled.\<close> The channels, selectors, event loops, fibers, futures, timers and their platform variants are
  system calls, callbacks and machine contexts; HTTP parsing rests on the vendored llhttp, and the stack switching on
  the vendored boost.context. The balanced table above its blocks, the scanners and the
  replication group that drives the consensus core with timers are not modelled. Move constructors and
  assignments, iterators and accessors are modelled only where they compute something.
\<close>

end
